(* ===== verification/Prelude.thy ===== *)
theory Prelude
  imports Main "HOL-Library.Word" "HOL-Library.Multiset"
begin

unbundle bit_operations_syntax

text \<open>
  The vocabulary and the lemmas that every other theory of the development shares: the
  machine types of the C sources, the ways a kernel function can stop, the wrap-around of
  C's \<open>int\<close> (the kernel is built with wrapping signed arithmetic), C's division that
  truncates towards zero, singly linked lists in a memory of next pointers, and a few facts
  about lists.  The collections declared here are filled by the component theories.
\<close>

named_theorems c_arith \<open>values of C arithmetic where nothing overflows\<close>
named_theorems heap_frame \<open>list predicates are unchanged by writes elsewhere\<close>

type_synonym u8 = "8 word"
type_synonym u16 = "16 word"
type_synonym u32 = "32 word"
type_synonym u64 = "64 word"
type_synonym addr = "64 word"

text \<open>How a function of the sources can stop without returning: \<open>BUG_ON\<close>, \<open>panic\<close>,
  a failed \<open>assert\<close>, a dereference of the null pointer, an integer division by zero, an
  access outside an array, \<open>exit\<close>.\<close>

datatype fault =
    Bug_On string
  | Panic string
  | Assert_Failed string
  | Null_Deref
  | Div_By_Zero
  | Out_Of_Bounds
  | Exit int

type_synonym 'a res = "fault + 'a"

definition returns :: "'a res \<Rightarrow> bool" where
  "returns r = (case r of Inl _ \<Rightarrow> False | Inr _ \<Rightarrow> True)"

text \<open>Sequencing of two statements the first of which may stop the program.\<close>

fun and_then :: "'a res \<Rightarrow> ('a \<Rightarrow> 'b res) \<Rightarrow> 'b res" where
  "and_then (Inl e) f = Inl e"
| "and_then (Inr x) f = f x"

text \<open>The results of a call for each element of a list, up to the first that stops.\<close>

fun collect_res :: "('a \<Rightarrow> 'b res) \<Rightarrow> 'a list \<Rightarrow> 'b list res" where
  "collect_res f [] = Inr []"
| "collect_res f (x # xs) = and_then (f x) (\<lambda>y. and_then (collect_res f xs) (\<lambda>ys. Inr (y # ys)))"

text \<open>A C \<open>int\<close> (32 bits, two's complement) is an \<open>int\<close> that every arithmetic
  operation brings back into range; \<open>s64\<close> is the same for \<open>long\<close> and \<open>int64_t\<close>.\<close>

definition s32 :: "int \<Rightarrow> int" where
  "s32 x = signed_take_bit 31 x"

definition s64 :: "int \<Rightarrow> int" where
  "s64 x = signed_take_bit 63 x"

text \<open>The conversion of a C \<open>int\<close> to an unsigned 64-bit type.\<close>

definition to_u64 :: "int \<Rightarrow> u64" where
  "to_u64 x = word_of_int x"

text \<open>Division and remainder of signed integers truncate towards zero.\<close>

definition c_div :: "int \<Rightarrow> int \<Rightarrow> int" where
  "c_div a b = sgn a * sgn b * (\<bar>a\<bar> div \<bar>b\<bar>)"

definition c_mod :: "int \<Rightarrow> int \<Rightarrow> int" where
  "c_mod a b = a - b * c_div a b"

text \<open>A singly linked list in memory: starting at \<open>p\<close> and following \<open>nx\<close>, the cells
  \<open>xs\<close> are met in this order and the last one points to null.\<close>

fun linked :: "(addr \<Rightarrow> addr) \<Rightarrow> addr \<Rightarrow> addr list \<Rightarrow> bool" where
  "linked nx p [] = (p = 0)"
| "linked nx p (x # xs) = (p = x \<and> x \<noteq> 0 \<and> linked nx (nx x) xs)"


subsection \<open>Results\<close>

lemma returns_simps [simp]:
  "returns (Inr x)" "\<not> returns (Inl e)"
  by (simp_all add: returns_def)

lemma returnsE:
  assumes "returns r"
  obtains x where "r = Inr x"
  using assms by (cases r) auto

lemma and_then_Inl_iff:
  "and_then r f = Inl e \<longleftrightarrow> r = Inl e \<or> (\<exists>x. r = Inr x \<and> f x = Inl e)"
  by (cases r) auto

lemma and_then_Inr_iff:
  "and_then r f = Inr y \<longleftrightarrow> (\<exists>x. r = Inr x \<and> f x = Inr y)"
  by (cases r) auto


lemma collect_res_ok:
  "(\<And>x. x \<in> set xs \<Longrightarrow> f x = Inr (g x)) \<Longrightarrow> collect_res f xs = Inr (map g xs)"
  by (induction xs) auto


subsection \<open>C arithmetic\<close>

lemma s32_id [c_arith]: "- (2 ^ 31) \<le> x \<Longrightarrow> x < 2 ^ 31 \<Longrightarrow> s32 x = x"
  by (simp add: s32_def signed_take_bit_int_eq_self_iff)

lemma s32_nonneg: "0 \<le> x \<Longrightarrow> x \<le> 2147483647 \<Longrightarrow> s32 x = x"
  by (rule s32_id) simp_all

lemma s32_range: "- (2 ^ 31) \<le> s32 x" "s32 x < 2 ^ 31"
  using signed_take_bit_int_greater_eq_minus_exp [of 31 x] signed_take_bit_int_less_exp [of 31 x]
  by (simp_all add: s32_def)

lemma s64_id [c_arith]: "- (2 ^ 63) \<le> x \<Longrightarrow> x < 2 ^ 63 \<Longrightarrow> s64 x = x"
  by (simp add: s64_def signed_take_bit_int_eq_self_iff)

lemma unat_of_nat_u64 [c_arith]: "n < 2 ^ 64 \<Longrightarrow> unat (of_nat n :: u64) = n"
  by (simp add: unat_of_nat)

lemma unat_bound: "unat (w :: 'a :: len word) < 2 ^ LENGTH('a)"
  by (rule unsigned_less)

lemma unat_Suc_less:
  fixes n d :: u64
  assumes "n < d"
  shows "unat (n + 1) = Suc (unat n)"
proof -
  have "unat n < unat d" using assms by (simp add: word_less_nat_alt)
  moreover have "unat d < 2 ^ 64" using unsigned_less [of d] by simp
  ultimately show ?thesis by (simp add: unat_word_ariths)
qed

lemma c_div_nonneg [c_arith]: "0 \<le> a \<Longrightarrow> 0 \<le> b \<Longrightarrow> c_div a b = a div b"
  by (cases "a = 0"; cases "b = 0") (auto simp: c_div_def)

lemma c_mod_nonneg [c_arith]: "0 \<le> a \<Longrightarrow> 0 \<le> b \<Longrightarrow> c_mod a b = a mod b"
  by (simp add: c_mod_def c_div_nonneg minus_mult_div_eq_mod)

lemma c_div_mod: "b * c_div a b + c_mod a b = a"
  by (simp add: c_mod_def)


subsection \<open>Linked lists in memory\<close>

lemma linked_null [simp]: "linked nx 0 xs \<longleftrightarrow> xs = []"
  by (cases xs) auto

lemma linked_nonnull: "p \<noteq> 0 \<Longrightarrow> linked nx p xs \<longleftrightarrow> (\<exists>ys. xs = p # ys \<and> linked nx (nx p) ys)"
  by (cases xs) auto

lemma linked_no_null: "linked nx p xs \<Longrightarrow> 0 \<notin> set xs"
  by (induction xs arbitrary: p) auto

lemma linked_frame [heap_frame]:
  "a \<notin> set xs \<Longrightarrow> linked (nx(a := v)) p xs = linked nx p xs"
  by (induction xs arbitrary: p) auto

lemma linked_cong:
  "(\<And>x. x \<in> set xs \<Longrightarrow> nx x = nx' x) \<Longrightarrow> linked nx p xs = linked nx' p xs"
  by (induction xs arbitrary: p) auto

lemma linked_unique: "linked nx p xs \<Longrightarrow> linked nx p ys \<Longrightarrow> xs = ys"
proof (induction xs arbitrary: p ys)
  case Nil
  then show ?case by simp
next
  case (Cons x xs)
  then show ?case by (cases ys) auto
qed

lemma linked_snoc:
  assumes "linked nx p xs" "distinct xs" "xs \<noteq> []" "a \<notin> set xs" "a \<noteq> 0" "nx a = 0"
  shows "linked (nx(last xs := a)) p (xs @ [a])"
  using assms
proof (induction xs arbitrary: p)
  case Nil
  then show ?case by simp
next
  case (Cons x xs)
  show ?case
  proof (cases "xs = []")
    case True
    with Cons.prems show ?thesis by auto
  next
    case False
    with Cons.prems have "last xs \<noteq> x" by (metis distinct.simps(2) last_in_set)
    with Cons False show ?thesis by auto
  qed
qed


subsection \<open>Lists\<close>

lemma sum_list_replicate_length:
  "(\<And>x. x \<in> set xs \<Longrightarrow> length x = k) \<Longrightarrow> length (concat xs) = k * length xs"
  by (induction xs) auto

lemma mset_list_update_swap:
  "i < length xs \<Longrightarrow> j < length xs \<Longrightarrow> mset (xs[i := xs ! j, j := xs ! i]) = mset xs"
  by (rule mset_swap)

end
