(* ===== verification/Mempool.thy ===== *)
theory Mempool
  imports Prelude
begin

unbundle bit_operations_syntax

text \<open>
  The fixed-size allocator of \<open>src/network/baseline/shinjuku/mempool.c\<close> and \<open>mempool.h\<close>.
  A datastore keeps a list of chunks, each a list of free elements; a mempool keeps a current
  list (\<open>head\<close>) and at most one full spare (\<open>private_chunk\<close>).  All lists run through the
  free elements themselves (\<open>struct mempool_hdr\<close>), so the state holds the memory the headers
  live in.  The abstraction is the set of free elements: \<open>pool_rep\<close> says which lists the
  pointers denote, \<open>pool_inv\<close> that all of them are disjoint and disjoint from what the
  clients hold.
\<close>

section \<open>Data\<close>

record mempool_hdr =
  hnext :: addr
  hnext_chunk :: addr

record mempool_datastore =
  ds_magic :: u64
  ds_lock :: bool
  chunk_head :: addr
  ds_buf :: addr
  nr_pages :: int
  ds_nr_elems :: u32
  ds_elem_len :: u64
  ds_nostraddle :: int
  ds_chunk_size :: int
  num_chunks :: int
  free_chunks :: int
  num_locks :: int
  prettyname :: string
  next_ds :: addr

record mempool =
  m_head :: addr
  num_free :: int
  m_elem_len :: u64
  m_magic :: u64
  m_buf :: addr
  datastore :: addr
  private_chunk :: addr
  sanity :: int
  m_nr_elems :: u32
  m_nostraddle :: int
  m_chunk_size :: int

text \<open>The memory the allocator works on: the headers inside the elements, the datastores by
  their address, and the list of all datastores.\<close>

record mp_store =
  hdrs :: "addr \<Rightarrow> mempool_hdr"
  dss :: "addr \<Rightarrow> mempool_datastore"
  mempool_all_datastores :: addr

definition MEMPOOL_MAGIC :: u64 where "MEMPOOL_MAGIC = 0x12911776"
definition MEMPOOL_INITIAL_OFFSET :: int where "MEMPOOL_INITIAL_OFFSET = 0"

definition PGSHIFT_2MB :: nat where "PGSHIFT_2MB = 21"
definition PGSIZE_2MB :: int where "PGSIZE_2MB = 2 ^ PGSHIFT_2MB"
definition PGMASK_2MB :: int where "PGMASK_2MB = PGSIZE_2MB - 1"
definition PGN_2MB :: "u64 \<Rightarrow> u64" where "PGN_2MB la = drop_bit PGSHIFT_2MB la"

definition EINVAL :: int where "EINVAL = 22"
definition ENOMEM :: int where "ENOMEM = 12"

definition upd_ds :: "addr \<Rightarrow> (mempool_datastore \<Rightarrow> mempool_datastore) \<Rightarrow> mp_store \<Rightarrow> mp_store" where
  "upd_ds d f s = s\<lparr>dss := (dss s)(d := f (dss s d))\<rparr>"

definition set_next :: "addr \<Rightarrow> addr \<Rightarrow> mp_store \<Rightarrow> mp_store" where
  "set_next a v s = s\<lparr>hdrs := (hdrs s)(a := (hdrs s a)\<lparr>hnext := v\<rparr>)\<rparr>"

definition set_next_chunk :: "addr \<Rightarrow> addr \<Rightarrow> mp_store \<Rightarrow> mp_store" where
  "set_next_chunk a v s = s\<lparr>hdrs := (hdrs s)(a := (hdrs s a)\<lparr>hnext_chunk := v\<rparr>)\<rparr>"

section \<open>Allocation\<close>

definition mempool_alloc_2 :: "mp_store \<Rightarrow> mempool \<Rightarrow> (addr \<times> mp_store \<times> mempool) res" where
  "mempool_alloc_2 s m =
    (if m_magic m \<noteq> MEMPOOL_MAGIC then Inl (Bug_On ''magic'')
     else if m_head m \<noteq> 0 then Inl (Bug_On ''head'')
     else if private_chunk m \<noteq> 0 then
       (let h = private_chunk m
        in Inr (h, s, m\<lparr>m_head := hnext (hdrs s h), private_chunk := 0\<rparr>))
     else if datastore m = 0 then Inl (Bug_On ''mds'')
     else
       (let d = datastore m;
            s1 = upd_ds d (ds_lock_update (\<lambda>_. True)) s;
            h = chunk_head (dss s1 d);
            (s2, m2) =
              (if h \<noteq> 0 then
                 (upd_ds d (\<lambda>ds. ds\<lparr>chunk_head := hnext_chunk (hdrs s1 h),
                                     free_chunks := s32 (free_chunks ds - 1),
                                     num_locks := s64 (num_locks ds + 1)\<rparr>) s1,
                  m\<lparr>m_head := hnext (hdrs s1 h)\<rparr>)
               else (s1, m));
            s3 = upd_ds d (ds_lock_update (\<lambda>_. False)) s2
        in Inr (h, s3, m2)))"

definition mempool_alloc :: "mp_store \<Rightarrow> mempool \<Rightarrow> (addr \<times> mp_store \<times> mempool) res" where
  "mempool_alloc s m =
    (let h = m_head m
     in if h \<noteq> 0
        then Inr (h, s, m\<lparr>m_head := hnext (hdrs s h), num_free := s32 (num_free m - 1)\<rparr>)
        else mempool_alloc_2 s m)"

section \<open>Release\<close>

definition mempool_free_2 :: "mp_store \<Rightarrow> mempool \<Rightarrow> addr \<Rightarrow> (mp_store \<times> mempool) res" where
  "mempool_free_2 s m ptr =
    (if num_free m \<noteq> m_chunk_size m then Inl (Bug_On ''num_free'')
     else if ptr = 0 then Inl Null_Deref
     else
       (let s1 = set_next ptr 0 s
        in if private_chunk m \<noteq> 0 then
             (if datastore m = 0 then Inl Null_Deref
              else
                (let d = datastore m;
                     s2 = upd_ds d (ds_lock_update (\<lambda>_. True)) s1;
                     s3 = set_next_chunk (private_chunk m) (chunk_head (dss s2 d)) s2;
                     s4 = upd_ds d (\<lambda>ds. ds\<lparr>chunk_head := private_chunk m,
                                             free_chunks := s32 (free_chunks ds + 1),
                                             num_locks := s64 (num_locks ds + 1)\<rparr>) s3;
                     s5 = upd_ds d (ds_lock_update (\<lambda>_. False)) s4
                 in Inr (s5, m\<lparr>private_chunk := m_head m, m_head := ptr\<rparr>)))
           else Inr (s1, m\<lparr>private_chunk := m_head m, m_head := ptr\<rparr>)))"

definition mempool_free :: "mp_store \<Rightarrow> mempool \<Rightarrow> addr \<Rightarrow> (mp_store \<times> mempool) res" where
  "mempool_free s m ptr =
    (if num_free m < m_chunk_size m
     then if ptr = 0 then Inl Null_Deref
          else Inr (set_next ptr (m_head m) s,
                    m\<lparr>num_free := s32 (num_free m + 1), m_head := ptr\<rparr>)
     else mempool_free_2 s m ptr)"

section \<open>Creation\<close>

text \<open>The loop variables of \<open>mempool_init_buf_with_pages\<close>: the store, \<open>cur\<close>, \<open>head\<close>,
  \<open>prev\<close> and \<open>chunk_count\<close>.\<close>

record init_loop =
  il_store :: mp_store
  il_cur :: addr
  il_head :: addr
  il_prev :: addr
  il_count :: int

definition init_elem :: "addr \<Rightarrow> u64 \<Rightarrow> init_loop \<Rightarrow> init_loop" where
  "init_elem d elem_len l =
    (let s = il_store l; cur = il_cur l;
         (head, s1) = (if il_prev l = 0 then (cur, s) else (il_head l, set_next (il_prev l) cur s));
         count = s32 (il_count l + 1)
     in if count = ds_chunk_size (dss s1 d) then
          (let s2 = (if chunk_head (dss s1 d) = 0
                     then upd_ds d (chunk_head_update (\<lambda>_. head)) s1
                     else upd_ds d (chunk_head_update (\<lambda>_. head))
                            (set_next_chunk head (chunk_head (dss s1 d)) s1));
               s3 = upd_ds d (\<lambda>ds. ds\<lparr>num_chunks := s32 (num_chunks ds + 1),
                                       free_chunks := s32 (free_chunks ds + 1)\<rparr>) s2
           in \<lparr>il_store = s3, il_cur = cur + elem_len, il_head = 0, il_prev = 0, il_count = 0\<rparr>)
        else \<lparr>il_store = s1, il_cur = cur + elem_len, il_head = head, il_prev = cur,
              il_count = count\<rparr>)"

text \<open>The inner loop over the elements of a page, and the outer loop over the pages
  (\<open>i * PGSIZE_2MB\<close> is an \<open>int\<close> product).\<close>

definition init_page :: "addr \<Rightarrow> nat \<Rightarrow> u64 \<Rightarrow> nat \<Rightarrow> init_loop \<Rightarrow> init_loop" where
  "init_page d elems_per_page elem_len i l =
    (init_elem d elem_len ^^ elems_per_page)
      (l\<lparr>il_cur := ds_buf (dss (il_store l) d) + to_u64 (s32 (int i * PGSIZE_2MB))
                   + to_u64 MEMPOOL_INITIAL_OFFSET\<rparr>)"

definition init_pages :: "addr \<Rightarrow> nat \<Rightarrow> u64 \<Rightarrow> nat \<Rightarrow> init_loop \<Rightarrow> init_loop" where
  "init_pages d elems_per_page elem_len n l =
    fold (init_page d elems_per_page elem_len) [0..<n] l"

definition mempool_init_buf_with_pages :: "mp_store \<Rightarrow> addr \<Rightarrow> int \<Rightarrow> int \<Rightarrow> u64 \<Rightarrow> int \<times> mp_store" where
  "mempool_init_buf_with_pages s d elems_per_page pages elem_len =
    (0, il_store (init_pages d (nat elems_per_page) elem_len (nat pages)
                   \<lparr>il_store = s, il_cur = 0, il_head = 0, il_prev = 0, il_count = 0\<rparr>))"

text \<open>\<open>ALIGN(x, 8)\<close> of the kernel's headers: the next multiple of 8.\<close>

definition align8 :: "u64 \<Rightarrow> u64" where
  "align8 x = (x + 7) AND NOT 7"

text \<open>
  \<open>mempool_create_datastore\<close>.  \<open>alloc_pages\<close> (with \<open>get_order\<close> and \<open>page_address\<close>) is the
  kernel's page allocator: a parameter that maps the number of bytes asked for to the address
  of the pages, or nothing.  What the pages hold is what \<open>hdrs s\<close> holds there: the request
  does not ask for zeroed pages.
\<close>

definition ds_pages :: "int \<Rightarrow> int \<Rightarrow> u64 \<Rightarrow> (int \<times> int) res" where
  "ds_pages nostraddle nr_elems elem_len =
    (if nostraddle \<noteq> 0 then
       (let elems_per_page = s32 (uint (to_u64 PGSIZE_2MB div elem_len))
        in if elems_per_page = 0 then Inl Div_By_Zero
           else Inr (s32 (c_div (s32 (nr_elems + elems_per_page - 1)) elems_per_page), nr_elems))
     else
       (let pages = s32 (uint (PGN_2MB (to_u64 nr_elems * elem_len + to_u64 PGMASK_2MB)))
        in Inr (pages, s32 (uint (to_u64 (s32 (pages * PGSIZE_2MB)) div elem_len)))))"

definition mempool_create_datastore ::
  "(int \<Rightarrow> addr option) \<Rightarrow> mp_store \<Rightarrow> addr \<Rightarrow> int \<Rightarrow> u64 \<Rightarrow> int \<Rightarrow> int \<Rightarrow> string
    \<Rightarrow> (int \<times> mp_store) res" where
  "mempool_create_datastore alloc_pages s d nr_elems elem_len0 nostraddle chunk_size name =
    (if ds_magic (dss s d) \<noteq> 0 then Inl (Bug_On ''magic'')
     else if chunk_size AND s32 (chunk_size - 1) \<noteq> 0 then Inl (Bug_On ''chunk_size'')
     else if chunk_size = 0 then Inl Div_By_Zero
     else if s32 (c_div nr_elems chunk_size * chunk_size) \<noteq> nr_elems then Inl (Bug_On ''nr_elems'')
     else if elem_len0 = 0 \<or> nr_elems = 0 then Inr (- EINVAL, s)
     else
       (let s1 = upd_ds d (\<lambda>ds. ds\<lparr>ds_magic := MEMPOOL_MAGIC, prettyname := name\<rparr>) s;
            elem_len = align8 elem_len0 + to_u64 MEMPOOL_INITIAL_OFFSET
        in and_then (ds_pages nostraddle nr_elems elem_len) (\<lambda>(pages, nr).
           case alloc_pages (s32 (pages * PGSIZE_2MB)) of
             None \<Rightarrow> Inr (- ENOMEM, s1)
           | Some page \<Rightarrow>
               (let s2 = upd_ds d (\<lambda>ds. ds\<lparr>ds_buf := page, nr_pages := pages,
                                   ds_nr_elems := word_of_int nr, ds_elem_len := elem_len,
                                   ds_chunk_size := chunk_size, ds_nostraddle := nostraddle,
                                   ds_lock := False\<rparr>) s1;
                    s3 = (if nostraddle \<noteq> 0
                          then snd (mempool_init_buf_with_pages s2 d
                                 (s32 (uint (to_u64 PGSIZE_2MB div elem_len))) pages elem_len)
                          else snd (mempool_init_buf_with_pages s2 d nr 1 elem_len));
                    s4 = upd_ds d (next_ds_update (\<lambda>_. mempool_all_datastores s3)) s3
                in Inr (0, s4\<lparr>mempool_all_datastores := d\<rparr>)))))"

definition mempool_create :: "mp_store \<Rightarrow> mempool \<Rightarrow> addr \<Rightarrow> (int \<times> mempool) res" where
  "mempool_create s m d =
    (if ds_magic (dss s d) \<noteq> MEMPOOL_MAGIC then Inl (Panic ''datastore does not exist'')
     else if m_magic m \<noteq> 0 then Inl (Panic ''called twice'')
     else Inr (0, m\<lparr>m_magic := MEMPOOL_MAGIC, m_buf := ds_buf (dss s d), datastore := d,
                    m_head := 0, m_nr_elems := ds_nr_elems (dss s d),
                    m_elem_len := ds_elem_len (dss s d),
                    m_nostraddle := ds_nostraddle (dss s d),
                    m_chunk_size := ds_chunk_size (dss s d)\<rparr>))"

definition mempool_destroy :: "mempool \<Rightarrow> mempool" where
  "mempool_destroy m = m"

section \<open>What the pointers denote\<close>

abbreviation nx :: "mp_store \<Rightarrow> addr \<Rightarrow> addr" where
  "nx s \<equiv> \<lambda>a. hnext (hdrs s a)"

abbreviation nc :: "mp_store \<Rightarrow> addr \<Rightarrow> addr" where
  "nc s \<equiv> \<lambda>a. hnext_chunk (hdrs s a)"

fun chunk_list :: "(addr \<Rightarrow> addr) \<Rightarrow> (addr \<Rightarrow> addr) \<Rightarrow> addr \<Rightarrow> addr list list \<Rightarrow> bool" where
  "chunk_list n c p [] = (p = 0)"
| "chunk_list n c p (xs # xss) = (xs \<noteq> [] \<and> linked n p xs \<and> chunk_list n c (c p) xss)"

definition pool_rep :: "mp_store \<Rightarrow> mempool \<Rightarrow> addr list \<Rightarrow> addr list \<Rightarrow> addr list list \<Rightarrow> bool" where
  "pool_rep s m hs ps cs \<longleftrightarrow>
     linked (nx s) (m_head m) hs \<and> linked (nx s) (private_chunk m) ps \<and>
     chunk_list (nx s) (nc s) (chunk_head (dss s (datastore m))) cs"

text \<open>The part of the invariant that does not speak of memory: the pool is initialised, and its
  counter stays between minus the number of elements in use and the chunk size.\<close>

definition pool_counts :: "mempool \<Rightarrow> addr set \<Rightarrow> addr set \<Rightarrow> bool" where
  "pool_counts m F A \<longleftrightarrow>
     m_magic m = MEMPOOL_MAGIC \<and> datastore m \<noteq> 0 \<and> 0 \<notin> F \<union> A \<and> F \<inter> A = {} \<and>
     finite F \<and> finite A \<and> int (card F + card A) < 2 ^ 31 \<and>
     0 \<le> m_chunk_size m \<and> m_chunk_size m < 2 ^ 31 \<and>
     num_free m \<le> m_chunk_size m \<and> - int (card A) \<le> num_free m"

text \<open>\<open>F\<close> are the free elements and \<open>A\<close> the elements in use.\<close>

definition pool_inv :: "mp_store \<Rightarrow> mempool \<Rightarrow> addr set \<Rightarrow> addr set \<Rightarrow> bool" where
  "pool_inv s m F A \<longleftrightarrow>
     pool_counts m F A \<and>
     (\<exists>hs ps cs. pool_rep s m hs ps cs \<and> distinct (hs @ ps @ concat cs) \<and>
                 F = set (hs @ ps @ concat cs))"

lemma store_simps [simp]:
  "hdrs (upd_ds d f s) = hdrs s"
  "dss (upd_ds d f s) = (dss s)(d := f (dss s d))"
  "dss (set_next a v s) = dss s"
  "dss (set_next_chunk a v s) = dss s"
  "nx (set_next a v s) = (nx s)(a := v)"
  "nc (set_next a v s) = nc s"
  "nx (set_next_chunk a v s) = nx s"
  "nc (set_next_chunk a v s) = (nc s)(a := v)"
  by (auto simp: upd_ds_def set_next_def set_next_chunk_def)

lemma store_applied:
  "hnext (hdrs (set_next b v s) a) = (if a = b then v else hnext (hdrs s a))"
  "hnext_chunk (hdrs (set_next b v s) a) = hnext_chunk (hdrs s a)"
  "hnext (hdrs (set_next_chunk b v s) a) = hnext (hdrs s a)"
  "hnext_chunk (hdrs (set_next_chunk b v s) a) = (if a = b then v else hnext_chunk (hdrs s a))"
  by (simp_all add: set_next_def set_next_chunk_def)

lemma chunk_list_cong:
  "(\<And>x. x \<in> set (concat cs) \<Longrightarrow> n x = n' x \<and> c x = c' x) \<Longrightarrow>
   chunk_list n c p cs = chunk_list n' c' p cs"
proof (induction cs arbitrary: p)
  case Nil
  then show ?case by simp
next
  case (Cons xs cs)
  have "linked n p xs = linked n' p xs"
    by (rule linked_cong) (use Cons.prems in auto)
  moreover have "chunk_list n c q cs = chunk_list n' c' q cs" for q
    by (rule Cons.IH) (use Cons.prems in auto)
  moreover have "c p = c' p" if "xs \<noteq> []" "linked n p xs"
    using that Cons.prems by (cases xs) auto
  ultimately show ?case by (simp only: chunk_list.simps) metis
qed

lemma chunk_list_frame_next [heap_frame]:
  "a \<notin> set (concat cs) \<Longrightarrow> chunk_list (n(a := v)) c p cs = chunk_list n c p cs"
  by (rule chunk_list_cong) auto

lemma chunk_list_frame_chunk [heap_frame]:
  "a \<notin> set (concat cs) \<Longrightarrow> chunk_list n (c(a := v)) p cs = chunk_list n c p cs"
  by (rule chunk_list_cong) auto

lemma chunk_list_null [simp]: "chunk_list n c 0 cs \<longleftrightarrow> cs = []"
  by (cases cs) auto

lemma chunk_list_nonnull:
  "p \<noteq> 0 \<Longrightarrow> chunk_list n c p cs \<longleftrightarrow>
     (\<exists>xs xss. cs = (p # xs) # xss \<and> linked n (n p) xs \<and> chunk_list n c (c p) xss)"
  by (cases cs) (auto simp: linked_nonnull)

lemma pool_invE:
  assumes "pool_inv s m F A"
  obtains hs ps cs where "pool_counts m F A" "pool_rep s m hs ps cs"
    "distinct (hs @ ps @ concat cs)" "F = set (hs @ ps @ concat cs)"
  using assms unfolding pool_inv_def by blast

lemma pool_invI:
  "pool_counts m F A \<Longrightarrow> pool_rep s m hs ps cs \<Longrightarrow> distinct (hs @ ps @ concat cs) \<Longrightarrow>
   F = set (hs @ ps @ concat cs) \<Longrightarrow> pool_inv s m F A"
  unfolding pool_inv_def by blast

section \<open>Allocation keeps the invariant\<close>

text \<open>Moving one element from the free to the used side changes the counts by one; the counter
  goes down by one on the fast path and stays on the slow one.\<close>

lemma pool_counts_take:
  assumes "pool_counts m F A" "p \<in> F"
    and "num_free m' = num_free m \<or> num_free m' = s32 (num_free m - 1)"
    and "m_magic m' = m_magic m" "datastore m' = datastore m" "m_chunk_size m' = m_chunk_size m"
  shows "pool_counts m' (F - {p}) (insert p A)"
proof -
  from assms(1,2) have fin: "finite F" "finite A" "p \<notin> A" and cF: "card F = Suc (card (F - {p}))"
    using card_Suc_Diff1 [of F p] by (auto simp: pool_counts_def simp del: card_Diff_insert)
  from assms(1) cF have lo: "- (2 ^ 31) \<le> num_free m - 1" and hi: "num_free m - 1 < 2 ^ 31"
    by (auto simp: pool_counts_def simp del: card_Diff_insert)
  have "num_free m' = num_free m \<or> num_free m' = num_free m - 1"
    using assms(3) s32_id [OF lo hi] by auto
  with assms cF fin show ?thesis
    by (auto simp: pool_counts_def simp del: card_Diff_insert)
qed

lemma pool_counts_put:
  assumes "pool_counts m F A" "p \<in> A"
    and "num_free m < m_chunk_size m \<and> num_free m' = s32 (num_free m + 1) \<or>
         num_free m = m_chunk_size m \<and> num_free m' = num_free m"
    and "m_magic m' = m_magic m" "datastore m' = datastore m" "m_chunk_size m' = m_chunk_size m"
  shows "pool_counts m' (insert p F) (A - {p})"
proof -
  from assms(1,2) have fin: "finite F" "finite A" "p \<notin> F" and cA: "card A = Suc (card (A - {p}))"
    using card_Suc_Diff1 [of A p] by (auto simp: pool_counts_def simp del: card_Diff_insert)
  have "num_free m' = num_free m + 1" if "num_free m < m_chunk_size m"
    using that assms(1,3) cA by (auto simp: pool_counts_def simp del: card_Diff_insert intro!: s32_id)
  with assms cA fin show ?thesis
    by (auto simp: pool_counts_def simp del: card_Diff_insert)
qed

lemma alloc_head_ok:
  assumes inv: "pool_inv s m F A" and h: "m_head m \<noteq> 0"
  shows "\<exists>m'. mempool_alloc s m = Inr (m_head m, s, m') \<and> m_head m \<in> F \<and>
              pool_inv s m' (F - {m_head m}) (insert (m_head m) A) \<and> datastore m' = datastore m"
proof -
  from inv obtain hs ps cs where R: "pool_counts m F A" "pool_rep s m hs ps cs"
    "distinct (hs @ ps @ concat cs)" "F = set (hs @ ps @ concat cs)"
    by (rule pool_invE)
  from h R(2) obtain hs' where hs: "hs = m_head m # hs'" "linked (nx s) (nx s (m_head m)) hs'"
    by (auto simp: pool_rep_def linked_nonnull)
  let ?m' = "m\<lparr>m_head := hnext (hdrs s (m_head m)), num_free := s32 (num_free m - 1)\<rparr>"
  have in_F: "m_head m \<in> F" using R(4) hs by simp
  have "pool_counts ?m' (F - {m_head m}) (insert (m_head m) A)"
    by (rule pool_counts_take [OF R(1) in_F]) auto
  moreover have "pool_rep s ?m' hs' ps cs"
    using R(2) hs by (simp add: pool_rep_def)
  ultimately have "pool_inv s ?m' (F - {m_head m}) (insert (m_head m) A)"
    by (rule pool_invI) (use R(3,4) hs in auto)
  with h in_F show ?thesis by (auto simp: mempool_alloc_def Let_def)
qed

lemma alloc_private_ok:
  assumes inv: "pool_inv s m F A" and h: "m_head m = 0" and p: "private_chunk m \<noteq> 0"
  shows "\<exists>m'. mempool_alloc s m = Inr (private_chunk m, s, m') \<and> private_chunk m \<in> F \<and>
              pool_inv s m' (F - {private_chunk m}) (insert (private_chunk m) A) \<and>
              datastore m' = datastore m"
proof -
  from inv obtain hs ps cs where R: "pool_counts m F A" "pool_rep s m hs ps cs"
    "distinct (hs @ ps @ concat cs)" "F = set (hs @ ps @ concat cs)"
    by (rule pool_invE)
  from h R(2) have hs: "hs = []" by (simp add: pool_rep_def)
  from p R(2) obtain ps' where ps: "ps = private_chunk m # ps'" "linked (nx s) (nx s (private_chunk m)) ps'"
    by (auto simp: pool_rep_def linked_nonnull)
  let ?m' = "m\<lparr>m_head := hnext (hdrs s (private_chunk m)), private_chunk := 0\<rparr>"
  have in_F: "private_chunk m \<in> F" using R(4) ps by simp
  have "pool_counts ?m' (F - {private_chunk m}) (insert (private_chunk m) A)"
    by (rule pool_counts_take [OF R(1) in_F]) auto
  moreover have "pool_rep s ?m' ps' [] cs"
    using R(2) ps by (simp add: pool_rep_def)
  ultimately have "pool_inv s ?m' (F - {private_chunk m}) (insert (private_chunk m) A)"
    by (rule pool_invI) (use R(3,4) hs ps in auto)
  with h p in_F R(1) show ?thesis
    by (auto simp: mempool_alloc_def mempool_alloc_2_def Let_def pool_counts_def)
qed

lemma alloc_datastore_ok:
  assumes inv: "pool_inv s m F A" and h: "m_head m = 0" "private_chunk m = 0"
    and c: "chunk_head (dss s (datastore m)) \<noteq> 0"
  shows "\<exists>s' m'. mempool_alloc s m = Inr (chunk_head (dss s (datastore m)), s', m') \<and>
              chunk_head (dss s (datastore m)) \<in> F \<and>
              pool_inv s' m' (F - {chunk_head (dss s (datastore m))})
                             (insert (chunk_head (dss s (datastore m))) A) \<and>
              datastore m' = datastore m \<and> hdrs s' = hdrs s \<and>
              (\<forall>d. d \<noteq> datastore m \<longrightarrow> dss s' d = dss s d)"
proof -
  let ?c = "chunk_head (dss s (datastore m))"
  from inv obtain hs ps cs where R: "pool_counts m F A" "pool_rep s m hs ps cs"
    "distinct (hs @ ps @ concat cs)" "F = set (hs @ ps @ concat cs)"
    by (rule pool_invE)
  from h R(2) have hs: "hs = []" "ps = []" by (simp_all add: pool_rep_def)
  from c R(2) obtain xs xss where cs: "cs = (?c # xs) # xss" "linked (nx s) (nx s ?c) xs"
      "chunk_list (nx s) (nc s) (nc s ?c) xss"
    by (auto simp: pool_rep_def chunk_list_nonnull)
  let ?s' = "upd_ds (datastore m) (ds_lock_update (\<lambda>_. False))
      (upd_ds (datastore m) (\<lambda>ds. ds\<lparr>chunk_head := nc s ?c,
          free_chunks := s32 (free_chunks ds - 1), num_locks := s64 (num_locks ds + 1)\<rparr>)
        (upd_ds (datastore m) (ds_lock_update (\<lambda>_. True)) s))"
  let ?m' = "m\<lparr>m_head := nx s ?c\<rparr>"
  have in_F: "?c \<in> F" using R(4) cs by simp
  have "pool_counts ?m' (F - {?c}) (insert ?c A)"
    by (rule pool_counts_take [OF R(1) in_F]) auto
  moreover have "pool_rep ?s' ?m' xs [] xss"
    using h cs by (simp add: pool_rep_def)
  ultimately have "pool_inv ?s' ?m' (F - {?c}) (insert ?c A)"
    by (rule pool_invI) (use R(3,4) hs cs(1) in auto)
  moreover have "mempool_alloc s m = Inr (?c, ?s', ?m')"
    using h c R(1) by (simp add: mempool_alloc_def mempool_alloc_2_def Let_def pool_counts_def)
  ultimately show ?thesis using in_F by fastforce
qed

lemma alloc_empty_ok:
  assumes inv: "pool_inv s m F A" and h: "m_head m = 0" "private_chunk m = 0"
    and c: "chunk_head (dss s (datastore m)) = 0"
  shows "\<exists>s'. mempool_alloc s m = Inr (0, s', m) \<and> F = {} \<and> pool_inv s' m {} A \<and>
              hdrs s' = hdrs s \<and> (\<forall>d. d \<noteq> datastore m \<longrightarrow> dss s' d = dss s d)"
proof -
  from inv obtain hs ps cs where R: "pool_counts m F A" "pool_rep s m hs ps cs"
    "distinct (hs @ ps @ concat cs)" "F = set (hs @ ps @ concat cs)"
    by (rule pool_invE)
  from h c R(2) have E: "hs = []" "ps = []" "cs = []" by (simp_all add: pool_rep_def)
  let ?s' = "upd_ds (datastore m) (ds_lock_update (\<lambda>_. False))
      (upd_ds (datastore m) (ds_lock_update (\<lambda>_. True)) s)"
  have "F = {}" using R(4) E by simp
  moreover have "pool_inv ?s' m {} A"
    by (rule pool_invI [of _ _ _ _ "[]" "[]" "[]"])
       (use R(1) \<open>F = {}\<close> h c in \<open>simp_all add: pool_rep_def\<close>)
  moreover have "mempool_alloc s m = Inr (0, ?s', m)"
    using h c R(1) by (simp add: mempool_alloc_def mempool_alloc_2_def Let_def pool_counts_def)
  ultimately show ?thesis by fastforce
qed

lemma mempool_alloc_ok:
  assumes "pool_inv s m F A"
  shows "\<exists>p s' m'. mempool_alloc s m = Inr (p, s', m') \<and> datastore m' = datastore m \<and>
           hdrs s' = hdrs s \<and> (\<forall>d. d \<noteq> datastore m \<longrightarrow> dss s' d = dss s d) \<and>
           (if F = {} then p = 0 \<and> pool_inv s' m' {} A
            else p \<in> F \<and> pool_inv s' m' (F - {p}) (insert p A))"
proof -
  consider "m_head m \<noteq> 0" | "m_head m = 0" "private_chunk m \<noteq> 0"
    | "m_head m = 0" "private_chunk m = 0" "chunk_head (dss s (datastore m)) \<noteq> 0"
    | "m_head m = 0" "private_chunk m = 0" "chunk_head (dss s (datastore m)) = 0"
    by blast
  then show ?thesis
  proof cases
    case 1
    from alloc_head_ok [OF assms this] show ?thesis by fastforce
  next
    case 2
    from alloc_private_ok [OF assms this] show ?thesis by fastforce
  next
    case 3
    from alloc_datastore_ok [OF assms this] show ?thesis by fastforce
  next
    case 4
    from alloc_empty_ok [OF assms this] show ?thesis by auto
  qed
qed

section \<open>Release keeps the invariant\<close>

lemma pool_rep_push:
  assumes "pool_rep s m hs ps cs" "p \<notin> set (hs @ ps @ concat cs)" "p \<noteq> 0"
    and "m_head m' = p" "private_chunk m' = private_chunk m" "datastore m' = datastore m"
  shows "pool_rep (set_next p (m_head m) s) m' (p # hs) ps cs"
  using assms by (simp add: pool_rep_def heap_frame)

lemma free_fast_ok:
  assumes inv: "pool_inv s m F A" and p: "p \<in> A" and lt: "num_free m < m_chunk_size m"
  shows "\<exists>m'. mempool_free s m p = Inr (set_next p (m_head m) s, m') \<and>
              pool_inv (set_next p (m_head m) s) m' (insert p F) (A - {p}) \<and>
              datastore m' = datastore m"
proof -
  from inv obtain hs ps cs where R: "pool_counts m F A" "pool_rep s m hs ps cs"
    "distinct (hs @ ps @ concat cs)" "F = set (hs @ ps @ concat cs)"
    by (rule pool_invE)
  from R(1) p have np: "p \<notin> F" "p \<noteq> 0" by (auto simp: pool_counts_def)
  let ?m' = "m\<lparr>num_free := s32 (num_free m + 1), m_head := p\<rparr>"
  have "pool_counts ?m' (insert p F) (A - {p})"
    by (rule pool_counts_put [OF R(1) p]) (use lt in auto)
  moreover have "pool_rep (set_next p (m_head m) s) ?m' (p # hs) ps cs"
    by (rule pool_rep_push [OF R(2)]) (use R(4) np in auto)
  ultimately have "pool_inv (set_next p (m_head m) s) ?m' (insert p F) (A - {p})"
    by (rule pool_invI) (use R(3,4) np in auto)
  with lt np show ?thesis by (auto simp: mempool_free_def)
qed

lemma free_spare_ok:
  assumes inv: "pool_inv s m F A" and p: "p \<in> A" and full: "\<not> num_free m < m_chunk_size m"
    and pc: "private_chunk m = 0"
  shows "\<exists>m'. mempool_free s m p = Inr (set_next p 0 s, m') \<and>
              pool_inv (set_next p 0 s) m' (insert p F) (A - {p}) \<and> datastore m' = datastore m"
proof -
  from inv obtain hs ps cs where R: "pool_counts m F A" "pool_rep s m hs ps cs"
    "distinct (hs @ ps @ concat cs)" "F = set (hs @ ps @ concat cs)"
    by (rule pool_invE)
  from R(1) p have np: "p \<notin> F" "p \<noteq> 0" by (auto simp: pool_counts_def)
  from R(1) full have eq: "num_free m = m_chunk_size m" by (auto simp: pool_counts_def)
  from R(2) pc have ps: "ps = []" by (simp add: pool_rep_def)
  let ?m' = "m\<lparr>private_chunk := m_head m, m_head := p\<rparr>"
  have "pool_counts ?m' (insert p F) (A - {p})"
    by (rule pool_counts_put [OF R(1) p]) (use eq in auto)
  moreover have "pool_rep (set_next p 0 s) ?m' [p] hs cs"
    using R(2) R(4) np by (simp add: pool_rep_def heap_frame)
  ultimately have "pool_inv (set_next p 0 s) ?m' (insert p F) (A - {p})"
    by (rule pool_invI) (use R(3,4) np ps in auto)
  with eq pc np show ?thesis by (auto simp: mempool_free_def mempool_free_2_def Let_def)
qed

lemma free_return_ok:
  assumes inv: "pool_inv s m F A" and p: "p \<in> A" and full: "\<not> num_free m < m_chunk_size m"
    and pc: "private_chunk m \<noteq> 0"
  shows "\<exists>s' m'. mempool_free s m p = Inr (s', m') \<and> pool_inv s' m' (insert p F) (A - {p}) \<and>
              datastore m' = datastore m \<and>
              hdrs s' = hdrs (set_next_chunk (private_chunk m)
                               (chunk_head (dss s (datastore m))) (set_next p 0 s)) \<and>
              (\<forall>d. d \<noteq> datastore m \<longrightarrow> dss s' d = dss s d) \<and> private_chunk m \<in> F"
proof -
  from inv obtain hs ps cs where R: "pool_counts m F A" "pool_rep s m hs ps cs"
    "distinct (hs @ ps @ concat cs)" "F = set (hs @ ps @ concat cs)"
    by (rule pool_invE)
  from R(1) p have np: "p \<notin> F" "p \<noteq> 0" by (auto simp: pool_counts_def)
  from R(1) full have eq: "num_free m = m_chunk_size m" by (auto simp: pool_counts_def)
  from R(2) pc obtain ps' where ps: "ps = private_chunk m # ps'"
      "linked (nx s) (nx s (private_chunk m)) ps'"
    by (auto simp: pool_rep_def linked_nonnull)
  let ?q = "private_chunk m" and ?d = "datastore m"
  let ?s' = "upd_ds ?d (ds_lock_update (\<lambda>_. False))
      (upd_ds ?d (\<lambda>ds. ds\<lparr>chunk_head := ?q, free_chunks := s32 (free_chunks ds + 1),
                           num_locks := s64 (num_locks ds + 1)\<rparr>)
        (set_next_chunk ?q (chunk_head (dss s ?d))
          (upd_ds ?d (ds_lock_update (\<lambda>_. True)) (set_next p 0 s))))"
  let ?m' = "m\<lparr>private_chunk := m_head m, m_head := p\<rparr>"
  have nq: "?q \<notin> set (concat cs)" "?q \<in> F" "p \<noteq> ?q" using R(3,4) ps(1) np by auto
  have "pool_counts ?m' (insert p F) (A - {p})"
    by (rule pool_counts_put [OF R(1) p]) (use eq in auto)
  moreover have "pool_rep ?s' ?m' [p] hs (ps # cs)"
    using R(2) R(4) np nq ps pc by (simp add: pool_rep_def heap_frame)
  ultimately have "pool_inv ?s' ?m' (insert p F) (A - {p})"
    by (rule pool_invI) (use R(3,4) np in auto)
  moreover have "mempool_free s m p = Inr (?s', ?m')"
    using eq pc np R(1)
    by (simp add: mempool_free_def mempool_free_2_def Let_def pool_counts_def)
  moreover have "hdrs ?s' = hdrs (set_next_chunk ?q (chunk_head (dss s ?d)) (set_next p 0 s))"
    by (simp add: set_next_def set_next_chunk_def)
  moreover have "\<forall>d. d \<noteq> ?d \<longrightarrow> dss ?s' d = dss s d" by simp
  ultimately show ?thesis using nq(2) by (intro exI [of _ ?s'] exI [of _ ?m']) simp
qed

lemma hdrs_set_other [simp]:
  "a \<noteq> b \<Longrightarrow> hdrs (set_next b v s) a = hdrs s a"
  "a \<noteq> b \<Longrightarrow> hdrs (set_next_chunk b v s) a = hdrs s a"
  by (simp_all add: set_next_def set_next_chunk_def)

lemma mempool_free_ok:
  assumes inv: "pool_inv s m F A" and p: "p \<in> A"
  shows "\<exists>s' m'. mempool_free s m p = Inr (s', m') \<and> datastore m' = datastore m \<and>
           (\<forall>a. a \<notin> insert p F \<longrightarrow> hdrs s' a = hdrs s a) \<and>
           (\<forall>d. d \<noteq> datastore m \<longrightarrow> dss s' d = dss s d) \<and>
           pool_inv s' m' (insert p F) (A - {p})"
proof (cases "num_free m < m_chunk_size m")
  case True
  from free_fast_ok [OF assms this] show ?thesis by fastforce
next
  case False
  show ?thesis
  proof (cases "private_chunk m = 0")
    case True
    from free_spare_ok [OF assms False this] show ?thesis by fastforce
  next
    case nonnull: False
    from free_return_ok [OF assms False nonnull] obtain s' m' where
      "mempool_free s m p = Inr (s', m')" "pool_inv s' m' (insert p F) (A - {p})"
      "datastore m' = datastore m" "private_chunk m \<in> F"
      "hdrs s' = hdrs (set_next_chunk (private_chunk m)
                        (chunk_head (dss s (datastore m))) (set_next p 0 s))"
      "\<forall>d. d \<noteq> datastore m \<longrightarrow> dss s' d = dss s d"
      by blast
    moreover from this have "\<forall>a. a \<notin> insert p F \<longrightarrow> hdrs s' a = hdrs s a"
      by (metis hdrs_set_other insert_iff)
    ultimately show ?thesis by blast
  qed
qed

text \<open>Everything outside the free elements may change without disturbing the pool: the clients
  write into the elements they hold, and other pools work on other elements.\<close>

lemma pool_inv_frame:
  assumes "pool_inv s m F A" "\<And>a. a \<in> F \<Longrightarrow> hdrs s' a = hdrs s a"
    and "chunk_head (dss s' (datastore m)) = chunk_head (dss s (datastore m))"
  shows "pool_inv s' m F A"
proof -
  from assms(1) obtain hs ps cs where R: "pool_counts m F A" "pool_rep s m hs ps cs"
    "distinct (hs @ ps @ concat cs)" "F = set (hs @ ps @ concat cs)"
    by (rule pool_invE)
  have "linked (nx s') (m_head m) hs = linked (nx s) (m_head m) hs"
       "linked (nx s') (private_chunk m) ps = linked (nx s) (private_chunk m) ps"
    by (rule linked_cong; use assms(2) R(4) in simp)+
  moreover have "chunk_list (nx s') (nc s') q cs = chunk_list (nx s) (nc s) q cs" for q
    by (rule chunk_list_cong) (use assms(2) R(4) in simp)
  ultimately have "pool_rep s' m hs ps cs"
    using R(2) assms(3) by (simp add: pool_rep_def)
  from pool_invI [OF R(1) this R(3,4)] show ?thesis .
qed

section \<open>The allocator as an interface\<close>

text \<open>What a client may do with any allocator, as steps on the allocator's state and the set of
  elements the clients hold: ask for an element, or give back one that is held.\<close>

inductive client_steps ::
  "('st \<Rightarrow> (addr \<times> 'st) res) \<Rightarrow> ('st \<Rightarrow> addr \<Rightarrow> 'st res) \<Rightarrow> 'st \<times> addr set \<Rightarrow> 'st \<times> addr set \<Rightarrow> bool"
  for al :: "'st \<Rightarrow> (addr \<times> 'st) res" and re :: "'st \<Rightarrow> addr \<Rightarrow> 'st res"
where
  start: "client_steps al re (st, A) (st, A)"
| got: "client_steps al re x (st, A) \<Longrightarrow> al st = Inr (p, st') \<Longrightarrow> p \<noteq> 0 \<Longrightarrow>
        client_steps al re x (st', insert p A)"
| exhausted: "client_steps al re x (st, A) \<Longrightarrow> al st = Inr (0, st') \<Longrightarrow>
        client_steps al re x (st', A)"
| gave_back: "client_steps al re x (st, A) \<Longrightarrow> p \<in> A \<Longrightarrow> re st p = Inr st' \<Longrightarrow>
        client_steps al re x (st', A - {p})"

fun alloc_many :: "('st \<Rightarrow> (addr \<times> 'st) res) \<Rightarrow> nat \<Rightarrow> 'st \<Rightarrow> (addr list \<times> 'st) res" where
  "alloc_many al 0 st = Inr ([], st)"
| "alloc_many al (Suc n) st =
     and_then (al st) (\<lambda>(p, st1).
     and_then (alloc_many al n st1) (\<lambda>(ps, st2). Inr (p # ps, st2)))"

fun release_all :: "('st \<Rightarrow> addr \<Rightarrow> 'st res) \<Rightarrow> addr list \<Rightarrow> 'st \<Rightarrow> 'st res" where
  "release_all re [] st = Inr st"
| "release_all re (p # ps) st = and_then (re st p) (release_all re ps)"

locale element_pool =
  fixes alloc :: "'st \<Rightarrow> (addr \<times> 'st) res"
    and release :: "'st \<Rightarrow> addr \<Rightarrow> 'st res"
    and rep :: "'st \<Rightarrow> addr set \<Rightarrow> addr set \<Rightarrow> bool"
  assumes rep_sane: "rep st F A \<Longrightarrow> finite F \<and> F \<inter> A = {} \<and> 0 \<notin> F \<union> A"
    and alloc_some: "rep st F A \<Longrightarrow> F \<noteq> {} \<Longrightarrow>
          \<exists>p st'. alloc st = Inr (p, st') \<and> p \<in> F \<and> rep st' (F - {p}) (insert p A)"
    and alloc_none: "rep st {} A \<Longrightarrow> \<exists>st'. alloc st = Inr (0, st') \<and> rep st' {} A"
    and release_ok: "rep st F A \<Longrightarrow> p \<in> A \<Longrightarrow>
          \<exists>st'. release st p = Inr st' \<and> rep st' (insert p F) (A - {p})"
begin

lemma reachable_rep:
  assumes "client_steps alloc release (st0, A0) (st, A)" "rep st0 F0 A0"
  shows "\<exists>F. rep st F A \<and> F \<union> A = F0 \<union> A0"
  using assms
proof (induction "(st0, A0)" "(st, A)" arbitrary: st A rule: client_steps.induct)
  case start
  then show ?case by blast
next
  case (got st A p st')
  then obtain F where F: "rep st F A" "F \<union> A = F0 \<union> A0" by blast
  with got have "F \<noteq> {}" using alloc_none [of st A] by auto
  with alloc_some [OF F(1)] got have "p \<in> F" "rep st' (F - {p}) (insert p A)" by auto
  with F(2) show ?case by (intro exI [of _ "F - {p}"]) blast
next
  case (exhausted st A st')
  then obtain F where F: "rep st F A" "F \<union> A = F0 \<union> A0" by blast
  have "F = {}"
    using alloc_some [OF F(1)] exhausted rep_sane [OF F(1)] by fastforce
  with alloc_none [of st A] F exhausted show ?case by auto
next
  case (gave_back st A p st')
  then obtain F where F: "rep st F A" "F \<union> A = F0 \<union> A0" by blast
  from release_ok [OF F(1) gave_back(3)] gave_back(4)
  have "rep st' (insert p F) (A - {p})" by auto
  with F(2) gave_back show ?case by (intro exI [of _ "insert p F"]) blast
qed

lemma reachable_alloc:
  assumes "client_steps alloc release (st0, A0) (st, A)" "rep st0 F0 A0"
  shows "\<exists>p st'. alloc st = Inr (p, st') \<and> (p = 0 \<longleftrightarrow> A = F0 \<union> A0) \<and>
                 (p \<noteq> 0 \<longrightarrow> p \<in> F0 \<union> A0 \<and> p \<notin> A)"
proof -
  from reachable_rep [OF assms] obtain F where F: "rep st F A" "F \<union> A = F0 \<union> A0" by blast
  show ?thesis
  proof (cases "F = {}")
    case True
    with F alloc_none [of st A] show ?thesis by auto
  next
    case False
    from alloc_some [OF F(1) this] obtain p st' where
      p: "alloc st = Inr (p, st')" "p \<in> F" by blast
    with rep_sane [OF F(1)] F(2) show ?thesis by auto
  qed
qed

lemma alloc_many_distinct:
  "rep st F A \<Longrightarrow> n \<le> card F \<Longrightarrow>
   \<exists>ps st'. alloc_many alloc n st = Inr (ps, st') \<and> length ps = n \<and> distinct ps \<and>
            set ps \<subseteq> F \<and> rep st' (F - set ps) (A \<union> set ps)"
proof (induction n arbitrary: st F A)
  case 0
  then show ?case by simp
next
  case (Suc n)
  then have "F \<noteq> {}" by auto
  from alloc_some [OF Suc.prems(1) this] obtain p st1 where
    p: "alloc st = Inr (p, st1)" "p \<in> F" "rep st1 (F - {p}) (insert p A)" by blast
  have "n \<le> card (F - {p})"
    using Suc.prems(2) p(2) rep_sane [OF Suc.prems(1)] by simp
  from Suc.IH [OF p(3) this] obtain ps st2 where
    ps: "alloc_many alloc n st1 = Inr (ps, st2)" "length ps = n" "distinct ps"
        "set ps \<subseteq> F - {p}" "rep st2 (F - {p} - set ps) (insert p A \<union> set ps)" by blast
  moreover have "F - {p} - set ps = F - set (p # ps)" "insert p A \<union> set ps = A \<union> set (p # ps)"
    by auto
  ultimately show ?case
    using p(1,2) by (intro exI [of _ "p # ps"] exI [of _ st2]) auto
qed

lemma release_all_restores:
  "rep st F A \<Longrightarrow> distinct ps \<Longrightarrow> set ps \<subseteq> A \<Longrightarrow>
   \<exists>st'. release_all release ps st = Inr st' \<and> rep st' (F \<union> set ps) (A - set ps)"
proof (induction ps arbitrary: st F A)
  case Nil
  then show ?case by simp
next
  case (Cons p ps)
  from release_ok [OF Cons.prems(1)] Cons.prems(3) obtain st1 where
    p: "release st p = Inr st1" "rep st1 (insert p F) (A - {p})" by auto
  from Cons.IH [OF p(2)] Cons.prems obtain st2 where
    "release_all release ps st1 = Inr st2" "rep st2 (insert p F \<union> set ps) (A - {p} - set ps)"
    by auto
  moreover have "insert p F \<union> set ps = F \<union> set (p # ps)" "A - {p} - set ps = A - set (p # ps)"
    by auto
  ultimately show ?case using p(1) by auto
qed

end

text \<open>The allocator of \<open>mempool.c\<close> on a store and one pool.\<close>

definition mp_alloc :: "mp_store \<times> mempool \<Rightarrow> (addr \<times> mp_store \<times> mempool) res" where
  "mp_alloc = (\<lambda>(s, m). mempool_alloc s m)"

definition mp_free :: "mp_store \<times> mempool \<Rightarrow> addr \<Rightarrow> (mp_store \<times> mempool) res" where
  "mp_free = (\<lambda>(s, m) p. mempool_free s m p)"

definition mp_rep :: "mp_store \<times> mempool \<Rightarrow> addr set \<Rightarrow> addr set \<Rightarrow> bool" where
  "mp_rep = (\<lambda>(s, m) F A. pool_inv s m F A)"

interpretation mpool: element_pool mp_alloc mp_free mp_rep
proof unfold_locales
  fix st F A
  assume "mp_rep st F A"
  then show "finite F \<and> F \<inter> A = {} \<and> 0 \<notin> F \<union> A"
    by (auto simp: mp_rep_def pool_inv_def pool_counts_def split: prod.splits)
next
  fix st F A
  assume "mp_rep st F A" "F \<noteq> {}"
  then show "\<exists>p st'. mp_alloc st = Inr (p, st') \<and> p \<in> F \<and> mp_rep st' (F - {p}) (insert p A)"
    using mempool_alloc_ok [of "fst st" "snd st" F A]
    by (auto simp: mp_rep_def mp_alloc_def split: prod.splits)
next
  fix st A
  assume "mp_rep st {} A"
  then show "\<exists>st'. mp_alloc st = Inr (0, st') \<and> mp_rep st' {} A"
    using mempool_alloc_ok [of "fst st" "snd st" "{}" A]
    by (auto simp: mp_rep_def mp_alloc_def split: prod.splits)
next
  fix st F A p
  assume "mp_rep st F A" "p \<in> A"
  then show "\<exists>st'. mp_free st p = Inr st' \<and> mp_rep st' (insert p F) (A - {p})"
    using mempool_free_ok [of "fst st" "snd st" F A p]
    by (auto simp: mp_rep_def mp_free_def split: prod.splits)
qed

section \<open>Creation\<close>

text \<open>The invariant of the loop of \<open>mempool_init_buf_with_pages\<close>: after the elements \<open>es\<close> the
  complete chunks \<open>cks\<close> are in the datastore, the last one first, and the rest is linked from
  \<open>head\<close> to \<open>prev\<close>; elements not yet visited hold what they held in \<open>h0\<close>.\<close>

definition init_ok ::
  "addr \<Rightarrow> nat \<Rightarrow> (addr \<Rightarrow> mempool_hdr) \<Rightarrow> addr list list \<Rightarrow> addr list \<Rightarrow> init_loop \<Rightarrow> bool" where
  "init_ok d k h0 cks part l \<longleftrightarrow>
     (\<forall>c \<in> set cks. length c = k) \<and> length part < k \<and>
     distinct (concat cks @ part) \<and> 0 \<notin> set (concat cks @ part) \<and>
     chunk_list (nx (il_store l)) (nc (il_store l)) (chunk_head (dss (il_store l) d)) (rev cks) \<and>
     (if part = [] then il_prev l = 0
      else il_prev l = last part \<and> linked (nx (il_store l)) (il_head l) part) \<and>
     (\<forall>a \<in> set part. nc (il_store l) a = 0) \<and>
     il_count l = int (length part) \<and>
     ds_chunk_size (dss (il_store l) d) = int k \<and>
     (\<forall>a. a \<notin> set (concat cks @ part) \<longrightarrow> hdrs (il_store l) a = h0 a)"

lemma init_elem_link:
  assumes ok: "init_ok d k h0 cks part l" and a: "a \<noteq> 0" "a \<notin> set (concat cks @ part)"
    and z: "hnext (h0 a) = 0" "hnext_chunk (h0 a) = 0"
    and l1: "(hd1, s1) = (if il_prev l = 0 then (a, il_store l)
                          else (il_head l, set_next (il_prev l) a (il_store l)))"
  shows "linked (nx s1) hd1 (part @ [a])" "dss s1 = dss (il_store l)" "nc s1 = nc (il_store l)"
    "chunk_list (nx s1) (nc s1) (chunk_head (dss s1 d)) (rev cks)"
    "\<And>b. b \<notin> set (concat cks @ part) \<Longrightarrow> hdrs s1 b = h0 b" "\<forall>b \<in> set (part @ [a]). nc s1 b = 0"
proof -
  let ?s = "il_store l"
  have ha: "hdrs ?s a = h0 a" using ok a(2) by (simp add: init_ok_def)
  have cl: "chunk_list (nx ?s) (nc ?s) (chunk_head (dss ?s d)) (rev cks)"
    using ok by (simp add: init_ok_def)
  show "dss s1 = dss ?s" "nc s1 = nc ?s" using l1 by (auto split: if_splits)
  show "linked (nx s1) hd1 (part @ [a])"
  proof (cases "part = []")
    case True
    with ok l1 a ha z show ?thesis by (simp add: init_ok_def)
  next
    case False
    with ok have prev: "il_prev l = last part" "linked (nx ?s) (il_head l) part" "distinct part"
      "last part \<noteq> 0"
      by (auto simp: init_ok_def dest: last_in_set)
    with l1 have "hd1 = il_head l" "nx s1 = (nx ?s)(last part := a)" by auto
    with linked_snoc [OF prev(2,3) False _ a(1)] a ha z show ?thesis by auto
  qed
  have upd: "nx s1 = nx ?s \<or> part \<noteq> [] \<and> nx s1 = (nx ?s)(last part := a)"
    using l1 ok by (auto simp: init_ok_def split: if_splits)
  have "last part \<notin> set (concat (rev cks))" if "part \<noteq> []"
    using that ok by (auto simp: init_ok_def dest: last_in_set)
  with upd cl \<open>dss s1 = dss ?s\<close> \<open>nc s1 = nc ?s\<close>
  show "chunk_list (nx s1) (nc s1) (chunk_head (dss s1 d)) (rev cks)"
    by (auto simp: chunk_list_frame_next)
  show "hdrs s1 b = h0 b" if "b \<notin> set (concat cks @ part)" for b
  proof -
    have "hdrs ?s b = h0 b" using ok that by (simp add: init_ok_def)
    moreover have "b \<noteq> il_prev l \<or> part = []"
      using that ok by (auto simp: init_ok_def split: if_splits)
    moreover have "part = [] \<Longrightarrow> il_prev l = 0" using ok by (simp add: init_ok_def)
    ultimately show ?thesis using l1 by (auto split: if_splits)
  qed
  show "\<forall>b \<in> set (part @ [a]). nc s1 b = 0"
    using ok ha z \<open>nc s1 = nc ?s\<close> by (auto simp: init_ok_def fun_eq_iff)
qed

lemma init_elem_ok:
  assumes ok: "init_ok d k h0 cks part l" and a: "il_cur l = a" "a \<noteq> 0" "a \<notin> set (concat cks @ part)"
    and z: "hnext (h0 a) = 0" "hnext_chunk (h0 a) = 0" and k: "int k < 2 ^ 31"
  shows "if Suc (length part) = k then init_ok d k h0 (cks @ [part @ [a]]) [] (init_elem d len l)
         else init_ok d k h0 cks (part @ [a]) (init_elem d len l)"
proof -
  obtain hd1 s1 where l1: "(hd1, s1) = (if il_prev l = 0 then (a, il_store l)
                          else (il_head l, set_next (il_prev l) a (il_store l)))"
    by (metis surj_pair)
  note L = init_elem_link [OF ok a(2,3) z l1]
  from ok have base: "\<forall>c \<in> set cks. length c = k" "length part < k" "distinct (concat cks @ part)"
      "0 \<notin> set (concat cks @ part)" "ds_chunk_size (dss s1 d) = int k" "il_count l = int (length part)"
    by (auto simp: init_ok_def L(2))
  have cnt: "s32 (il_count l + 1) = int (Suc (length part))"
    using base(2,6) k by (subst s32_id) auto
  from L(1) have hd1: "hd1 = hd (part @ [a])" "hd1 \<noteq> 0" by (cases part; simp)+
  show ?thesis
  proof (cases "Suc (length part) = k")
    case False
    have "init_elem d len l = \<lparr>il_store = s1, il_cur = a + len, il_head = hd1, il_prev = a,
              il_count = int (Suc (length part))\<rparr>"
      using False cnt base(5) a(1) l1 [symmetric] by (simp add: init_elem_def Let_def del: of_nat_Suc)
    with False base L a show ?thesis by (simp add: init_ok_def)
  next
    case True
    let ?c = "chunk_head (dss s1 d)"
    let ?s2 = "if ?c = 0 then upd_ds d (chunk_head_update (\<lambda>_. hd1)) s1
               else upd_ds d (chunk_head_update (\<lambda>_. hd1)) (set_next_chunk hd1 ?c s1)"
    let ?l = "init_elem d len l"
    have st: "il_store ?l = upd_ds d (\<lambda>ds. ds\<lparr>num_chunks := s32 (num_chunks ds + 1),
                                 free_chunks := s32 (free_chunks ds + 1)\<rparr>) ?s2"
         "il_prev ?l = 0" "il_count ?l = 0"
      using True cnt base(5) a(1) l1 [symmetric]
      by (simp_all add: init_elem_def Let_def del: of_nat_Suc)
    have hd_in: "hd1 \<in> set (part @ [a])" "hd1 \<notin> set (concat cks)"
      using hd1(1) base(3) a(3) by (cases part; auto)+
    have nc2: "nc ?s2 hd1 = ?c" using L(6) hd_in(1) by (auto simp: store_applied)
    have "chunk_list (nx ?s2) (nc ?s2) ?c (rev cks)"
      using L(4) hd_in(2) by (auto simp: chunk_list_frame_chunk)
    with L(1) nc2 have "chunk_list (nx ?s2) (nc ?s2) hd1 ((part @ [a]) # rev cks)"
      by auto
    moreover have "\<forall>b. b \<notin> set (concat cks @ part @ [a]) \<longrightarrow> hdrs ?s2 b = h0 b"
      using L(5) hd_in(1) by (auto simp: set_next_chunk_def)
    ultimately show ?thesis using True base a st by (auto simp: init_ok_def)
  qed
qed

text \<open>A run of the loop over any list of element addresses.\<close>

definition init_at :: "addr \<Rightarrow> u64 \<Rightarrow> addr \<Rightarrow> init_loop \<Rightarrow> init_loop" where
  "init_at d len a l = init_elem d len (l\<lparr>il_cur := a\<rparr>)"

lemma init_ok_cur [simp]: "init_ok d k h0 cks part (l\<lparr>il_cur := a\<rparr>) = init_ok d k h0 cks part l"
  by (simp add: init_ok_def)

lemma init_fold_ok:
  assumes "init_ok d k h0 cks part l" "distinct (concat cks @ part @ es)" "0 \<notin> set es"
    and "\<And>a. a \<in> set es \<Longrightarrow> hnext (h0 a) = 0 \<and> hnext_chunk (h0 a) = 0" and "int k < 2 ^ 31"
  shows "\<exists>cks' part'. init_ok d k h0 cks' part' (fold (init_at d len) es l) \<and>
           concat cks' @ part' = concat cks @ part @ es"
  using assms
proof (induction es arbitrary: cks part l)
  case Nil
  then show ?case by auto
next
  case (Cons a es)
  let ?l = "init_at d len a l"
  have step: "if Suc (length part) = k then init_ok d k h0 (cks @ [part @ [a]]) [] ?l
              else init_ok d k h0 cks (part @ [a]) ?l"
    unfolding init_at_def using Cons.prems by (intro init_elem_ok) auto
  show ?case
  proof (cases "Suc (length part) = k")
    case True
    with step have "init_ok d k h0 (cks @ [part @ [a]]) [] ?l" by simp
    from Cons.IH [OF this] Cons.prems show ?thesis by auto
  next
    case False
    with step have "init_ok d k h0 cks (part @ [a]) ?l" by simp
    from Cons.IH [OF this] Cons.prems show ?thesis by auto
  qed
qed

lemma init_elem_cur [simp]: "il_cur (init_elem d len l) = il_cur l + len"
  by (simp add: init_elem_def Let_def split: prod.split)

text \<open>The addresses the loops visit.\<close>

definition page_addrs :: "addr \<Rightarrow> nat \<Rightarrow> u64 \<Rightarrow> nat \<Rightarrow> addr list" where
  "page_addrs base n len i =
     map (\<lambda>j. base + to_u64 (s32 (int i * PGSIZE_2MB)) + to_u64 MEMPOOL_INITIAL_OFFSET + of_nat j * len) [0..<n]"

definition elem_addrs :: "addr \<Rightarrow> nat \<Rightarrow> u64 \<Rightarrow> nat \<Rightarrow> addr list" where
  "elem_addrs base n len pages = concat (map (page_addrs base n len) [0..<pages])"

lemma funpow_init_elem:
  "(init_elem d len ^^ n) l =
     (fold (init_at d len) (map (\<lambda>j. il_cur l + of_nat j * len) [0..<n]) l)
       \<lparr>il_cur := il_cur l + of_nat n * len\<rparr>"
proof (induction n)
  case 0
  then show ?case by simp
next
  case (Suc n)
  have cur: "l'\<lparr>il_cur := c\<rparr> = l'\<lparr>il_cur := c, il_cur := c\<rparr>" for l' :: init_loop and c by simp
  have at: "init_at d len c l' = (init_at d len c l')\<lparr>il_cur := c + len\<rparr>" for c l'
    by (simp add: init_at_def init_elem_def Let_def split: prod.split)
  show ?case
    by (simp add: Suc init_at_def [symmetric])
       (subst at, simp add: init_at_def algebra_simps)
qed

lemma init_at_buf [simp]: "ds_buf (dss (il_store (init_at d len a l)) d) = ds_buf (dss (il_store l) d)"
  by (simp add: init_at_def init_elem_def Let_def split: prod.split)

lemma init_fold_buf [simp]:
  "ds_buf (dss (il_store (fold (init_at d len) es l)) d) = ds_buf (dss (il_store l) d)"
  by (induction es arbitrary: l) auto

lemma init_fold_cur:
  "il_store (fold (init_at d len) es (l\<lparr>il_cur := c\<rparr>)) = il_store (fold (init_at d len) es l)"
  by (cases es) (auto simp: init_at_def)

lemma init_page_fold:
  "\<exists>c. init_page d n len i l =
     (fold (init_at d len) (page_addrs (ds_buf (dss (il_store l) d)) n len i) l)\<lparr>il_cur := c\<rparr>"
proof -
  let ?l = "l\<lparr>il_cur := ds_buf (dss (il_store l) d) + to_u64 (s32 (int i * PGSIZE_2MB))
                   + to_u64 MEMPOOL_INITIAL_OFFSET\<rparr>"
  have fc: "\<exists>c'. fold (init_at d len) es (l\<lparr>il_cur := c\<rparr>) = (fold (init_at d len) es l)\<lparr>il_cur := c'\<rparr>"
    for es c
    by (cases es) (auto simp: init_at_def intro: exI [of _ "il_cur (fold (init_at d len) (tl es) (init_at d len (hd es) l))"])
  let ?es = "page_addrs (ds_buf (dss (il_store l) d)) n len i"
  from fc [of ?es "il_cur ?l"] obtain c' where
    "fold (init_at d len) ?es ?l = (fold (init_at d len) ?es l)\<lparr>il_cur := c'\<rparr>" by auto
  moreover have "init_page d n len i l =
      (fold (init_at d len) ?es ?l)\<lparr>il_cur := il_cur ?l + of_nat n * len\<rparr>"
    by (simp add: init_page_def funpow_init_elem page_addrs_def)
  ultimately show ?thesis by auto
qed

lemma init_pages_fold:
  "\<exists>c. init_pages d n len pages l =
     (fold (init_at d len) (elem_addrs (ds_buf (dss (il_store l) d)) n len pages) l)\<lparr>il_cur := c\<rparr>"
proof (induction pages)
  case 0
  then show ?case by (auto simp: init_pages_def elem_addrs_def intro: exI [of _ "il_cur l"])
next
  case (Suc pages)
  let ?b = "ds_buf (dss (il_store l) d)"
  let ?l1 = "fold (init_at d len) (elem_addrs ?b n len pages) l"
  from Suc obtain c where c: "init_pages d n len pages l = ?l1\<lparr>il_cur := c\<rparr>" by blast
  have step: "init_pages d n len (Suc pages) l = init_page d n len pages (?l1\<lparr>il_cur := c\<rparr>)"
    using c by (simp add: init_pages_def)
  let ?es = "page_addrs ?b n len pages"
  from init_page_fold [of d n len pages "?l1\<lparr>il_cur := c\<rparr>"] obtain c1 where
    c1: "init_page d n len pages (?l1\<lparr>il_cur := c\<rparr>) =
         (fold (init_at d len) ?es (?l1\<lparr>il_cur := c\<rparr>))\<lparr>il_cur := c1\<rparr>"
    by auto
  have "\<exists>c2. (fold (init_at d len) ?es (?l1\<lparr>il_cur := c\<rparr>))\<lparr>il_cur := c1\<rparr> =
              (fold (init_at d len) ?es ?l1)\<lparr>il_cur := c2\<rparr>"
    by (cases ?es) (auto simp: init_at_def)
  with step c1 show ?case by (simp add: elem_addrs_def)
qed

text \<open>On zeroed pages the datastore ends up with every complete chunk of the elements visited.\<close>

lemma init_buf_chunks:
  assumes "chunk_head (dss s d) = 0" "ds_chunk_size (dss s d) = int k" "0 < k" "int k < 2 ^ 31"
    and es: "es = elem_addrs (ds_buf (dss s d)) (nat epp) len (nat pages)"
    and "distinct es" "0 \<notin> set es"
    and "\<And>a. a \<in> set es \<Longrightarrow> hnext (hdrs s a) = 0 \<and> hnext_chunk (hdrs s a) = 0"
    and s': "s' = snd (mempool_init_buf_with_pages s d epp pages len)"
  shows "\<exists>cks. chunk_list (nx s') (nc s') (chunk_head (dss s' d)) (rev cks) \<and>
           (\<forall>c \<in> set cks. length c = k) \<and> concat cks = take (k * (length es div k)) es"
proof -
  let ?l = "\<lparr>il_store = s, il_cur = 0, il_head = 0, il_prev = 0, il_count = 0\<rparr>"
  have "init_ok d k (hdrs s) [] [] ?l"
    using assms(1-4) by (simp add: init_ok_def)
  from init_fold_ok [OF this, of es len] assms obtain cks part where
    ok: "init_ok d k (hdrs s) cks part (fold (init_at d len) es ?l)" and cat: "concat cks @ part = es"
    by auto
  have "s' = il_store (fold (init_at d len) es ?l)"
    using init_pages_fold [of d "nat epp" len "nat pages" ?l] s' es
    by (auto simp: mempool_init_buf_with_pages_def)
  with ok have cl: "chunk_list (nx s') (nc s') (chunk_head (dss s' d)) (rev cks)"
    and len: "\<forall>c \<in> set cks. length c = k" "length part < k"
    by (auto simp: init_ok_def)
  have lc: "length (concat cks) = k * length cks"
    by (rule sum_list_replicate_length) (use len in auto)
  have "length es = length part + k * length cks"
    using cat lc by (metis add.commute length_append)
  with len(2) assms(3) have "length es div k = length cks" by simp
  with lc cat have "concat cks = take (k * (length es div k)) es"
    by (metis append_eq_conv_conj)
  with cl len show ?thesis by blast
qed

section \<open>Where the elements lie\<close>

lemma PGSIZE_2MB_val [simp]: "PGSIZE_2MB = 2097152"
  by (simp add: PGSIZE_2MB_def PGSHIFT_2MB_def)

definition elem_addr :: "addr \<Rightarrow> u64 \<Rightarrow> nat \<Rightarrow> nat \<Rightarrow> addr" where
  "elem_addr base len i j =
     base + to_u64 (s32 (int i * PGSIZE_2MB)) + to_u64 MEMPOOL_INITIAL_OFFSET + of_nat j * len"

lemma page_addrs_elem_addr: "page_addrs base n len i = map (elem_addr base len i) [0..<n]"
  by (simp add: page_addrs_def elem_addr_def)

lemma unat_elem_addr:
  assumes "i < 1024" "unat base + i * 2097152 + j * unat len < 2 ^ 64"
  shows "unat (elem_addr base len i j) = unat base + i * 2097152 + j * unat len"
proof -
  have s: "s32 (int i * PGSIZE_2MB) = int (i * 2097152)"
    using assms(1) by (subst s32_id) auto
  have "base = of_nat (unat base)" "len = of_nat (unat len)" by simp_all
  then have "elem_addr base len i j = of_nat (unat base + i * 2097152 + j * unat len)"
    unfolding elem_addr_def s
    by (metis (no_types, opaque_lifting) MEMPOOL_INITIAL_OFFSET_def add.right_neutral of_int_of_nat_eq
        of_nat_add of_nat_mult to_u64_def word_of_int_0)
  with unat_of_nat_u64 [OF assms(2)] show ?thesis by simp
qed

text \<open>The elements of a page stay in it, so that the elements of all pages are inside the
  buffer, in increasing order, and at least \<open>elem_len\<close> apart.\<close>

lemma elem_addrs_in_buffer:
  assumes "a \<in> set (elem_addrs base n len pages)" "pages \<le> 1024" "n * unat len \<le> 2097152"
    and "unat base + pages * 2097152 \<le> 2 ^ 64" "0 < unat len"
  shows "unat base \<le> unat a \<and> unat a + unat len \<le> unat base + pages * 2097152"
proof -
  from assms(1) obtain i j where ij: "i < pages" "j < n" "a = elem_addr base len i j"
    by (auto simp: elem_addrs_def page_addrs_elem_addr)
  have "Suc j * unat len \<le> n * unat len" using ij(2) by (intro mult_le_mono1) simp
  with assms(3) have j: "j * unat len + unat len \<le> 2097152" by simp
  have "Suc i * 2097152 \<le> pages * 2097152" using ij(1) by (intro mult_le_mono1) simp
  then have i: "i * 2097152 + 2097152 \<le> pages * 2097152" by simp
  have "unat a = unat base + i * 2097152 + j * unat len"
    unfolding ij(3) using i j ij(1) assms(2,4,5) by (intro unat_elem_addr) linarith+
  with i j show ?thesis by linarith
qed

lemma elem_addrs_Suc:
  "elem_addrs base n len (Suc pages) = elem_addrs base n len pages @ page_addrs base n len pages"
  by (simp add: elem_addrs_def)

lemma page_addrs_bounds:
  assumes "i < 1024" "n * unat len \<le> 2097152" "unat base + Suc i * 2097152 \<le> 2 ^ 64" "0 < unat len"
  shows "distinct (page_addrs base n len i)"
    and "a \<in> set (page_addrs base n len i) \<Longrightarrow> unat base + i * 2097152 \<le> unat a"
proof -
  have u: "unat (elem_addr base len i j) = unat base + i * 2097152 + j * unat len" if "j < n" for j
  proof -
    have "Suc j * unat len \<le> n * unat len" using that by (intro mult_le_mono1) simp
    with assms that show ?thesis by (intro unat_elem_addr) auto
  qed
  have "inj_on (elem_addr base len i) {0..<n}"
  proof (rule inj_onI)
    fix j k assume "j \<in> {0..<n}" "k \<in> {0..<n}" "elem_addr base len i j = elem_addr base len i k"
    then have "unat base + i * 2097152 + j * unat len = unat base + i * 2097152 + k * unat len"
      using u [of j] u [of k] by (metis atLeastLessThan_iff)
    then show "j = k" using assms(4) by simp
  qed
  then show "distinct (page_addrs base n len i)"
    by (simp add: page_addrs_elem_addr distinct_map)
  show "a \<in> set (page_addrs base n len i) \<Longrightarrow> unat base + i * 2097152 \<le> unat a"
    using u by (auto simp: page_addrs_elem_addr)
qed

lemma elem_addrs_distinct:
  assumes "pages \<le> 1024" "n * unat len \<le> 2097152"
    and "unat base + pages * 2097152 \<le> 2 ^ 64" "0 < unat len"
  shows "distinct (elem_addrs base n len pages)"
  using assms
proof (induction pages)
  case 0
  then show ?case by (simp add: elem_addrs_def)
next
  case (Suc pages)
  have "set (elem_addrs base n len pages) \<inter> set (page_addrs base n len pages) = {}"
  proof (intro equals0I)
    fix a assume "a \<in> set (elem_addrs base n len pages) \<inter> set (page_addrs base n len pages)"
    then have "unat a + unat len \<le> unat base + pages * 2097152" "unat base + pages * 2097152 \<le> unat a"
      using elem_addrs_in_buffer [of a base n len pages] page_addrs_bounds(2) [of pages n len base a] Suc.prems
      by auto
    with Suc.prems show False by simp
  qed
  moreover have "distinct (page_addrs base n len pages)"
    using Suc.prems by (intro page_addrs_bounds) auto
  ultimately show ?case using Suc by (simp add: elem_addrs_Suc)
qed

section \<open>A pool on a new datastore\<close>

lemma fresh_pool_inv:
  assumes "chunk_list (nx s) (nc s) (chunk_head (dss s d)) (rev cks)" "distinct (concat cks)"
    and "0 \<notin> set (concat cks)" "int (length (concat cks)) < 2 ^ 31"
    and "mempool_create s m0 d = Inr (0, m)" "d \<noteq> 0" "private_chunk m0 = 0" "num_free m0 = 0"
    and "ds_chunk_size (dss s d) = int k" "int k < 2 ^ 31"
  shows "pool_inv s m (set (concat cks)) {}"
proof (rule pool_invI [of _ _ _ _ "[]" "[]" "rev cks"])
  show "pool_counts m (set (concat cks)) {}"
    using assms distinct_card [OF assms(2)]
    by (auto simp: pool_counts_def mempool_create_def split: if_splits)
  show "pool_rep s m [] [] (rev cks)"
    using assms by (auto simp: pool_rep_def mempool_create_def split: if_splits)
  have "mset (concat (rev cks)) = mset (concat cks)"
    by (simp add: mset_concat flip: sum_mset_sum_list)
  then show "distinct ([] @ [] @ concat (rev cks))"
    using assms(2) mset_eq_imp_distinct_iff by auto
  show "set (concat cks) = set ([] @ [] @ concat (rev cks))" by simp
qed

lemma elems_per_page_val:
  "s32 (uint (to_u64 2097152 div len)) = int (2097152 div unat len)"
proof -
  have "uint (to_u64 2097152 div len) = int (2097152 div unat len)"
    by (simp only: uint_nat [of "to_u64 2097152 div len"] unat_div) (simp add: to_u64_def)
  moreover have "int (2097152 div unat len) \<le> 2097152"
    using div_le_dividend [of 2097152 "unat len"] by linarith
  then have "s32 (int (2097152 div unat len)) = int (2097152 div unat len)"
    by (intro s32_nonneg) linarith+
  ultimately show ?thesis by simp
qed

lemma ds_pages_nostraddle:
  assumes "ds_pages nostraddle nr len = Inr (pages, nr')" "nostraddle \<noteq> 0" "0 < nr" "nr \<le> 2 ^ 30"
  shows "nr' = nr" "0 < 2097152 div unat len"
    and "pages = (nr + int (2097152 div unat len) - 1) div int (2097152 div unat len)"
proof -
  let ?e = "2097152 div unat len"
  have e: "int ?e \<le> 2097152" using div_le_dividend [of 2097152 "unat len"] by linarith
  have nr: "nr \<le> 1073741824" using assms(4) by simp
  from assms(1,2) show "nr' = nr" and pos: "0 < ?e"
    by (auto simp: ds_pages_def elems_per_page_val Let_def split: if_splits)
  have n: "s32 (nr + int ?e - 1) = nr + int ?e - 1"
    using assms(3) nr e pos by (intro s32_nonneg) linarith+
  have "(nr + int ?e - 1) div int ?e \<le> nr + int ?e - 1" "0 \<le> (nr + int ?e - 1) div int ?e"
    using pos assms(3) int_div_less_self [of "nr + int ?e - 1" "int ?e"]
    by (cases "?e = 1"; auto simp: pos_imp_zdiv_nonneg_iff)+
  then have "s32 ((nr + int ?e - 1) div int ?e) = (nr + int ?e - 1) div int ?e"
    using nr e by (intro s32_nonneg) linarith+
  with assms(1,2) n pos assms(3) show "pages = (nr + int ?e - 1) div int ?e"
    by (auto simp: ds_pages_def elems_per_page_val Let_def c_div_nonneg split: if_splits)
qed

lemma ceil_div_covers: "0 < (e::int) \<Longrightarrow> n \<le> e * ((n + e - 1) div e)"
proof -
  assume "0 < e"
  then have "(n + e - 1) mod e < e" by simp
  moreover have "e * ((n + e - 1) div e) + (n + e - 1) mod e = n + e - 1" by simp
  ultimately show ?thesis by linarith
qed

lemma dvd_le_floor: "k dvd n \<Longrightarrow> n \<le> t \<Longrightarrow> 0 < k \<Longrightarrow> (n::nat) \<le> k * (t div k)"
  by (metis div_le_mono dvd_mult_div_cancel mult_le_mono2)

lemma init_elem_chunk_size [simp]:
  "ds_chunk_size (dss (il_store (init_elem d len l)) d) = ds_chunk_size (dss (il_store l) d)"
  by (simp add: init_elem_def Let_def split: prod.splits)

lemma init_fold_chunk_size [simp]:
  "ds_chunk_size (dss (il_store (fold (init_at d len) es l)) d) = ds_chunk_size (dss (il_store l) d)"
  by (induction es arbitrary: l) (simp_all add: init_at_def)

lemma init_buf_chunk_size [simp]:
  "ds_chunk_size (dss (snd (mempool_init_buf_with_pages s d epp pages len)) d) = ds_chunk_size (dss s d)"
proof -
  let ?l = "\<lparr>il_store = s, il_cur = 0, il_head = 0, il_prev = 0, il_count = 0\<rparr>"
  obtain c where "init_pages d (nat epp) len (nat pages) ?l =
     (fold (init_at d len) (elem_addrs (ds_buf (dss (il_store ?l) d)) (nat epp) len (nat pages)) ?l)\<lparr>il_cur := c\<rparr>"
    using init_pages_fold by blast
  then show ?thesis by (simp add: mempool_init_buf_with_pages_def)
qed

text \<open>What a successful \<open>mempool_create_datastore\<close> has done, for elements that may not straddle
  pages.\<close>

lemma create_datastore_shape:
  assumes "mempool_create_datastore ap s d nr len0 nost (int k) name = Inr (0, s')"
    and "nost \<noteq> 0" "0 < nr" "nr \<le> 2 ^ 30" "int k < 2 ^ 31"
  defines "len \<equiv> align8 len0" and "e \<equiv> 2097152 div unat (align8 len0)"
  obtains page pages s2 where
    "0 < k" "int k dvd nr" "0 < e" "pages = nat ((nr + int e - 1) div int e)"
    "ap (s32 (int pages * PGSIZE_2MB)) = Some page"
    "hdrs s2 = hdrs s" "ds_buf (dss s2 d) = page" "ds_chunk_size (dss s2 d) = int k"
    "chunk_head (dss s2 d) = chunk_head (dss s d)"
    "nx s' = nx (snd (mempool_init_buf_with_pages s2 d (int e) (int pages) len))"
    "nc s' = nc (snd (mempool_init_buf_with_pages s2 d (int e) (int pages) len))"
    "chunk_head (dss s' d) = chunk_head (dss (snd (mempool_init_buf_with_pages s2 d (int e) (int pages) len)) d)"
    "ds_chunk_size (dss s' d) = int k"
proof -
  have k: "0 < k" "int k dvd nr"
  proof -
    from assms(1) have "int k \<noteq> 0" and m: "s32 (c_div nr (int k) * int k) = nr"
      by (auto simp: mempool_create_datastore_def split: if_splits)
    then show "0 < k" by simp
    have "0 \<le> nr div int k * int k" "nr div int k * int k \<le> nr"
      using assms(3) \<open>0 < k\<close> by (simp_all add: zmod_le_nonneg_dividend flip: minus_mod_eq_div_mult)
    then have "nr div int k * int k = nr"
      using m assms(3,4) by (simp add: c_div_nonneg s32_id)
    then show "int k dvd nr" by (metis dvd_triv_right)
  qed
  let ?s1 = "upd_ds d (\<lambda>ds. ds\<lparr>ds_magic := MEMPOOL_MAGIC, prettyname := name\<rparr>) s"
  from assms(1) obtain p nr' where dp: "ds_pages nost nr len = Inr (p, nr')"
    by (auto simp: mempool_create_datastore_def len_def EINVAL_def MEMPOOL_INITIAL_OFFSET_def to_u64_def
        Let_def and_then_Inr_iff split: if_splits)
  note P = ds_pages_nostraddle [OF dp assms(2-4), folded e_def len_def]
  have pe: "0 < e" "p = (nr + int e - 1) div int e" "0 \<le> p"
    using P assms(3) by (simp_all add: e_def len_def pos_imp_zdiv_nonneg_iff)
  obtain page where page: "ap (s32 (p * PGSIZE_2MB)) = Some page"
    using assms(1) dp
    by (cases "ap (s32 (p * PGSIZE_2MB))")
       (auto simp: mempool_create_datastore_def len_def EINVAL_def ENOMEM_def
          MEMPOOL_INITIAL_OFFSET_def to_u64_def Let_def split: if_splits)
  let ?s2 = "upd_ds d (\<lambda>ds. ds\<lparr>ds_buf := page, nr_pages := p, ds_nr_elems := word_of_int nr',
      ds_elem_len := len, ds_chunk_size := int k, ds_nostraddle := nost, ds_lock := False\<rparr>) ?s1"
  let ?s3 = "snd (mempool_init_buf_with_pages ?s2 d (int e) p len)"
  have s': "s' = (upd_ds d (next_ds_update (\<lambda>_. mempool_all_datastores ?s3)) ?s3)
                   \<lparr>mempool_all_datastores := d\<rparr>"
    using assms(1,2) dp page
    by (auto simp: mempool_create_datastore_def len_def e_def EINVAL_def MEMPOOL_INITIAL_OFFSET_def
        to_u64_def [of 0] elems_per_page_val Let_def split: if_splits)
  show ?thesis
  proof (rule that [of "nat p" page ?s2])
    show "ap (s32 (int (nat p) * PGSIZE_2MB)) = Some page" using page pe(3) by simp
  qed (use k pe s' in simp_all)
qed

lemma elem_addrs_val:
  assumes "a \<in> set (elem_addrs base n len pages)" "pages \<le> 1024" "n * unat len \<le> 2097152"
    and "unat base + pages * 2097152 \<le> 2 ^ 64" "0 < unat len"
  obtains i j where "unat a = unat base + i * 2097152 + j * unat len"
    "j * unat len + unat len \<le> 2097152"
proof -
  from assms(1) obtain i j where ij: "i < pages" "j < n" "a = elem_addr base len i j"
    by (auto simp: elem_addrs_def page_addrs_elem_addr)
  have "Suc j * unat len \<le> n * unat len" using ij(2) by (intro mult_le_mono1) simp
  with assms(3) have j: "j * unat len + unat len \<le> 2097152" by simp
  have "Suc i * 2097152 \<le> pages * 2097152" using ij(1) by (intro mult_le_mono1) simp
  then have i: "i * 2097152 + 2097152 \<le> pages * 2097152" by simp
  have "unat a = unat base + i * 2097152 + j * unat len"
    unfolding ij(3) using i j ij(1) assms(2,4,5) by (intro unat_elem_addr) linarith+
  then show ?thesis using j that by blast
qed

lemma elem_addrs_apart:
  assumes "a \<in> set (elem_addrs base n len pages)" "b \<in> set (elem_addrs base n len pages)"
    and "unat a < unat b" "pages \<le> 1024" "n * unat len \<le> 2097152"
    and "unat base + pages * 2097152 \<le> 2 ^ 64" "0 < unat len"
  shows "unat a + unat len \<le> unat b"
proof -
  obtain i j where a: "unat a = unat base + i * 2097152 + j * unat len"
    "j * unat len + unat len \<le> 2097152"
    by (rule elem_addrs_val [OF assms(1,4-)])
  obtain i' j' where b: "unat b = unat base + i' * 2097152 + j' * unat len"
    "j' * unat len + unat len \<le> 2097152"
    by (rule elem_addrs_val [OF assms(2,4-)])
  consider "i = i'" | "Suc i \<le> i'" | "Suc i' \<le> i" by linarith
  then show ?thesis
  proof cases
    case 1
    with assms(3) a b have "j < j'" by (metis add_less_cancel_left mult_less_cancel2)
    then have "Suc j * unat len \<le> j' * unat len" by (intro mult_le_mono1) simp
    with 1 a b show ?thesis by simp
  next
    case 2
    then have "Suc i * 2097152 \<le> i' * 2097152" by (intro mult_le_mono1)
    with a b show ?thesis by simp
  next
    case 3
    then have "Suc i' * 2097152 \<le> i * 2097152" by (intro mult_le_mono1)
    with a b assms(3) show ?thesis by simp
  qed
qed

text \<open>The pages the kernel hands out: not null, inside the address space, and zeroed.\<close>

definition good_pages :: "(int \<Rightarrow> addr option) \<Rightarrow> mp_store \<Rightarrow> bool" where
  "good_pages ap s \<longleftrightarrow>
     (\<forall>n p. ap n = Some p \<longrightarrow> p \<noteq> 0 \<and> unat p + nat n \<le> 2 ^ 64 \<and>
        (\<forall>a. unat p \<le> unat a \<and> unat a < unat p + nat n \<longrightarrow>
             hnext (hdrs s a) = 0 \<and> hnext_chunk (hdrs s a) = 0))"

lemma length_elem_addrs: "length (elem_addrs base n len pages) = n * pages"
  unfolding elem_addrs_def
  by (subst sum_list_replicate_length [where k = n]) (auto simp: page_addrs_def)

lemma pages_bytes: "p < 1024 \<Longrightarrow> s32 (int p * PGSIZE_2MB) = int (p * 2097152)"
  by (subst s32_nonneg) simp_all

lemma div_pos_factor: "0 < (a::nat) div b \<Longrightarrow> 0 < b \<and> a div b * b \<le> a"
  by (cases "b = 0") simp_all

lemma good_pagesD:
  assumes "good_pages ap s" "ap (int n) = Some p"
  shows "p \<noteq> 0" "unat p + n \<le> 2 ^ 64"
    and "unat p \<le> unat a \<Longrightarrow> unat a < unat p + n \<Longrightarrow> hnext (hdrs s a) = 0 \<and> hnext_chunk (hdrs s a) = 0"
  using assms unfolding good_pages_def by (metis nat_int)+

text \<open>The elements on good pages are distinct, not null, inside the pages and zeroed.\<close>

lemma elems_on_good_pages:
  assumes "good_pages ap s" "ap (int (pages * 2097152)) = Some page"
    and "pages \<le> 1024" "n * unat len \<le> 2097152" "0 < unat len"
  defines "es \<equiv> elem_addrs page n len pages"
  shows "distinct es" "0 \<notin> set es"
    and "a \<in> set es \<Longrightarrow> unat page \<le> unat a \<and> unat a + unat len \<le> unat page + pages * 2097152"
    and "a \<in> set es \<Longrightarrow> hnext (hdrs s a) = 0 \<and> hnext_chunk (hdrs s a) = 0"
    and "a \<in> set es \<Longrightarrow> b \<in> set es \<Longrightarrow> unat a < unat b \<Longrightarrow> unat a + unat len \<le> unat b"
proof -
  note P = good_pagesD [OF assms(1,2)]
  show inb: "unat page \<le> unat a \<and> unat a + unat len \<le> unat page + pages * 2097152"
    if "a \<in> set es" for a
    using elem_addrs_in_buffer that assms(3-5) P(2) unfolding es_def by blast
  show "distinct es"
    unfolding es_def by (rule elem_addrs_distinct [OF assms(3,4) P(2) assms(5)])
  show "0 \<notin> set es" using inb P(1) by (metis le_zero_eq unat_0 unsigned_eq_0_iff)
  show "hnext (hdrs s a) = 0 \<and> hnext_chunk (hdrs s a) = 0" if "a \<in> set es"
    using P(3) [of a] inb [OF that] assms(5) by simp
  show "unat a + unat len \<le> unat b" if "a \<in> set es" "b \<in> set es" "unat a < unat b"
    using elem_addrs_apart [OF _ _ that(3) assms(3,4) P(2) assms(5)] that unfolding es_def by simp
qed

text \<open>The full chunks hold at least the elements asked for, and their number fits an \<open>int\<close>.\<close>

lemma chunk_total_bounds:
  assumes "length xs = k * (length es div k)" "length es = e * pages"
    and "pages = nat ((nr + int e - 1) div int e)" "0 < e" "e \<le> 2097152" "pages < 1024"
    and "0 < k" "int k dvd nr" "0 < nr"
  shows "nat nr \<le> length xs" "int (length xs) < 2 ^ 31"
proof -
  have "0 \<le> (nr + int e - 1) div int e" using assms(4,9) by (simp add: pos_imp_zdiv_nonneg_iff)
  then have "nr \<le> int (length es)"
    using ceil_div_covers [of "int e" nr] assms(2-4) by simp
  moreover have "k dvd nat nr" using assms(8,9) by (metis int_dvd_int_iff nat_0_le less_imp_le)
  ultimately show "nat nr \<le> length xs"
    using dvd_le_floor [of k "nat nr" "length es"] assms(1,7) by (simp add: nat_le_iff)
  have "length es \<le> 2097152 * 1023"
    unfolding assms(2) by (rule mult_le_mono) (use assms(5,6) in auto)
  moreover have "length xs \<le> length es" using assms(1) by (metis div_times_less_eq_dividend mult.commute)
  ultimately show "int (length xs) < 2 ^ 31" by simp
qed


text \<open>Zeroed memory: static data of a module before its first use.\<close>

definition zero_ds :: mempool_datastore where
  "zero_ds = \<lparr>ds_magic = 0, ds_lock = False, chunk_head = 0, ds_buf = 0, nr_pages = 0, ds_nr_elems = 0,
     ds_elem_len = 0, ds_nostraddle = 0, ds_chunk_size = 0, num_chunks = 0, free_chunks = 0,
     num_locks = 0, prettyname = [], next_ds = 0\<rparr>"

definition zero_pool :: mempool where
  "zero_pool = \<lparr>m_head = 0, num_free = 0, m_elem_len = 0, m_magic = 0, m_buf = 0, datastore = 0,
     private_chunk = 0, sanity = 0, m_nr_elems = 0, m_nostraddle = 0, m_chunk_size = 0\<rparr>"

definition zero_store :: "addr \<Rightarrow> mp_store" where
  "zero_store g = \<lparr>hdrs = \<lambda>_. \<lparr>hnext = g, hnext_chunk = 0\<rparr>, dss = \<lambda>_. zero_ds, mempool_all_datastores = 0\<rparr>"

text \<open>A page allocator that has room for one request of two pages (resp. one page).\<close>

definition two_pages :: "int \<Rightarrow> addr option" where
  "two_pages n = (if n = 4194304 then Some 2097152 else None)"

definition one_page :: "int \<Rightarrow> addr option" where
  "one_page n = (if n = 2097152 then Some 2097152 else None)"

lemma two_pages_good: "good_pages two_pages (zero_store 0)"
  by (simp add: good_pages_def two_pages_def zero_store_def)

lemma align8_2MB: "align8 2097152 = 2097152"
  by (simp add: align8_def)

lemma create_two_pages:
  "\<exists>s'. mempool_create_datastore two_pages (zero_store 0) 64 2 2097152 1 1 ''task'' = Inr (0, s') \<and>
        ds_magic (dss s' 64) = MEMPOOL_MAGIC"
  by (simp add: mempool_create_datastore_def zero_store_def zero_ds_def align8_2MB
      MEMPOOL_INITIAL_OFFSET_def to_u64_def ds_pages_def two_pages_def s32_def c_div_def
      mempool_init_buf_with_pages_def init_pages_def init_page_def init_elem_def Let_def upt_rec [of 0 2] upt_rec [of "Suc 0" 2])


section \<open>Clients of a pool\<close>

text \<open>C3: whatever its clients allocate and give back, in any order, a pool never stops the
  kernel: \<open>mempool_alloc\<close> always returns, it returns NULL exactly when all elements are in
  use, and otherwise an element of the pool that nobody holds.\<close>

theorem mempool_client_safety:
  assumes "client_steps mp_alloc mp_free ((s0, m0), {}) ((s, m), A)" "pool_inv s0 m0 F {}"
  shows "\<exists>p s' m'. mempool_alloc s m = Inr (p, s', m') \<and> (p = 0 \<longleftrightarrow> A = F) \<and>
                   (p \<noteq> 0 \<longrightarrow> p \<in> F \<and> p \<notin> A)"
  using mpool.reachable_alloc [OF assms(1), of F] assms(2)
  by (simp add: mp_rep_def mp_alloc_def)

text \<open>taking any number of elements that are free gives that many distinct elements, and
  giving all of them back, in any order, makes the pool what it was: the same elements are free
  again.\<close>

theorem mempool_roundtrip:
  assumes "pool_inv s m F A" "n \<le> card F"
  shows "\<exists>ps s1 m1. alloc_many mp_alloc n (s, m) = Inr (ps, s1, m1) \<and> length ps = n \<and>
           distinct ps \<and> set ps \<subseteq> F \<and> pool_inv s1 m1 (F - set ps) (A \<union> set ps) \<and>
           (\<forall>qs. mset qs = mset ps \<longrightarrow>
              (\<exists>s2 m2. release_all mp_free qs (s1, m1) = Inr (s2, m2) \<and> pool_inv s2 m2 F A))"
proof -
  from mpool.alloc_many_distinct [of "(s, m)" F A n] assms obtain ps s1 m1 where
    P: "alloc_many mp_alloc n (s, m) = Inr (ps, s1, m1)" "length ps = n" "distinct ps"
       "set ps \<subseteq> F" "pool_inv s1 m1 (F - set ps) (A \<union> set ps)"
    by (auto simp: mp_rep_def)
  have "\<exists>s2 m2. release_all mp_free qs (s1, m1) = Inr (s2, m2) \<and> pool_inv s2 m2 F A"
    if "mset qs = mset ps" for qs
  proof -
    have q: "set qs = set ps" "distinct qs"
      using that P(3) mset_eq_setD mset_eq_imp_distinct_iff by blast+
    have "(F - set ps) \<union> set ps = F" "(A \<union> set ps) - set ps = A"
      using P(4) mpool.rep_sane [of "(s, m)" F A] assms(1) by (auto simp: mp_rep_def)
    then show ?thesis
      using mpool.release_all_restores [of "(s1, m1)" "F - set ps" "A \<union> set ps" qs] P(5) q
      by (auto simp: mp_rep_def)
  qed
  with P show ?thesis by blast
qed

text \<open>A pool with two free elements, one of them in the spare chunk, and one element in use.\<close>

definition demo_store :: mp_store where
  "demo_store = (zero_store 0)\<lparr>dss := (\<lambda>_. zero_ds)(64 := zero_ds\<lparr>chunk_head := 48\<rparr>)\<rparr>"

definition demo_pool :: mempool where
  "demo_pool = zero_pool\<lparr>m_magic := MEMPOOL_MAGIC, datastore := 64, m_head := 0,
     private_chunk := 32, m_chunk_size := 1, num_free := 1\<rparr>"

lemma demo_pool_inv: "pool_inv demo_store demo_pool {32, 48} {}"
  by (rule pool_invI [of _ _ _ _ "[]" "[32]" "[[48]]"])
     (auto simp: pool_counts_def pool_rep_def demo_store_def demo_pool_def zero_store_def zero_ds_def
       zero_pool_def)

theorem mempool_client_safety_witness:
  "\<exists>p s' m'. mempool_alloc demo_store demo_pool = Inr (p, s', m') \<and> p \<in> {32, 48}"
  using mempool_client_safety [OF client_steps.start demo_pool_inv] by auto

theorem mempool_roundtrip_witness:
  "\<exists>ps s1 m1. alloc_many mp_alloc 2 (demo_store, demo_pool) = Inr (ps, s1, m1) \<and> length ps = 2 \<and>
     set ps \<subseteq> {32, 48} \<and>
     (\<exists>s2 m2. release_all mp_free ps (s1, m1) = Inr (s2, m2) \<and> pool_inv s2 m2 {32, 48} {})"
  using mempool_roundtrip [OF demo_pool_inv, of 2] by auto

text \<open>\<open>mempool_create_datastore\<close> does not write the \<open>next\<close> pointer of the last element of a
  chunk and asks for pages that are not zeroed.  Whatever word \<open>g\<close> the page held there, the
  second allocation from a new one-element pool returns \<open>g\<close> as an element, although the pool's
  only element is already in use.\<close>

theorem mempool_unzeroed_pages:
  assumes "g \<noteq> 0"
  shows "\<exists>s' m s1 m1 s2 m2.
     mempool_create_datastore one_page (zero_store g) 64 1 2097152 1 1 ''task'' = Inr (0, s') \<and>
     mempool_create s' zero_pool 64 = Inr (0, m) \<and>
     mempool_alloc s' m = Inr (2097152, s1, m1) \<and> mempool_alloc s1 m1 = Inr (g, s2, m2)"
  using assms
  by (simp add: mempool_create_datastore_def zero_store_def zero_ds_def align8_2MB
      MEMPOOL_INITIAL_OFFSET_def to_u64_def ds_pages_def one_page_def s32_def c_div_def
      mempool_init_buf_with_pages_def init_pages_def init_page_def init_elem_def Let_def
      mempool_create_def zero_pool_def mempool_alloc_def mempool_alloc_2_def)

theorem mempool_unzeroed_pages_witness:
  "\<exists>s' m s1 m1 s2 m2.
     mempool_create_datastore one_page (zero_store 12345) 64 1 2097152 1 1 ''task'' = Inr (0, s') \<and>
     mempool_create s' zero_pool 64 = Inr (0, m) \<and>
     mempool_alloc s' m = Inr (2097152, s1, m1) \<and> mempool_alloc s1 m1 = Inr (12345, s2, m2)"
  using mempool_unzeroed_pages [of 12345] by simp

end
