(* ===== verification/Context.thy ===== *)
theory Context
  imports Mempool
begin

unbundle bit_operations_syntax

text \<open>
  Execution contexts of \<open>src/network/baseline/shinjuku\<close>: the context structure of \<open>common.h\<close> and
  \<open>context.h\<close>, \<open>context_alloc\<close>, \<open>context_free\<close> and \<open>make_kcontext\<close> of \<open>context.c\<close>, and the
  register switch of \<open>context_fast.S\<close>.  A context is an element of one pool, its stack an
  element of another; both pools live in one store.  The memory of contexts is kept apart from
  the pools' headers, which share the first bytes of an element only while it is free.
\<close>

section \<open>Data\<close>

datatype reg = RA | SP | GP | TP
  | S0 | S1 | S2 | S3 | S4 | S5 | S6 | S7 | S8 | S9 | S10 | S11
  | A0 | A1 | A2 | A3 | A4 | A5 | A6 | A7
  | T0 | T1 | T2 | T3 | T4 | T5 | T6 | SSTATUS

definition REG_NUMS :: nat where "REG_NUMS = 64"
definition SHINJUKU_THREAD_STACK_SIZE :: u64 where "SHINJUKU_THREAD_STACK_SIZE = 8192"
definition KCTX_SIZE :: nat where "KCTX_SIZE = 0x100"

text \<open>\<open>O_REG_*\<close>: the offset of a register in \<open>regs\<close>, in bytes.\<close>

fun O_REG :: "reg \<Rightarrow> nat" where
  "O_REG RA = 0x00" | "O_REG SP = 0x08" | "O_REG GP = 0x10" | "O_REG TP = 0x18"
| "O_REG S0 = 0x20" | "O_REG S1 = 0x28" | "O_REG S2 = 0x30" | "O_REG S3 = 0x38"
| "O_REG S4 = 0x40" | "O_REG S5 = 0x48" | "O_REG S6 = 0x50" | "O_REG S7 = 0x58"
| "O_REG S8 = 0x60" | "O_REG S9 = 0x68" | "O_REG S10 = 0x70" | "O_REG S11 = 0x78"
| "O_REG A0 = 0x80" | "O_REG A1 = 0x88" | "O_REG A2 = 0x90" | "O_REG A3 = 0x98"
| "O_REG A4 = 0xA0" | "O_REG A5 = 0xA8" | "O_REG A6 = 0xB0" | "O_REG A7 = 0xB8"
| "O_REG T0 = 0xC0" | "O_REG T1 = 0xC8" | "O_REG T2 = 0xD0" | "O_REG T3 = 0xD8"
| "O_REG T4 = 0xE0" | "O_REG T5 = 0xE8" | "O_REG T6 = 0xF0" | "O_REG SSTATUS = 0xF8"

record kcontext =
  regs :: "u64 list"
  stack_base :: addr

type_synonym cpu_regs = "reg \<Rightarrow> u64"

text \<open>The module's pools and the contexts in memory.\<close>

record ctx_state =
  cstore :: mp_store
  context_pool :: mempool
  stack_pool :: mempool
  kctx :: "addr \<Rightarrow> kcontext"

section \<open>Allocation (\<open>context.c\<close>)\<close>

definition context_alloc :: "ctx_state \<Rightarrow> (int \<times> addr \<times> ctx_state) res" where
  "context_alloc st =
    and_then (mempool_alloc (cstore st) (context_pool st)) (\<lambda>(cont, s1, cp1).
      let st1 = st\<lparr>cstore := s1, context_pool := cp1\<rparr>
      in if cont = 0 then Inr (-1, cont, st1)
         else and_then (mempool_alloc s1 (stack_pool st)) (\<lambda>(stack, s2, sp2).
           let st2 = st1\<lparr>cstore := s2, stack_pool := sp2\<rparr>
           in if stack = 0
              then and_then (mempool_free s2 cp1 cont) (\<lambda>(s3, cp3).
                     Inr (-1, cont, st2\<lparr>cstore := s3, context_pool := cp3\<rparr>))
              else Inr (0, cont, st2\<lparr>kctx := (kctx st2)(cont := (kctx st2 cont)\<lparr>stack_base := stack\<rparr>)\<rparr>)))"

definition context_free :: "ctx_state \<Rightarrow> addr \<Rightarrow> ctx_state res" where
  "context_free st c =
    (if c = 0 then Inl Null_Deref
     else and_then (mempool_free (cstore st) (stack_pool st) (stack_base (kctx st c))) (\<lambda>(s1, sp1).
          and_then (mempool_free s1 (context_pool st) c) (\<lambda>(s2, cp2).
          Inr (st\<lparr>cstore := s2, stack_pool := sp1, context_pool := cp2\<rparr>))))"

definition set_context_link :: "addr \<Rightarrow> addr \<Rightarrow> ctx_state \<Rightarrow> ctx_state" where
  "set_context_link c uc_link st = st"

section \<open>Registers\<close>

text \<open>\<open>c->regs[O_REG_r / 8] = v\<close>, also what \<open>sd r, O_REG_r(base)\<close> does.\<close>

definition store_reg :: "reg \<Rightarrow> u64 \<Rightarrow> kcontext \<Rightarrow> kcontext" where
  "store_reg r v c = c\<lparr>regs := (regs c)[O_REG r div 8 := v]\<rparr>"

definition load_reg :: "kcontext \<Rightarrow> reg \<Rightarrow> u64" where
  "load_reg c r = regs c ! (O_REG r div 8)"

text \<open>\<open>make_kcontext\<close>: the processor's \<open>sstatus\<close> and \<open>gp\<close> are read from its registers.\<close>

definition make_kcontext :: "cpu_regs \<Rightarrow> kcontext \<Rightarrow> addr \<Rightarrow> u64 \<Rightarrow> u64 \<Rightarrow> u64 \<Rightarrow> u64 \<Rightarrow> kcontext" where
  "make_kcontext cpu c func arg0 arg1 arg2 arg3 =
    (let stack_top = stack_base c + SHINJUKU_THREAD_STACK_SIZE;
         c = store_reg SP (stack_top AND NOT 0xF) c;
         c = store_reg RA func c;
         c = store_reg A0 arg0 c;
         c = store_reg A1 arg1 c;
         c = store_reg A2 arg2 c;
         c = store_reg A3 arg3 c;
         c = store_reg SSTATUS (cpu SSTATUS) c
     in store_reg GP (cpu GP) c)"

text \<open>The instructions of \<open>context_fast.S\<close>.  \<open>Sd r\<close> stores to the context \<open>a0\<close> points to,
  \<open>Ld r\<close> loads from the context \<open>a1\<close> points to.\<close>

datatype instr = Sd reg | Ld reg | Csrr_T0 | Sd_T0_sstatus | Ld_T0_sstatus | Csrw_T0 | Li_A0

record machine =
  cpu :: cpu_regs
  kmem :: "addr \<Rightarrow> kcontext"

fun exec :: "instr \<Rightarrow> machine \<Rightarrow> machine" where
  "exec (Sd r) s = s\<lparr>kmem := (kmem s)(cpu s A0 := store_reg r (cpu s r) (kmem s (cpu s A0)))\<rparr>"
| "exec (Ld r) s = s\<lparr>cpu := (cpu s)(r := load_reg (kmem s (cpu s A1)) r)\<rparr>"
| "exec Csrr_T0 s = s\<lparr>cpu := (cpu s)(T0 := cpu s SSTATUS)\<rparr>"
| "exec Sd_T0_sstatus s =
     s\<lparr>kmem := (kmem s)(cpu s A0 := store_reg SSTATUS (cpu s T0) (kmem s (cpu s A0)))\<rparr>"
| "exec Ld_T0_sstatus s = s\<lparr>cpu := (cpu s)(T0 := load_reg (kmem s (cpu s A1)) SSTATUS)\<rparr>"
| "exec Csrw_T0 s = s\<lparr>cpu := (cpu s)(SSTATUS := cpu s T0)\<rparr>"
| "exec Li_A0 s = s\<lparr>cpu := (cpu s)(A0 := 0)\<rparr>"

definition save_code :: "instr list" where
  "save_code = map Sd [RA, SP, GP, TP,
     S0, S1, S2, S3, S4, S5, S6, S7, S8, S9, S10, S11,
     A0, A1, A2, A3, A4, A5, A6, A7, T0, T1, T2, T3, T4, T5, T6] @ [Csrr_T0, Sd_T0_sstatus]"

definition load_code :: "instr list" where
  "load_code = [Ld_T0_sstatus, Csrw_T0, Ld SP] @
     map Ld [S0, S1, S2, S3, S4, S5, S6, S7, S8, S9, S10, S11, RA, A2, A3,
             T0, T1, T2, T3, T4, T5, T6, A1]"

definition run :: "instr list \<Rightarrow> machine \<Rightarrow> machine" where
  "run code s = fold exec code s"

text \<open>The calls: the arguments are in \<open>a0\<close> and \<open>a1\<close>; a store through a null pointer faults.
  \<open>ret\<close> continues at \<open>ra\<close>.\<close>

definition getcontext_fast :: "machine \<Rightarrow> addr \<Rightarrow> machine res" where
  "getcontext_fast s ucp =
    (let s = s\<lparr>cpu := (cpu s)(A0 := ucp)\<rparr>
     in if ucp = 0 then Inl Null_Deref else Inr (run (save_code @ [Li_A0]) s))"

definition swapcontext_very_fast :: "machine \<Rightarrow> addr \<Rightarrow> addr \<Rightarrow> machine res" where
  "swapcontext_very_fast s ouctx uctx =
    (let s = s\<lparr>cpu := (cpu s)(A0 := ouctx, A1 := uctx)\<rparr>
     in if ouctx = 0 \<or> uctx = 0 then Inl Null_Deref
        else Inr (run (save_code @ load_code @ [Li_A0]) s))"

section \<open>What the switch does\<close>

definition ctx_wf :: "kcontext \<Rightarrow> bool" where
  "ctx_wf c \<longleftrightarrow> length (regs c) = REG_NUMS"

lemma O_REG_slot [simp]: "O_REG r div 8 < 64"
  by (cases r) auto

lemma O_REG_inj: "O_REG r div 8 = O_REG r' div 8 \<longleftrightarrow> r = r'"
  by (cases r; cases r'; simp)

lemma store_reg_wf [simp]: "ctx_wf (store_reg r v c) = ctx_wf c"
  by (simp add: ctx_wf_def store_reg_def)

lemma store_reg_stack [simp]: "stack_base (store_reg r v c) = stack_base c"
  by (simp add: store_reg_def)

lemma load_store_reg:
  "ctx_wf c \<Longrightarrow> load_reg (store_reg r v c) r' = (if r' = r then v else load_reg c r')"
  using O_REG_inj [of r r'] by (auto simp: ctx_wf_def store_reg_def load_reg_def REG_NUMS_def nth_list_update)

text \<open>The contents of a context after the saves, by register: what the processor held.\<close>

lemma run_save:
  assumes "ctx_wf (kmem s (cpu s A0))"
  defines "s' \<equiv> run save_code s"
  shows "load_reg (kmem s' (cpu s A0)) r = cpu s r"
    and "c \<noteq> cpu s A0 \<Longrightarrow> kmem s' c = kmem s c"
    and "ctx_wf (kmem s' (cpu s A0))"
    and "stack_base (kmem s' (cpu s A0)) = stack_base (kmem s (cpu s A0))"
    and "cpu s' = (cpu s)(T0 := cpu s SSTATUS)"
  using assms(1)
  by (cases r; simp add: s'_def run_def save_code_def load_store_reg)
     (simp_all add: s'_def run_def save_code_def assms(1))

definition kept_regs :: "reg list" where "kept_regs = [GP, TP, A4, A5, A6, A7]"

lemma run_load:
  fixes s :: machine
  defines "c \<equiv> kmem s (cpu s A1)"
  defines "s' \<equiv> run (load_code @ [Li_A0]) s"
  shows "kmem s' = kmem s"
    and "cpu s' r = (if r = A0 then 0 else if r \<in> set kept_regs then cpu s r else load_reg c r)"
  by (simp_all add: s'_def c_def run_def load_code_def)
     (cases r; simp add: kept_regs_def)

lemma swap_regs:
  assumes "swapcontext_very_fast s ou uc = Inr s'" "ctx_wf (kmem s ou)" "ou \<noteq> uc"
  shows "ou \<noteq> 0" "uc \<noteq> 0"
    and "load_reg (kmem s' ou) r = (if r = A0 then ou else if r = A1 then uc else cpu s r)"
    and "c \<noteq> ou \<Longrightarrow> kmem s' c = kmem s c"
    and "ctx_wf (kmem s' ou)" "stack_base (kmem s' ou) = stack_base (kmem s ou)"
    and "cpu s' r = (if r = A0 then 0 else if r \<in> set kept_regs then cpu s r
                     else load_reg (kmem s uc) r)"
proof -
  let ?s0 = "s\<lparr>cpu := (cpu s)(A0 := ou, A1 := uc)\<rparr>"
  let ?s1 = "run save_code ?s0"
  from assms(1) show "ou \<noteq> 0" "uc \<noteq> 0"
    by (auto simp: swapcontext_very_fast_def Let_def split: if_splits)
  have s': "s' = run (load_code @ [Li_A0]) ?s1"
    using assms(1) by (auto simp: swapcontext_very_fast_def Let_def run_def split: if_splits)
  have wf: "ctx_wf (kmem ?s0 (cpu ?s0 A0))" using assms(2) by simp
  note S = run_save [OF wf] and L = run_load [of ?s1]
  have c1: "cpu ?s1 = (cpu ?s0)(T0 := cpu s SSTATUS)" using S(5) by simp
  show "load_reg (kmem s' ou) r = (if r = A0 then ou else if r = A1 then uc else cpu s r)"
    using S(1) [of r] by (simp add: s' L(1))
  show "c \<noteq> ou \<Longrightarrow> kmem s' c = kmem s c" using S(2) [of c] by (simp add: s' L(1))
  show "ctx_wf (kmem s' ou)" "stack_base (kmem s' ou) = stack_base (kmem s ou)"
    using S(3,4) by (simp_all add: s' L(1))
  have "kmem ?s1 uc = kmem s uc" using S(2) [of uc] assms(3) by simp
  then show "cpu s' r = (if r = A0 then 0 else if r \<in> set kept_regs then cpu s r
                     else load_reg (kmem s uc) r)"
    unfolding s' L(2) c1 by (simp add: kept_regs_def)
qed

lemma swap_returns: "ou \<noteq> 0 \<Longrightarrow> uc \<noteq> 0 \<Longrightarrow> \<exists>s'. swapcontext_very_fast s ou uc = Inr s'"
  by (simp add: swapcontext_very_fast_def Let_def)

text \<open>C5: a switch away from a context and a later switch back to it restore the stack pointer,
  the return address, the callee-saved registers, the temporaries and the status register,
  whatever ran in between, as long as it left the context's memory alone; \<open>a0\<close> is 0, the return
  value of the call.\<close>

theorem swapcontext_roundtrip:
  assumes "swapcontext_very_fast s ou uc = Inr s1" "ctx_wf (kmem s ou)" "ou \<noteq> uc"
    and "kmem s2 ou = kmem s1 ou" "ctx_wf (kmem s2 ou2)" "ou2 \<noteq> ou" "ou2 \<noteq> 0"
  shows "\<exists>s3. swapcontext_very_fast s2 ou2 ou = Inr s3 \<and> cpu s3 A0 = 0 \<and>
           (\<forall>r. r \<notin> {A0, A1} \<union> set kept_regs \<longrightarrow> cpu s3 r = cpu s r) \<and>
           (\<forall>c. c \<noteq> ou2 \<longrightarrow> kmem s3 c = kmem s2 c)"
proof -
  note S1 = swap_regs [OF assms(1-3)]
  obtain s3 where s3: "swapcontext_very_fast s2 ou2 ou = Inr s3"
    using swap_returns [OF assms(7) S1(1)] by blast
  note S3 = swap_regs [OF s3 assms(5,6)]
  have "cpu s3 r = cpu s r" if "r \<notin> {A0, A1} \<union> set kept_regs" for r
    using that S3(7) [of r] S1(3) [of r] assms(4) by auto
  with s3 S3(4,7) show ?thesis by (intro exI [of _ s3]) auto
qed

lemma make_kcontext_regs:
  assumes "ctx_wf c"
  shows "ctx_wf (make_kcontext r c f x0 x1 x2 x3)"
    and "load_reg (make_kcontext r c f x0 x1 x2 x3) RA = f"
    and "load_reg (make_kcontext r c f x0 x1 x2 x3) SP = (stack_base c + 8192) AND NOT 0xF"
    and "load_reg (make_kcontext r c f x0 x1 x2 x3) A0 = x0"
    and "load_reg (make_kcontext r c f x0 x1 x2 x3) A1 = x1"
    and "load_reg (make_kcontext r c f x0 x1 x2 x3) A2 = x2"
    and "load_reg (make_kcontext r c f x0 x1 x2 x3) A3 = x3"
    and "load_reg (make_kcontext r c f x0 x1 x2 x3) SSTATUS = r SSTATUS"
    and "load_reg (make_kcontext r c f x0 x1 x2 x3) GP = r GP"
  using assms by (simp_all add: make_kcontext_def load_store_reg Let_def SHINJUKU_THREAD_STACK_SIZE_def)

text \<open>the first switch into a context that \<open>make_kcontext\<close> prepared starts \<open>func\<close> (the value
  of \<open>ra\<close>) on the context's own stack with the second to fourth argument in \<open>a1\<close> to \<open>a3\<close>,
  but the first argument does not arrive: \<open>a0\<close> holds the return value 0 of the switch,
  whatever \<open>arg0\<close> was.\<close>

theorem fresh_context_entry:
  assumes "ctx_wf c" "ou \<noteq> 0" "uc \<noteq> 0" "ou \<noteq> uc" "ctx_wf (kmem s ou)"
    and "kmem s uc = make_kcontext (cpu s) c func arg0 arg1 arg2 arg3"
  shows "\<exists>s'. swapcontext_very_fast s ou uc = Inr s' \<and> cpu s' RA = func \<and>
           cpu s' SP = (stack_base c + 8192) AND NOT 0xF \<and> cpu s' A0 = 0 \<and>
           cpu s' A1 = arg1 \<and> cpu s' A2 = arg2 \<and> cpu s' A3 = arg3 \<and>
           cpu s' SSTATUS = cpu s SSTATUS \<and> cpu s' GP = cpu s GP"
proof -
  obtain s' where s': "swapcontext_very_fast s ou uc = Inr s'"
    using swap_returns [OF assms(2,3)] by blast
  note S = swap_regs(7) [OF s' assms(5,4)]
  show ?thesis
    using s' assms(6) make_kcontext_regs [OF assms(1)] by (simp add: S kept_regs_def)
qed

text \<open>A machine with contexts of 64 zero registers.\<close>

definition blank_ctx :: "addr \<Rightarrow> kcontext" where
  "blank_ctx b = \<lparr>regs = replicate 64 0, stack_base = b\<rparr>"

definition blank_machine :: machine where
  "blank_machine = \<lparr>cpu = \<lambda>r. if r = S0 then 7 else if r = SP then 4096 else 0, kmem = \<lambda>_. blank_ctx 0\<rparr>"

lemma blank_wf [simp]: "ctx_wf (blank_ctx b)" "ctx_wf (kmem blank_machine c)"
  by (simp_all add: ctx_wf_def blank_ctx_def blank_machine_def REG_NUMS_def)

lemma blank_stack [simp]: "stack_base (blank_ctx b) = b"
  by (simp add: blank_ctx_def)

theorem swapcontext_roundtrip_witness:
  "\<exists>s1 s3. swapcontext_very_fast blank_machine 512 1536 = Inr s1 \<and>
     swapcontext_very_fast s1 1536 512 = Inr s3 \<and> cpu s3 S0 = 7 \<and> cpu s3 SP = 4096"
proof -
  obtain s1 where s1: "swapcontext_very_fast blank_machine 512 1536 = Inr s1"
    using swap_returns [of 512 1536 blank_machine] by auto
  have "ctx_wf (kmem s1 1536)" using swap_regs(4) [OF s1, of 1536] by simp
  from swapcontext_roundtrip [OF s1 _ _ refl this] obtain s3 where
    "swapcontext_very_fast s1 1536 512 = Inr s3"
    "\<forall>r. r \<notin> {A0, A1} \<union> set kept_regs \<longrightarrow> cpu s3 r = cpu blank_machine r" by auto
  then show ?thesis using s1 by (auto simp: kept_regs_def blank_machine_def)
qed

theorem fresh_context_entry_witness:
  "\<exists>s'. swapcontext_very_fast (blank_machine\<lparr>kmem := (kmem blank_machine)
          (1536 := make_kcontext (cpu blank_machine) (blank_ctx 8192) 999 42 1 2 3)\<rparr>) 512 1536 = Inr s' \<and>
        cpu s' RA = 999 \<and> cpu s' SP = 16384 \<and> cpu s' A0 = 0 \<and> cpu s' A1 = 1"
  using fresh_context_entry [of "blank_ctx 8192" 512 1536
      "blank_machine\<lparr>kmem := (kmem blank_machine)
          (1536 := make_kcontext (cpu blank_machine) (blank_ctx 8192) 999 42 1 2 3)\<rparr>" 999 42 1 2 3]
  by auto

section \<open>Contexts and their stacks\<close>

text \<open>\<open>FC\<close>/\<open>AC\<close> are the free and used contexts, \<open>FS\<close>/\<open>AS\<close> the free and used stacks.  The two
  pools share no element and no datastore, and every context in use owns one stack in use.\<close>

definition ctx_inv :: "ctx_state \<Rightarrow> addr set \<Rightarrow> addr set \<Rightarrow> addr set \<Rightarrow> addr set \<Rightarrow> bool" where
  "ctx_inv st FC AC FS AS \<longleftrightarrow>
     pool_inv (cstore st) (context_pool st) FC AC \<and> pool_inv (cstore st) (stack_pool st) FS AS \<and>
     datastore (context_pool st) \<noteq> datastore (stack_pool st) \<and>
     (FC \<union> AC) \<inter> (FS \<union> AS) = {} \<and> bij_betw (\<lambda>c. stack_base (kctx st c)) AC AS"

lemma ctx_invD:
  assumes "ctx_inv st FC AC FS AS"
  shows "pool_inv (cstore st) (context_pool st) FC AC" "pool_inv (cstore st) (stack_pool st) FS AS"
    and "datastore (context_pool st) \<noteq> datastore (stack_pool st)" "(FC \<union> AC) \<inter> (FS \<union> AS) = {}"
    and "bij_betw (\<lambda>c. stack_base (kctx st c)) AC AS"
  using assms by (auto simp: ctx_inv_def)

lemma pool_inv_null: "pool_inv s m F A \<Longrightarrow> 0 \<notin> F \<union> A" and pool_inv_disj: "pool_inv s m F A \<Longrightarrow> F \<inter> A = {}"
  by (simp_all add: pool_inv_def pool_counts_def)

lemma mempool_alloc_frame:
  assumes "pool_inv s m F A" "pool_inv s m2 F2 B2" "datastore m \<noteq> datastore m2"
  obtains p s' m' where "mempool_alloc s m = Inr (p, s', m')" "datastore m' = datastore m"
    "pool_inv s' m2 F2 B2"
    "if F = {} then p = 0 \<and> pool_inv s' m' {} A else p \<in> F \<and> pool_inv s' m' (F - {p}) (insert p A)"
proof -
  from mempool_alloc_ok [OF assms(1)] obtain p s' m' where
    P: "mempool_alloc s m = Inr (p, s', m')" "datastore m' = datastore m" "hdrs s' = hdrs s"
       "\<forall>d. d \<noteq> datastore m \<longrightarrow> dss s' d = dss s d"
       "if F = {} then p = 0 \<and> pool_inv s' m' {} A else p \<in> F \<and> pool_inv s' m' (F - {p}) (insert p A)"
    by blast
  have "pool_inv s' m2 F2 B2"
    by (rule pool_inv_frame [OF assms(2)]) (use P(3,4) assms(3) in auto)
  with P that show ?thesis by blast
qed

lemma mempool_free_frame:
  assumes "pool_inv s m F A" "p \<in> A" "pool_inv s m2 F2 B2" "datastore m \<noteq> datastore m2"
    and "(F \<union> A) \<inter> F2 = {}"
  obtains s' m' where "mempool_free s m p = Inr (s', m')" "datastore m' = datastore m"
    "pool_inv s' m2 F2 B2" "pool_inv s' m' (insert p F) (A - {p})"
proof -
  from mempool_free_ok [OF assms(1,2)] obtain s' m' where
    P: "mempool_free s m p = Inr (s', m')" "datastore m' = datastore m"
       "\<forall>a. a \<notin> insert p F \<longrightarrow> hdrs s' a = hdrs s a"
       "\<forall>d. d \<noteq> datastore m \<longrightarrow> dss s' d = dss s d" "pool_inv s' m' (insert p F) (A - {p})"
    by blast
  have "pool_inv s' m2 F2 B2"
    by (rule pool_inv_frame [OF assms(3)]) (use P(3,4) assms(2,4,5) in auto)
  with P that show ?thesis by blast
qed

lemma bij_betw_fun_upd_new:
  "bij_betw f A B \<Longrightarrow> a \<notin> A \<Longrightarrow> b \<notin> B \<Longrightarrow> bij_betw (f(a := b)) (insert a A) (insert b B)"
  by (auto simp: bij_betw_def inj_on_def)

lemma bij_betw_remove:
  "bij_betw f A B \<Longrightarrow> a \<in> A \<Longrightarrow> bij_betw f (A - {a}) (B - {f a})"
  by (auto simp: bij_betw_def inj_on_def)

lemma context_alloc_inv:
  assumes "ctx_inv st FC AC FS AS"
  shows "\<exists>ret c st'. context_alloc st = Inr (ret, c, st') \<and>
           (if FC = {} \<or> FS = {} then ret = -1 \<and> ctx_inv st' FC AC FS AS
            else ret = 0 \<and> c \<in> FC \<and> stack_base (kctx st' c) \<in> FS \<and>
                 ctx_inv st' (FC - {c}) (insert c AC)
                   (FS - {stack_base (kctx st' c)}) (insert (stack_base (kctx st' c)) AS))"
proof -
  note I = ctx_invD [OF assms]
  obtain c s1 cp1 where C: "mempool_alloc (cstore st) (context_pool st) = Inr (c, s1, cp1)"
    "datastore cp1 = datastore (context_pool st)" "pool_inv s1 (stack_pool st) FS AS"
    "if FC = {} then c = 0 \<and> pool_inv s1 cp1 {} AC else c \<in> FC \<and> pool_inv s1 cp1 (FC - {c}) (insert c AC)"
    by (rule mempool_alloc_frame [OF I(1-3)])
  show ?thesis
  proof (cases "FC = {}")
    case True
    then show ?thesis using C I by (auto simp: context_alloc_def ctx_inv_def Let_def)
  next
    case False
    with C have c: "c \<in> FC" "pool_inv s1 cp1 (FC - {c}) (insert c AC)" by auto
    have c0: "c \<noteq> 0" "c \<notin> AC" using pool_inv_null [OF I(1)] pool_inv_disj [OF I(1)] c(1) by auto
    have d: "datastore (stack_pool st) \<noteq> datastore cp1" using I(3) C(2) by simp
    obtain k s2 sp2 where K: "mempool_alloc s1 (stack_pool st) = Inr (k, s2, sp2)"
      "datastore sp2 = datastore (stack_pool st)" "pool_inv s2 cp1 (FC - {c}) (insert c AC)"
      "if FS = {} then k = 0 \<and> pool_inv s2 sp2 {} AS else k \<in> FS \<and> pool_inv s2 sp2 (FS - {k}) (insert k AS)"
      by (rule mempool_alloc_frame [OF C(3) c(2) d])
    show ?thesis
    proof (cases "FS = {}")
      case True
      with K have k: "k = 0" "pool_inv s2 sp2 {} AS" by auto
      obtain s3 cp3 where R: "mempool_free s2 cp1 c = Inr (s3, cp3)" "datastore cp3 = datastore cp1"
        "pool_inv s3 sp2 {} AS" "pool_inv s3 cp3 (insert c (FC - {c})) (insert c AC - {c})"
        by (rule mempool_free_frame [OF K(3) _ k(2)]) (use d K(2) in auto)
      have "insert c (FC - {c}) = FC" "insert c AC - {c} = AC" using c(1) c0(2) by auto
      with R(4) have "pool_inv s3 cp3 FC AC" by simp
      with True C(1,2) c0 K(1,2) k R(1-3) I show ?thesis
        by (auto simp: context_alloc_def ctx_inv_def Let_def)
    next
      case False
      with K have k: "k \<in> FS" "pool_inv s2 sp2 (FS - {k}) (insert k AS)" by auto
      have k0: "k \<noteq> 0" "k \<notin> AS" using pool_inv_null [OF I(2)] pool_inv_disj [OF I(2)] k(1) by auto
      let ?st = "st\<lparr>cstore := s2, context_pool := cp1, stack_pool := sp2,
          kctx := (kctx st)(c := (kctx st c)\<lparr>stack_base := k\<rparr>)\<rparr>"
      have "bij_betw ((\<lambda>c. stack_base (kctx st c))(c := k)) (insert c AC) (insert k AS)"
        by (rule bij_betw_fun_upd_new [OF I(5) c0(2) k0(2)])
      moreover have "(\<lambda>c. stack_base (kctx st c))(c := k) = (\<lambda>x. stack_base (kctx ?st x))" by auto
      ultimately have "ctx_inv ?st (FC - {c}) (insert c AC) (FS - {k}) (insert k AS)"
        using K(2,3) k c(1) C(2) I(3,4) by (auto simp: ctx_inv_def)
      moreover have "context_alloc st = Inr (0, c, ?st)"
        using C(1) c0 K(1) k0 by (simp add: context_alloc_def Let_def)
      ultimately show ?thesis using \<open>FC \<noteq> {}\<close> False c(1) k(1) by auto
    qed
  qed
qed

lemma context_free_inv:
  assumes "ctx_inv st FC AC FS AS" "c \<in> AC"
  shows "\<exists>st'. context_free st c = Inr st' \<and> kctx st' = kctx st \<and>
           ctx_inv st' (insert c FC) (AC - {c})
             (insert (stack_base (kctx st c)) FS) (AS - {stack_base (kctx st c)})"
proof -
  note I = ctx_invD [OF assms(1)]
  let ?k = "stack_base (kctx st c)"
  have k: "?k \<in> AS" using I(5) assms(2) by (auto simp: bij_betw_def)
  have c0: "c \<noteq> 0" using pool_inv_null [OF I(1)] assms(2) by auto
  obtain s1 sp1 where K: "mempool_free (cstore st) (stack_pool st) ?k = Inr (s1, sp1)"
    "datastore sp1 = datastore (stack_pool st)" "pool_inv s1 (context_pool st) FC AC"
    "pool_inv s1 sp1 (insert ?k FS) (AS - {?k})"
    by (rule mempool_free_frame [OF I(2) k I(1)]) (use I in auto)
  obtain s2 cp2 where C: "mempool_free s1 (context_pool st) c = Inr (s2, cp2)"
    "datastore cp2 = datastore (context_pool st)" "pool_inv s2 sp1 (insert ?k FS) (AS - {?k})"
    "pool_inv s2 cp2 (insert c FC) (AC - {c})"
    by (rule mempool_free_frame [OF K(3) assms(2) K(4)]) (use I K(2) k assms(2) in auto)
  show ?thesis
    using K C c0 I(3-5) k assms(2) bij_betw_remove [OF I(5) assms(2)]
    by (auto simp: context_free_def ctx_inv_def Let_def)
qed

section \<open>Contexts as an element pool\<close>

text \<open>\<open>context_alloc\<close> as its callers use it (the context, or null when the result is not 0), and
  the pool of contexts for which there are as many stacks as contexts.\<close>

definition ctx_get :: "ctx_state \<Rightarrow> (addr \<times> ctx_state) res" where
  "ctx_get st = and_then (context_alloc st) (\<lambda>(ret, c, st'). Inr (if ret = 0 then c else 0, st'))"

definition ctx_rep :: "ctx_state \<Rightarrow> addr set \<Rightarrow> addr set \<Rightarrow> bool" where
  "ctx_rep st F A \<longleftrightarrow> (\<exists>FS AS. ctx_inv st F A FS AS \<and> card FS = card F)"

interpretation ctxs: element_pool ctx_get context_free ctx_rep
proof unfold_locales
  fix st F A
  assume "ctx_rep st F A"
  then show "finite F \<and> F \<inter> A = {} \<and> 0 \<notin> F \<union> A"
    by (auto simp: ctx_rep_def ctx_inv_def pool_inv_def pool_counts_def)
next
  fix st F A
  assume "ctx_rep st F A" and ne: "F \<noteq> {}"
  then obtain FS AS where I: "ctx_inv st F A FS AS" "card FS = card F" by (auto simp: ctx_rep_def)
  have fin: "finite F" "finite FS" using I by (auto simp: ctx_inv_def pool_inv_def pool_counts_def)
  with I(2) ne have "FS \<noteq> {}" by auto
  with context_alloc_inv [OF I(1)] ne obtain c st' where
    C: "context_alloc st = Inr (0, c, st')" "c \<in> F" "stack_base (kctx st' c) \<in> FS"
       "ctx_inv st' (F - {c}) (insert c A) (FS - {stack_base (kctx st' c)}) (insert (stack_base (kctx st' c)) AS)"
    by auto
  moreover have "card (FS - {stack_base (kctx st' c)}) = card (F - {c})" using C(2,3) fin I(2) by simp
  ultimately show "\<exists>p st'. ctx_get st = Inr (p, st') \<and> p \<in> F \<and> ctx_rep st' (F - {p}) (insert p A)"
    unfolding ctx_rep_def by (intro exI [of _ c] exI [of _ st']) (auto simp: ctx_get_def)
next
  fix st A
  assume "ctx_rep st {} A"
  then obtain FS AS where I: "ctx_inv st {} A FS AS" "card FS = card {}" by (auto simp: ctx_rep_def)
  with context_alloc_inv [OF I(1)] show "\<exists>st'. ctx_get st = Inr (0, st') \<and> ctx_rep st' {} A"
    by (auto simp: ctx_get_def ctx_rep_def)
next
  fix st F A p
  assume "ctx_rep st F A" and p: "p \<in> A"
  then obtain FS AS where I: "ctx_inv st F A FS AS" "card FS = card F" by (auto simp: ctx_rep_def)
  from context_free_inv [OF I(1) p] obtain st' where C: "context_free st p = Inr st'"
    "ctx_inv st' (insert p F) (A - {p}) (insert (stack_base (kctx st p)) FS) (AS - {stack_base (kctx st p)})"
    by blast
  have d: "p \<notin> F" "stack_base (kctx st p) \<notin> FS" "finite F" "finite FS"
    using I(1) p pool_inv_disj [OF ctx_invD(1) [OF I(1)]] pool_inv_disj [OF ctx_invD(2) [OF I(1)]]
    by (auto simp: ctx_inv_def bij_betw_def pool_inv_def pool_counts_def)
  with I(2) have "card (insert (stack_base (kctx st p)) FS) = card (insert p F)" by simp
  with C show "\<exists>st'. context_free st p = Inr st' \<and> ctx_rep st' (insert p F) (A - {p})"
    by (auto simp: ctx_rep_def)
qed

text \<open>C6: \<open>context_alloc\<close> always returns on well-formed pools.  It fails exactly when no context or
  no stack is free, and then nothing is lost: the same contexts and stacks are free afterwards.
  Otherwise it hands out a free context with a free stack of its own.\<close>

theorem context_alloc_ok:
  assumes "ctx_inv st FC AC FS AS"
  shows "\<exists>ret c st'. context_alloc st = Inr (ret, c, st') \<and>
           (if FC = {} \<or> FS = {} then ret = -1 \<and> ctx_inv st' FC AC FS AS
            else ret = 0 \<and> c \<in> FC \<and> stack_base (kctx st' c) \<in> FS \<and>
                 ctx_inv st' (FC - {c}) (insert c AC)
                   (FS - {stack_base (kctx st' c)}) (insert (stack_base (kctx st' c)) AS))"
  using context_alloc_inv [OF assms] .

text \<open>contexts obtained in any number are distinct and each can be given back:
  \<open>context_free\<close> of all of them, in the order they were obtained, makes every context and stack
  available again.\<close>

theorem context_roundtrip:
  assumes "ctx_inv st FC AC FS AS" "card FS = card FC" "n \<le> card FC"
  shows "\<exists>cs st1 st2 FS2 AS2. alloc_many ctx_get n st = Inr (cs, st1) \<and> length cs = n \<and>
           distinct cs \<and> set cs \<subseteq> FC \<and> release_all context_free cs st1 = Inr st2 \<and>
           ctx_inv st2 FC AC FS2 AS2 \<and> card FS2 = card FC"
proof -
  have rep: "ctx_rep st FC AC" using assms by (auto simp: ctx_rep_def)
  from ctxs.alloc_many_distinct [OF rep assms(3)] obtain cs st1 where
    C: "alloc_many ctx_get n st = Inr (cs, st1)" "length cs = n" "distinct cs" "set cs \<subseteq> FC"
       "ctx_rep st1 (FC - set cs) (AC \<union> set cs)" by blast
  from ctxs.release_all_restores [OF C(5,3)] obtain st2 where
    R: "release_all context_free cs st1 = Inr st2"
       "ctx_rep st2 (FC - set cs \<union> set cs) (AC \<union> set cs - set cs)" by blast
  have "FC - set cs \<union> set cs = FC" "AC \<union> set cs - set cs = AC"
    using C(4) ctxs.rep_sane [OF rep] by auto
  with R(2) have "ctx_rep st2 FC AC" by simp
  with C R(1) show ?thesis unfolding ctx_rep_def by blast
qed

text \<open>Pools with one free context and one free stack, none in use.\<close>

definition demo_ctxs :: ctx_state where
  "demo_ctxs = \<lparr>cstore = zero_store 0,
     context_pool = zero_pool\<lparr>m_magic := MEMPOOL_MAGIC, datastore := 64, m_head := 512,
                              m_chunk_size := 1, num_free := 1\<rparr>,
     stack_pool = zero_pool\<lparr>m_magic := MEMPOOL_MAGIC, datastore := 128, m_head := 8192,
                            m_chunk_size := 1, num_free := 1\<rparr>,
     kctx = \<lambda>_. blank_ctx 0\<rparr>"

lemma demo_ctxs_inv: "ctx_inv demo_ctxs {512} {} {8192} {}"
proof -
  have "pool_inv (zero_store 0) (zero_pool\<lparr>m_magic := MEMPOOL_MAGIC, datastore := d, m_head := h,
      m_chunk_size := 1, num_free := 1\<rparr>) {h} {}" if "h \<noteq> 0" "d \<noteq> 0" for h d
    by (rule pool_invI [of _ _ _ _ "[h]" "[]" "[]"])
       (use that in \<open>auto simp: pool_counts_def pool_rep_def zero_store_def zero_ds_def zero_pool_def\<close>)
  from this [of 512 64] this [of 8192 128] show ?thesis
    by (simp add: ctx_inv_def demo_ctxs_def bij_betw_def)
qed

theorem context_alloc_ok_witness:
  "\<exists>st'. context_alloc demo_ctxs = Inr (0, 512, st') \<and> ctx_inv st' {} {512} {} {8192}"
  using context_alloc_ok [OF demo_ctxs_inv] by auto

theorem context_roundtrip_witness:
  "\<exists>st1 st2. alloc_many ctx_get 1 demo_ctxs = Inr ([512], st1) \<and>
     release_all context_free [512] st1 = Inr st2"
proof -
  from context_roundtrip [OF demo_ctxs_inv, of 1] obtain cs st1 st2 where
    C: "alloc_many ctx_get 1 demo_ctxs = Inr (cs, st1)" "length cs = 1" "set cs \<subseteq> {512}"
       "release_all context_free cs st1 = Inr st2" by auto
  then have "cs = [512]" by (cases cs) auto
  with C show ?thesis by blast
qed

end
