(* ===== verification/Dispatcher.thy ===== *)
theory Dispatcher
  imports Context
begin

text \<open>
  The dispatcher core of \<open>src/network/baseline/shinjuku/dispatcher.c\<close> with the structures of
  \<open>common.h\<close>.  The dispatcher polls one mailbox pair per worker (a request it writes and a
  response it reads), keeps runnable work in a kernel FIFO and feeds packets from the network
  stack into it.  The kernel services it calls are a record of functions: what the proofs need
  of the FIFO is the locale \<open>bounded_fifo\<close>.
\<close>

section \<open>Data (\<open>common.h\<close>)\<close>

definition WAITING :: u64 where "WAITING = 0x00"
definition ACTIVE :: u64 where "ACTIVE = 0x01"

definition RUNNING :: u64 where "RUNNING = 0x00"
definition FINISHED :: u64 where "FINISHED = 0x01"
definition PREEMPTED :: u64 where "PREEMPTED = 0x02"
definition PROCESSED :: u64 where "PROCESSED = 0x03"

definition NOCONTENT :: u8 where "NOCONTENT = 0x00"
definition PACKET :: u8 where "PACKET = 0x01"
definition CONTEXT :: u8 where "CONTEXT = 0x02"

definition MAX_UINT64 :: u64 where "MAX_UINT64 = 0xFFFFFFFFFFFFFFFF"
definition PREEMPTION_DELAY :: u64 where "PREEMPTION_DELAY = 5000"

lemmas flag_defs = WAITING_def ACTIVE_def RUNNING_def FINISHED_def PREEMPTED_def PROCESSED_def
  NOCONTENT_def PACKET_def CONTEXT_def

record worker_response =
  r_flag :: u64
  r_rnbl :: addr
  r_mbuf :: addr
  r_timestamp :: u64
  r_type :: u8
  r_category :: u8

record dispatcher_request =
  q_flag :: u64
  q_rnbl :: addr
  q_mbuf :: addr
  q_type :: u8
  q_category :: u8
  q_timestamp :: u64

text \<open>Where a worker is in its code; the contents are explained with the worker.\<close>

datatype wctl =
    W_Init
  | W_Spin
  | W_Entry
  | W_Loop u64 u64 addr
  | W_Cond u64 u64 addr
  | W_Done
  | W_Return
  | W_Lost

text \<open>The per-CPU variables, the FIFO, the state \<open>'n\<close> of the network stack, the pools and
  contexts, and per processor its registers, whether interrupts are enabled, whether an
  inter-processor call is pending, and its place in the code; \<open>frames\<close> is the place at which a
  context continues when it is switched to.\<close>

record ('q, 'n) shinjuku =
  worker_active :: "nat \<Rightarrow> bool"
  shinjuku_timestamps :: "nat \<Rightarrow> u64"
  preempt_check :: "nat \<Rightarrow> bool"
  worker_responses :: "nat \<Rightarrow> worker_response"
  dispatcher_requests :: "nat \<Rightarrow> dispatcher_request"
  tskq :: 'q
  net :: 'n
  ctxst :: ctx_state
  ctx_worker :: "nat \<Rightarrow> addr"
  finished :: "nat \<Rightarrow> bool"
  worker_preempted :: "nat \<Rightarrow> bool"
  cpus :: "nat \<Rightarrow> cpu_regs"
  irq_on :: "nat \<Rightarrow> bool"
  ipi_sent :: "nat \<Rightarrow> bool"
  ctl :: "nat \<Rightarrow> wctl"
  frames :: "addr \<Rightarrow> wctl"

text \<open>
  The kernel: \<open>kfifo_in\<close> and \<open>kfifo_out\<close> for one element (the number of elements moved, the
  element read), \<open>shinjuku_rpc_get\<close>, \<open>dev_consume_skb_any\<close>, the bytes at \<open>skb->data\<close>, the field
  \<open>type\<close> of an RPC header, the thread API's result for a worker (0 or an error number), the
  address of \<open>ctx_main\<close> of a processor and of \<open>generic_work\<close>, and the contents of the flag field of
  a local variable that is not initialised.
\<close>

record ('q, 'n) kernel =
  kfifo_in :: "'q \<Rightarrow> worker_response \<Rightarrow> nat \<times> 'q"
  kfifo_out :: "'q \<Rightarrow> nat \<times> worker_response \<times> 'q"
  shinjuku_rpc_get :: "'n \<Rightarrow> addr \<times> 'n"
  dev_consume_skb_any :: "addr \<Rightarrow> 'n \<Rightarrow> 'n"
  skb_data :: "'n \<Rightarrow> addr \<Rightarrow> u8 list"
  rpc_type :: "u8 list \<Rightarrow> u64"
  kthread_err :: "nat \<Rightarrow> int"
  ctx_main_at :: "nat \<Rightarrow> addr"
  generic_work_at :: addr
  uninit_flag :: u64

section \<open>The handlers\<close>

definition timestamp_init :: "('q, 'n) shinjuku \<Rightarrow> ('q, 'n) shinjuku" where
  "timestamp_init s = s\<lparr>shinjuku_timestamps := \<lambda>_. MAX_UINT64\<rparr>"

definition preempt_check_init :: "('q, 'n) shinjuku \<Rightarrow> ('q, 'n) shinjuku" where
  "preempt_check_init s = s\<lparr>preempt_check := \<lambda>_. False\<rparr>"

definition preempt_worker :: "nat \<Rightarrow> u64 \<Rightarrow> ('q, 'n) shinjuku \<Rightarrow> ('q, 'n) shinjuku" where
  "preempt_worker i cur_time s =
    (if preempt_check s i \<and> cur_time - shinjuku_timestamps s i > PREEMPTION_DELAY
     then s\<lparr>preempt_check := (preempt_check s)(i := False), ipi_sent := (ipi_sent s)(i := True)\<rparr>
     else s)"

definition set_resp_flag :: "nat \<Rightarrow> u64 \<Rightarrow> ('q, 'n) shinjuku \<Rightarrow> ('q, 'n) shinjuku" where
  "set_resp_flag i f s =
    s\<lparr>worker_responses := (worker_responses s)(i := (worker_responses s i)\<lparr>r_flag := f\<rparr>)\<rparr>"

definition handle_finished :: "('q, 'n) kernel \<Rightarrow> nat \<Rightarrow> ('q, 'n) shinjuku \<Rightarrow> ('q, 'n) shinjuku res" where
  "handle_finished K i s =
    (let response = worker_responses s i
     in and_then (context_free (ctxst s) (r_rnbl response)) (\<lambda>cs.
          let s = s\<lparr>ctxst := cs\<rparr>;
              s = s\<lparr>net := dev_consume_skb_any K (r_mbuf response) (net s)\<rparr>;
              s = s\<lparr>preempt_check := (preempt_check s)(i := False)\<rparr>
          in Inr (set_resp_flag i PROCESSED s)))"

definition handle_preempted :: "('q, 'n) kernel \<Rightarrow> nat \<Rightarrow> ('q, 'n) shinjuku \<Rightarrow> ('q, 'n) shinjuku" where
  "handle_preempted K i s =
    (let response = worker_responses s i;
         s = s\<lparr>tskq := snd (kfifo_in K (tskq s) response)\<rparr>;
         s = s\<lparr>preempt_check := (preempt_check s)(i := False)\<rparr>
     in set_resp_flag i PROCESSED s)"

definition dispatch_request :: "('q, 'n) kernel \<Rightarrow> nat \<Rightarrow> u64 \<Rightarrow> ('q, 'n) shinjuku \<Rightarrow> ('q, 'n) shinjuku res" where
  "dispatch_request K worker cur_time s =
    (case kfifo_out K (tskq s) of (n, req, q) \<Rightarrow>
       let s = s\<lparr>tskq := q\<rparr>
       in if n = 0 then Inr s
          else if q_flag (dispatcher_requests s worker) \<noteq> WAITING then Inl (Bug_On ''request->flag'')
          else
            (let s = set_resp_flag worker RUNNING s;
                 request = (dispatcher_requests s worker)
                   \<lparr>q_rnbl := r_rnbl req, q_mbuf := r_mbuf req, q_type := r_type req,
                    q_category := r_category req, q_timestamp := cur_time\<rparr>;
                 s = s\<lparr>shinjuku_timestamps := (shinjuku_timestamps s)(worker := cur_time),
                       preempt_check := (preempt_check s)(worker := True)\<rparr>
             in Inr (s\<lparr>dispatcher_requests := (dispatcher_requests s)
                          (worker := request\<lparr>q_flag := ACTIVE\<rparr>)\<rparr>)))"

definition handle_worker :: "('q, 'n) kernel \<Rightarrow> nat \<Rightarrow> u64 \<Rightarrow> ('q, 'n) shinjuku \<Rightarrow> ('q, 'n) shinjuku res" where
  "handle_worker K i cur_time s =
    (let flag = r_flag (worker_responses s i)
     in if flag \<noteq> RUNNING
        then and_then (if flag = FINISHED then handle_finished K i s
                       else if flag = PREEMPTED then Inr (handle_preempted K i s)
                       else Inr s)
               (dispatch_request K i cur_time)
        else Inr (preempt_worker i cur_time s))"

text \<open>The loop of \<open>handle_networker\<close>; the last argument counts \<open>max_batch\<close> down.  The packet is
  fetched before \<open>max_batch\<close> is looked at.\<close>

fun networker_loop :: "('q, 'n) kernel \<Rightarrow> u64 \<Rightarrow> nat \<Rightarrow> ('q, 'n) shinjuku \<Rightarrow> ('q, 'n) shinjuku res" where
  "networker_loop K cur_time max_batch s =
    (case shinjuku_rpc_get K (net s) of (data, n) \<Rightarrow>
       let s = s\<lparr>net := n\<rparr>
       in if data = 0 then Inr s
          else case max_batch of
            0 \<Rightarrow> Inr s
          | Suc batch \<Rightarrow>
              and_then (context_alloc (ctxst s)) (\<lambda>(ret, cont, cs).
                let s = s\<lparr>ctxst := cs\<rparr>
                in if ret \<noteq> 0 then networker_loop K cur_time batch s
                   else
                     (let request = \<lparr>r_flag = uninit_flag K, r_rnbl = cont, r_mbuf = data,
                                     r_timestamp = cur_time, r_type = 0, r_category = PACKET\<rparr>;
                          s = s\<lparr>tskq := snd (kfifo_in K (tskq s) request)\<rparr>
                      in networker_loop K cur_time batch s)))"

declare networker_loop.simps [simp del]

definition handle_networker :: "('q, 'n) kernel \<Rightarrow> u64 \<Rightarrow> ('q, 'n) shinjuku \<Rightarrow> ('q, 'n) shinjuku res" where
  "handle_networker K cur_time s = networker_loop K cur_time 16 s"

section \<open>The main loop\<close>

text \<open>The loop that starts a worker on every processor from 2 on: the processors that have one,
  and the error that stopped the loop (or 0).\<close>

fun start_workers :: "('q, 'n) kernel \<Rightarrow> nat list \<Rightarrow> nat list \<times> int" where
  "start_workers K [] = ([], 0)"
| "start_workers K (i # is) =
     (if kthread_err K i = 0 then (case start_workers K is of (ws, e) \<Rightarrow> (i # ws, e))
      else ([], kthread_err K i))"

fun handle_workers :: "('q, 'n) kernel \<Rightarrow> nat list \<Rightarrow> u64 \<Rightarrow> ('q, 'n) shinjuku \<Rightarrow> ('q, 'n) shinjuku res" where
  "handle_workers K [] t s = Inr s"
| "handle_workers K (i # is) t s = and_then (handle_worker K i t s) (handle_workers K is t)"

definition dispatch_round :: "('q, 'n) kernel \<Rightarrow> nat \<Rightarrow> u64 \<Rightarrow> ('q, 'n) shinjuku \<Rightarrow> ('q, 'n) shinjuku res" where
  "dispatch_round K num_cpus cur_time s =
    and_then (handle_workers K [0..<num_cpus - 2] cur_time s) (handle_networker K cur_time)"

text \<open>\<open>do_dispatching\<close>: the result is \<open>Inl\<close> of the error it returns with, or the state after as
  many rounds of its endless loop as there are clock readings in \<open>ts\<close>.\<close>

fun dispatch_rounds :: "('q, 'n) kernel \<Rightarrow> nat \<Rightarrow> u64 list \<Rightarrow> ('q, 'n) shinjuku \<Rightarrow> ('q, 'n) shinjuku res" where
  "dispatch_rounds K num_cpus [] s = Inr s"
| "dispatch_rounds K num_cpus (t # ts) s =
     and_then (dispatch_round K num_cpus t s) (dispatch_rounds K num_cpus ts)"

definition do_dispatching ::
  "('q, 'n) kernel \<Rightarrow> nat \<Rightarrow> u64 list \<Rightarrow> ('q, 'n) shinjuku \<Rightarrow> (int + ('q, 'n) shinjuku) res" where
  "do_dispatching K num_cpus ts s =
    (if num_cpus < 3 then Inl (Bug_On ''num_cpus'')
     else case start_workers K [2..<num_cpus] of (ws, e) \<Rightarrow>
       if e \<noteq> 0 then Inr (Inl e)
       else and_then (dispatch_rounds K num_cpus ts (preempt_check_init (timestamp_init s)))
              (\<lambda>s. Inr (Inr s)))"

section \<open>The FIFO\<close>

text \<open>What the documentation of \<open>kfifo\<close> promises for a FIFO of \<open>cap\<close> elements: \<open>kfifo_in\<close> appends the
  element if there is room and copies nothing otherwise; \<open>kfifo_out\<close> removes the oldest element
  and returns how many it removed.\<close>

locale bounded_fifo =
  fixes fin :: "'q \<Rightarrow> 'e \<Rightarrow> nat \<times> 'q"
    and fout :: "'q \<Rightarrow> nat \<times> 'e \<times> 'q"
    and content :: "'q \<Rightarrow> 'e list"
    and cap :: nat
  assumes in_room: "length (content q) < cap \<Longrightarrow> fst (fin q x) = 1 \<and> content (snd (fin q x)) = content q @ [x]"
    and in_full: "cap \<le> length (content q) \<Longrightarrow> fst (fin q x) = 0 \<and> content (snd (fin q x)) = content q"
    and out_empty: "content q = [] \<Longrightarrow> fst (fout q) = 0 \<and> content (snd (snd (fout q))) = []"
    and out_first: "content q = x # xs \<Longrightarrow>
          fst (fout q) = 1 \<and> fst (snd (fout q)) = x \<and> content (snd (snd (fout q))) = xs"
begin

fun put_all :: "'e list \<Rightarrow> 'q \<Rightarrow> 'q" where
  "put_all [] q = q"
| "put_all (x # xs) q = put_all xs (snd (fin q x))"

fun take_n :: "nat \<Rightarrow> 'q \<Rightarrow> 'e list \<times> 'q" where
  "take_n 0 q = ([], q)"
| "take_n (Suc n) q =
     (if fst (fout q) = 0 then ([], q)
      else (case take_n n (snd (snd (fout q))) of (xs, q') \<Rightarrow> (fst (snd (fout q)) # xs, q')))"

lemma in_content:
  "content (snd (fin q x)) = (if length (content q) < cap then content q @ [x] else content q)"
  using in_room [of q x] in_full [of q x] by auto

lemma out_content:
  "fst (fout q) = (if content q = [] then 0 else 1)"
  "content (snd (snd (fout q))) = tl (content q)"
  "content q \<noteq> [] \<Longrightarrow> fst (snd (fout q)) = hd (content q)"
  using out_empty [of q] out_first [of q] by (cases "content q"; simp)+

lemma put_all_content:
  "length (content q) + length xs \<le> cap \<Longrightarrow> content (put_all xs q) = content q @ xs"
  by (induction xs arbitrary: q) (simp_all add: in_content)

lemma take_n_content:
  "fst (take_n n q) = take n (content q) \<and> content (snd (take_n n q)) = drop n (content q)"
proof (induction n arbitrary: q)
  case 0
  then show ?case by simp
next
  case (Suc n)
  show ?case
  proof (cases "content q")
    case Nil
    then show ?thesis by (simp add: out_content)
  next
    case (Cons x xs)
    with Suc.IH [of "snd (snd (fout q))"] show ?thesis
      by (auto simp: out_content split: prod.splits)
  qed
qed

text \<open>First in, first out: elements put into a FIFO with room for them come out in order, after
  what was there.\<close>

lemma fifo_order:
  "length (content q) + length xs \<le> cap \<Longrightarrow>
   fst (take_n (length (content q) + length xs) (put_all xs q)) = content q @ xs"
  by (simp add: take_n_content put_all_content)

end

text \<open>The kernel whose FIFO is the module's \<open>DEFINE_KFIFO(tskq, struct worker_response, 128)\<close>.\<close>

definition list_in :: "nat \<Rightarrow> 'e list \<Rightarrow> 'e \<Rightarrow> nat \<times> 'e list" where
  "list_in cap q x = (if length q < cap then (1, q @ [x]) else (0, q))"

definition list_out :: "'e \<Rightarrow> 'e list \<Rightarrow> nat \<times> 'e \<times> 'e list" where
  "list_out d q = (case q of [] \<Rightarrow> (0, d, []) | x # xs \<Rightarrow> (1, x, xs))"

interpretation listq: bounded_fifo "list_in cap" "list_out d" "\<lambda>q. q" cap
  by unfold_locales (auto simp: list_in_def list_out_def split: list.splits)

end
