(* ===== verification/Worker.thy ===== *)
theory Worker
  imports Dispatcher
begin

unbundle bit_operations_syntax

text \<open>
  The worker cores of \<open>src/network/baseline/shinjuku/worker.c\<close>.  A worker spins on its request
  mailbox, switches to the request's context, in which \<open>generic_work\<close> spins and polls the flag the
  inter-processor interrupt sets, switches back and posts a response.  A worker's place in this
  code is \<open>ctl\<close>: before \<open>init_worker\<close> (\<open>W_Init\<close>), at the spin loop of \<open>handle_request\<close>
  (\<open>W_Spin\<close>), at the entry of \<open>generic_work\<close> (\<open>W_Entry\<close>), at the head of its loop with \<open>i\<close>, \<open>data\<close>
  and \<open>cont\<close> (\<open>W_Loop\<close>), at the loop's condition (\<open>W_Cond\<close>), behind its last switch (\<open>W_Done\<close>),
  back from the switch in \<open>handle_new_packet\<close> or \<open>handle_context\<close> (\<open>W_Return\<close>).  \<open>W_Lost\<close> is a
  context that was never prepared.
\<close>

section \<open>Switching\<close>

definition set_ctl :: "nat \<Rightarrow> wctl \<Rightarrow> ('q, 'n) shinjuku \<Rightarrow> ('q, 'n) shinjuku" where
  "set_ctl i c s = s\<lparr>ctl := (ctl s)(i := c)\<rparr>"

text \<open>\<open>swapcontext_very_fast(ou, uc)\<close> on processor \<open>i\<close>, called from the place \<open>here\<close>: the registers
  move as in \<open>context_fast.S\<close>, the caller continues at \<open>here\<close> when \<open>ou\<close> is switched to, and the
  processor goes on where \<open>uc\<close> stopped.\<close>

definition swap_to :: "nat \<Rightarrow> wctl \<Rightarrow> addr \<Rightarrow> addr \<Rightarrow> ('q, 'n) shinjuku \<Rightarrow> ('q, 'n) shinjuku res" where
  "swap_to i here ou uc s =
    and_then (swapcontext_very_fast \<lparr>cpu = cpus s i, kmem = kctx (ctxst s)\<rparr> ou uc) (\<lambda>m.
      let fr = (frames s)(ou := here)
      in Inr (set_ctl i (fr uc)
               (s\<lparr>cpus := (cpus s)(i := cpu m), ctxst := (ctxst s)\<lparr>kctx := kmem m\<rparr>, frames := fr\<rparr>)))"

section \<open>The interrupt handler and the application's work\<close>

definition worker_ipi_handler :: "nat \<Rightarrow> ('q, 'n) shinjuku \<Rightarrow> ('q, 'n) shinjuku" where
  "worker_ipi_handler i s =
    s\<lparr>irq_on := (irq_on s)(i := False), worker_preempted := (worker_preempted s)(i := True)\<rparr>"

text \<open>\<open>generic_work\<close>: its entry, one pass of the loop body, and the loop condition with what
  follows the loop.  Its first argument arrives in \<open>a0\<close>.\<close>

definition gw_entry :: "nat \<Rightarrow> ('q, 'n) shinjuku \<Rightarrow> ('q, 'n) shinjuku res" where
  "gw_entry i s =
    (let data = cpus s i A0
     in if data \<ge> 100000 then Inl (Bug_On ''data'')
        else Inr (set_ctl i (W_Loop 0 data (ctx_worker s i)) (s\<lparr>irq_on := (irq_on s)(i := True)\<rparr>)))"

definition gw_body :: "('q, 'n) kernel \<Rightarrow> nat \<Rightarrow> u64 \<Rightarrow> u64 \<Rightarrow> addr \<Rightarrow> ('q, 'n) shinjuku \<Rightarrow> ('q, 'n) shinjuku res" where
  "gw_body K i n data cont s =
    (if worker_preempted s i
     then swap_to i (W_Cond (n + 1) data cont) cont (ctx_main_at K i)
            (s\<lparr>worker_preempted := (worker_preempted s)(i := False), irq_on := (irq_on s)(i := False)\<rparr>)
     else Inr (set_ctl i (W_Cond (n + 1) data cont) s))"

definition gw_cond :: "('q, 'n) kernel \<Rightarrow> nat \<Rightarrow> u64 \<Rightarrow> u64 \<Rightarrow> addr \<Rightarrow> ('q, 'n) shinjuku \<Rightarrow> ('q, 'n) shinjuku res" where
  "gw_cond K i n data cont s =
    (if n < data then Inr (set_ctl i (W_Loop n data cont) s)
     else swap_to i W_Done cont (ctx_main_at K i)
            (s\<lparr>irq_on := (irq_on s)(i := False), finished := (finished s)(i := True)\<rparr>))"

section \<open>Requests\<close>

definition init_worker :: "nat \<Rightarrow> ('q, 'n) shinjuku \<Rightarrow> ('q, 'n) shinjuku" where
  "init_worker i s =
    (let s = s\<lparr>worker_active := (worker_active s)(i := True),
               worker_preempted := (worker_preempted s)(i := False)\<rparr>;
         s = set_resp_flag i PROCESSED s
     in s\<lparr>irq_on := (irq_on s)(i := False)\<rparr>)"

text \<open>\<open>parse_data\<close>: the length of the IP header is in the low half of the packet's first byte,
  in 32-bit words; the UDP length is the big-endian number in bytes 4 and 5 of the UDP header,
  and \<open>payload_len\<close> is its difference to 8 in 32 bits.\<close>

definition be16 :: "u8 \<Rightarrow> u8 \<Rightarrow> u32" where
  "be16 hi lo = push_bit 8 (ucast hi) OR ucast lo"

definition parse_data :: "('q, 'n) kernel \<Rightarrow> 'n \<Rightarrow> addr \<Rightarrow> u64 res" where
  "parse_data K n mbuf =
    (if mbuf = 0 then Inl Null_Deref
     else
       (let pkt = skb_data K n mbuf;
            ihl = unat (pkt ! 0 AND 0xF);
            udph = drop (ihl * 4) pkt
        in if pkt = [] \<or> length udph < 8 then Inl Out_Of_Bounds
           else
             (let payload = drop 8 udph;
                  payload_len = be16 (udph ! 4) (udph ! 5) - 8
              in if payload_len < 16 then Inl (Bug_On ''payload_len'')
                 else Inr (rpc_type K payload))))"

definition handle_new_packet :: "('q, 'n) kernel \<Rightarrow> nat \<Rightarrow> ('q, 'n) shinjuku \<Rightarrow> ('q, 'n) shinjuku res" where
  "handle_new_packet K i s =
    (let request = dispatcher_requests s i;
         cont = q_rnbl request
     in and_then (parse_data K (net s) (q_mbuf request)) (\<lambda>data.
        and_then (getcontext_fast \<lparr>cpu = cpus s i, kmem = kctx (ctxst s)\<rparr> cont) (\<lambda>m.
          let c = make_kcontext (cpu m) (kmem m cont) (generic_work_at K) data 0 0 0;
              s = s\<lparr>cpus := (cpus s)(i := cpu m),
                    ctxst := (ctxst s)\<lparr>kctx := (kmem m)(cont := c)\<rparr>,
                    frames := (frames s)(cont := W_Entry),
                    finished := (finished s)(i := False)\<rparr>
          in swap_to i W_Return (ctx_main_at K i) cont s)))"

definition handle_context :: "('q, 'n) kernel \<Rightarrow> nat \<Rightarrow> ('q, 'n) shinjuku \<Rightarrow> ('q, 'n) shinjuku res" where
  "handle_context K i s =
    (let cont = q_rnbl (dispatcher_requests s i);
         s = s\<lparr>finished := (finished s)(i := False), ctx_worker := (ctx_worker s)(i := cont)\<rparr>;
         s = s\<lparr>ctxst := set_context_link cont (ctx_main_at K i) (ctxst s)\<rparr>
     in swap_to i W_Return (ctx_main_at K i) cont s)"

text \<open>\<open>handle_request\<close>: while the request's flag is \<open>WAITING\<close> the worker stays where it is.\<close>

definition handle_request :: "('q, 'n) kernel \<Rightarrow> nat \<Rightarrow> ('q, 'n) shinjuku \<Rightarrow> ('q, 'n) shinjuku res" where
  "handle_request K i s =
    (let request = dispatcher_requests s i
     in if q_flag request = WAITING then Inr s
        else
          (let s = s\<lparr>dispatcher_requests := (dispatcher_requests s)(i := request\<lparr>q_flag := WAITING\<rparr>)\<rparr>
           in if q_category request = PACKET then handle_new_packet K i s else handle_context K i s))"

definition finish_request :: "nat \<Rightarrow> ('q, 'n) shinjuku \<Rightarrow> ('q, 'n) shinjuku" where
  "finish_request i s =
    (let request = dispatcher_requests s i;
         response = (worker_responses s i)
           \<lparr>r_timestamp := q_timestamp request, r_type := q_type request, r_mbuf := q_mbuf request,
            r_rnbl := ctx_worker s i, r_category := CONTEXT\<rparr>
     in s\<lparr>worker_responses := (worker_responses s)
            (i := response\<lparr>r_flag := if finished s i then FINISHED else PREEMPTED\<rparr>)\<rparr>)"

text \<open>One step of \<open>do_work\<close> on processor \<open>i\<close>, from wherever it is.  Behind its last switch
  \<open>generic_work\<close> would return to an address its caller never set.\<close>

definition worker_step :: "('q, 'n) kernel \<Rightarrow> nat \<Rightarrow> ('q, 'n) shinjuku \<Rightarrow> ('q, 'n) shinjuku res" where
  "worker_step K i s =
    (case ctl s i of
       W_Init \<Rightarrow> Inr (set_ctl i W_Spin (init_worker i s))
     | W_Spin \<Rightarrow> handle_request K i s
     | W_Entry \<Rightarrow> gw_entry i s
     | W_Loop n data cont \<Rightarrow> gw_body K i n data cont s
     | W_Cond n data cont \<Rightarrow> gw_cond K i n data cont s
     | W_Return \<Rightarrow> Inr (set_ctl i W_Spin (finish_request i s))
     | W_Done \<Rightarrow> Inl (Panic ''generic_work returned'')
     | W_Lost \<Rightarrow> Inl (Panic ''context not prepared''))"

section \<open>A worker leaves the other processors alone\<close>

text \<open>What belongs to processor \<open>j\<close> alone.\<close>

definition mailbox :: "('q, 'n) shinjuku \<Rightarrow> nat \<Rightarrow> u64 \<times> u64 \<times> wctl" where
  "mailbox s j = (r_flag (worker_responses s j), q_flag (dispatcher_requests s j), ctl s j)"

lemma mailbox_simps [simp]:
  "mailbox (set_ctl i c s) j = (if j = i then (fst (mailbox s i), fst (snd (mailbox s i)), c) else mailbox s j)"
  "mailbox (set_resp_flag i f s) j = (if j = i then (f, snd (mailbox s i)) else mailbox s j)"
  by (simp_all add: mailbox_def set_ctl_def set_resp_flag_def)

lemma swap_to_mailbox:
  assumes "swap_to i here ou uc s = Inr s'"
  shows "worker_responses s' = worker_responses s" "dispatcher_requests s' = dispatcher_requests s"
    and "ctl s' = (ctl s)(i := ((frames s)(ou := here)) uc)" "frames s' = (frames s)(ou := here)"
    and "ctx_worker s' = ctx_worker s" "finished s' = finished s" "tskq s' = tskq s"
    and "worker_preempted s' = worker_preempted s" "irq_on s' = irq_on s"
  using assms by (auto simp: swap_to_def and_then_Inr_iff Let_def set_ctl_def)

end
