(* ===== verification/Shinjuku.thy ===== *)
theory Shinjuku
  imports Worker
begin

text \<open>
  The Shinjuku module as a whole: the dispatcher on processor 1, one worker on every processor
  from 2 on, and the inter-processor interrupt, interleaved in any order.  A step is one call of
  \<open>handle_worker\<close> or \<open>handle_networker\<close>, one step of a worker, or the delivery of an interrupt.
  The mailbox protocol between dispatcher and worker is stated as a five-phase automaton that
  every run follows.
\<close>

section \<open>The system\<close>

inductive sys_step ::
  "('q, 'n) kernel \<Rightarrow> nat \<Rightarrow> ('q, 'n) shinjuku \<Rightarrow> ('q, 'n) shinjuku \<Rightarrow> bool"
  for K :: "('q, 'n) kernel" and num_cpus :: nat
where
  step_worker_slot: "i < num_cpus - 2 \<Longrightarrow> handle_worker K i t s = Inr s' \<Longrightarrow> sys_step K num_cpus s s'"
| step_network: "handle_networker K t s = Inr s' \<Longrightarrow> sys_step K num_cpus s s'"
| step_work: "2 \<le> i \<Longrightarrow> i < num_cpus \<Longrightarrow> worker_step K i s = Inr s' \<Longrightarrow> sys_step K num_cpus s s'"
| step_ipi: "ipi_sent s i \<Longrightarrow> irq_on s i \<Longrightarrow>
     sys_step K num_cpus s (worker_ipi_handler i (s\<lparr>ipi_sent := (ipi_sent s)(i := False)\<rparr>))"

inductive sys_reach ::
  "('q, 'n) kernel \<Rightarrow> nat \<Rightarrow> ('q, 'n) shinjuku \<Rightarrow> ('q, 'n) shinjuku \<Rightarrow> bool"
  for K :: "('q, 'n) kernel" and num_cpus :: nat and s0 :: "('q, 'n) shinjuku"
where
  reach_start: "sys_reach K num_cpus s0 s0"
| reach_step: "sys_reach K num_cpus s0 s \<Longrightarrow> sys_step K num_cpus s s' \<Longrightarrow> sys_reach K num_cpus s0 s'"

inductive_cases sys_stepE: "sys_step K num_cpus s s'"

text \<open>\<open>shinjuku_init\<close>: the dispatcher's thread is bound to processor 1 and started, unless it cannot
  be created (an error number); the result and the processors whose threads were woken.\<close>

definition shinjuku_init :: "int \<Rightarrow> int \<times> nat list" where
  "shinjuku_init err = (if err = 0 then (0, [1]) else (err, []))"

text \<open>What the module finds when the dispatcher enters its loop: zeroed mailboxes, workers that
  have not started yet, no context prepared.\<close>

definition sys_init :: "('q, 'n) shinjuku \<Rightarrow> bool" where
  "sys_init s \<longleftrightarrow>
     (\<forall>i. r_flag (worker_responses s i) = RUNNING \<and> q_flag (dispatcher_requests s i) = WAITING \<and>
          ctl s i = W_Init) \<and> (\<forall>a. frames s a = W_Lost)"

section \<open>The mailbox protocol\<close>

definition mailbox_ok :: "u64 \<times> u64 \<times> wctl \<Rightarrow> bool" where
  "mailbox_ok = (\<lambda>(r, q, c).
     r \<in> {RUNNING, FINISHED, PREEMPTED, PROCESSED} \<and>
     (r \<noteq> RUNNING \<longrightarrow> c = W_Spin \<and> q = WAITING) \<and>
     (q \<noteq> WAITING \<longrightarrow> c = W_Spin) \<and>
     (c = W_Spin \<and> r = RUNNING \<longrightarrow> q \<noteq> WAITING))"

definition frames_ok :: "('q, 'n) shinjuku \<Rightarrow> bool" where
  "frames_ok s \<longleftrightarrow> (\<forall>a. frames s a \<noteq> W_Init \<and> frames s a \<noteq> W_Spin)"

definition protocol_inv :: "('q, 'n) shinjuku \<Rightarrow> bool" where
  "protocol_inv s \<longleftrightarrow> (\<forall>i. mailbox_ok (mailbox s i)) \<and> frames_ok s"

datatype phase = Off | Idle | Requested | Busy | Responded

fun phase_of :: "u64 \<times> u64 \<times> wctl \<Rightarrow> phase" where
  "phase_of (r, q, c) =
    (if c = W_Init then Off
     else if r = PROCESSED then Idle
     else if r \<noteq> RUNNING then Responded
     else if q \<noteq> WAITING then Requested
     else Busy)"

fun phase_move :: "phase \<Rightarrow> phase \<Rightarrow> bool" where
  "phase_move Off p = (p = Off \<or> p = Idle)"
| "phase_move Idle p = (p = Idle \<or> p = Requested)"
| "phase_move Requested p = (p = Requested \<or> p = Busy)"
| "phase_move Busy p = (p = Busy \<or> p = Responded)"
| "phase_move Responded p = (p = Responded \<or> p = Idle \<or> p = Requested)"

lemma phase_move_refl [simp]: "phase_move p p"
  by (cases p) auto

subsection \<open>The dispatcher's steps\<close>

lemma dispatch_request_mailbox:
  assumes "dispatch_request K i t s = Inr s'"
  shows "frames s' = frames s" "j \<noteq> i \<Longrightarrow> mailbox s' j = mailbox s j"
    and "mailbox s' i = mailbox s i \<or>
         fst (snd (mailbox s i)) = WAITING \<and> mailbox s' i = (RUNNING, ACTIVE, ctl s i)"
  using assms
  by (auto simp: dispatch_request_def mailbox_def set_resp_flag_def Let_def split: prod.splits if_splits)

lemma handle_finished_mailbox:
  assumes "handle_finished K i s = Inr s'"
  shows "frames s' = frames s" "mailbox s' = (mailbox s)(i := (PROCESSED, snd (mailbox s i)))"
  using assms
  by (auto simp: handle_finished_def mailbox_def set_resp_flag_def Let_def and_then_Inr_iff)

lemma handle_preempted_mailbox:
  "frames (handle_preempted K i s) = frames s"
  "mailbox (handle_preempted K i s) = (mailbox s)(i := (PROCESSED, snd (mailbox s i)))"
  by (auto simp: handle_preempted_def mailbox_def set_resp_flag_def Let_def)

lemma preempt_worker_mailbox [simp]:
  "frames (preempt_worker i t s) = frames s" "mailbox (preempt_worker i t s) = mailbox s"
  by (auto simp: preempt_worker_def mailbox_def)

lemma handle_worker_mailbox:
  assumes "handle_worker K i t s = Inr s'" "mailbox s i = (r, q, c)"
  shows "frames s' = frames s" "j \<noteq> i \<Longrightarrow> mailbox s' j = mailbox s j"
    and "r = RUNNING \<Longrightarrow> mailbox s' = mailbox s"
    and "r \<noteq> RUNNING \<Longrightarrow> r' = (if r = FINISHED \<or> r = PREEMPTED then PROCESSED else r) \<Longrightarrow>
         mailbox s' i = (r', q, c) \<or> q = WAITING \<and> mailbox s' i = (RUNNING, ACTIVE, c)"
proof -
  have r: "r_flag (worker_responses s i) = r" and c: "ctl s i = c" using assms(2) by (auto simp: mailbox_def)
  define r1 where "r1 = (if r = FINISHED \<or> r = PREEMPTED then PROCESSED else r)"
  consider "r = RUNNING" "s' = preempt_worker i t s"
    | s1 where "r \<noteq> RUNNING" "frames s1 = frames s" "mailbox s1 = (mailbox s)(i := (r1, q, c))"
        "dispatch_request K i t s1 = Inr s'"
  proof (cases "r = RUNNING")
    case True
    then show ?thesis using assms(1) r that(1) by (simp add: handle_worker_def Let_def)
  next
    case False
    then obtain s1 where s1: "(if r = FINISHED then handle_finished K i s
         else if r = PREEMPTED then Inr (handle_preempted K i s) else Inr s) = Inr s1"
      "dispatch_request K i t s1 = Inr s'"
      using assms(1) r by (auto simp: handle_worker_def Let_def and_then_Inr_iff)
    then have "frames s1 = frames s \<and> mailbox s1 = (mailbox s)(i := (r1, q, c))"
      using handle_finished_mailbox [of K i s s1] handle_preempted_mailbox [of K i s] assms(2)
      by (auto simp: r1_def split: if_splits)
    with False s1(2) that(2) show ?thesis by blast
  qed
  note cases = this
  show "frames s' = frames s" "j \<noteq> i \<Longrightarrow> mailbox s' j = mailbox s j"
    by (cases rule: cases; auto dest: dispatch_request_mailbox)+
  show "r = RUNNING \<Longrightarrow> mailbox s' = mailbox s" by (cases rule: cases) auto
  show "mailbox s' i = (r', q, c) \<or> q = WAITING \<and> mailbox s' i = (RUNNING, ACTIVE, c)"
    if "r \<noteq> RUNNING" "r' = (if r = FINISHED \<or> r = PREEMPTED then PROCESSED else r)"
  proof (cases rule: cases)
    case (2 s1)
    from 2(3) have m: "mailbox s1 i = (r1, q, c)" by simp
    then have "ctl s1 i = c" by (simp add: mailbox_def)
    with dispatch_request_mailbox(3) [OF 2(4)] m that(2) show ?thesis by (auto simp: r1_def)
  qed (use that in simp)
qed

lemma networker_loop_unfold:
  fixes s s' :: "('q, 'n) shinjuku"
  assumes "networker_loop K t n s = Inr s'"
  obtains (stop) nw :: 'n where "s' = s\<lparr>net := nw\<rparr>"
  | (again) b and nw' :: 'n and cs and q :: 'q where "n = Suc b" "networker_loop K t b (s\<lparr>net := nw', ctxst := cs, tskq := q\<rparr>) = Inr s'"
proof -
  obtain data nw where g: "shinjuku_rpc_get K (net s) = (data, nw)" by fastforce
  show ?thesis
  proof (cases "data = 0 \<or> n = 0")
    case True
    then show ?thesis using assms g that(1) [where nw = nw]
      by (subst (asm) networker_loop.simps) (auto simp: Let_def split: nat.splits)
  next
    case False
    then obtain b where n: "n = Suc b" by (cases n) auto
    then show ?thesis
      using assms g False that(2) [where b = b and nw' = nw and q = "tskq s"] that(2) [where b = b and nw' = nw]
      by (subst (asm) networker_loop.simps) (auto simp: and_then_Inr_iff Let_def split: if_splits)
  qed
qed

lemma networker_loop_mailbox:
  "networker_loop K t n s = Inr s' \<Longrightarrow> frames s' = frames s \<and> mailbox s' = mailbox s"
proof (induction n arbitrary: s)
  case 0
  then show ?case by (rule networker_loop_unfold) (auto simp: mailbox_def)
next
  case (Suc n)
  from Suc.prems show ?case
    by (rule networker_loop_unfold) (auto simp: mailbox_def fun_eq_iff dest!: Suc.IH)
qed

subsection \<open>The worker's steps\<close>

text \<open>A step inside the worker's code that neither starts the worker nor comes back to its spin
  loop and leaves the mailboxes as they are.\<close>

definition inner_step :: "nat \<Rightarrow> ('q, 'n) shinjuku \<Rightarrow> ('q, 'n) shinjuku \<Rightarrow> bool" where
  "inner_step i s s' \<longleftrightarrow> frames_ok s' \<and> worker_responses s' = worker_responses s \<and>
     dispatcher_requests s' = dispatcher_requests s \<and>
     (\<exists>c. ctl s' = (ctl s)(i := c) \<and> c \<noteq> W_Init \<and> c \<noteq> W_Spin)"

lemma swap_to_inner:
  "swap_to i here ou uc s = Inr s' \<Longrightarrow> frames_ok s \<Longrightarrow> here \<noteq> W_Init \<Longrightarrow> here \<noteq> W_Spin \<Longrightarrow>
   inner_step i s s'"
  using swap_to_mailbox [of i here ou uc s s'] by (auto simp: inner_step_def frames_ok_def)

lemma set_ctl_inner:
  "frames_ok s \<Longrightarrow> c \<noteq> W_Init \<Longrightarrow> c \<noteq> W_Spin \<Longrightarrow> inner_step i s (set_ctl i c s)"
  by (auto simp: inner_step_def set_ctl_def frames_ok_def)

lemma handle_new_packet_inner:
  "handle_new_packet K i s = Inr s' \<Longrightarrow> frames_ok s \<Longrightarrow> inner_step i s s'"
  by (auto simp: handle_new_packet_def Let_def and_then_Inr_iff inner_step_def frames_ok_def
      dest!: swap_to_inner split: if_splits)

lemma handle_context_inner:
  "handle_context K i s = Inr s' \<Longrightarrow> frames_ok s \<Longrightarrow> inner_step i s s'"
  by (auto simp: handle_context_def Let_def inner_step_def frames_ok_def dest!: swap_to_inner)

lemma gw_entry_inner: "gw_entry i s = Inr s' \<Longrightarrow> frames_ok s \<Longrightarrow> inner_step i s s'"
  by (auto simp: gw_entry_def Let_def inner_step_def frames_ok_def set_ctl_def split: if_splits)

lemma gw_body_inner: "gw_body K i n d ct s = Inr s' \<Longrightarrow> frames_ok s \<Longrightarrow> inner_step i s s'"
  by (auto simp: gw_body_def inner_step_def frames_ok_def set_ctl_def dest!: swap_to_inner split: if_splits)

lemma gw_cond_inner: "gw_cond K i n d ct s = Inr s' \<Longrightarrow> frames_ok s \<Longrightarrow> inner_step i s s'"
  by (auto simp: gw_cond_def inner_step_def frames_ok_def set_ctl_def dest!: swap_to_inner split: if_splits)

lemma inner_step_mailbox:
  assumes "inner_step i s s'"
  shows "frames_ok s'" "j \<noteq> i \<Longrightarrow> mailbox s' j = mailbox s j"
    and "\<exists>c. c \<noteq> W_Init \<and> c \<noteq> W_Spin \<and>
           mailbox s' i = (r_flag (worker_responses s i), q_flag (dispatcher_requests s i), c)"
  using assms by (auto simp: inner_step_def mailbox_def)

lemma handle_request_mailbox:
  assumes "handle_request K i s = Inr s'" "frames_ok s" "mailbox s i = (r, q, c)"
  shows "frames_ok s'" "j \<noteq> i \<Longrightarrow> mailbox s' j = mailbox s j"
    and "q = WAITING \<and> mailbox s' i = (r, q, c) \<or>
         q \<noteq> WAITING \<and> (\<exists>c'. c' \<noteq> W_Init \<and> c' \<noteq> W_Spin \<and> mailbox s' i = (r, WAITING, c'))"
proof -
  let ?s1 = "s\<lparr>dispatcher_requests := (dispatcher_requests s)(i := (dispatcher_requests s i)\<lparr>q_flag := WAITING\<rparr>)\<rparr>"
  have q: "q_flag (dispatcher_requests s i) = q" "r_flag (worker_responses s i) = r"
    using assms(3) by (auto simp: mailbox_def)
  have f1: "frames_ok ?s1" using assms(2) by (simp add: frames_ok_def)
  have "q = WAITING \<and> s' = s \<or> q \<noteq> WAITING \<and> inner_step i ?s1 s'"
    using assms(1) q handle_new_packet_inner [OF _ f1] handle_context_inner [OF _ f1]
    by (auto simp: handle_request_def Let_def split: if_splits)
  then show "frames_ok s'" "j \<noteq> i \<Longrightarrow> mailbox s' j = mailbox s j"
    "q = WAITING \<and> mailbox s' i = (r, q, c) \<or>
         q \<noteq> WAITING \<and> (\<exists>c'. c' \<noteq> W_Init \<and> c' \<noteq> W_Spin \<and> mailbox s' i = (r, WAITING, c'))"
    using assms(2,3) q by (auto simp: inner_step_def mailbox_def)
qed

text \<open>What a step of the worker does to its mailbox: it starts, it waits, it takes a request, it
  works on, or it posts its response.\<close>

lemma worker_step_mailbox:
  assumes "worker_step K i s = Inr s'" "frames_ok s" "mailbox s i = (r, q, c)"
  shows "frames_ok s'" "j \<noteq> i \<Longrightarrow> mailbox s' j = mailbox s j"
    and "c = W_Init \<and> mailbox s' i = (PROCESSED, q, W_Spin)
       \<or> c = W_Spin \<and> q = WAITING \<and> mailbox s' i = (r, q, c)
       \<or> c = W_Spin \<and> q \<noteq> WAITING \<and> (\<exists>c'. c' \<noteq> W_Init \<and> c' \<noteq> W_Spin \<and> mailbox s' i = (r, WAITING, c'))
       \<or> c \<noteq> W_Init \<and> c \<noteq> W_Spin \<and> (\<exists>c'. c' \<noteq> W_Init \<and> c' \<noteq> W_Spin \<and> mailbox s' i = (r, q, c'))
       \<or> c \<noteq> W_Init \<and> c \<noteq> W_Spin \<and> (mailbox s' i = (FINISHED, q, W_Spin) \<or> mailbox s' i = (PREEMPTED, q, W_Spin))"
proof -
  have c: "ctl s i = c" "q_flag (dispatcher_requests s i) = q" "r_flag (worker_responses s i) = r"
    using assms(3) by (auto simp: mailbox_def)
  consider (started) "c = W_Init" "s' = set_ctl i W_Spin (init_worker i s)"
    | (spin) "c = W_Spin" "handle_request K i s = Inr s'"
    | (inner) "c \<noteq> W_Init" "c \<noteq> W_Spin" "inner_step i s s'"
    | (posted) "c = W_Return" "s' = set_ctl i W_Spin (finish_request i s)"
    using assms(1) c(1) gw_entry_inner [OF _ assms(2)] gw_body_inner [OF _ assms(2)] gw_cond_inner [OF _ assms(2)]
    by (cases c) (auto simp: worker_step_def)
  note cases = this
  show "frames_ok s'"
    using assms(2) handle_request_mailbox(1) [OF _ assms(2,3)]
    by (cases rule: cases)
       (auto simp: inner_step_def frames_ok_def set_ctl_def init_worker_def finish_request_def set_resp_flag_def Let_def)
  show "j \<noteq> i \<Longrightarrow> mailbox s' j = mailbox s j"
    using handle_request_mailbox(2) [OF _ assms(2,3)] inner_step_mailbox(2) [of i s s' j]
    by (cases rule: cases) (auto simp: mailbox_def set_ctl_def init_worker_def finish_request_def set_resp_flag_def Let_def)
  show "c = W_Init \<and> mailbox s' i = (PROCESSED, q, W_Spin)
       \<or> c = W_Spin \<and> q = WAITING \<and> mailbox s' i = (r, q, c)
       \<or> c = W_Spin \<and> q \<noteq> WAITING \<and> (\<exists>c'. c' \<noteq> W_Init \<and> c' \<noteq> W_Spin \<and> mailbox s' i = (r, WAITING, c'))
       \<or> c \<noteq> W_Init \<and> c \<noteq> W_Spin \<and> (\<exists>c'. c' \<noteq> W_Init \<and> c' \<noteq> W_Spin \<and> mailbox s' i = (r, q, c'))
       \<or> c \<noteq> W_Init \<and> c \<noteq> W_Spin \<and> (mailbox s' i = (FINISHED, q, W_Spin) \<or> mailbox s' i = (PREEMPTED, q, W_Spin))"
    using handle_request_mailbox(3) [OF _ assms(2,3)] inner_step_mailbox(3) [of i s s'] c
    by (cases rule: cases) (auto simp: mailbox_def set_ctl_def init_worker_def finish_request_def set_resp_flag_def Let_def)
qed

subsection \<open>Every step follows the protocol\<close>

lemma mailbox_move_worker_slot:
  assumes "handle_worker K i t s = Inr s'" "mailbox_ok (mailbox s j)"
  shows "mailbox_ok (mailbox s' j)" "phase_move (phase_of (mailbox s j)) (phase_of (mailbox s' j))"
proof -
  obtain r q c where m: "mailbox s i = (r, q, c)" by (cases "mailbox s i") auto
  note H = handle_worker_mailbox [OF assms(1) m]
  show "mailbox_ok (mailbox s' j)"
    using assms(2) H(2) [of j] H(3,4) m
    by (cases "j = i"; cases "r = RUNNING") (auto simp: mailbox_ok_def flag_defs split: if_splits)
  show "phase_move (phase_of (mailbox s j)) (phase_of (mailbox s' j))"
    using assms(2) H(2) [of j] H(3,4) m
    by (cases "j = i"; cases "r = RUNNING") (auto simp: mailbox_ok_def flag_defs split: if_splits)
qed

lemma mailbox_move_work:
  assumes "worker_step K i s = Inr s'" "frames_ok s" "mailbox_ok (mailbox s j)"
  shows "mailbox_ok (mailbox s' j)" "phase_move (phase_of (mailbox s j)) (phase_of (mailbox s' j))"
proof -
  obtain r q c where m: "mailbox s i = (r, q, c)" by (cases "mailbox s i") auto
  note H = worker_step_mailbox [OF assms(1,2) m]
  show "mailbox_ok (mailbox s' j)"
    using assms(3) H(2) [of j] H(3) m
    by (cases "j = i") (auto simp: mailbox_ok_def flag_defs)
  show "phase_move (phase_of (mailbox s j)) (phase_of (mailbox s' j))"
    using assms(3) H(2) [of j] H(3) m
    by (cases "j = i") (auto simp: mailbox_ok_def flag_defs)
qed

lemma step_protocol:
  assumes "sys_step K n s s'" "protocol_inv s"
  shows "protocol_inv s'" "phase_move (phase_of (mailbox s i)) (phase_of (mailbox s' i))"
proof -
  have P: "mailbox_ok (mailbox s j)" "frames_ok s" for j using assms(2) by (auto simp: protocol_inv_def)
  have "frames_ok s' \<and> mailbox_ok (mailbox s' j) \<and>
        phase_move (phase_of (mailbox s j)) (phase_of (mailbox s' j))" for j
    using assms(1)
  proof (cases rule: sys_step.cases)
    case (step_worker_slot k t)
    obtain r q c where "mailbox s k = (r, q, c)" by (cases "mailbox s k") auto
    with step_worker_slot(2) have "frames s' = frames s" by (rule handle_worker_mailbox)
    with P mailbox_move_worker_slot [OF step_worker_slot(2) P(1)] show ?thesis by (simp add: frames_ok_def)
  next
    case (step_network t)
    with networker_loop_mailbox [of K t 16 s s'] P show ?thesis
      by (auto simp: handle_networker_def frames_ok_def)
  next
    case (step_work k)
    obtain r q c where "mailbox s k = (r, q, c)" by (cases "mailbox s k") auto
    with step_work(3) P(2) have "frames_ok s'" by (rule worker_step_mailbox)
    with mailbox_move_work [OF step_work(3) P(2) P(1)] show ?thesis by simp
  next
    case (step_ipi k)
    then have "mailbox s' = mailbox s" "frames s' = frames s"
      by (auto simp: worker_ipi_handler_def mailbox_def)
    with P show ?thesis by (simp add: frames_ok_def)
  qed
  then show "protocol_inv s'" "phase_move (phase_of (mailbox s i)) (phase_of (mailbox s' i))"
    by (auto simp: protocol_inv_def)
qed

lemma init_protocol: "sys_init s \<Longrightarrow> protocol_inv s"
  by (simp add: sys_init_def protocol_inv_def mailbox_ok_def mailbox_def frames_ok_def)

lemma reach_protocol: "sys_reach K n s0 s \<Longrightarrow> protocol_inv s0 \<Longrightarrow> protocol_inv s"
  by (induction rule: sys_reach.induct) (auto intro: step_protocol)


lemma context_free_no_bug: "context_free cs c \<noteq> Inl (Bug_On ''request->flag'')"
  by (auto simp: context_free_def mempool_free_def mempool_free_2_def Let_def and_then_Inl_iff
      split: if_splits prod.splits)

lemma handle_finished_no_bug: "handle_finished K i s \<noteq> Inl (Bug_On ''request->flag'')"
  by (auto simp: handle_finished_def and_then_Inl_iff context_free_no_bug Let_def)

lemma handle_finished_requests:
  "handle_finished K i s = Inr s1 \<Longrightarrow> dispatcher_requests s1 = dispatcher_requests s"
  by (auto simp: handle_finished_def and_then_Inr_iff set_resp_flag_def Let_def)

lemma handle_preempted_requests [simp]:
  "dispatcher_requests (handle_preempted K i s) = dispatcher_requests s"
  by (simp add: handle_preempted_def set_resp_flag_def Let_def)


section \<open>Packets enter the queue\<close>

text \<open>What the proofs need of \<open>shinjuku_rpc_get\<close>: it takes the oldest of the pending packets
  (\<open>pending\<close>), whose addresses are not null, and returns null when there is none.\<close>

locale packet_source =
  fixes get :: "'n \<Rightarrow> addr \<times> 'n" and pending :: "'n \<Rightarrow> addr list"
  assumes get_none: "pending n = [] \<Longrightarrow> fst (get n) = 0 \<and> pending (snd (get n)) = []"
    and get_first: "pending n = p # ps \<Longrightarrow> p \<noteq> 0 \<and> fst (get n) = p \<and> pending (snd (get n)) = ps"

text \<open>The dispatcher's view of its kernel: a FIFO of 128 entries and a packet source.\<close>

locale dispatcher_kernel =
  bounded_fifo "kfifo_in K" "kfifo_out K" content 128 + packet_source "shinjuku_rpc_get K" pending
  for K :: "('q, 'n) kernel" and content :: "'q \<Rightarrow> worker_response list" and pending :: "'n \<Rightarrow> addr list"
begin

lemma networker_loop_Suc:
  assumes "pending (net s) = p # ps" "context_alloc (ctxst s) = Inr (0, c, cs)"
  shows "\<exists>nw. pending nw = ps \<and>
     networker_loop K t (Suc n) s =
       networker_loop K t n (s\<lparr>net := nw, ctxst := cs, tskq := snd (kfifo_in K (tskq s)
         \<lparr>r_flag = uninit_flag K, r_rnbl = c, r_mbuf = p, r_timestamp = t, r_type = 0, r_category = PACKET\<rparr>)\<rparr>)"
  using get_first [OF assms(1)] assms(2)
  by (intro exI [of _ "snd (shinjuku_rpc_get K (net s))"], subst networker_loop.simps)
     (auto simp: Let_def split: prod.splits)

lemma networker_loop_queue:
  assumes "ctx_rep (ctxst s) F A" "n \<le> card F" "length (content (tskq s)) + n \<le> 128"
  shows "\<exists>s' es. networker_loop K t n s = Inr s' \<and> content (tskq s') = content (tskq s) @ es \<and>
           map r_mbuf es = take n (pending (net s)) \<and> pending (net s') = drop (Suc n) (pending (net s)) \<and>
           distinct (map r_rnbl es) \<and> set (map r_rnbl es) \<subseteq> F \<and> (\<forall>e\<in>set es. r_category e = PACKET)"
  using assms
proof (induction n arbitrary: s F A)
  case 0
  then show ?case
    using get_none [of "net s"] get_first [of "net s"]
    by (subst networker_loop.simps) (cases "pending (net s)"; auto simp: Let_def split: prod.splits)
next
  case (Suc n)
  show ?case
  proof (cases "pending (net s)")
    case Nil
    then show ?thesis using get_none [of "net s"]
      by (subst networker_loop.simps) (auto simp: Let_def split: prod.splits)
  next
    case (Cons p ps)
    from Suc.prems(2) have "F \<noteq> {}" by auto
    from ctxs.alloc_some [OF Suc.prems(1) this] obtain c cs where
      C: "ctx_get (ctxst s) = Inr (c, cs)" "c \<in> F" "ctx_rep cs (F - {c}) (insert c A)" by blast
    have "c \<noteq> 0" "finite F" using ctxs.rep_sane [OF Suc.prems(1)] C(2) by auto
    with C(1) have a: "context_alloc (ctxst s) = Inr (0, c, cs)"
      by (auto simp: ctx_get_def and_then_Inr_iff split: if_splits)
    let ?e = "\<lparr>r_flag = uninit_flag K, r_rnbl = c, r_mbuf = p, r_timestamp = t, r_type = 0, r_category = PACKET\<rparr>"
    from networker_loop_Suc [OF Cons a] obtain nw where N: "pending nw = ps"
      "networker_loop K t (Suc n) s =
         networker_loop K t n (s\<lparr>net := nw, ctxst := cs, tskq := snd (kfifo_in K (tskq s) ?e)\<rparr>)" by blast
    have q: "content (snd (kfifo_in K (tskq s) ?e)) = content (tskq s) @ [?e]"
      using Suc.prems(3) by (simp add: in_content)
    let ?s = "s\<lparr>net := nw, ctxst := cs, tskq := snd (kfifo_in K (tskq s) ?e)\<rparr>"
    have "n \<le> card (F - {c})" using Suc.prems(2) C(2) \<open>finite F\<close> by simp
    moreover have "length (content (tskq ?s)) + n \<le> 128" using Suc.prems(3) q by simp
    ultimately obtain s' es where
      "networker_loop K t n ?s = Inr s'" "content (tskq s') = content (tskq ?s) @ es"
      "map r_mbuf es = take n (pending (net ?s))" "pending (net s') = drop (Suc n) (pending (net ?s))"
      "distinct (map r_rnbl es)" "set (map r_rnbl es) \<subseteq> F - {c}" "\<forall>e\<in>set es. r_category e = PACKET"
      using Suc.IH [of ?s "F - {c}" "insert c A"] C(3) by auto
    then show ?thesis
      using N q Cons C(2) by (intro exI [of _ s'] exI [of _ "?e # es"]) auto
  qed
qed

end

text \<open>C8: one call of \<open>handle_networker\<close> with enough contexts and room in the queue appends the
  first sixteen pending packets to the queue, in order, each with a context of its own, but
  takes a seventeenth packet from the network stack and drops it: \<open>max_batch\<close> is only looked at
  after the packet has been fetched.\<close>

theorem networker_batch:
  assumes "dispatcher_kernel K content pending" "ctx_inv (ctxst s) FC AC FS AS"
    and "card FS = card FC" "16 \<le> card FC" "length (content (tskq s)) \<le> 112"
  shows "\<exists>s' es. handle_networker K t s = Inr s' \<and> content (tskq s') = content (tskq s) @ es \<and>
           map r_mbuf es = take 16 (pending (net s)) \<and> pending (net s') = drop 17 (pending (net s)) \<and>
           distinct (map r_rnbl es) \<and> set (map r_rnbl es) \<subseteq> FC \<and> (\<forall>e\<in>set es. r_category e = PACKET)"
proof -
  have "ctx_rep (ctxst s) FC AC" using assms by (auto simp: ctx_rep_def)
  from dispatcher_kernel.networker_loop_queue [OF assms(1) this assms(4)] assms(5)
  show ?thesis by (simp add: handle_networker_def)
qed

section \<open>Dispatching in order\<close>

lemma dispatch_request_fifo:
  assumes "bounded_fifo (kfifo_in K) (kfifo_out K) content cap"
    and "q_flag (dispatcher_requests s i) = WAITING" "content (tskq s) = x # xs"
  shows "\<exists>s'. dispatch_request K i t s = Inr s' \<and> content (tskq s') = xs \<and>
           dispatcher_requests s' = (dispatcher_requests s)(i :=
             \<lparr>q_flag = ACTIVE, q_rnbl = r_rnbl x, q_mbuf = r_mbuf x, q_type = r_type x,
              q_category = r_category x, q_timestamp = t\<rparr>) \<and>
           r_flag (worker_responses s' i) = RUNNING \<and> preempt_check s' i \<and> shinjuku_timestamps s' i = t"
  using bounded_fifo.out_first [OF assms(1,3)] assms(2)
  by (auto simp: dispatch_request_def set_resp_flag_def Let_def split: prod.splits)

text \<open>C7: the queue is served in order.  When the worker has nothing to report, the oldest entry is
  taken and becomes the worker's request, marked active, with preemption armed; when the worker
  was preempted, its context goes to the end of the queue first (and is lost if the 128 places
  of the queue are taken).\<close>

theorem dispatch_fifo:
  assumes "bounded_fifo (kfifo_in K) (kfifo_out K) content 128"
    and "r_flag (worker_responses s i) = PREEMPTED \<or> r_flag (worker_responses s i) = PROCESSED"
    and "q_flag (dispatcher_requests s i) = WAITING" "content (tskq s) = x # xs"
  shows "\<exists>s'. handle_worker K i t s = Inr s' \<and>
           dispatcher_requests s' = (dispatcher_requests s)(i :=
             \<lparr>q_flag = ACTIVE, q_rnbl = r_rnbl x, q_mbuf = r_mbuf x, q_type = r_type x,
              q_category = r_category x, q_timestamp = t\<rparr>) \<and>
           r_flag (worker_responses s' i) = RUNNING \<and> preempt_check s' i \<and> shinjuku_timestamps s' i = t \<and>
           content (tskq s') =
             xs @ (if r_flag (worker_responses s i) = PREEMPTED \<and> length xs < 127
                   then [worker_responses s i] else [])"
proof (cases "r_flag (worker_responses s i) = PREEMPTED")
  case True
  let ?s = "handle_preempted K i s"
  have c: "content (tskq ?s) = x # xs @ (if length xs < 127 then [worker_responses s i] else [])"
    using bounded_fifo.in_content [OF assms(1)] assms(4)
    by (simp add: handle_preempted_def set_resp_flag_def Let_def)
  have w: "handle_worker K i t s = dispatch_request K i t ?s"
    using True by (simp add: handle_worker_def flag_defs)
  show ?thesis
    using dispatch_request_fifo [OF assms(1) _ c, of i t] assms(3) True unfolding w by auto
next
  case False
  then have w: "handle_worker K i t s = dispatch_request K i t s"
    using assms(2) by (auto simp: handle_worker_def flag_defs)
  show ?thesis
    using dispatch_request_fifo [OF assms(1,3,4), of t] False unfolding w by auto
qed

section \<open>Which processors get work\<close>

text \<open>Workers run on the processors from 2 on, but the dispatcher serves the mailboxes of the
  processors 0 to \<open>num_cpus - 3\<close>.\<close>

definition idle_below :: "('q, 'n) shinjuku \<Rightarrow> bool" where
  "idle_below s \<longleftrightarrow> (\<forall>i. q_flag (dispatcher_requests s i) = WAITING \<and>
     (if i < 2 then r_flag (worker_responses s i) = RUNNING \<and> ctl s i = W_Init
      else ctl s i = W_Init \<or> ctl s i = W_Spin))"

lemma idle_below_mailbox:
  "idle_below s \<longleftrightarrow> (\<forall>i. case mailbox s i of (r, q, c) \<Rightarrow> q = WAITING \<and>
     (if i < 2 then r = RUNNING \<and> c = W_Init else c = W_Init \<or> c = W_Spin))"
  by (simp add: idle_below_def mailbox_def)

lemma idle_below_step:
  assumes "sys_step K n s s'" "idle_below s" "n \<le> 4" "frames_ok s"
  shows "idle_below s'"
  using assms(1)
proof (cases rule: sys_step.cases)
  case (step_worker_slot i t)
  with assms(2,3) have "s' = preempt_worker i t s"
    by (auto simp: handle_worker_def idle_below_def Let_def)
  with assms(2) show ?thesis by (simp add: idle_below_mailbox)
next
  case (step_network t)
  with networker_loop_mailbox [of K t 16 s s'] assms(2) show ?thesis
    by (simp add: handle_networker_def idle_below_mailbox)
next
  case (step_work i)
  obtain r q c where m: "mailbox s i = (r, q, c)" by (cases "mailbox s i") auto
  have "q = WAITING" "c = W_Init \<or> c = W_Spin"
    using m assms(2) [unfolded idle_below_mailbox, rule_format, of i] step_work(1) by auto
  with worker_step_mailbox(3) [OF step_work(3) assms(4) m]
  have own: "case mailbox s' i of (r, q, c) \<Rightarrow> q = WAITING \<and> (c = W_Init \<or> c = W_Spin)" by auto
  have "case mailbox s' j of (r, q, c) \<Rightarrow> q = WAITING \<and>
     (if j < 2 then r = RUNNING \<and> c = W_Init else c = W_Init \<or> c = W_Spin)" for j
  proof (cases "j = i")
    case True
    then show ?thesis using own step_work(1) by auto
  next
    case False
    then show ?thesis
      using worker_step_mailbox(2) [OF step_work(3) assms(4) m False]
        assms(2) [unfolded idle_below_mailbox, rule_format, of j] by simp
  qed
  then show ?thesis unfolding idle_below_mailbox by blast
next
  case (step_ipi i)
  with assms(2) show ?thesis by (simp add: idle_below_def worker_ipi_handler_def)
qed

text \<open>on a machine with three or four processors no worker ever gets a request: every
  reachable state has all request mailboxes waiting and all workers not started or in the spin
  loop.\<close>

theorem small_machine_never_works:
  assumes "sys_reach K n s0 s" "sys_init s0" "n \<le> 4"
  shows "q_flag (dispatcher_requests s i) = WAITING \<and> (ctl s i = W_Init \<or> ctl s i = W_Spin)"
proof -
  from assms(1) have "idle_below s"
  proof (induction rule: sys_reach.induct)
    case reach_start
    then show ?case using assms(2) by (simp add: sys_init_def idle_below_def)
  next
    case (reach_step s s')
    have "frames_ok s"
      using reach_protocol [OF reach_step(1) init_protocol [OF assms(2)]] by (simp add: protocol_inv_def)
    with reach_step assms(3) show ?case by (blast intro: idle_below_step)
  qed
  then show ?thesis unfolding idle_below_def by (metis (full_types))
qed

section \<open>A worker alone\<close>

fun worker_run :: "('q, 'n) kernel \<Rightarrow> nat \<Rightarrow> nat \<Rightarrow> ('q, 'n) shinjuku \<Rightarrow> ('q, 'n) shinjuku res" where
  "worker_run K i 0 s = Inr s"
| "worker_run K i (Suc k) s = and_then (worker_step K i s) (worker_run K i k)"

lemma swap_to_total: "ou \<noteq> 0 \<Longrightarrow> uc \<noteq> 0 \<Longrightarrow> \<exists>s'. swap_to i here ou uc s = Inr s'"
  using swap_returns [of ou uc "\<lparr>cpu = cpus s i, kmem = kctx (ctxst s)\<rparr>"] by (auto simp: swap_to_def Let_def)

text \<open>The state in which \<open>generic_work\<close> of context \<open>c\<close> runs on processor \<open>i\<close>.\<close>

definition working :: "('q, 'n) kernel \<Rightarrow> nat \<Rightarrow> addr \<Rightarrow> ('q, 'n) shinjuku \<Rightarrow> bool" where
  "working K i c s \<longleftrightarrow> c \<noteq> 0 \<and> ctx_main_at K i \<noteq> 0 \<and> c \<noteq> ctx_main_at K i \<and>
     frames s (ctx_main_at K i) = W_Return \<and> \<not> worker_preempted s i"

lemma working_finish:
  assumes "working K i c s" "ctl s i = W_Cond n d c" "\<not> n < d"
  shows "\<exists>s'. worker_run K i 2 s = Inr s' \<and> ctl s' i = W_Spin \<and>
     dispatcher_requests s' = dispatcher_requests s \<and>
     r_flag (worker_responses s' i) = FINISHED \<and> r_rnbl (worker_responses s' i) = ctx_worker s i \<and>
     r_mbuf (worker_responses s' i) = q_mbuf (dispatcher_requests s i)"
proof -
  let ?m = "ctx_main_at K i"
  let ?s = "s\<lparr>irq_on := (irq_on s)(i := False), finished := (finished s)(i := True)\<rparr>"
  obtain s1 where s1: "swap_to i W_Done c ?m ?s = Inr s1"
    using swap_to_total [of c ?m i W_Done ?s] assms(1) by (auto simp: working_def)
  note M = swap_to_mailbox [OF s1]
  have step1: "worker_step K i s = Inr s1"
    using assms(2,3) s1 by (simp add: worker_step_def gw_cond_def)
  have "ctl s1 i = W_Return" using M(3) assms(1) by (auto simp: working_def)
  then have step2: "worker_step K i s1 = Inr (set_ctl i W_Spin (finish_request i s1))"
    by (simp add: worker_step_def)
  show ?thesis
    using step1 step2 M by (simp add: numeral_2_eq_2 set_ctl_def finish_request_def Let_def)
qed

lemma working_loop:
  assumes "working K i c s" "ctl s i = W_Loop n d c" "n = 0 \<and> d = 0 \<or> n < d"
  shows "\<exists>k s'. worker_run K i k s = Inr s' \<and> ctl s' i = W_Spin \<and>
     dispatcher_requests s' = dispatcher_requests s \<and>
     r_flag (worker_responses s' i) = FINISHED \<and> r_rnbl (worker_responses s' i) = ctx_worker s i \<and>
     r_mbuf (worker_responses s' i) = q_mbuf (dispatcher_requests s i) \<and> k \<le> 2 * (unat d - unat n) + 3"
  using assms
proof (induction "unat d - unat n" arbitrary: n s rule: less_induct)
  case less
  let ?s = "set_ctl i (W_Cond (n + 1) d c) s"
  have step: "worker_step K i s = Inr ?s"
    using less.prems by (simp add: worker_step_def gw_body_def working_def)
  have w: "working K i c ?s" "ctl ?s i = W_Cond (n + 1) d c"
    using less.prems(1) by (simp_all add: working_def set_ctl_def)
  show ?case
  proof (cases "n + 1 < d")
    case False
    from working_finish [OF w False] obtain s' where s': "worker_run K i 2 ?s = Inr s'" "ctl s' i = W_Spin"
      "dispatcher_requests s' = dispatcher_requests ?s"
      "r_flag (worker_responses s' i) = FINISHED" "r_rnbl (worker_responses s' i) = ctx_worker ?s i"
      "r_mbuf (worker_responses s' i) = q_mbuf (dispatcher_requests ?s i)" by blast
    have "worker_run K i (Suc 2) s = Inr s'" using step s'(1) by (simp only: worker_run.simps and_then.simps)
    with s' show ?thesis
      by (intro exI [of _ "Suc 2"] exI [of _ s']) (simp add: set_ctl_def del: worker_run.simps)
  next
    case True
    let ?s2 = "set_ctl i (W_Loop (n + 1) d c) ?s"
    have step2: "worker_step K i ?s = Inr ?s2"
      using w(2) True by (simp add: worker_step_def gw_cond_def)
    have "n < d" using less.prems(3) True by auto
    then have u: "unat (n + 1) = Suc (unat n)" "unat n < unat d"
      by (simp_all add: unat_Suc_less word_less_nat_alt)
    have "unat d - unat (n + 1) < unat d - unat n" using u by linarith
    moreover have "working K i c ?s2" "ctl ?s2 i = W_Loop (n + 1) d c"
      using w(1) by (simp_all add: working_def set_ctl_def)
    ultimately obtain k s' where s':
      "worker_run K i k ?s2 = Inr s'" "ctl s' i = W_Spin" "dispatcher_requests s' = dispatcher_requests ?s2"
      "r_flag (worker_responses s' i) = FINISHED" "r_rnbl (worker_responses s' i) = ctx_worker ?s2 i"
      "r_mbuf (worker_responses s' i) = q_mbuf (dispatcher_requests ?s2 i)"
      "k \<le> 2 * (unat d - unat (n + 1)) + 3"
      using less.hyps True by blast
    have "unat (n + 1) < unat d" using True by (simp add: word_less_nat_alt)
    with s' step step2 u show ?thesis
      by (intro exI [of _ "Suc (Suc k)"] exI [of _ s']) (simp add: set_ctl_def)
  qed
qed


text \<open>C10: \<open>handle_new_packet\<close> starts the packet's context but does not record it in \<open>ctx_worker\<close>,
  which \<open>generic_work\<close> reads.  The first packet of a worker, whose \<open>ctx_worker\<close> is still null,
  therefore ends in a null pointer access as soon as \<open>generic_work\<close> switches back, preempted
  or not.\<close>

theorem first_packet_oops:
  assumes "handle_new_packet K i s = Inr s1" "ctx_worker s i = 0"
    and "ctx_wf (kctx (ctxst s) (ctx_main_at K i))" "q_rnbl (dispatcher_requests s i) \<noteq> ctx_main_at K i"
  shows "\<exists>s2. worker_step K i s1 = Inr s2 \<and>
     (if worker_preempted s2 i then worker_step K i s2 = Inl Null_Deref
      else \<exists>s3. worker_step K i s2 = Inr s3 \<and> worker_step K i s3 = Inl Null_Deref)"
proof -
  let ?c = "q_rnbl (dispatcher_requests s i)" and ?m = "ctx_main_at K i"
  from assms(1) obtain data mc s' where H:
    "getcontext_fast \<lparr>cpu = cpus s i, kmem = kctx (ctxst s)\<rparr> ?c = Inr mc"
    "s' = s\<lparr>cpus := (cpus s)(i := cpu mc),
       ctxst := (ctxst s)\<lparr>kctx := (kmem mc)(?c := make_kcontext (cpu mc) (kmem mc ?c) (generic_work_at K) data 0 0 0)\<rparr>,
       frames := (frames s)(?c := W_Entry), finished := (finished s)(i := False)\<rparr>"
    "swap_to i W_Return ?m ?c s' = Inr s1"
    by (auto simp: handle_new_packet_def Let_def and_then_Inr_iff)
  have "kmem mc ?m = kctx (ctxst s) ?m"
    using H(1) assms(4) by (auto simp: getcontext_fast_def Let_def run_def save_code_def split: if_splits)
  with H(2) assms(3,4) have wf: "ctx_wf (kmem \<lparr>cpu = cpus s' i, kmem = kctx (ctxst s')\<rparr> ?m)" by simp
  obtain m2 where m2: "swapcontext_very_fast \<lparr>cpu = cpus s' i, kmem = kctx (ctxst s')\<rparr> ?m ?c = Inr m2"
    "cpus s1 i = cpu m2"
    using H(3) by (auto simp: swap_to_def and_then_Inr_iff Let_def set_ctl_def)
  note M = swap_to_mailbox [OF H(3)]
  have a0: "cpus s1 i A0 = 0"
    using swap_regs(7) [OF m2(1) wf, of A0] assms(4) m2(2) by simp
  have entry: "ctl s1 i = W_Entry" "ctx_worker s1 i = 0"
    using M(3,5) H(2) assms(2,4) by (simp_all add: fun_upd_def)
  let ?s2 = "set_ctl i (W_Loop 0 0 0) (s1\<lparr>irq_on := (irq_on s1)(i := True)\<rparr>)"
  have null: "swap_to i h 0 u x = Inl Null_Deref" for h u and x :: "('a, 'b) shinjuku"
    by (simp add: swap_to_def swapcontext_very_fast_def Let_def)
  have "worker_step K i s1 = Inr ?s2" using entry a0 by (simp add: worker_step_def gw_entry_def)
  moreover have "if worker_preempted ?s2 i then worker_step K i ?s2 = Inl Null_Deref
      else \<exists>s3. worker_step K i ?s2 = Inr s3 \<and> worker_step K i s3 = Inl Null_Deref"
    by (simp add: worker_step_def gw_body_def gw_cond_def set_ctl_def null)
  ultimately show ?thesis by blast
qed

section \<open>An instance\<close>

text \<open>A kernel with a FIFO of 128 places, a list of pending packets, and packets with a 20-byte
  IP header and a UDP header that announces 24 bytes.\<close>

definition no_response :: worker_response where
  "no_response = \<lparr>r_flag = 0, r_rnbl = 0, r_mbuf = 0, r_timestamp = 0, r_type = 0, r_category = 0\<rparr>"

definition next_packet :: "addr list \<Rightarrow> addr \<times> addr list" where
  "next_packet ps = (case ps of [] \<Rightarrow> (0, []) | p # qs \<Rightarrow> if p = 0 then (1, qs) else (p, qs))"

definition demo_bytes :: "u8 list" where
  "demo_bytes = 0x45 # replicate 19 0 @ [0, 1, 0, 2, 0, 24, 0, 0] @ replicate 16 0"

definition demo_kernel :: "(worker_response list, addr list) kernel" where
  "demo_kernel = \<lparr>kfifo_in = list_in 128, kfifo_out = list_out no_response,
     shinjuku_rpc_get = next_packet, dev_consume_skb_any = \<lambda>_ n. n,
     skb_data = \<lambda>_ _. demo_bytes, rpc_type = \<lambda>_. 7, kthread_err = \<lambda>_. 0,
     ctx_main_at = \<lambda>i. 0x100000 + of_nat i, generic_work_at = 0x200000, uninit_flag = 0\<rparr>"

interpretation demo: dispatcher_kernel demo_kernel "\<lambda>q. q" "map (\<lambda>p. if p = 0 then 1 else p)"
  by (intro dispatcher_kernel.intro bounded_fifo.intro packet_source.intro)
     (auto simp: demo_kernel_def list_in_def list_out_def next_packet_def split: list.splits)

lemma demo_fifo: "bounded_fifo (kfifo_in demo_kernel) (kfifo_out demo_kernel) (\<lambda>q. q) 128"
  by (rule demo.bounded_fifo_axioms)

text \<open>Pools with sixteen contexts and sixteen stacks.\<close>

definition big_ctxs :: ctx_state where
  "big_ctxs = \<lparr>cstore = \<lparr>hdrs = \<lambda>a. \<lparr>hnext = if a = 101 then 0 else a - 1, hnext_chunk = 0\<rparr>,
                        dss = \<lambda>_. zero_ds, mempool_all_datastores = 0\<rparr>,
     context_pool = zero_pool\<lparr>m_magic := MEMPOOL_MAGIC, datastore := 64, m_head := 16,
                              m_chunk_size := 16, num_free := 16\<rparr>,
     stack_pool = zero_pool\<lparr>m_magic := MEMPOOL_MAGIC, datastore := 128, m_head := 116,
                            m_chunk_size := 16, num_free := 16\<rparr>,
     kctx = \<lambda>_. blank_ctx 0\<rparr>"

definition sixteen :: "addr \<Rightarrow> addr list" where
  "sixteen b = map (\<lambda>k. b + of_nat k) (rev [1..<17])"

lemma sixteen_val [simp]:
  "sixteen b = [b+16, b+15, b+14, b+13, b+12, b+11, b+10, b+9, b+8, b+7, b+6, b+5, b+4, b+3, b+2, b+1]"
  by (simp add: sixteen_def upt_rec)

lemma big_ctxs_inv: "ctx_inv big_ctxs (set (sixteen 0)) {} (set (sixteen 100)) {}"
proof -
  have "pool_inv (cstore big_ctxs) (context_pool big_ctxs) (set (sixteen 0)) {}"
    by (rule pool_invI [of _ _ _ _ "sixteen 0" "[]" "[]"])
       (simp_all add: pool_counts_def pool_rep_def big_ctxs_def zero_ds_def zero_pool_def)
  moreover have "pool_inv (cstore big_ctxs) (stack_pool big_ctxs) (set (sixteen 100)) {}"
    by (rule pool_invI [of _ _ _ _ "sixteen 100" "[]" "[]"])
       (simp_all add: pool_counts_def pool_rep_def big_ctxs_def zero_ds_def zero_pool_def)
  ultimately show ?thesis
    by (simp add: ctx_inv_def bij_betw_def) (simp add: big_ctxs_def)
qed

text \<open>The state before the workers start, with twenty packets pending.\<close>

definition demo_state :: "(worker_response list, addr list) shinjuku" where
  "demo_state = \<lparr>worker_active = \<lambda>_. False, shinjuku_timestamps = \<lambda>_. MAX_UINT64,
     preempt_check = \<lambda>_. False, worker_responses = \<lambda>_. no_response,
     dispatcher_requests = \<lambda>_. \<lparr>q_flag = 0, q_rnbl = 0, q_mbuf = 0, q_type = 0, q_category = 0, q_timestamp = 0\<rparr>,
     tskq = [], net = map (\<lambda>k. of_nat k) [1..<21], ctxst = big_ctxs, ctx_worker = \<lambda>_. 0, finished = \<lambda>_. False,
     worker_preempted = \<lambda>_. False, cpus = \<lambda>_ _. 0, irq_on = \<lambda>_. False, ipi_sent = \<lambda>_. False,
     ctl = \<lambda>_. W_Init, frames = \<lambda>_. W_Lost\<rparr>"

lemma demo_init: "sys_init demo_state"
  by (simp add: sys_init_def demo_state_def no_response_def flag_defs)



theorem networker_batch_witness:
  "\<exists>s'. handle_networker demo_kernel 9 demo_state = Inr s' \<and>
     map r_mbuf (tskq s') = map of_nat [1..<17] \<and> map (\<lambda>p. if p = 0 then 1 else p) (net s') = [18, 19, 20]"
proof -
  have D: "dispatcher_kernel demo_kernel (\<lambda>q. q) (map (\<lambda>p. if p = 0 then 1 else p))"
    by (rule demo.dispatcher_kernel_axioms)
  have "ctx_inv (ctxst demo_state) (set (sixteen 0)) {} (set (sixteen 100)) {}"
    using big_ctxs_inv by (simp add: demo_state_def)
  from networker_batch [OF D this, of 9] obtain s' es where
    "handle_networker demo_kernel 9 demo_state = Inr s'" "tskq s' = tskq demo_state @ es"
    "map r_mbuf es = take 16 (map (\<lambda>p. if p = 0 then 1 else p) (net demo_state))"
    "map (\<lambda>p. if p = 0 then 1 else p) (net s') = drop 17 (map (\<lambda>p. if p = 0 then 1 else p) (net demo_state))"
    by (auto simp: demo_state_def)
  then show ?thesis by (intro exI [of _ s']) (simp add: demo_state_def upt_rec)
qed

theorem dispatch_fifo_witness:
  "\<exists>s'. handle_worker demo_kernel 2 9 (demo_state\<lparr>
       worker_responses := \<lambda>_. no_response\<lparr>r_flag := PREEMPTED, r_rnbl := 77\<rparr>,
       tskq := [no_response\<lparr>r_rnbl := 33\<rparr>]\<rparr>) = Inr s' \<and>
     q_rnbl (dispatcher_requests s' 2) = 33 \<and> map r_rnbl (tskq s') = [77]"
proof -
  let ?s = "demo_state\<lparr>worker_responses := \<lambda>_. no_response\<lparr>r_flag := PREEMPTED, r_rnbl := 77\<rparr>,
       tskq := [no_response\<lparr>r_rnbl := 33\<rparr>]\<rparr>"
  have "q_flag (dispatcher_requests ?s 2) = WAITING" "tskq ?s = no_response\<lparr>r_rnbl := 33\<rparr> # []"
    "r_flag (worker_responses ?s 2) = PREEMPTED \<or> r_flag (worker_responses ?s 2) = PROCESSED"
    by (simp_all add: demo_state_def WAITING_def)
  from dispatch_fifo [OF demo_fifo this(3,1,2), of 9] show ?thesis by auto
qed

theorem small_machine_never_works_witness:
  "q_flag (dispatcher_requests (set_ctl 2 W_Spin (init_worker 2 demo_state)) 2) = WAITING \<and>
   ctl (set_ctl 2 W_Spin (init_worker 2 demo_state)) 2 = W_Spin"
proof -
  have "worker_step demo_kernel 2 demo_state = Inr (set_ctl 2 W_Spin (init_worker 2 demo_state))"
    by (simp add: worker_step_def demo_state_def)
  then have "sys_step demo_kernel 4 demo_state (set_ctl 2 W_Spin (init_worker 2 demo_state))"
    by (intro step_work) simp_all
  from small_machine_never_works [OF reach_step [OF reach_start this] demo_init] show ?thesis
    by (simp add: set_ctl_def)
qed

text \<open>Processor 2 in the work of context 5 with three passes to do; and about to start a packet.\<close>

definition busy_state :: "(worker_response list, addr list) shinjuku" where
  "busy_state = demo_state\<lparr>ctl := \<lambda>_. W_Entry, ctx_worker := \<lambda>_. 5, cpus := \<lambda>_ _. 3,
     frames := \<lambda>a. if a = 0x100002 then W_Return else W_Lost\<rparr>"


definition packet_state :: "(worker_response list, addr list) shinjuku" where
  "packet_state = demo_state\<lparr>dispatcher_requests :=
     \<lambda>_. \<lparr>q_flag = 0, q_rnbl = 5, q_mbuf = 900, q_type = 0, q_category = PACKET, q_timestamp = 1\<rparr>\<rparr>"

theorem first_packet_oops_witness:
  "\<exists>s1 s2. handle_new_packet demo_kernel 2 packet_state = Inr s1 \<and> worker_step demo_kernel 2 s1 = Inr s2 \<and>
     (if worker_preempted s2 2 then worker_step demo_kernel 2 s2 = Inl Null_Deref
      else \<exists>s3. worker_step demo_kernel 2 s2 = Inr s3 \<and> worker_step demo_kernel 2 s3 = Inl Null_Deref)"
proof -
  have "parse_data demo_kernel (net packet_state) 900 = Inr 7"
    by (simp add: parse_data_def demo_kernel_def demo_bytes_def be16_def Let_def)
  moreover obtain m where "getcontext_fast \<lparr>cpu = cpus packet_state 2, kmem = kctx (ctxst packet_state)\<rparr> 5 = Inr m"
    by (simp add: getcontext_fast_def Let_def)
  moreover have "\<exists>s'. swap_to 2 W_Return (ctx_main_at demo_kernel 2) 5 s = Inr s'"
    for s :: "(worker_response list, addr list) shinjuku"
    by (rule swap_to_total) (simp_all add: demo_kernel_def)
  ultimately obtain s1 where "handle_new_packet demo_kernel 2 packet_state = Inr s1"
    by (auto simp: handle_new_packet_def packet_state_def Let_def)
  moreover have "ctx_worker packet_state 2 = 0" "ctx_wf (kctx (ctxst packet_state) (ctx_main_at demo_kernel 2))"
    "q_rnbl (dispatcher_requests packet_state 2) \<noteq> ctx_main_at demo_kernel 2"
    by (simp_all add: packet_state_def demo_state_def big_ctxs_def demo_kernel_def)
  ultimately show ?thesis using first_packet_oops [of demo_kernel 2 packet_state s1] by blast
qed

end
