(* ===== verification/Kv_Hash.thy ===== *)
theory Kv_Hash
  imports Prelude
begin

text \<open>
  The hash table of \<open>src/network/baseline/linux/user_mode/hash.c\<close> (with \<open>hash.h\<close> and \<open>const.h\<close>),
  which the key-value servers share.  Strings are the bytes readable from a pointer on; reading
  past them is \<open>Out_Of_Bounds\<close>.  Whether a C \<open>char\<close> is signed differs between the machines
  the code is built for, so its value is a parameter \<open>cv\<close>.  \<open>live\<close> counts the blocks obtained
  from \<open>malloc\<close> and not freed.  The abstraction of a table is the map from bucket numbers to
  values: \<open>put\<close> refines a map update and \<open>get\<close> a lookup.
\<close>

section \<open>Data\<close>

definition KEY_SIZE :: nat where "KEY_SIZE = 10"
definition VALUE_SIZE :: nat where "VALUE_SIZE = 100"
definition NUM_BUCKETS :: nat where "NUM_BUCKETS = 100"

record kv_entry =
  ent_key :: "u8 list"
  ent_value :: "u8 list"

text \<open>The list of entries from the head on, and the lock: not allocated, free, or held.\<close>

record bucket =
  entries :: "kv_entry list"
  lock :: "bool option"

record hash_table =
  buckets :: "bucket list"
  live :: nat

section \<open>C strings\<close>

fun strncpy_bytes :: "nat \<Rightarrow> u8 list \<Rightarrow> u8 list res" where
  "strncpy_bytes 0 src = Inr []"
| "strncpy_bytes (Suc n) [] = Inl Out_Of_Bounds"
| "strncpy_bytes (Suc n) (c # cs) =
     (if c = 0 then Inr (replicate (Suc n) 0)
      else and_then (strncpy_bytes n cs) (\<lambda>ds. Inr (c # ds)))"

text \<open>The characters before the terminator.\<close>

definition c_string :: "u8 list \<Rightarrow> u8 list" where
  "c_string s = takeWhile (\<lambda>c. c \<noteq> 0) s"

section \<open>Operations\<close>

fun hash_loop :: "(u8 \<Rightarrow> int) \<Rightarrow> u8 list \<Rightarrow> int \<Rightarrow> u64 \<Rightarrow> u64 res" where
  "hash_loop cv [] i acc = Inl Out_Of_Bounds"
| "hash_loop cv (c # cs) i acc =
     (if c = 0 then Inr acc
      else hash_loop cv cs (s32 (i + 1)) (acc + to_u64 (s32 (s32 (cv c * i) * 10))))"

definition hash :: "(u8 \<Rightarrow> int) \<Rightarrow> u8 list \<Rightarrow> nat res" where
  "hash cv key = and_then (hash_loop cv key 0 0) (\<lambda>acc. Inr (unat (acc mod of_nat NUM_BUCKETS)))"

definition hash_init :: "hash_table \<Rightarrow> hash_table" where
  "hash_init t = t\<lparr>buckets := replicate NUM_BUCKETS \<lparr>entries = [], lock = Some False\<rparr>,
                   live := live t + NUM_BUCKETS\<rparr>"

text \<open>\<open>free_iter\<close> frees an entry after the ones behind it: how many blocks it gives back.\<close>

fun free_iter :: "kv_entry list \<Rightarrow> nat" where
  "free_iter [] = 0"
| "free_iter (e # es) = Suc (free_iter es)"

fun hash_free_loop :: "bucket list \<Rightarrow> nat \<Rightarrow> bucket list \<times> nat" where
  "hash_free_loop [] n = ([], n)"
| "hash_free_loop (b # bs) n =
     (case hash_free_loop bs (n - free_iter (entries b) - (if lock b = None then 0 else 1)) of
        (bs', n') \<Rightarrow> (\<lparr>entries = [], lock = None\<rparr> # bs', n'))"

definition hash_free :: "hash_table \<Rightarrow> hash_table" where
  "hash_free t = (case hash_free_loop (buckets t) (live t) of (bs, n) \<Rightarrow> t\<lparr>buckets := bs, live := n\<rparr>)"

definition set_bucket :: "nat \<Rightarrow> bucket \<Rightarrow> hash_table \<Rightarrow> hash_table" where
  "set_bucket i b t = t\<lparr>buckets := (buckets t)[i := b]\<rparr>"

text \<open>\<open>pthread_mutex_lock\<close>: a lock that was never allocated faults, one that is held is waited
  for in vain by the only thread there is.\<close>

definition mutex_lock :: "nat \<Rightarrow> hash_table \<Rightarrow> hash_table res" where
  "mutex_lock i t =
    (case lock (buckets t ! i) of
       None \<Rightarrow> Inl Null_Deref
     | Some True \<Rightarrow> Inl (Panic ''deadlock'')
     | Some False \<Rightarrow> Inr (set_bucket i ((buckets t ! i)\<lparr>lock := Some True\<rparr>) t))"

definition mutex_unlock :: "nat \<Rightarrow> hash_table \<Rightarrow> hash_table" where
  "mutex_unlock i t = set_bucket i ((buckets t ! i)\<lparr>lock := Some False\<rparr>) t"

text \<open>\<open>put\<close>; \<open>mem\<close> says whether \<open>malloc\<close> has a block to give.\<close>

definition put :: "(u8 \<Rightarrow> int) \<Rightarrow> bool \<Rightarrow> u8 list \<Rightarrow> u8 list \<Rightarrow> hash_table \<Rightarrow> hash_table res" where
  "put cv mem key val t =
    and_then (hash cv key) (\<lambda>i.
    and_then (mutex_lock i t) (\<lambda>t.
    and_then (case entries (buckets t ! i) of
                [] \<Rightarrow> if mem then Inr (\<lparr>ent_key = replicate KEY_SIZE 0, ent_value = replicate VALUE_SIZE 0\<rparr>, [], live t + 1)
                      else Inl Null_Deref
              | e # es \<Rightarrow> Inr (e, es, live t)) (\<lambda>(e, es, n).
    and_then (strncpy_bytes KEY_SIZE key) (\<lambda>k.
    and_then (strncpy_bytes VALUE_SIZE val) (\<lambda>v.
    Inr (mutex_unlock i (set_bucket i ((buckets t ! i)\<lparr>entries := e\<lparr>ent_key := k, ent_value := v\<rparr> # es\<rparr>)
           (t\<lparr>live := n\<rparr>))))))))"

text \<open>\<open>get\<close> with the caller's buffer: the buffer and the table afterwards.\<close>

definition get :: "(u8 \<Rightarrow> int) \<Rightarrow> u8 list \<Rightarrow> u8 list \<Rightarrow> hash_table \<Rightarrow> (u8 list \<times> hash_table) res" where
  "get cv key buf t =
    and_then (hash cv key) (\<lambda>i.
    and_then (mutex_lock i t) (\<lambda>t.
    (case entries (buckets t ! i) of
       [] \<Rightarrow> Inr (buf, mutex_unlock i t)
     | e # es \<Rightarrow> and_then (strncpy_bytes VALUE_SIZE (ent_value e)) (\<lambda>v.
                 Inr (v @ drop VALUE_SIZE buf, mutex_unlock i t)))))"

section \<open>Strings\<close>

definition terminated :: "u8 list \<Rightarrow> bool" where
  "terminated s \<longleftrightarrow> 0 \<in> set s"

lemma terminated_Cons [simp]: "terminated (c # cs) \<longleftrightarrow> c = 0 \<or> terminated cs"
  by (auto simp: terminated_def)

lemma not_terminated_Nil [simp]: "\<not> terminated []"
  by (simp add: terminated_def)

text \<open>What \<open>strncpy\<close> leaves in the destination: the string, cut at \<open>n\<close>, and zeros.\<close>

definition padded :: "nat \<Rightarrow> u8 list \<Rightarrow> u8 list" where
  "padded n s = (let p = take n (c_string s) in p @ replicate (n - length p) 0)"

lemma length_padded [simp]: "length (padded n s) = n"
  by (simp add: padded_def Let_def)

lemma strncpy_bytes_ok:
  "terminated s \<or> n \<le> length s \<Longrightarrow> strncpy_bytes n s = Inr (padded n s)"
proof (induction n s rule: strncpy_bytes.induct)
  case (1 src)
  then show ?case by (simp add: padded_def)
next
  case (2 n)
  then show ?case by simp
next
  case (3 n c cs)
  then show ?case by (auto simp: padded_def c_string_def Let_def)
qed

lemma takeWhile_replicate_0: "takeWhile (\<lambda>c. c \<noteq> 0) (replicate m (0::u8)) = []"
  by (cases m) auto

lemma c_string_padded: "c_string (padded n s) = take n (c_string s)"
proof -
  have "\<forall>c \<in> set (take n (c_string s)). c \<noteq> 0"
    by (auto simp: c_string_def dest!: in_set_takeD set_takeWhileD)
  then have "c_string (take n (c_string s) @ replicate m 0) = take n (c_string s)" for m
    unfolding c_string_def [of "take n (c_string s) @ replicate m 0"]
    by (subst takeWhile_append2) (auto simp: takeWhile_replicate_0)
  then show ?thesis by (simp add: padded_def Let_def)
qed

lemma padded_idem: "padded n (padded n s) = padded n s"
  unfolding padded_def [of n "padded n s"] c_string_padded by (simp add: padded_def Let_def)

section \<open>The hash function\<close>

lemma hash_loop_total: "terminated k \<Longrightarrow> \<exists>r. hash_loop cv k i acc = Inr r"
  by (induction k arbitrary: i acc) auto

lemma hash_total: "terminated k \<Longrightarrow> \<exists>i < NUM_BUCKETS. hash cv k = Inr i"
proof -
  assume "terminated k"
  then obtain r where r: "hash_loop cv k 0 0 = Inr r" using hash_loop_total by blast
  have "unat (r mod 100) < 100" by (simp add: unat_mod)
  with r show ?thesis by (auto simp: hash_def NUM_BUCKETS_def)
qed

lemma hash_bound: "hash cv k = Inr i \<Longrightarrow> i < NUM_BUCKETS"
  by (auto simp: hash_def NUM_BUCKETS_def and_then_Inr_iff unat_mod)

text \<open>The sum the loop builds, without the machine's wrap-around.\<close>

fun key_sum :: "(u8 \<Rightarrow> int) \<Rightarrow> u8 list \<Rightarrow> nat \<Rightarrow> int" where
  "key_sum cv [] i = 0"
| "key_sum cv (c # cs) i = cv c * int i * 10 + key_sum cv cs (Suc i)"

lemma key_sum_bounds:
  assumes "\<And>c. 0 \<le> cv c \<and> cv c < 256"
  shows "0 \<le> key_sum cv cs i" "key_sum cv cs i \<le> int (length cs) * (2560 * int (i + length cs))"
proof (induction cs arbitrary: i)
  case (Cons c cs)
  have c: "0 \<le> cv c" "cv c \<le> 256" using assms [of c] by auto
  { case 1 from Cons(1) c show ?case by simp
  next
    case 2
    have "cv c * int i * 10 \<le> 2560 * int (i + length (c # cs))"
      using mult_mono [OF c(2), of "int i" "int i"] by simp
    moreover have "key_sum cv cs (Suc i) \<le> int (length cs) * (2560 * int (i + length (c # cs)))"
      using Cons(2) [of "Suc i"] by simp
    ultimately show ?case by (simp add: algebra_simps) }
qed simp_all

lemma hash_loop_sum:
  assumes "\<And>c. 0 \<le> cv c \<and> cv c < 256" "terminated k" "i + length (c_string k) \<le> 1000"
  shows "hash_loop cv k (int i) acc = Inr (acc + to_u64 (key_sum cv (c_string k) i))"
  using assms(2,3)
proof (induction k arbitrary: i acc)
  case Nil
  then show ?case by simp
next
  case (Cons c cs)
  show ?case
  proof (cases "c = 0")
    case True
    then show ?thesis by (simp add: c_string_def to_u64_def)
  next
    case False
    with Cons.prems(2) have i: "i < 1000" by (simp add: c_string_def)
    have b: "0 \<le> cv c * int i" "cv c * int i \<le> 256 * 1000"
      using assms(1) [of c] i mult_mono [of "cv c" 256 "int i" 1000] by auto
    then have s: "s32 (s32 (cv c * int i) * 10) = cv c * int i * 10" "s32 (int i + 1) = int (Suc i)"
      using i by (simp_all add: s32_nonneg)
    have "hash_loop cv cs (int (Suc i)) (acc + to_u64 (cv c * int i * 10)) =
          Inr (acc + to_u64 (cv c * int i * 10) + to_u64 (key_sum cv (c_string cs) (Suc i)))"
      using Cons False by (intro Cons.IH) (auto simp: c_string_def)
    with False s show ?thesis
      by (simp add: c_string_def to_u64_def add.assoc)
  qed
qed

lemma key_sum_10: "10 dvd key_sum cv cs i"
  by (induction cs arbitrary: i) (simp_all add: dvd_add)

lemma hash_value:
  assumes "\<And>c. 0 \<le> cv c \<and> cv c < 256" "terminated k" "length (c_string k) \<le> 1000"
  shows "hash cv k = Inr (nat (key_sum cv (c_string k) 0 mod 100))"
proof -
  let ?s = "key_sum cv (c_string k) 0" and ?n = "length (c_string k)"
  have "int ?n * (2560 * int (0 + ?n)) \<le> 1000 * (2560 * 1000)"
    using assms(3) by (intro mult_mono) auto
  then have b: "0 \<le> ?s" "?s \<le> 2560000000" using key_sum_bounds [of cv "c_string k" 0] assms(1) by auto
  then have u: "unat (to_u64 ?s) = nat ?s"
    by (simp add: to_u64_def unat_eq_nat_uint take_bit_int_eq_self uint_word_of_int_eq)
  have "hash_loop cv k 0 0 = Inr (to_u64 ?s)"
    using hash_loop_sum [of cv k 0 0] assms by simp
  then show ?thesis
    using b u by (simp add: hash_def NUM_BUCKETS_def unat_mod nat_mod_distrib)
qed

text \<open>for keys of plain characters (at most a thousand) \<open>hash\<close> returns and does not fill the
  table: every bucket number is a multiple of ten, so only ten of the hundred buckets are ever
  used; and the first character has no influence.\<close>

theorem hash_uses_ten_buckets:
  assumes "\<forall>c. 0 \<le> cv c \<and> cv c < 256" "terminated k" "length (c_string k) \<le> 999" "c \<noteq> 0" "d \<noteq> 0"
  shows "\<exists>i. hash cv (c # k) = Inr i \<and> hash cv (d # k) = Inr i \<and> i \<in> {0, 10, 20, 30, 40, 50, 60, 70, 80, 90}"
proof -
  let ?s = "key_sum cv (c_string k) 1"
  have v: "hash cv (x # k) = Inr (nat (?s mod 100))" if "x \<noteq> 0" for x
    using hash_value [of cv "x # k"] assms that by (simp add: c_string_def)
  obtain m where m: "?s = 10 * m" using key_sum_10 [of cv "c_string k" 1] by (auto elim: dvdE)
  have "?s mod 100 = 10 * (m mod 10)" unfolding m using mult_mod_right [of 10 m 10] by simp
  moreover have "m mod 10 \<in> {0..9}" by simp
  then have "m mod 10 \<in> {0, 1, 2, 3, 4, 5, 6, 7, 8, 9}" by (simp add: atLeastAtMost_iff) presburger
  ultimately have "nat (?s mod 100) \<in> {0, 10, 20, 30, 40, 50, 60, 70, 80, 90}" by auto
  with v assms(4,5) show ?thesis by blast
qed

theorem hash_uses_ten_buckets_witness:
  "\<exists>i. hash uint (97 # [98, 99, 0]) = Inr i \<and> hash uint (98 # [98, 99, 0]) = Inr i \<and>
       i \<in> {0, 10, 20, 30, 40, 50, 60, 70, 80, 90}"
proof -
  have "\<forall>c. 0 \<le> uint (c :: u8) \<and> uint c < 256" using uint_lt2p [where 'a = 8] by auto
  then show ?thesis
    by (rule hash_uses_ten_buckets) (simp_all add: c_string_def)
qed

section \<open>The table as a map\<close>

definition bucket_ok :: "bucket \<Rightarrow> bool" where
  "bucket_ok b \<longleftrightarrow> lock b = Some False \<and> length (entries b) \<le> 1 \<and>
     (\<forall>e\<in>set (entries b). length (ent_key e) = KEY_SIZE \<and> length (ent_value e) = VALUE_SIZE \<and>
        padded VALUE_SIZE (ent_value e) = ent_value e)"

definition entry_count :: "hash_table \<Rightarrow> nat" where
  "entry_count t = sum_list (map (\<lambda>b. length (entries b)) (buckets t))"

text \<open>A table between two operations; \<open>other\<close> are the blocks that belong to the rest of the program.\<close>

definition table_ok :: "nat \<Rightarrow> hash_table \<Rightarrow> bool" where
  "table_ok other t \<longleftrightarrow> length (buckets t) = NUM_BUCKETS \<and> (\<forall>b\<in>set (buckets t). bucket_ok b) \<and>
     live t = other + NUM_BUCKETS + entry_count t"

definition table_map :: "hash_table \<Rightarrow> nat \<Rightarrow> u8 list option" where
  "table_map t i = (case entries (buckets t ! i) of [] \<Rightarrow> None | e # es \<Rightarrow> Some (ent_value e))"

lemma table_bucket: "table_ok n t \<Longrightarrow> i < NUM_BUCKETS \<Longrightarrow> bucket_ok (buckets t ! i)"
  by (simp add: table_ok_def)

lemma set_bucket_simps [simp]:
  "buckets (set_bucket i b t) = (buckets t)[i := b]" "live (set_bucket i b t) = live t"
  by (simp_all add: set_bucket_def)

lemma mutex_lock_ok:
  "table_ok n t \<Longrightarrow> i < NUM_BUCKETS \<Longrightarrow>
   mutex_lock i t = Inr (set_bucket i ((buckets t ! i)\<lparr>lock := Some True\<rparr>) t)"
  using table_bucket [of n t i] by (simp add: mutex_lock_def bucket_ok_def)

lemma bucket_relock: "lock b = Some False \<Longrightarrow> b\<lparr>lock := Some False\<rparr> = b"
  by (cases b) simp

lemma lock_unlock:
  assumes "table_ok n t" "i < NUM_BUCKETS"
  shows "mutex_unlock i (set_bucket i ((buckets t ! i)\<lparr>lock := Some True\<rparr>) t) = t"
proof -
  have "lock (buckets t ! i) = Some False" "i < length (buckets t)"
    using table_bucket [OF assms] assms by (simp_all add: bucket_ok_def table_ok_def)
  then show ?thesis by (simp add: mutex_unlock_def set_bucket_def bucket_relock)
qed

lemma sum_list_update_nat:
  "i < length xs \<Longrightarrow> sum_list (map f (xs[i := x])) + f (xs ! i) = sum_list (map f xs) + (f x :: nat)"
  by (induction xs arbitrary: i) (auto split: nat.splits)

lemma table_ok_set:
  assumes "table_ok n t" "i < NUM_BUCKETS" "bucket_ok b"
    and "m + length (entries (buckets t ! i)) = live t + length (entries b)"
  shows "table_ok n ((set_bucket i b t)\<lparr>live := m\<rparr>)"
    and "table_map ((set_bucket i b t)\<lparr>live := m\<rparr>) j =
         (if j = i then map_option ent_value (if entries b = [] then None else Some (hd (entries b))) else table_map t j)"
proof -
  have len: "i < length (buckets t)" using assms(1,2) by (simp add: table_ok_def)
  have "\<forall>x\<in>set ((buckets t)[i := b]). bucket_ok x"
    using assms(1,3) set_update_subset_insert [of "buckets t" i b] by (auto simp: table_ok_def)
  moreover have "m = n + NUM_BUCKETS + entry_count ((set_bucket i b t)\<lparr>live := m\<rparr>)"
    using sum_list_update_nat [OF len, of "\<lambda>b. length (entries b)" b] assms(1,4)
    by (simp add: entry_count_def table_ok_def)
  ultimately show "table_ok n ((set_bucket i b t)\<lparr>live := m\<rparr>)"
    using assms(1) by (simp add: table_ok_def)
  show "table_map ((set_bucket i b t)\<lparr>live := m\<rparr>) j =
         (if j = i then map_option ent_value (if entries b = [] then None else Some (hd (entries b))) else table_map t j)"
    using len by (auto simp: table_map_def nth_list_update split: list.splits)
qed

lemma put_refines:
  assumes "table_ok n t" "hash cv k = Inr i" "terminated k" "terminated v \<or> VALUE_SIZE \<le> length v"
  shows "\<exists>t'. put cv True k v t = Inr t' \<and> table_ok n t' \<and>
           table_map t' = (table_map t)(i \<mapsto> padded VALUE_SIZE v)"
proof -
  have i: "i < NUM_BUCKETS" "i < length (buckets t)"
    using hash_bound [OF assms(2)] assms(1) by (simp_all add: table_ok_def)
  define e es m where "e = (case entries (buckets t ! i) of [] \<Rightarrow> \<lparr>ent_key = replicate KEY_SIZE 0, ent_value = replicate VALUE_SIZE 0\<rparr> | x # xs \<Rightarrow> x)"
    and "es = (case entries (buckets t ! i) of [] \<Rightarrow> [] | x # xs \<Rightarrow> xs)"
    and "m = (case entries (buckets t ! i) of [] \<Rightarrow> live t + 1 | x # xs \<Rightarrow> live t)"
  let ?e = "e\<lparr>ent_key := padded KEY_SIZE k, ent_value := padded VALUE_SIZE v\<rparr>"
  let ?b = "(buckets t ! i)\<lparr>entries := ?e # es, lock := Some False\<rparr>"
  have b: "bucket_ok (buckets t ! i)" by (rule table_bucket [OF assms(1) i(1)])
  then have es: "es = []" by (auto simp: es_def bucket_ok_def split: list.splits)
  have bok: "bucket_ok ?b" using es by (simp add: bucket_ok_def padded_idem)
  have m: "m + length (entries (buckets t ! i)) = live t + length (entries ?b)"
    using b es by (auto simp: m_def bucket_ok_def split: list.splits)
  have "put cv True k v t = Inr ((set_bucket i ?b t)\<lparr>live := m\<rparr>)"
    using i strncpy_bytes_ok assms(2,3,4) mutex_lock_ok [OF assms(1) i(1)]
    by (auto simp: put_def mutex_unlock_def set_bucket_def e_def es_def m_def split: list.splits)
  moreover have "table_map ((set_bucket i ?b t)\<lparr>live := m\<rparr>) = (table_map t)(i \<mapsto> padded VALUE_SIZE v)"
    using table_ok_set(2) [OF assms(1) i(1) bok m] by (auto simp: fun_eq_iff)
  ultimately show ?thesis using table_ok_set(1) [OF assms(1) i(1) bok m] by blast
qed

lemma get_refines:
  assumes "table_ok n t" "hash cv k = Inr i"
  shows "get cv k buf t =
           Inr (case table_map t i of None \<Rightarrow> buf | Some v \<Rightarrow> v @ drop VALUE_SIZE buf, t)"
proof -
  have i: "i < NUM_BUCKETS" "i < length (buckets t)"
    using hash_bound [OF assms(2)] assms(1) by (simp_all add: table_ok_def)
  have b: "bucket_ok (buckets t ! i)" by (rule table_bucket [OF assms(1) i(1)])
  show ?thesis
    using i b assms(2) mutex_lock_ok [OF assms(1) i(1)] lock_unlock [OF assms(1) i(1)]
    by (auto simp: get_def table_map_def bucket_ok_def strncpy_bytes_ok split: list.splits)
qed

lemma hash_init_ok: "live t = n \<Longrightarrow> table_ok n (hash_init t)" "i < NUM_BUCKETS \<Longrightarrow> table_map (hash_init t) i = None"
  by (simp_all add: table_ok_def hash_init_def bucket_ok_def entry_count_def table_map_def sum_list_replicate)

lemma free_iter_length [simp]: "free_iter es = length es"
  by (induction es) auto

lemma hash_free_loop_live:
  "\<forall>b\<in>set bs. lock b = Some False \<Longrightarrow>
   hash_free_loop bs (m + length bs + sum_list (map (\<lambda>b. length (entries b)) bs)) =
     (replicate (length bs) \<lparr>entries = [], lock = None\<rparr>, m)"
  by (induction bs) (auto simp: algebra_simps split: prod.splits)

section \<open>What a client of the table sees\<close>

text \<open>A store whose keys are mapped to slots: writing a key overwrites its slot, reading a key
  returns what its slot holds.\<close>

locale slot_store =
  fixes slot :: "'k \<Rightarrow> 's"
    and wr :: "'k \<Rightarrow> 'v \<Rightarrow> 't \<Rightarrow> 't res"
    and ok :: "'t \<Rightarrow> bool"
    and view :: "'t \<Rightarrow> 's \<Rightarrow> 'w option"
    and norm :: "'v \<Rightarrow> 'w"
    and valid :: "'k \<Rightarrow> 'v \<Rightarrow> bool"
  assumes write_ok: "ok t \<Longrightarrow> valid k v \<Longrightarrow>
      \<exists>t'. wr k v t = Inr t' \<and> ok t' \<and> view t' = (view t)(slot k \<mapsto> norm v)"
begin

fun write_all :: "('k \<times> 'v) list \<Rightarrow> 't \<Rightarrow> 't res" where
  "write_all [] t = Inr t"
| "write_all ((k, v) # kvs) t = and_then (wr k v t) (write_all kvs)"

text \<open>The value of the last wr to a slot.\<close>

fun last_write :: "('k \<times> 'v) list \<Rightarrow> 's \<Rightarrow> 'w option" where
  "last_write [] s = None"
| "last_write ((k, v) # kvs) s =
     (case last_write kvs s of Some w \<Rightarrow> Some w | None \<Rightarrow> if slot k = s then Some (norm v) else None)"

lemma write_all_view:
  "ok t \<Longrightarrow> \<forall>(k, v) \<in> set kvs. valid k v \<Longrightarrow>
   \<exists>t'. write_all kvs t = Inr t' \<and> ok t' \<and>
        (\<forall>s. view t' s = (case last_write kvs s of None \<Rightarrow> view t s | Some w \<Rightarrow> Some w))"
proof (induction kvs arbitrary: t)
  case Nil
  then show ?case by simp
next
  case (Cons kv kvs)
  obtain k v where kv: "kv = (k, v)" by fastforce
  from write_ok [OF Cons.prems(1), of k v] Cons.prems(2) kv obtain t1 where
    t1: "wr k v t = Inr t1" "ok t1" "view t1 = (view t)(slot k \<mapsto> norm v)" by auto
  from Cons.IH [OF t1(2)] Cons.prems(2) obtain t' where
    "write_all kvs t1 = Inr t'" "ok t'"
    "\<forall>s. view t' s = (case last_write kvs s of None \<Rightarrow> view t1 s | Some w \<Rightarrow> Some w)" by auto
  with t1 kv show ?case by (auto split: option.splits)
qed

end

text \<open>The table, with the bucket number of a key as its slot.\<close>

definition bucket_of :: "(u8 \<Rightarrow> int) \<Rightarrow> u8 list \<Rightarrow> nat" where
  "bucket_of cv k = (case hash cv k of Inr i \<Rightarrow> i | Inl _ \<Rightarrow> 0)"

interpretation kv: slot_store "bucket_of cv" "put cv True" "table_ok n" table_map "padded VALUE_SIZE"
  "\<lambda>k v. terminated k \<and> terminated v"
proof unfold_locales
  fix t k v
  assume "table_ok n t" "terminated k \<and> terminated v"
  moreover obtain i where "hash cv k = Inr i" using hash_total calculation(2) by blast
  ultimately show "\<exists>t'. put cv True k v t = Inr t' \<and> table_ok n t' \<and>
      table_map t' = (table_map t)(bucket_of cv k \<mapsto> padded VALUE_SIZE v)"
    using put_refines by (auto simp: bucket_of_def)
qed

text \<open>The puts of a client, in order, and what it would read: the latest value whose key falls
  into the same bucket.\<close>

fun put_all :: "(u8 \<Rightarrow> int) \<Rightarrow> (u8 list \<times> u8 list) list \<Rightarrow> hash_table \<Rightarrow> hash_table res" where
  "put_all cv [] t = Inr t"
| "put_all cv ((k, v) # kvs) t = and_then (put cv True k v t) (put_all cv kvs)"

fun latest :: "(u8 \<Rightarrow> int) \<Rightarrow> (u8 list \<times> u8 list) list \<Rightarrow> nat \<Rightarrow> u8 list option" where
  "latest cv [] i = None"
| "latest cv ((k, v) # kvs) i =
     (case latest cv kvs i of Some w \<Rightarrow> Some w
      | None \<Rightarrow> if bucket_of cv k = i then Some (padded VALUE_SIZE v) else None)"

lemma put_all_eq: "put_all cv kvs t = kv.write_all cv kvs t"
proof (induction kvs arbitrary: t)
  case (Cons kv kvs)
  then have "put_all cv kvs = kv.write_all cv kvs" by blast
  then show ?case by (cases kv) simp
qed simp

lemma latest_eq: "latest cv kvs i = kv.last_write cv kvs i"
  by (induction kvs) (auto split: option.splits)

text \<open>C11: after \<open>hash_init\<close> and any sequence of puts of terminated strings, \<open>get\<close> returns the value
  of the latest put whose key falls into the same bucket (cut at 100 bytes and padded with
  zeros), and leaves the caller's buffer alone when there is none; no operation stops, and
  \<open>hash_free\<close> gives back every block that was allocated.\<close>

theorem kv_session:
  assumes "\<forall>(k, v) \<in> set kvs. terminated k \<and> terminated v" "terminated key" "length buf = VALUE_SIZE"
  shows "\<exists>t'. put_all cv kvs (hash_init t) = Inr t' \<and>
           get cv key buf t' = Inr (case latest cv kvs (bucket_of cv key) of None \<Rightarrow> buf | Some v \<Rightarrow> v, t') \<and>
           live (hash_free t') = live t"
proof -
  from kv.write_all_view [OF hash_init_ok(1) [OF refl] assms(1), of cv] obtain t' where
    T: "put_all cv kvs (hash_init t) = Inr t'" "table_ok (live t) t'"
       "\<And>s. table_map t' s = (case latest cv kvs s of None \<Rightarrow> table_map (hash_init t) s | Some w \<Rightarrow> Some w)"
    by (auto simp: put_all_eq latest_eq)
  obtain i where i: "i < NUM_BUCKETS" "hash cv key = Inr i" using hash_total assms(2) by blast
  have "get cv key buf t' = Inr (case latest cv kvs (bucket_of cv key) of None \<Rightarrow> buf | Some v \<Rightarrow> v, t')"
    using get_refines [OF T(2) i(2), of buf] T(3) [of i] hash_init_ok(2) [OF i(1)] i(2) assms(3)
    by (auto simp: bucket_of_def split: option.splits)
  moreover have "live (hash_free t') = live t"
    using hash_free_loop_live [of "buckets t'" "live t"] T(2)
    by (simp add: hash_free_def table_ok_def bucket_ok_def entry_count_def)
  ultimately show ?thesis using T(1) by blast
qed

text \<open>a put to another key of the same bucket replaces the value: \<open>get\<close> does not compare keys,
  so it returns the value of a key it was not asked for.\<close>

theorem kv_collision:
  assumes "table_ok n t" "terminated k1" "terminated k2" "terminated v1" "terminated v2"
    and "hash cv k1 = hash cv k2" "length buf = VALUE_SIZE"
  shows "\<exists>t1 t2. put cv True k1 v1 t = Inr t1 \<and> put cv True k2 v2 t1 = Inr t2 \<and>
           get cv k1 buf t2 = Inr (padded VALUE_SIZE v2, t2)"
proof -
  obtain i where i: "hash cv k1 = Inr i" "hash cv k2 = Inr i" using hash_total assms(2,6) by metis
  from put_refines [OF assms(1) i(1) assms(2)] assms(4) obtain t1 where
    t1: "put cv True k1 v1 t = Inr t1" "table_ok n t1" by blast
  from put_refines [OF t1(2) i(2) assms(3)] assms(5) obtain t2 where
    t2: "put cv True k2 v2 t1 = Inr t2" "table_ok n t2" "table_map t2 = (table_map t1)(i \<mapsto> padded VALUE_SIZE v2)"
    by blast
  from get_refines [OF t2(2) i(1), of buf] t2(3) assms(7) t1(1) t2(1) show ?thesis by simp
qed

definition empty_table :: hash_table where
  "empty_table = \<lparr>buckets = [], live = 3\<rparr>"

theorem kv_session_witness:
  "\<exists>t'. put_all uint [([98, 0], [49, 0]), ([99, 0], [50, 0])] (hash_init empty_table) = Inr t' \<and>
     (\<exists>v. get uint [97, 0] (replicate 100 1) t' = Inr (v, t') \<and> take 2 v = [50, 0]) \<and>
     live (hash_free t') = 3"
proof -
  have b: "bucket_of uint [c, 0] = 0" for c :: u8
    by (simp add: bucket_of_def hash_def NUM_BUCKETS_def to_u64_def s32_def)
  have "padded VALUE_SIZE [50, 0] = 50 # replicate 99 0"
    by (simp add: padded_def c_string_def VALUE_SIZE_def Let_def)
  then have v: "take 2 (padded VALUE_SIZE [50, 0]) = [50, 0]"
    by (simp add: numeral_2_eq_2)
  obtain t' where t': "put_all uint [([98, 0], [49, 0]), ([99, 0], [50, 0])] (hash_init empty_table) = Inr t'"
    "get uint [97, 0] (replicate 100 1) t' =
       Inr (case latest uint [([98, 0], [49, 0]), ([99, 0], [50, 0])] (bucket_of uint [97, 0]) of
              None \<Rightarrow> replicate 100 1 | Some v \<Rightarrow> v, t')"
    "live (hash_free t') = live empty_table"
    using kv_session [of "[([98, 0], [49, 0]), ([99, 0], [50, 0])]" "[97, 0]" "replicate 100 1" uint empty_table]
    by (auto simp: VALUE_SIZE_def)
  moreover have "latest uint [([98, 0], [49, 0]), ([99, 0], [50, 0])] (bucket_of uint [97, 0]) =
      Some (padded VALUE_SIZE [50, 0])" by (simp add: b)
  ultimately show ?thesis using v by (auto simp: empty_table_def)
qed

theorem kv_collision_witness:
  "\<exists>t1 t2. put uint True [97, 0] [49, 0] (hash_init empty_table) = Inr t1 \<and>
     put uint True [98, 0] [50, 0] t1 = Inr t2 \<and>
     get uint [97, 0] (replicate 100 1) t2 = Inr (padded VALUE_SIZE [50, 0], t2)"
  by (rule kv_collision [OF hash_init_ok(1) [OF refl]])
     (simp_all add: hash_def VALUE_SIZE_def)

end
