(* ===== verification/Kv_Server.thy ===== *)
theory Kv_Server
  imports Kv_Hash
begin

text \<open>
  The key-value servers and the sender of \<open>src/network/baseline/linux/user_mode\<close>: the message
  format of \<open>const.h\<close>, the TCP server \<open>server.c\<close>, the UDP server \<open>udpserver_simple.c\<close> and the UDP
  sender \<open>send.c\<close>.  Sockets are lists of messages: what \<open>recv\<close> delivers, in order, and what was
  sent.  The machines are little-endian.  The timestamp that \<open>udpserver_simple.c\<close> prints is left
  out (the message has no such field).
\<close>

section \<open>Messages\<close>

fun le_val :: "u8 list \<Rightarrow> nat" where
  "le_val [] = 0"
| "le_val (b # bs) = unat b + 256 * le_val bs"

fun le_bytes :: "nat \<Rightarrow> nat \<Rightarrow> u8 list" where
  "le_bytes 0 n = []"
| "le_bytes (Suc k) n = of_nat (n mod 256) # le_bytes k (n div 256)"

definition GET :: u32 where "GET = 0"
definition PUT :: u32 where "PUT = 1"
definition EXIT :: u32 where "EXIT = 2"

record rpc =
  rpc_magic :: u64
  rpc_id :: u32
  rpc_type :: u32
  rpc_key :: "u8 list"
  rpc_value :: "u8 list"

definition RPC_SIZE :: nat where "RPC_SIZE = 16 + KEY_SIZE + VALUE_SIZE"

text \<open>The packed structure in memory, and the structure a buffer is read as.\<close>

definition rpc_bytes :: "rpc \<Rightarrow> u8 list" where
  "rpc_bytes r = le_bytes 8 (unat (rpc_magic r)) @ le_bytes 4 (unat (rpc_id r)) @
                 le_bytes 4 (unat (rpc_type r)) @ rpc_key r @ rpc_value r"

definition rpc_at :: "u8 list \<Rightarrow> rpc" where
  "rpc_at buf =
    \<lparr>rpc_magic = of_nat (le_val (take 8 buf)),
     rpc_id = of_nat (le_val (take 4 (drop 8 buf))),
     rpc_type = of_nat (le_val (take 4 (drop 12 buf))),
     rpc_key = take KEY_SIZE (drop 16 buf),
     rpc_value = take VALUE_SIZE (drop 26 buf)\<rparr>"

text \<open>\<open>be64toh\<close>/\<open>htobe64\<close> and \<open>be32toh\<close>/\<open>htobe32\<close> on a little-endian machine.\<close>

definition be64 :: "u64 \<Rightarrow> u64" where
  "be64 w = of_nat (le_val (rev (le_bytes 8 (unat w))))"

definition be32 :: "u32 \<Rightarrow> u32" where
  "be32 w = of_nat (le_val (rev (le_bytes 4 (unat w))))"

section \<open>The TCP server (\<open>server.c\<close>)\<close>

text \<open>\<open>handle_rpc\<close> on the message in \<open>buf\<close>: the key and the value are read in place; \<open>junk\<close> is what
  the local array held.\<close>

definition handle_rpc ::
  "(u8 \<Rightarrow> int) \<Rightarrow> bool \<Rightarrow> u8 list \<Rightarrow> u8 list \<Rightarrow> hash_table \<Rightarrow> (bool \<times> hash_table) res" where
  "handle_rpc cv mem junk buf t =
    (let type = rpc_type (rpc_at buf)
     in if type = GET
        then and_then (get cv (drop 16 buf) junk t) (\<lambda>(value, t'). Inr (False, t'))
        else if type = PUT
        then and_then (put cv mem (drop 16 buf) (drop 26 buf) t) (\<lambda>t'. Inr (False, t'))
        else Inr (True, t))"

text \<open>The loop of \<open>server\<close>: a message overwrites the front of the buffer, every message is
  answered with the first four bytes of the buffer, the loop ends when the connection is closed
  (an empty message) or after a request to exit.\<close>

fun server ::
  "(u8 \<Rightarrow> int) \<Rightarrow> bool \<Rightarrow> u8 list \<Rightarrow> u8 list list \<Rightarrow> u8 list \<Rightarrow> hash_table \<Rightarrow> (u8 list list \<times> hash_table) res" where
  "server cv mem junk [] buf t = Inr ([], t)"
| "server cv mem junk (m # ms) buf t =
     (if m = [] then Inr ([], t)
      else let buf = take RPC_SIZE m @ drop (length m) buf
           in and_then (handle_rpc cv mem junk buf t) (\<lambda>(leave, t').
              if leave then Inr ([take 4 buf], t')
              else and_then (server cv mem junk ms buf t') (\<lambda>(out, t''). Inr (take 4 buf # out, t''))))"

definition server_init :: "hash_table \<Rightarrow> hash_table" where
  "server_init t = hash_init t"

definition server_destroy :: "hash_table \<Rightarrow> hash_table" where
  "server_destroy t = hash_free t"

text \<open>\<open>main\<close> of \<open>server.c\<close>: \<open>accepts\<close> are the results of \<open>accept\<close>, in order.  The value is the exit
  code and how many threads were started; connections are served until 10000 have come or an
  \<open>accept\<close> fails.\<close>

definition NUM_SERVERS :: nat where "NUM_SERVERS = 10000"

fun server_main :: "int list \<Rightarrow> nat \<Rightarrow> int \<times> nat" where
  "server_main [] threads = (0, threads)"
| "server_main (fd # fds) threads =
     (if threads < NUM_SERVERS
      then if fd < 0 then (-1, threads) else server_main fds (Suc threads)
      else (0, threads))"

section \<open>The UDP server (\<open>udpserver_simple.c\<close>)\<close>

text \<open>The result also holds the reply, if one is sent.\<close>

definition udp_handle_rpc ::
  "(u8 \<Rightarrow> int) \<Rightarrow> bool \<Rightarrow> u8 list \<Rightarrow> u8 list \<Rightarrow> hash_table \<Rightarrow> (bool \<times> u8 list option \<times> hash_table) res" where
  "udp_handle_rpc cv mem junk buf t =
    (let type = rpc_type (rpc_at buf)
     in if type = GET
        then and_then (get cv (drop 16 buf) junk t) (\<lambda>(value, t'). Inr (False, Some (take RPC_SIZE buf), t'))
        else if type = PUT
        then and_then (put cv mem (drop 16 buf) (drop 26 buf) t) (\<lambda>t'. Inr (False, Some (take RPC_SIZE buf), t'))
        else Inr (True, None, t))"

text \<open>The loop of \<open>main\<close>: what was sent, whether the loop was left, and the table.\<close>

fun udp_server ::
  "(u8 \<Rightarrow> int) \<Rightarrow> bool \<Rightarrow> u8 list \<Rightarrow> u8 list list \<Rightarrow> u8 list \<Rightarrow> hash_table
    \<Rightarrow> (u8 list list \<times> bool \<times> hash_table) res" where
  "udp_server cv mem junk [] buf t = Inr ([], False, t)"
| "udp_server cv mem junk (m # ms) buf t =
     (let buf = take RPC_SIZE m @ drop (length m) buf
      in if be64 (rpc_magic (rpc_at buf)) = 0x7777
         then and_then (udp_handle_rpc cv mem junk buf t) (\<lambda>(leave, reply, t').
              if leave then Inr ([], True, t')
              else and_then (udp_server cv mem junk ms buf t') (\<lambda>(out, lv, t'').
                   Inr ((case reply of None \<Rightarrow> out | Some r \<Rightarrow> r # out), lv, t'')))
         else udp_server cv mem junk ms buf t)"

section \<open>The UDP sender (\<open>send.c\<close>)\<close>

definition RPC_MAGIC :: u64 where "RPC_MAGIC = 0x7777"
definition MAX_RPC :: int where "MAX_RPC = 10000"

text \<open>The bytes of \<open>user\<close> and \<open>xxxxxxxxxxxx\<close> in a zeroed structure.\<close>

definition sent_rpc :: "nat \<Rightarrow> rpc" where
  "sent_rpc i =
    \<lparr>rpc_magic = be64 RPC_MAGIC, rpc_id = be32 (of_nat i), rpc_type = be32 PUT,
     rpc_key = [117, 115, 101, 114] @ replicate 6 0, rpc_value = replicate 12 120 @ replicate 88 0\<rparr>"

definition rpc_count :: "int option \<Rightarrow> int" where
  "rpc_count arg = (case arg of None \<Rightarrow> MAX_RPC | Some n \<Rightarrow> if n \<le> 0 then MAX_RPC else n)"

text \<open>The sending loop: \<open>results\<close> are what \<open>sendto\<close> returns; the exit code and the messages sent.\<close>

fun send_loop :: "nat \<Rightarrow> nat \<Rightarrow> int list \<Rightarrow> int \<times> u8 list list" where
  "send_loop 0 i results = (0, [])"
| "send_loop (Suc n) i results =
     (case results of
        [] \<Rightarrow> (1, [])
      | r # rs \<Rightarrow> if r < 0 then (1, [])
                 else (case send_loop n (Suc i) rs of (code, ms) \<Rightarrow> (code, rpc_bytes (sent_rpc i) # ms)))"

definition send_main :: "int option \<Rightarrow> int list \<Rightarrow> int \<times> u8 list list" where
  "send_main arg results = send_loop (nat (rpc_count arg)) 0 results"

section \<open>The message format\<close>

lemma length_le_bytes [simp]: "length (le_bytes k n) = k"
  by (induction k arbitrary: n) auto

lemma le_val_bytes: "le_val (le_bytes k n) = n mod 256 ^ k"
proof (induction k arbitrary: n)
  case (Suc k)
  have "unat (of_nat (n mod 256) :: u8) = n mod 256" by (simp add: unat_of_nat)
  with Suc show ?case by (simp add: mod_mult2_eq add.commute)
qed simp

definition rpc_wf :: "rpc \<Rightarrow> bool" where
  "rpc_wf r \<longleftrightarrow> length (rpc_key r) = KEY_SIZE \<and> length (rpc_value r) = VALUE_SIZE"

lemma length_rpc_bytes: "rpc_wf r \<Longrightarrow> length (rpc_bytes r) = RPC_SIZE"
  by (simp add: rpc_wf_def rpc_bytes_def RPC_SIZE_def)

lemma rpc_at_bytes: "rpc_wf r \<Longrightarrow> rpc_at (rpc_bytes r @ rest) = r"
proof -
  assume wf: "rpc_wf r"
  have "of_nat (unat (rpc_magic r) mod 256 ^ 8) = rpc_magic r"
    using unat_bound [of "rpc_magic r"] by simp
  moreover have "of_nat (unat x mod 256 ^ 4) = x" for x :: u32
    using unat_bound [of x] by simp
  ultimately show ?thesis
    using wf by (simp add: rpc_at_def rpc_bytes_def rpc_wf_def le_val_bytes KEY_SIZE_def VALUE_SIZE_def)
qed

lemma le_bytes_numeral:
  "le_bytes (numeral k) n = of_nat (n mod 256) # le_bytes (pred_numeral k) (n div 256)"
  unfolding numeral_eq_Suc [of k] by (rule le_bytes.simps)

lemma be32_PUT: "be32 PUT = 0x1000000"
  by (simp add: be32_def PUT_def le_bytes_numeral)

lemma be64_MAGIC: "be64 (be64 RPC_MAGIC) = RPC_MAGIC"
  by (simp add: be64_def RPC_MAGIC_def le_bytes_numeral)

section \<open>What the servers do\<close>

text \<open>Only the characters up to the terminator of a key or a value matter.\<close>

lemma hash_loop_append: "terminated k \<Longrightarrow> hash_loop cv (k @ x) i acc = hash_loop cv k i acc"
  by (induction k arbitrary: i acc) auto

lemma hash_append: "terminated k \<Longrightarrow> hash cv (k @ x) = hash cv k"
  by (simp add: hash_def hash_loop_append)

lemma c_string_append: "terminated s \<Longrightarrow> c_string (s @ x) = c_string s"
  by (auto simp: c_string_def terminated_def takeWhile_append1)

lemma padded_append: "terminated s \<Longrightarrow> padded n (s @ x) = padded n s"
  by (simp add: padded_def c_string_append)

lemma terminated_append: "terminated s \<Longrightarrow> terminated (s @ x)"
  by (simp add: terminated_def)

lemma put_append:
  assumes "terminated k" "terminated v"
  shows "put cv mem (k @ x) (v @ y) t = put cv mem k v t"
  using assms
  by (simp add: put_def hash_append strncpy_bytes_ok terminated_append padded_append)

definition good_request :: "rpc \<Rightarrow> bool" where
  "good_request r \<longleftrightarrow> rpc_wf r \<and> terminated (rpc_key r) \<and> terminated (rpc_value r) \<and>
     (rpc_type r = GET \<or> rpc_type r = PUT)"

definition puts_of :: "rpc list \<Rightarrow> (u8 list \<times> u8 list) list" where
  "puts_of rs = map (\<lambda>r. (rpc_key r, rpc_value r)) (filter (\<lambda>r. rpc_type r = PUT) rs)"

lemma rpc_bytes_drop:
  assumes "rpc_wf r"
  shows "drop 16 (rpc_bytes r) = rpc_key r @ rpc_value r" "drop 26 (rpc_bytes r) = rpc_value r"
  using assms by (simp_all add: rpc_bytes_def rpc_wf_def KEY_SIZE_def)

lemma handle_rpc_ok:
  assumes "table_ok n t" "good_request r"
  shows "\<exists>t'. handle_rpc cv True junk (rpc_bytes r) t = Inr (False, t') \<and> table_ok n t' \<and>
           put_all cv (puts_of [r]) t = Inr t'"
proof -
  have r: "rpc_wf r" "terminated (rpc_key r)" "terminated (rpc_value r)" "rpc_at (rpc_bytes r) = r"
    using assms(2) rpc_at_bytes [of r "[]"] by (auto simp: good_request_def)
  obtain i where i: "hash cv (rpc_key r) = Inr i" using hash_total r(2) by blast
  have h: "hash cv (rpc_key r @ rpc_value r) = Inr i" using i hash_append [OF r(2)] by simp
  show ?thesis
  proof (cases "rpc_type r = GET")
    case True
    then show ?thesis
      using get_refines [OF assms(1) h, of junk] assms(1) r
      by (simp add: handle_rpc_def rpc_bytes_drop puts_of_def GET_def PUT_def)
  next
    case False
    then have "rpc_type r = PUT" using assms(2) by (simp add: good_request_def)
    moreover obtain t' where "put cv True (rpc_key r) (rpc_value r) t = Inr t'" "table_ok n t'"
      using put_refines [OF assms(1) i r(2)] r(3) by blast
    moreover have "put cv True (rpc_key r @ rpc_value r) (rpc_value r) t = put cv True (rpc_key r) (rpc_value r) t"
      using put_append [OF r(2,3), of cv True "rpc_value r" "[]"] by simp
    ultimately show ?thesis
      using False r(1,4) by (simp add: handle_rpc_def rpc_bytes_drop puts_of_def)
  qed
qed

lemma put_all_append:
  "put_all cv (xs @ ys) t = and_then (put_all cv xs t) (put_all cv ys)"
proof (induction xs arbitrary: t)
  case (Cons x xs)
  obtain k v where x: "x = (k, v)" by fastforce
  from Cons x show ?case by (cases "put cv True k v t") auto
qed simp

lemma puts_of_Cons: "puts_of (r # rs) = puts_of [r] @ puts_of rs"
  by (simp add: puts_of_def)

text \<open>A prefix of well-formed requests is served; the rest of the connection goes on from there.\<close>

lemma server_serves:
  assumes "table_ok n t" "\<forall>r \<in> set rs. good_request r" "length buf = RPC_SIZE"
  shows "\<exists>t' buf'. length buf' = RPC_SIZE \<and> table_ok n t' \<and> put_all cv (puts_of rs) t = Inr t' \<and>
           (\<forall>ms. server cv True junk (map rpc_bytes rs @ ms) buf t =
              and_then (server cv True junk ms buf' t')
                (\<lambda>(out, t''). Inr (map (\<lambda>r. take 4 (rpc_bytes r)) rs @ out, t'')))"
  using assms
proof (induction rs arbitrary: t buf)
  case Nil
  have "x = and_then x (\<lambda>(out, t''). Inr (out, t''))" for x :: "(u8 list list \<times> hash_table) res"
    by (cases x) auto
  with Nil show ?case by (intro exI [of _ t] exI [of _ buf]) (simp add: puts_of_def)
next
  case (Cons r rs)
  have r: "good_request r" "rpc_wf r" using Cons.prems(2) by (auto simp: good_request_def)
  have len: "length (rpc_bytes r) = RPC_SIZE" by (rule length_rpc_bytes [OF r(2)])
  then have ne: "rpc_bytes r \<noteq> []" by (auto simp: RPC_SIZE_def)
  from handle_rpc_ok [OF Cons.prems(1) r(1)] obtain t1 where
    t1: "handle_rpc cv True junk (rpc_bytes r) t = Inr (False, t1)" "table_ok n t1"
        "put_all cv (puts_of [r]) t = Inr t1" by blast
  from Cons.IH [OF t1(2) _ len] Cons.prems(2) obtain t' buf' where I:
    "length buf' = RPC_SIZE" "table_ok n t'" "put_all cv (puts_of rs) t1 = Inr t'"
    "\<And>ms. server cv True junk (map rpc_bytes rs @ ms) (rpc_bytes r) t1 =
       and_then (server cv True junk ms buf' t')
         (\<lambda>(out, t''). Inr (map (\<lambda>r. take 4 (rpc_bytes r)) rs @ out, t''))" by auto
  have assoc: "and_then (and_then x f) g = and_then x (\<lambda>y. and_then (f y) g)" for x f and g :: "_ \<Rightarrow> (u8 list list \<times> hash_table) res"
    by (cases x) auto
  have "server cv True junk (map rpc_bytes (r # rs) @ ms) buf t =
      and_then (server cv True junk ms buf' t')
        (\<lambda>(out, t''). Inr (map (\<lambda>r. take 4 (rpc_bytes r)) (r # rs) @ out, t''))" for ms
    using t1(1) len ne Cons.prems(3) by (simp add: Let_def I(4) assoc case_prod_unfold)
  then show ?case
    using I(1-3) t1(3) by (intro exI [of _ t'] exI [of _ buf']) (simp add: puts_of_Cons [of r rs] put_all_append)
qed

lemma exit_request:
  assumes "rpc_wf r" "rpc_type r = EXIT"
  shows "handle_rpc cv mem junk (rpc_bytes r) t = Inr (True, t)"
  using assms rpc_at_bytes [OF assms(1), of "[]"] by (simp add: handle_rpc_def EXIT_def GET_def PUT_def)

lemma server_exit:
  assumes "rpc_wf e" "rpc_type e = EXIT" "length buf = RPC_SIZE"
  shows "server cv mem junk (rpc_bytes e # ms) buf t = Inr ([take 4 (rpc_bytes e)], t)"
  using assms length_rpc_bytes [OF assms(1)] by (auto simp: Let_def exit_request RPC_SIZE_def)

text \<open>C12: a connection to the TCP server: a sequence of well-formed GET and PUT requests is answered
  request by request with the first four bytes of each, and leaves the table as the puts among
  them, in order, leave it; no request stops the server.\<close>

theorem server_session:
  assumes "table_ok n t" "\<forall>r \<in> set rs. good_request r" "length buf = RPC_SIZE"
  shows "\<exists>t'. server cv True junk (map rpc_bytes rs) buf t = Inr (map (\<lambda>r. take 4 (rpc_bytes r)) rs, t') \<and>
           table_ok n t' \<and> put_all cv (puts_of rs) t = Inr t'"
proof -
  from server_serves [OF assms, of cv junk] obtain t' buf' where
    "table_ok n t'" "put_all cv (puts_of rs) t = Inr t'"
    "\<And>ms. server cv True junk (map rpc_bytes rs @ ms) buf t =
       and_then (server cv True junk ms buf' t')
         (\<lambda>(out, t''). Inr (map (\<lambda>r. take 4 (rpc_bytes r)) rs @ out, t''))" by blast
  from this(1,2) this(3) [of "[]"] show ?thesis by simp
qed

text \<open>a message survives the wire: reading the buffer a structure was written to gives the
  structure back, and the sender's magic number passes the UDP server's test.\<close>

theorem rpc_wire_roundtrip:
  assumes "rpc_wf r"
  shows "rpc_at (rpc_bytes r) = r \<and> length (rpc_bytes r) = 126 \<and>
         be64 (rpc_magic (rpc_at (rpc_bytes (sent_rpc i)))) = RPC_MAGIC"
proof -
  have "rpc_wf (sent_rpc i)" by (simp add: rpc_wf_def sent_rpc_def KEY_SIZE_def VALUE_SIZE_def)
  from rpc_at_bytes [OF this, of "[]"] have "rpc_at (rpc_bytes (sent_rpc i)) = sent_rpc i" by simp
  then show ?thesis
    using rpc_at_bytes [OF assms, of "[]"] length_rpc_bytes [OF assms] be64_MAGIC
    by (simp add: sent_rpc_def RPC_SIZE_def KEY_SIZE_def VALUE_SIZE_def)
qed

text \<open>the sender marks its requests as PUT in network byte order, but the UDP server compares
  the type without conversion: the first message of \<open>send.c\<close> is taken for a request to exit;
  the server leaves its loop without storing or answering anything.\<close>

theorem udp_server_exits_on_put:
  assumes "length buf = RPC_SIZE"
  shows "udp_server cv mem junk (rpc_bytes (sent_rpc i) # ms) buf t = Inr ([], True, t)"
proof -
  have wf: "rpc_wf (sent_rpc i)" by (simp add: rpc_wf_def sent_rpc_def KEY_SIZE_def VALUE_SIZE_def)
  have at: "rpc_at (rpc_bytes (sent_rpc i)) = sent_rpc i" using rpc_at_bytes [OF wf, of "[]"] by simp
  have m: "be64 (rpc_magic (sent_rpc i)) = 0x7777"
    using be64_MAGIC by (simp add: sent_rpc_def RPC_MAGIC_def)
  have ty: "rpc_type (sent_rpc i) = 0x1000000" by (simp add: sent_rpc_def be32_PUT)
  show ?thesis
    using length_rpc_bytes [OF wf] assms at m ty
    by (simp add: udp_handle_rpc_def GET_def PUT_def Let_def)
qed

definition demo_put :: rpc where
  "demo_put = \<lparr>rpc_magic = 0, rpc_id = 7, rpc_type = PUT, rpc_key = 97 # replicate 9 0,
     rpc_value = 120 # replicate 99 0\<rparr>"

theorem server_session_witness:
  "\<exists>t'. server uint True [] [rpc_bytes demo_put, rpc_bytes (demo_put\<lparr>rpc_type := GET\<rparr>)] (replicate 126 0)
          (hash_init empty_table) = Inr ([[0, 0, 0, 0], [0, 0, 0, 0]], t') \<and> table_ok 3 t'"
proof -
  have g: "\<forall>r \<in> set [demo_put, demo_put\<lparr>rpc_type := GET\<rparr>]. good_request r"
    by (simp add: good_request_def rpc_wf_def demo_put_def KEY_SIZE_def VALUE_SIZE_def terminated_def)
  have t: "table_ok 3 (hash_init empty_table)" by (rule hash_init_ok) (simp add: empty_table_def)
  have 4: "take 4 (rpc_bytes demo_put) = [0, 0, 0, 0]"
    "take 4 (rpc_bytes (demo_put\<lparr>rpc_type := GET\<rparr>)) = [0, 0, 0, 0]"
    by (simp_all add: rpc_bytes_def demo_put_def le_bytes_numeral)
  from server_session [OF t g, of "replicate 126 0" uint "[]"] show ?thesis
    by (auto simp: 4 RPC_SIZE_def KEY_SIZE_def VALUE_SIZE_def)
qed

theorem rpc_wire_roundtrip_witness:
  "rpc_at (rpc_bytes demo_put) = demo_put \<and> length (rpc_bytes demo_put) = 126"
  using rpc_wire_roundtrip [of demo_put] by (simp add: rpc_wf_def demo_put_def KEY_SIZE_def VALUE_SIZE_def)

theorem udp_server_exits_on_put_witness:
  "udp_server uint True [] [rpc_bytes (sent_rpc 0)] (replicate 126 0) empty_table = Inr ([], True, empty_table)"
  by (rule udp_server_exits_on_put) (simp add: RPC_SIZE_def KEY_SIZE_def VALUE_SIZE_def)

end
