(* ===== verification/Kv_Client.thy ===== *)
theory Kv_Client
  imports Complex_Main Kv_Server
begin

text \<open>
  The load generators of \<open>src/network/baseline/linux/user_mode\<close>: \<open>client.c\<close> (requests with random
  keys over TCP, latencies collected from all threads) and \<open>test_send.c\<close> (paced UDP requests,
  latencies of the replies), and the kernel's RPC worker \<open>kernel_mode/thlet_rpc_worker.c\<close>.
  \<open>rand()\<close> is the list of numbers it returns, clocks are arguments, \<open>double\<close> is read as an exact
  rational number.
\<close>

section \<open>\<open>client.c\<close>\<close>

record timespec =
  tv_sec :: int
  tv_nsec :: int

text \<open>\<open>cmp\<close>: a comparison result converted to \<open>bool\<close> and then to the \<open>int\<close> that \<open>qsort\<close> expects.\<close>

definition cmp :: "int \<Rightarrow> int \<Rightarrow> int" where
  "cmp a b = (if s64 (a - b) \<ge> 0 then 1 else 0)"

definition timespec_diff_ns :: "timespec \<Rightarrow> timespec \<Rightarrow> int" where
  "timespec_diff_ns start end' =
    (let sec = s64 (tv_sec end' - tv_sec start);
         nsec = s64 (tv_nsec end' - tv_nsec start)
     in s64 (s64 (sec * 1000000000) + nsec))"

definition random_char :: "int \<Rightarrow> int" where
  "random_char r =
    (let random_value = c_mod r 62
     in if random_value < 26 then 65 + random_value
        else if random_value < 52 then 97 + (random_value - 26)
        else 48 + (random_value - 52))"

text \<open>The loop of \<open>generate_random_str\<close>: the string from position \<open>i\<close> on and the numbers left.\<close>

fun random_str :: "nat \<Rightarrow> nat \<Rightarrow> int list \<Rightarrow> u8 list \<times> int list" where
  "random_str 0 len rs = ([], rs)"
| "random_str (Suc n) len rs =
     (let i = len - Suc n;
          c = (word_of_int (random_char (hd rs)) :: u8);
          c = (if i = len - 1 then 0 else c)
      in case random_str n len (tl rs) of (cs, rs') \<Rightarrow> (c # cs, rs'))"

definition generate_random_str :: "nat \<Rightarrow> int list \<Rightarrow> u8 list \<times> int list" where
  "generate_random_str len rs = random_str len len rs"

text \<open>The first loop of \<open>generate_reqs\<close>: \<open>n\<close> requests and one to exit.  The fields \<open>magic\<close> and \<open>id\<close>
  are not written: they hold what \<open>base\<close> held.\<close>

fun build_reqs :: "nat \<Rightarrow> rpc \<Rightarrow> int list \<Rightarrow> rpc list \<times> int list" where
  "build_reqs n base rs =
    (let (ty, rs) = (if n = 0 then (EXIT, rs) else (word_of_int (c_mod (hd rs) 2), tl rs));
         (k, rs) = generate_random_str KEY_SIZE rs;
         (v, rs) = generate_random_str VALUE_SIZE rs;
         r = base\<lparr>rpc_type := ty, rpc_key := k, rpc_value := v\<rparr>
     in case n of 0 \<Rightarrow> ([r], rs)
        | Suc m \<Rightarrow> (case build_reqs m base rs of (qs, rs') \<Rightarrow> (r # qs, rs')))"

declare build_reqs.simps [simp del]

text \<open>The end of \<open>generate_reqs\<close>: the thread's latencies go to the shared array; \<open>numbers\<close> is the
  count so far, the array has room for \<open>cap\<close> entries.\<close>

fun record_latencies :: "nat \<Rightarrow> int list \<Rightarrow> int list \<times> nat \<Rightarrow> (int list \<times> nat) res" where
  "record_latencies cap [] (lat, numbers) = Inr (lat, numbers)"
| "record_latencies cap (l # ls) (lat, numbers) =
     (if numbers < cap then record_latencies cap ls (lat[numbers := l], Suc numbers)
      else Inl Out_Of_Bounds)"

definition MAX_REQ_PER_THREAD :: nat where "MAX_REQ_PER_THREAD = 1000"

text \<open>The report of \<open>main\<close>: the entry printed as the 99th percentile (an \<open>int\<close> index).\<close>

definition p99_index :: "int \<Rightarrow> int" where
  "p99_index numbers = c_div (s32 (numbers * 99)) 100"

section \<open>\<open>test_send.c\<close>\<close>

record latency_record =
  send_time :: timespec
  recv_time :: timespec
  latency_ms :: rat
  received :: bool

definition get_elapsed_ms :: "timespec \<Rightarrow> timespec \<Rightarrow> rat" where
  "get_elapsed_ms start end' =
    of_int (tv_sec end' - tv_sec start) * 1000 + of_int (tv_nsec end' - tv_nsec start) / 1000000"

text \<open>The body of \<open>receive_thread\<close> for a reply read at \<open>now\<close>; the comparison \<open>id < g_max_rpc\<close> is
  unsigned.\<close>

definition receive_reply :: "int \<Rightarrow> timespec \<Rightarrow> rpc \<Rightarrow> latency_record list \<Rightarrow> latency_record list" where
  "receive_reply g_max_rpc now resp records =
    (let id = be32 (rpc_id resp)
     in if id < word_of_int g_max_rpc
        then (let r = records ! unat id
              in records[unat id := r\<lparr>recv_time := now, latency_ms := get_elapsed_ms (send_time r) now,
                                     received := True\<rparr>])
        else records)"

text \<open>The time of the next send.\<close>

definition next_send_time :: "timespec \<Rightarrow> rat \<Rightarrow> nat \<Rightarrow> timespec" where
  "next_send_time start_test interval_ns i =
    (let total_ns = \<lfloor>of_nat (i + 1) * interval_ns\<rfloor>;
         sec = tv_sec start_test + total_ns div 1000000000;
         nsec = tv_nsec start_test + total_ns mod 1000000000
     in if nsec \<ge> 1000000000 then \<lparr>tv_sec = sec + 1, tv_nsec = nsec - 1000000000\<rparr>
        else \<lparr>tv_sec = sec, tv_nsec = nsec\<rparr>)"

definition compare_latency :: "latency_record \<Rightarrow> latency_record \<Rightarrow> int" where
  "compare_latency a b =
    (let diff = latency_ms a - latency_ms b
     in (if diff > 0 then 1 else 0) - (if diff < 0 then 1 else 0))"

definition received_count :: "latency_record list \<Rightarrow> nat" where
  "received_count records = length (filter received records)"

text \<open>The latency printed for the percentile \<open>p\<close> from the sorted records.\<close>

definition percentile :: "rat \<Rightarrow> nat \<Rightarrow> latency_record list \<Rightarrow> rat" where
  "percentile p cnt recs = latency_ms (recs ! nat \<lfloor>of_nat cnt * p\<rfloor>)"

section \<open>Random strings and requests\<close>

lemma c_mod_range: "0 \<le> r \<Longrightarrow> 0 < m \<Longrightarrow> 0 \<le> c_mod r m \<and> c_mod r m < m"
  by (simp add: c_mod_nonneg)

lemma random_char_range: "0 \<le> r \<Longrightarrow> 48 \<le> random_char r \<and> random_char r \<le> 122"
  using c_mod_range [of r 62] by (auto simp: random_char_def Let_def)

lemma random_str_props:
  assumes "n \<le> len" "random_str n len rs = (cs, rs')"
  shows "length cs = n" "0 < n \<Longrightarrow> last cs = 0" "rs' = drop n rs"
  using assms
proof (induction n arbitrary: rs cs rs')
  case (Suc n)
  { case 1 then show ?case using Suc.IH(1) by (auto simp: Let_def split: prod.splits)
  next
    case 2
    obtain ds qs where r: "random_str n len (tl rs) = (ds, qs)" by fastforce
    with 2 Suc.IH(1,2) [of "tl rs" ds qs] show ?case by (cases n) (auto simp: Let_def)
  next
    case 3 then show ?case using Suc.IH(3) by (auto simp: Let_def drop_Suc split: prod.splits) }
qed simp_all

lemma generate_random_str_props:
  assumes "generate_random_str len rs = (cs, rs')" "0 < len"
  shows "length cs = len" "terminated cs" "rs' = drop len rs"
proof -
  note P = random_str_props [OF le_refl assms(1) [unfolded generate_random_str_def]]
  show "length cs = len" "rs' = drop len rs" using P by auto
  then show "terminated cs" using P(2) assms(2) last_in_set [of cs] by (auto simp: terminated_def)
qed

lemma rand_parity: "0 \<le> r \<Longrightarrow> (word_of_int (c_mod r 2) :: u32) = GET \<or> (word_of_int (c_mod r 2) :: u32) = PUT"
proof -
  assume "0 \<le> r"
  then have "c_mod r 2 = 0 \<or> c_mod r 2 = 1" by (simp add: c_mod_nonneg) presburger
  then show ?thesis by (auto simp: GET_def PUT_def)
qed

lemma build_reqs_props:
  assumes "build_reqs n base rs = (qs, rs')" "\<forall>r\<in>set rs. 0 \<le> r" "111 * n \<le> length rs"
  shows "length qs = Suc n \<and> (\<forall>q\<in>set (butlast qs). good_request q) \<and> rpc_type (last qs) = EXIT \<and> rpc_wf (last qs)"
  using assms
proof (induction n arbitrary: rs qs rs')
  case 0
  obtain k r1 v r2 where g: "generate_random_str KEY_SIZE rs = (k, r1)" "generate_random_str VALUE_SIZE r1 = (v, r2)"
    by (metis surj_pair)
  have "length k = KEY_SIZE" "length v = VALUE_SIZE"
    using generate_random_str_props(1) [OF g(1)] generate_random_str_props(1) [OF g(2)]
    by (simp_all add: KEY_SIZE_def VALUE_SIZE_def)
  with "0.prems"(1) g show ?case
    by (auto simp: build_reqs.simps [of 0] Let_def rpc_wf_def)
next
  case (Suc n)
  obtain k r1 v r2 where g: "generate_random_str KEY_SIZE (tl rs) = (k, r1)" "generate_random_str VALUE_SIZE r1 = (v, r2)"
    by (metis surj_pair)
  note K = generate_random_str_props [OF g(1)] and V = generate_random_str_props [OF g(2)]
  obtain ps r3 where b: "build_reqs n base r2 = (ps, r3)" by fastforce
  have r2: "r2 = drop 111 rs" using K(3) V(3) using drop_Suc [of 110 rs]
    by (simp add: KEY_SIZE_def VALUE_SIZE_def)
  have h: "0 \<le> hd rs" using Suc.prems(2,3) by (cases rs) auto
  have IH: "length ps = Suc n \<and> (\<forall>q\<in>set (butlast ps). good_request q) \<and> rpc_type (last ps) = EXIT \<and> rpc_wf (last ps)"
    by (rule Suc.IH [OF b]) (use Suc.prems(2,3) r2 in \<open>auto dest: in_set_dropD\<close>)
  let ?q = "base\<lparr>rpc_type := word_of_int (c_mod (hd rs) 2), rpc_key := k, rpc_value := v\<rparr>"
  have qs: "qs = ?q # ps"
    using Suc.prems(1) g b by (auto simp: build_reqs.simps [of "Suc n"] Let_def)
  have "good_request ?q"
    using K(1,2) V(1,2) rand_parity [OF h] by (simp add: good_request_def rpc_wf_def KEY_SIZE_def VALUE_SIZE_def)
  with qs IH show ?case by (cases ps) auto
qed


section \<open>Latencies\<close>

text \<open>\<open>record_latencies\<close> appends a thread's latencies behind those recorded so far and leaves
  those alone; it writes outside the array exactly when there is no room for all of them.\<close>

theorem record_latencies_ok:
  assumes "length lat = cap" "numbers \<le> cap"
  shows "record_latencies cap ls (lat, numbers) =
           (if numbers + length ls \<le> cap
            then Inr (take numbers lat @ ls @ drop (numbers + length ls) lat, numbers + length ls)
            else Inl Out_Of_Bounds)"
  using assms
proof (induction ls arbitrary: lat numbers)
  case Nil
  then show ?case by simp
next
  case (Cons l ls)
  show ?case
  proof (cases "numbers < cap")
    case True
    have "take (Suc numbers) (lat[numbers := l]) = take numbers lat @ [l]"
      using True Cons.prems by (simp add: take_Suc_conv_app_nth)
    with True Cons.IH [of "lat[numbers := l]" "Suc numbers"] Cons.prems show ?thesis by simp
  next
    case False
    with Cons.prems show ?thesis by simp
  qed
qed

text \<open>the difference of two clock readings in nanoseconds is exact as long as it fits 64 bits,
  also when the nanoseconds of the end are below those of the start.\<close>

theorem timespec_diff_exact:
  assumes "0 \<le> tv_nsec a" "tv_nsec a < 1000000000" "0 \<le> tv_nsec b" "tv_nsec b < 1000000000"
    and "\<bar>tv_sec b - tv_sec a\<bar> \<le> 9000000000"
  shows "timespec_diff_ns a b = (tv_sec b * 1000000000 + tv_nsec b) - (tv_sec a * 1000000000 + tv_nsec a)"
proof -
  have "s64 (tv_sec b - tv_sec a) = tv_sec b - tv_sec a" "s64 (tv_nsec b - tv_nsec a) = tv_nsec b - tv_nsec a"
    "s64 ((tv_sec b - tv_sec a) * 1000000000) = (tv_sec b - tv_sec a) * 1000000000"
    "s64 ((tv_sec b - tv_sec a) * 1000000000 + (tv_nsec b - tv_nsec a)) =
       (tv_sec b - tv_sec a) * 1000000000 + (tv_nsec b - tv_nsec a)"
    using assms by (intro s64_id; simp; linarith)+
  then have "timespec_diff_ns a b = (tv_sec b - tv_sec a) * 1000000000 + (tv_nsec b - tv_nsec a)"
    by (simp add: timespec_diff_ns_def Let_def)
  then show ?thesis by (simp add: algebra_simps)
qed

text \<open>\<open>cmp\<close> is no ordering for \<open>qsort\<close>: it is never negative, says that a smaller value equals
  a larger one, and that equal values are ordered.\<close>

theorem cmp_not_an_order:
  "cmp a b \<ge> 0 \<and> cmp a a = 1 \<and> (0 \<le> a \<and> a < b \<and> b < 2 ^ 63 \<longrightarrow> cmp a b = 0 \<and> cmp b a = 1)"
proof -
  have "s64 0 = 0" by (simp add: s64_def)
  moreover have "s64 (a - b) = a - b" "s64 (b - a) = b - a" if "0 \<le> a" "a < b" "b < 2 ^ 63"
    using that by (intro s64_id; simp)+
  ultimately show ?thesis by (auto simp: cmp_def)
qed

theorem cmp_not_an_order_witness: "cmp 3 5 = 0 \<and> cmp 5 3 = 1"
  using cmp_not_an_order [of 3 5] by simp

text \<open>the pacing of \<open>test_send.c\<close>: the next send time is a normalised clock value and lies
  exactly the elapsed nanoseconds (the whole part of \<open>(i + 1) * interval\<close>) after the start,
  never before the previous one.\<close>

theorem next_send_time_exact:
  assumes "0 \<le> tv_nsec s" "tv_nsec s < 1000000000" "0 \<le> interval"
  shows "0 \<le> tv_nsec (next_send_time s interval i) \<and> tv_nsec (next_send_time s interval i) < 1000000000 \<and>
         tv_sec (next_send_time s interval i) * 1000000000 + tv_nsec (next_send_time s interval i) =
           tv_sec s * 1000000000 + tv_nsec s + \<lfloor>of_nat (i + 1) * interval\<rfloor> \<and>
         \<lfloor>of_nat (i + 1) * interval\<rfloor> \<le> \<lfloor>of_nat (Suc i + 1) * interval\<rfloor>"
proof -
  let ?t = "\<lfloor>of_nat (i + 1) * interval\<rfloor>"
  have m: "0 \<le> ?t mod 1000000000" "?t mod 1000000000 < 1000000000"
    "?t div 1000000000 * 1000000000 + ?t mod 1000000000 = ?t" by simp_all
  have mono: "?t \<le> \<lfloor>of_nat (Suc i + 1) * interval\<rfloor>"
    by (intro floor_mono mult_right_mono assms(3)) simp
  show ?thesis
  proof (cases "1000000000 \<le> tv_nsec s + ?t mod 1000000000")
    case True
    then have "next_send_time s interval i =
        \<lparr>tv_sec = tv_sec s + ?t div 1000000000 + 1, tv_nsec = tv_nsec s + ?t mod 1000000000 - 1000000000\<rparr>"
      by (simp add: next_send_time_def Let_def)
    with True m mono assms(2) show ?thesis by simp
  next
    case False
    then have "next_send_time s interval i =
        \<lparr>tv_sec = tv_sec s + ?t div 1000000000, tv_nsec = tv_nsec s + ?t mod 1000000000\<rparr>"
      by (simp add: next_send_time_def Let_def)
    with False m mono assms(1) show ?thesis by simp
  qed
qed

text \<open>the reported percentiles are wrong when replies are missing: all records are sorted, and
  the records without a reply keep the latency 0.  Whatever order \<open>qsort\<close> gives equal entries,
  as long as the index of the percentile is below the number of missing replies, 0 is reported,
  even if every reply took longer.\<close>

theorem percentile_counts_missing:
  assumes "mset sr = mset records" "sorted (map latency_ms sr)"
    and "\<forall>r\<in>set records. if received r then latency_ms r > 0 else latency_ms r = 0"
    and "nat \<lfloor>of_nat (received_count records) * p\<rfloor> < length records - received_count records"
  shows "percentile p (received_count records) sr = 0"
proof (rule ccontr)
  let ?i = "nat \<lfloor>of_nat (received_count records) * p\<rfloor>"
  assume "percentile p (received_count records) sr \<noteq> 0"
  then have nz: "latency_ms (sr ! ?i) \<noteq> 0" by (simp add: percentile_def)
  have len: "length sr = length records" using assms(1) by (metis size_mset)
  have i: "?i < length sr" using assms(4) len by linarith
  have set: "set sr = set records" using assms(1) mset_eq_setD by blast
  have "received (sr ! ?i)" using nz assms(3) set i nth_mem by metis
  then have pos: "latency_ms (sr ! ?i) > 0" using assms(3) set i nth_mem by metis
  have "received (sr ! j)" if "?i \<le> j" "j < length sr" for j
  proof -
    have "latency_ms (sr ! ?i) \<le> latency_ms (sr ! j)"
      using sorted_nth_mono [OF assms(2) that(1)] that(2) i by simp
    with pos have "latency_ms (sr ! j) > 0" by linarith
    then show ?thesis using assms(3) set that(2) nth_mem by (metis less_irrefl)
  qed
  then have "\<forall>r\<in>set (drop ?i sr). received r"
    by (auto simp: in_set_conv_nth)
  then have "length (filter received (drop ?i sr)) = length sr - ?i"
    by (simp add: filter_id_conv)
  moreover have "length (filter received sr) =
      length (filter received (take ?i sr)) + length (filter received (drop ?i sr))"
    by (metis append_take_drop_id filter_append length_append)
  moreover have "length (filter received sr) = received_count records"
    using assms(1) by (metis received_count_def mset_filter size_mset)
  ultimately show False using assms(4) len by linarith
qed

text \<open>a reply updates the record of its id and no other, and only within the records.\<close>

theorem receive_reply_frame:
  assumes "0 \<le> g" "g < 2 ^ 31" "length recs = nat g" "j < length recs"
  shows "length (receive_reply g now resp recs) = length recs \<and>
         (receive_reply g now resp recs ! j =
            (if unat (be32 (rpc_id resp)) = j
             then (recs ! j)\<lparr>recv_time := now, latency_ms := get_elapsed_ms (send_time (recs ! j)) now, received := True\<rparr>
             else recs ! j))"
proof -
  have "unat (word_of_int g :: u32) = nat g"
    using assms(1,2) by (simp add: unat_eq_nat_uint uint_word_of_int_eq take_bit_int_eq_self)
  then have "be32 (rpc_id resp) < word_of_int g \<longleftrightarrow> unat (be32 (rpc_id resp)) < length recs"
    using assms(3) by (simp add: word_less_nat_alt)
  with assms(4) show ?thesis by (auto simp: receive_reply_def Let_def nth_list_update)
qed

definition demo_record :: "rat \<Rightarrow> bool \<Rightarrow> latency_record" where
  "demo_record l b = \<lparr>send_time = \<lparr>tv_sec = 0, tv_nsec = 0\<rparr>, recv_time = \<lparr>tv_sec = 0, tv_nsec = 0\<rparr>,
     latency_ms = l, received = b\<rparr>"


theorem record_latencies_ok_witness:
  "record_latencies 4 [7, 8] ([1, 0, 0, 0], 1) = Inr ([1, 7, 8, 0], 3)"
  using record_latencies_ok [of "[1, 0, 0, 0]" 4 1 "[7, 8]"] by simp

theorem timespec_diff_exact_witness:
  "timespec_diff_ns \<lparr>tv_sec = 1, tv_nsec = 999999999\<rparr> \<lparr>tv_sec = 2, tv_nsec = 1\<rparr> = 2"
  using timespec_diff_exact [of "\<lparr>tv_sec = 1, tv_nsec = 999999999\<rparr>" "\<lparr>tv_sec = 2, tv_nsec = 1\<rparr>"] by simp

theorem next_send_time_exact_witness:
  "tv_sec (next_send_time \<lparr>tv_sec = 5, tv_nsec = 999999999\<rparr> 10 0) * 1000000000
     + tv_nsec (next_send_time \<lparr>tv_sec = 5, tv_nsec = 999999999\<rparr> 10 0) = 6000000009"
  using next_send_time_exact [of "\<lparr>tv_sec = 5, tv_nsec = 999999999\<rparr>" 10 0] by simp

theorem percentile_counts_missing_witness:
  "percentile (1 / 2) 1 [demo_record 0 False, demo_record 0 False, demo_record 9 True] = 0"
  using percentile_counts_missing
    [of "[demo_record 0 False, demo_record 0 False, demo_record 9 True]"
        "[demo_record 9 True, demo_record 0 False, demo_record 0 False]" "1 / 2"]
  by (simp add: demo_record_def received_count_def)

theorem receive_reply_frame_witness:
  "receive_reply 2 \<lparr>tv_sec = 0, tv_nsec = 5000000\<rparr> (demo_put\<lparr>rpc_id := 0x1000000\<rparr>)
     [demo_record 0 False, demo_record 0 False] ! 1 =
   (demo_record 5 True)\<lparr>recv_time := \<lparr>tv_sec = 0, tv_nsec = 5000000\<rparr>\<rparr>"
  using receive_reply_frame [of 2 "[demo_record 0 False, demo_record 0 False]" 1
      "\<lparr>tv_sec = 0, tv_nsec = 5000000\<rparr>" "demo_put\<lparr>rpc_id := 0x1000000\<rparr>"]
  by (simp add: be32_def le_bytes_numeral demo_record_def get_elapsed_ms_def)

end
