(* ===== verification/Rpc_Worker.thy ===== *)
theory Rpc_Worker
  imports Kv_Server
begin

text \<open>
  The kernel's RPC worker \<open>src/network/baseline/linux/kernel_mode/thlet_rpc_worker.c\<close>.  The key-value
  store, the statistics and the numbers of the request types live in kernel headers that are not
  part of the repository: they are the fields of a record \<open>api\<close>.  The messages the worker takes
  from the RPC queue are a list.
\<close>

section \<open>The worker\<close>

record ('k, 't) api =
  THLET_GET :: u32
  THLET_PUT :: u32
  THLET_SCAN :: u32
  THLET_FINISH :: u32
  THLET_MAX_SAMPLES :: u32
  thlet_kv_get :: "u8 list \<Rightarrow> u8 list \<Rightarrow> 'k \<Rightarrow> 'k"
  thlet_kv_put :: "u8 list \<Rightarrow> u8 list \<Rightarrow> 'k \<Rightarrow> 'k"
  thlet_kv_scan :: "u8 list \<Rightarrow> u8 list \<Rightarrow> 'k \<Rightarrow> 'k"
  thlet_stats_add :: "u32 \<Rightarrow> 't \<Rightarrow> 't"
  thlet_stats_report :: "'t \<Rightarrow> 't"
  thlet_stats_start :: "bool \<Rightarrow> 't \<Rightarrow> 't"

record ('k, 't) rpc_worker =
  kv :: 'k
  rstats :: 't
  nc :: u32

definition get_rpc_type :: "('k, 't) api \<Rightarrow> u32 \<Rightarrow> string" where
  "get_rpc_type K ty =
    (if ty = THLET_PUT K then ''PUT'' else if ty = THLET_GET K then ''GET''
     else if ty = THLET_FINISH K then ''FINISH'' else ''Unknown'')"

text \<open>One message: the fields \<open>id\<close> and \<open>type\<close> arrive in network byte order.\<close>

definition rpc_step :: "('k, 't) api \<Rightarrow> rpc \<Rightarrow> ('k, 't) rpc_worker \<Rightarrow> ('k, 't) rpc_worker" where
  "rpc_step K r w =
    (let rid = be32 (rpc_id r);
         ty = be32 (rpc_type r);
         w = (if ty = THLET_GET K then
                w\<lparr>kv := thlet_kv_get K (rpc_key r) (rpc_value r) (kv w),
                  rstats := thlet_stats_add K rid (rstats w), nc := nc w + 1\<rparr>
              else if ty = THLET_PUT K then
                w\<lparr>kv := thlet_kv_put K (rpc_key r) (rpc_value r) (kv w),
                  rstats := thlet_stats_add K rid (rstats w), nc := nc w + 1\<rparr>
              else if ty = THLET_SCAN K then
                w\<lparr>kv := thlet_kv_scan K (rpc_key r) (rpc_value r) (kv w),
                  rstats := thlet_stats_add K rid (rstats w), nc := nc w + 1\<rparr>
              else if ty = THLET_FINISH K then
                w\<lparr>rstats := thlet_stats_start K True (thlet_stats_report K (rstats w)), nc := 0\<rparr>
              else w)
     in if nc w = THLET_MAX_SAMPLES K then w\<lparr>rstats := thlet_stats_report K (rstats w)\<rparr> else w)"

definition thlet_rpc_worker_fn :: "('k, 't) api \<Rightarrow> rpc list \<Rightarrow> ('k, 't) rpc_worker \<Rightarrow> ('k, 't) rpc_worker" where
  "thlet_rpc_worker_fn K ms w = fold (rpc_step K) ms w"

section \<open>Samples and reports\<close>

definition is_request :: "('k, 't) api \<Rightarrow> rpc \<Rightarrow> bool" where
  "is_request K r \<longleftrightarrow> be32 (rpc_type r) \<in> {THLET_GET K, THLET_PUT K, THLET_SCAN K}"

text \<open>The type numbers of the kernel header are distinct.\<close>

definition types_distinct :: "('k, 't) api \<Rightarrow> bool" where
  "types_distinct K \<longleftrightarrow> distinct [THLET_GET K, THLET_PUT K, THLET_SCAN K, THLET_FINISH K]"

text \<open>What the statistics module is told for a series of requests: every id once, in order, and a
  report when the number of samples is reached.\<close>

fun told :: "('k, 't) api \<Rightarrow> nat \<Rightarrow> rpc list \<Rightarrow> 't \<Rightarrow> 't" where
  "told K n [] s = s"
| "told K n (r # rs) s =
     (let s = thlet_stats_add K (be32 (rpc_id r)) s
      in told K (Suc n) rs (if Suc n = unat (THLET_MAX_SAMPLES K) then thlet_stats_report K s else s))"

lemma rpc_step_request:
  assumes "is_request K r" "types_distinct K" "unat (nc w) = n" "Suc n < 2 ^ 32"
  shows "unat (nc (rpc_step K r w)) = Suc n"
    and "rstats (rpc_step K r w) = told K n [r] (rstats w)"
proof -
  have n: "unat (nc w + 1) = Suc n" using assms(3,4) by (simp add: unat_word_ariths)
  then have eq: "nc w + 1 = THLET_MAX_SAMPLES K \<longleftrightarrow> Suc n = unat (THLET_MAX_SAMPLES K)"
    by (metis word_unat_eq_iff)
  show "unat (nc (rpc_step K r w)) = Suc n" "rstats (rpc_step K r w) = told K n [r] (rstats w)"
    using assms(1,2) n eq by (auto simp: rpc_step_def is_request_def types_distinct_def Let_def)
qed

text \<open>from a finish request on the worker counts: for a finish request followed by any number of
  GET, PUT and SCAN requests (less than 2^32) the counter ends as the number of requests, and
  the statistics get each request's id exactly once, in order, with a report when the configured
  number of samples is reached.\<close>

theorem rpc_worker_counts:
  assumes "types_distinct K" "be32 (rpc_type f) = THLET_FINISH K" "\<forall>r\<in>set rs. is_request K r"
    and "length rs < 2 ^ 32" "THLET_MAX_SAMPLES K \<noteq> 0"
  shows "unat (nc (thlet_rpc_worker_fn K (f # rs) w)) = length rs \<and>
         rstats (thlet_rpc_worker_fn K (f # rs) w) =
           told K 0 rs (thlet_stats_start K True (thlet_stats_report K (rstats w)))"
proof -
  have F: "nc (rpc_step K f w) = 0"
    "rstats (rpc_step K f w) = thlet_stats_start K True (thlet_stats_report K (rstats w))"
    using assms(1,2,5) by (auto simp: rpc_step_def types_distinct_def Let_def)
  have "unat (nc (fold (rpc_step K) rs x)) = n + length rs \<and> rstats (fold (rpc_step K) rs x) = told K n rs (rstats x)"
    if "unat (nc x) = n" "n + length rs < 2 ^ 32" for n x
    using assms(3) that
  proof (induction rs arbitrary: n x)
    case (Cons r rs)
    note S = rpc_step_request [of K r x n, OF _ assms(1)]
    from Cons.IH [of "rpc_step K r x" "Suc n"] Cons.prems S show ?case by (auto simp: Let_def)
  qed simp
  from this [of "rpc_step K f w" 0] F assms(4) show ?thesis by (simp add: thlet_rpc_worker_fn_def)
qed

definition demo_api :: "(nat, u32 list) api" where
  "demo_api = \<lparr>THLET_GET = 0, THLET_PUT = 1, THLET_SCAN = 2, THLET_FINISH = 3, THLET_MAX_SAMPLES = 100,
     thlet_kv_get = \<lambda>k v n. n, thlet_kv_put = \<lambda>k v n. Suc n, thlet_kv_scan = \<lambda>k v n. n,
     thlet_stats_add = \<lambda>i l. l @ [i], thlet_stats_report = \<lambda>l. l, thlet_stats_start = \<lambda>b l. []\<rparr>"

theorem rpc_worker_counts_witness:
  "rstats (thlet_rpc_worker_fn demo_api
     [demo_put\<lparr>rpc_type := 0x3000000\<rparr>, demo_put\<lparr>rpc_type := 0x1000000, rpc_id := 0x5000000\<rparr>]
     \<lparr>kv = 0, rstats = [9], nc = 4\<rparr>) = [5]"
proof -
  let ?f = "demo_put\<lparr>rpc_type := 0x3000000\<rparr>" and ?r = "demo_put\<lparr>rpc_type := 0x1000000, rpc_id := 0x5000000\<rparr>"
  have "types_distinct demo_api" "be32 (rpc_type ?f) = THLET_FINISH demo_api" "is_request demo_api ?r"
    by (simp_all add: types_distinct_def is_request_def demo_api_def be32_def le_bytes_numeral)
  with rpc_worker_counts [of demo_api ?f "[?r]" "\<lparr>kv = 0, rstats = [9], nc = 4\<rparr>"] show ?thesis
    by (simp add: demo_api_def be32_def le_bytes_numeral)
qed

end
