(* ===== verification/Thlet_Intr.thy ===== *)
theory Thlet_Intr
  imports Prelude
begin

text \<open>
  The interrupt measurement driver \<open>src/interrupt_overhead/kernel_mode/thlet_intr.c\<close> with
  \<open>thlet_intr.h\<close>: the page shared with user space, the inter-processor interrupt handler, and the
  ioctl interface that starts a measurement, copies the kernel's time stamps into the page and
  clears the sums.  The kernel's per-CPU records \<open>cpu_thlet_stats\<close> and \<open>cpu_thlet_stats_summary\<close>
  are functions from their fields; the clock is the sequence of its readings.
\<close>

section \<open>Data (\<open>thlet_intr.h\<close>)\<close>

text \<open>The fields of \<open>struct thlet_stats_user\<close> (and, after \<open>intr\<close> and \<open>back\<close>, of \<open>ts\<close>).\<close>

datatype stat =
    state | common_irq_entry | common_irq_exit | e1000e_intr_entry | e1000e_intr_exit
  | igb_intr_entry | igb_intr_exit | igb_intr_msi_entry | igb_intr_msi_exit
  | common_softirq_entry | common_softirq_exit | tcp_entry | tcp_exit | udp_entry | udp_exit
  | net_skb1_entry | net_skb1_exit | net_skb2_entry | net_skb2_exit | net_skb3_entry | net_skb3_exit
  | e1000e_softirq_entry | e1000e_softirq_exit | e1000e_poll_entry | e1000e_poll_exit
  | igb_softirq_entry | igb_softirq_exit | sched_entry | pick_entry | pick_exit
  | cs_entry | cs_mm | cs_reg | cs_exit

text \<open>The fields of \<open>ps\<close>.\<close>

datatype psum =
    ps_count | ps_common_irq | ps_igb_intr | ps_igb_intr_msi | ps_cirq2softirq | ps_iirq2softirq
  | ps_cirq2isoftirq | ps_iirq2isoftirq | ps_softirq | ps_igb_softirq | ps_softirq2sched
  | ps_isoftirq2sched | ps_sched_pre | ps_sched_pick | ps_sched_wakeup | ps_cs_pre | ps_cs_mm | ps_cs_reg

text \<open>The shared page \<open>pipe_\<close>.\<close>

record pipe =
  ts_intr :: u64
  ts_back :: u64
  ts :: "stat \<Rightarrow> u64"
  ps :: "psum \<Rightarrow> u64"
  ps_pre :: "stat \<Rightarrow> u64"

text \<open>The driver and the kernel's per-CPU statistics; \<open>pages\<close> counts the pages that \<open>mmap\<close>
  allocated and nobody freed.\<close>

record intr_dev =
  info :: "pipe option"
  cpu_stats :: "nat \<Rightarrow> stat \<Rightarrow> u64"
  summary :: "nat \<Rightarrow> psum \<Rightarrow> u64"
  save :: "nat \<Rightarrow> u64"
  saved :: "nat \<Rightarrow> nat \<Rightarrow> stat \<Rightarrow> u64"
  pages :: nat

definition RECV_CORE :: nat where "RECV_CORE = 25"
definition DEV_MAJOR :: u32 where "DEV_MAJOR = 250"

text \<open>\<open>_IO(type, nr)\<close>: no direction, no size.\<close>

definition IO :: "u32 \<Rightarrow> u32 \<Rightarrow> u32" where
  "IO ty nr = push_bit 8 ty + nr"

definition IOCTL_SENDIPI :: u32 where "IOCTL_SENDIPI = IO DEV_MAJOR 1"
definition IOCTL_TEST :: u32 where "IOCTL_TEST = IO DEV_MAJOR 3"
definition IOCTL_STAT_START :: u32 where "IOCTL_STAT_START = IO DEV_MAJOR 4"
definition IOCTL_GET_STATS :: u32 where "IOCTL_GET_STATS = IO DEV_MAJOR 5"
definition IOCTL_CLEAR :: u32 where "IOCTL_CLEAR = IO DEV_MAJOR 6"
definition IOCTL_FINISH :: u32 where "IOCTL_FINISH = IO DEV_MAJOR 7"

section \<open>Mapping and release\<close>

definition zero_pipe :: pipe where
  "zero_pipe = \<lparr>ts_intr = 0, ts_back = 0, ts = \<lambda>_. 0, ps = \<lambda>_. 0, ps_pre = \<lambda>_. 0\<rparr>"

text \<open>\<open>threadlet_mmap\<close>: \<open>mem\<close> says whether \<open>kzalloc\<close> succeeds, \<open>remap\<close> is the result of
  \<open>remap_pfn_range\<close>.\<close>

definition threadlet_mmap :: "bool \<Rightarrow> int \<Rightarrow> intr_dev \<Rightarrow> int \<times> intr_dev" where
  "threadlet_mmap mem remap s =
    (if \<not> mem then (- 12, s\<lparr>info := None\<rparr>)
     else (if remap \<noteq> 0 then - 11 else 0, s\<lparr>info := Some zero_pipe, pages := pages s + 1\<rparr>))"

definition threadlet_exit :: "intr_dev \<Rightarrow> intr_dev" where
  "threadlet_exit s = (case info s of None \<Rightarrow> s | Some _ \<Rightarrow> s\<lparr>info := None, pages := pages s - 1\<rparr>)"

section \<open>The interrupt handler\<close>

text \<open>The waiting loop: reading number \<open>k\<close> comes next, \<open>n\<close> passes are left; the number of the
  reading after the loop.\<close>

fun handler_wait :: "(nat \<Rightarrow> u64) \<Rightarrow> u64 \<Rightarrow> nat \<Rightarrow> nat \<Rightarrow> nat" where
  "handler_wait rdtsc until k 0 = k"
| "handler_wait rdtsc until k (Suc n) =
     (if rdtsc k \<ge> until then Suc k else handler_wait rdtsc until (Suc k) n)"

definition handler :: "(nat \<Rightarrow> u64) \<Rightarrow> nat \<Rightarrow> intr_dev \<Rightarrow> intr_dev res" where
  "handler rdtsc cpu s =
    (case info s of
       None \<Rightarrow> Inl Null_Deref
     | Some p \<Rightarrow>
         (let intr = rdtsc 0;
              until = intr + 1000;
              k = handler_wait rdtsc until 1 1000000
          in Inr (s\<lparr>info := Some (p\<lparr>ts_intr := intr, ts_back := rdtsc k\<rparr>),
                    cpu_stats := (cpu_stats s)(cpu := (cpu_stats s cpu)(state := 2))\<rparr>)))"

section \<open>The ioctl interface\<close>

text \<open>The fields that \<open>IOCTL_GET_STATS\<close> copies.\<close>

definition copied_stats :: "stat list" where
  "copied_stats = [state, common_irq_entry, common_irq_exit, igb_intr_entry, igb_intr_exit,
     igb_intr_msi_entry, igb_intr_msi_exit, common_softirq_entry, common_softirq_exit,
     tcp_entry, tcp_exit, udp_entry, udp_exit, net_skb1_entry, net_skb1_exit,
     net_skb2_entry, net_skb2_exit, net_skb3_entry, net_skb3_exit, igb_softirq_entry,
     igb_softirq_exit, sched_entry, pick_entry, pick_exit, cs_entry, cs_mm, cs_reg, cs_exit]"

text \<open>Destination and source of the copies of the sums, in order.\<close>

definition copied_sums :: "(psum \<times> psum) list" where
  "copied_sums = [(ps_count, ps_count), (ps_common_irq, ps_common_irq), (ps_igb_intr, ps_igb_intr),
     (ps_igb_intr_msi, ps_igb_intr_msi), (ps_cirq2softirq, ps_cirq2softirq),
     (ps_iirq2softirq, ps_iirq2softirq), (ps_cirq2isoftirq, ps_cirq2isoftirq),
     (ps_iirq2isoftirq, ps_iirq2isoftirq), (ps_softirq, ps_softirq), (ps_igb_softirq, ps_igb_softirq),
     (ps_softirq2sched, ps_softirq2sched), (ps_isoftirq2sched, ps_isoftirq2sched),
     (ps_sched_pre, ps_sched_pre), (ps_sched_pick, ps_sched_pick), (ps_sched_wakeup, ps_sched_wakeup),
     (ps_cs_pre, ps_cs_pre), (ps_cs_mm, ps_cs_reg), (ps_cs_reg, ps_cs_reg)]"

definition cleared_sums :: "psum list" where
  "cleared_sums = [ps_count, ps_common_irq, ps_igb_intr, ps_igb_intr_msi, ps_cirq2softirq,
     ps_iirq2softirq, ps_cirq2isoftirq, ps_iirq2isoftirq, ps_softirq, ps_igb_softirq,
     ps_softirq2sched, ps_isoftirq2sched, ps_sched_pre, ps_sched_pick, ps_sched_wakeup, ps_cs_pre,
     ps_cs_reg, ps_cs_reg]"

definition copy_stats :: "(stat \<Rightarrow> u64) \<Rightarrow> (stat \<Rightarrow> u64) \<Rightarrow> stat \<Rightarrow> u64" where
  "copy_stats from dst = fold (\<lambda>f m. m(f := from f)) copied_stats dst"

definition copy_sums :: "(psum \<Rightarrow> u64) \<Rightarrow> (psum \<Rightarrow> u64) \<Rightarrow> psum \<Rightarrow> u64" where
  "copy_sums from dst = fold (\<lambda>(d, f) m. m(d := from f)) copied_sums dst"

definition get_stats :: "nat \<Rightarrow> intr_dev \<Rightarrow> intr_dev res" where
  "get_stats cpu s =
    (case info s of
       None \<Rightarrow> Inl Null_Deref
     | Some p \<Rightarrow>
         (let i = (if save s cpu \<noteq> 0 then save s cpu - 1 else save s cpu)
          in Inr (s\<lparr>info := Some (p\<lparr>ts := copy_stats (cpu_stats s cpu) (ts p),
                                    ps := copy_sums (summary s cpu) (ps p),
                                    ps_pre := copy_stats (saved s cpu (unat i)) (ps_pre p)\<rparr>)\<rparr>)))"

text \<open>\<open>threadlet_ioctl\<close> called on processor \<open>cpu\<close>; the interrupt is handled before the call
  returns (\<open>wait\<close> is 1).\<close>

definition threadlet_ioctl ::
  "(nat \<Rightarrow> u64) \<Rightarrow> nat \<Rightarrow> u32 \<Rightarrow> u64 \<Rightarrow> intr_dev \<Rightarrow> (int \<times> intr_dev) res" where
  "threadlet_ioctl rdtsc cpu num param s =
    (if param = 0 then Inr (- 22, s)
     else if num = IOCTL_SENDIPI then and_then (handler rdtsc RECV_CORE s) (\<lambda>s. Inr (1, s))
     else if num = IOCTL_TEST then Inr (1, s)
     else if num = IOCTL_STAT_START then
       Inr (1, s\<lparr>cpu_stats := (cpu_stats s)(cpu := (cpu_stats s cpu)(state := 1)),
                 save := (save s)(cpu := 0)\<rparr>)
     else if num = IOCTL_GET_STATS then and_then (get_stats cpu s) (\<lambda>s. Inr (1, s))
     else if num = IOCTL_CLEAR then
       Inr (1, s\<lparr>summary := (summary s)(cpu := fold (\<lambda>f m. m(f := 0)) cleared_sums (summary s cpu))\<rparr>)
     else if num = IOCTL_FINISH then
       Inr (1, s\<lparr>cpu_stats := (cpu_stats s)(cpu := (cpu_stats s cpu)(state := 0))\<rparr>)
     else Inr (1, s))"

text \<open>The 32-bit entry point drops the result.\<close>

definition threadlet_ioctl32 ::
  "(nat \<Rightarrow> u64) \<Rightarrow> nat \<Rightarrow> u32 \<Rightarrow> u64 \<Rightarrow> intr_dev \<Rightarrow> (int \<times> intr_dev) res" where
  "threadlet_ioctl32 rdtsc cpu num param s =
    and_then (threadlet_ioctl rdtsc cpu num param s) (\<lambda>(r, s). Inr (0, s))"

definition threadlet_read :: "intr_dev \<Rightarrow> int \<times> intr_dev" where "threadlet_read s = (0, s)"
definition threadlet_write :: "intr_dev \<Rightarrow> int \<times> intr_dev" where "threadlet_write s = (0, s)"
definition threadlet_open :: "intr_dev \<Rightarrow> int \<times> intr_dev" where "threadlet_open s = (0, s)"
definition threadlet_release :: "intr_dev \<Rightarrow> int \<times> intr_dev" where "threadlet_release s = (0, s)"

section \<open>What user space sees\<close>

lemmas ioctl_nums = IOCTL_SENDIPI_def IOCTL_TEST_def IOCTL_STAT_START_def IOCTL_GET_STATS_def
  IOCTL_CLEAR_def IOCTL_FINISH_def IO_def DEV_MAJOR_def

text \<open>The counters of the e1000e driver, which are not copied.\<close>

definition e1000e_stats :: "stat set" where
  "e1000e_stats = {e1000e_intr_entry, e1000e_intr_exit, e1000e_softirq_entry, e1000e_softirq_exit,
     e1000e_poll_entry, e1000e_poll_exit}"

lemma copy_stats_val: "copy_stats from dst f = (if f \<in> e1000e_stats then dst f else from f)"
  by (cases f) (simp_all add: copy_stats_def copied_stats_def e1000e_stats_def)

lemma copy_sums_val: "copy_sums from dst f = from (if f = ps_cs_mm then ps_cs_reg else f)"
  by (cases f) (simp_all add: copy_sums_def copied_sums_def)

lemma clear_sums_val: "fold (\<lambda>f m. m(f := 0)) cleared_sums m f = (if f = ps_cs_mm then m f else 0)"
  by (cases f) (simp_all add: cleared_sums_def)

text \<open>after \<open>IOCTL_GET_STATS\<close> the shared page holds the calling processor's time stamps (all but
  those of the e1000e driver, which keep their old value) and its sums, except that the sum for
  switching the address space (\<open>cs_mm\<close>) is that of the register switch (\<open>cs_reg\<close>).\<close>

theorem get_stats_page:
  assumes "info s = Some p" "param \<noteq> 0"
  shows "\<exists>s' q. threadlet_ioctl rdtsc cpu IOCTL_GET_STATS param s = Inr (1, s') \<and> info s' = Some q \<and>
           (\<forall>f. f \<notin> e1000e_stats \<longrightarrow> ts q f = cpu_stats s cpu f) \<and>
           (\<forall>f. f \<in> e1000e_stats \<longrightarrow> ts q f = ts p f) \<and>
           (\<forall>f. f \<noteq> ps_cs_mm \<longrightarrow> ps q f = summary s cpu f) \<and> ps q ps_cs_mm = summary s cpu ps_cs_reg \<and>
           cpu_stats s' = cpu_stats s \<and> summary s' = summary s"
  using assms
  by (simp add: threadlet_ioctl_def get_stats_def ioctl_nums Let_def copy_stats_val copy_sums_val)

text \<open>\<open>IOCTL_CLEAR\<close> does not clear everything: all sums of the processor become 0 except \<open>cs_mm\<close>,
  which keeps its value; other processors are not touched.\<close>

theorem clear_misses_cs_mm:
  assumes "param \<noteq> 0"
  shows "\<exists>s'. threadlet_ioctl rdtsc cpu IOCTL_CLEAR param s = Inr (1, s') \<and>
           (\<forall>f. summary s' cpu f = (if f = ps_cs_mm then summary s cpu ps_cs_mm else 0)) \<and>
           (\<forall>c. c \<noteq> cpu \<longrightarrow> summary s' c = summary s c) \<and> cpu_stats s' = cpu_stats s"
  using assms by (simp add: threadlet_ioctl_def ioctl_nums clear_sums_val)

lemma handler_wait_until:
  assumes "rdtsc m \<ge> until" "k \<le> m" "m < k + n"
  shows "\<exists>j. k \<le> j \<and> j \<le> m \<and> rdtsc j \<ge> until \<and> handler_wait rdtsc until k n = Suc j"
  using assms
proof (induction n arbitrary: k)
  case (Suc n)
  show ?case
  proof (cases "rdtsc k \<ge> until")
    case True
    with Suc.prems show ?thesis by (intro exI [of _ k]) simp
  next
    case False
    with Suc.prems have "Suc k \<le> m" by (cases "k = m") auto
    with Suc.IH [of "Suc k"] Suc.prems False show ?thesis by auto
  qed
qed simp

text \<open>with a clock that never runs backwards and reaches the deadline within the loop's million
  readings, the interrupt handler records two times at least 1000 cycles apart and marks the
  receiving processor's measurement as taken.\<close>

theorem handler_lasts_1000_cycles:
  assumes "info s = Some p" "\<forall>i j. i \<le> j \<longrightarrow> rdtsc i \<le> rdtsc j" "rdtsc 0 + 1000 \<ge> rdtsc 0"
    and "1 \<le> m" "m \<le> 1000000" "rdtsc m \<ge> rdtsc 0 + 1000"
  shows "\<exists>s' q. handler rdtsc cpu s = Inr s' \<and> info s' = Some q \<and> ts_intr q = rdtsc 0 \<and>
           ts_back q \<ge> ts_intr q + 1000 \<and> cpu_stats s' cpu state = 2"
proof -
  obtain j where j: "rdtsc j \<ge> rdtsc 0 + 1000" "handler_wait rdtsc (rdtsc 0 + 1000) 1 1000000 = Suc j"
    using handler_wait_until [of "rdtsc 0 + 1000" rdtsc m 1 1000000] assms(4-6) by auto
  have "rdtsc j \<le> rdtsc (Suc j)" using assms(2) by simp
  with j(1) have "rdtsc 0 + 1000 \<le> rdtsc (Suc j)" by simp
  with assms(1) j(2) show ?thesis by (simp add: handler_def Let_def)
qed

text \<open>Every \<open>mmap\<close> allocates a page, but only the last one is ever freed.\<close>

lemma mmap_twice_leaks:
  "pages (threadlet_exit (snd (threadlet_mmap True 0 (snd (threadlet_mmap True 0 s))))) = pages s + 1"
  by (simp add: threadlet_mmap_def threadlet_exit_def)

definition demo_dev :: intr_dev where
  "demo_dev = \<lparr>info = Some zero_pipe, cpu_stats = \<lambda>_ _. 5, summary = \<lambda>_ f. if f = ps_cs_reg then 8 else 9,
     save = \<lambda>_. 0, saved = \<lambda>_ _ _. 0, pages = 1\<rparr>"

theorem get_stats_page_witness:
  "\<exists>s' q. threadlet_ioctl (\<lambda>_. 0) 3 IOCTL_GET_STATS 1 demo_dev = Inr (1, s') \<and> info s' = Some q \<and>
     ts q cs_exit = 5 \<and> ps q ps_cs_mm = 8 \<and> ps q ps_count = 9"
  using get_stats_page [of demo_dev zero_pipe 1 "\<lambda>_. 0" 3]
  by (auto simp: demo_dev_def e1000e_stats_def)

theorem clear_misses_cs_mm_witness:
  "\<exists>s'. threadlet_ioctl (\<lambda>_. 0) 3 IOCTL_CLEAR 1 demo_dev = Inr (1, s') \<and>
     summary s' 3 ps_cs_mm = 9 \<and> summary s' 3 ps_cs_reg = 0"
  using clear_misses_cs_mm [of 1 "\<lambda>_. 0" 3 demo_dev] by (auto simp: demo_dev_def)

theorem handler_lasts_1000_cycles_witness:
  "\<exists>s' q. handler (\<lambda>i. if i = 0 then 10 else 2000) 25 demo_dev = Inr s' \<and> info s' = Some q \<and>
     ts_back q \<ge> ts_intr q + 1000"
proof -
  let ?c = "\<lambda>i. if i = 0 then 10 else 2000 :: u64"
  have "\<forall>i j :: nat. i \<le> j \<longrightarrow> ?c i \<le> ?c j" by simp
  from handler_lasts_1000_cycles [of demo_dev zero_pipe ?c 1 25, OF _ this] show ?thesis
    by (auto simp: demo_dev_def)
qed

end
