(* ===== verification/Intr_User.thy ===== *)
theory Intr_User
  imports Thlet_Intr
begin

text \<open>
  The user-space side of the interrupt measurement, \<open>src/interrupt_overhead/user_mode\<close>: the spinning
  receiver of \<open>recv.c\<close> (detection of a gap between clock readings, the buffers \<open>t7a\<close>/\<open>t8a\<close>, the
  search for the interrupt among the gaps, the statistics written to the result file), the
  sender/receiver handshake of \<open>test.c\<close>, and the two simpler receivers \<open>Recv.c\<close> and
  \<open>simple_epoll.c\<close>.  Differences of cycle counts are unsigned 64-bit.
\<close>

section \<open>Gap detection\<close>

text \<open>The chain of comparisons on six readings: the ends of the first gap of more than 1000
  cycles.\<close>

definition find_gap :: "u64 \<Rightarrow> u64 \<Rightarrow> u64 \<Rightarrow> u64 \<Rightarrow> u64 \<Rightarrow> u64 \<Rightarrow> (u64 \<times> u64) option" where
  "find_gap t1 t2 t3 t4 t5 t6 =
    (if t2 - t1 > 1000 then Some (t1, t2)
     else if t3 - t2 > 1000 then Some (t2, t3)
     else if t4 - t3 > 1000 then Some (t3, t4)
     else if t5 - t4 > 1000 then Some (t4, t5)
     else if t6 - t5 > 1000 then Some (t5, t6)
     else None)"

section \<open>The buffers of \<open>recv.c\<close>\<close>

definition VEC_SIZE :: nat where "VEC_SIZE = 100000"

record gap_buf =
  t7a :: "u64 list"
  t8a :: "u64 list"
  vc :: nat

definition record_gap :: "u64 \<Rightarrow> u64 \<Rightarrow> gap_buf \<Rightarrow> gap_buf res" where
  "record_gap t7 t8 b =
    (if vc b < length (t7a b) \<and> vc b < length (t8a b)
     then Inr \<lparr>t7a = (t7a b)[vc b := t7], t8a = (t8a b)[vc b := t8],
               vc = (if vc b \<ge> VEC_SIZE then 0 else vc b + 1)\<rparr>
     else Inl Out_Of_Bounds)"

fun record_gaps :: "(u64 \<times> u64) list \<Rightarrow> gap_buf \<Rightarrow> gap_buf res" where
  "record_gaps [] b = Inr b"
| "record_gaps ((x, y) # gs) b = and_then (record_gap x y b) (record_gaps gs)"

text \<open>The search for the interrupt among the recorded gaps: \<open>found\<close> is the value of \<open>state\<close> being 1,
  \<open>to_irq\<close> the distance to the interrupt, \<open>to_user\<close> the distance from the end of the switch to user
  space when it is found.\<close>

record search =
  found :: bool
  to_irq :: u64
  to_user :: "u64 option"

fun search_gaps :: "u64 \<Rightarrow> u64 \<Rightarrow> (u64 \<times> u64) list \<Rightarrow> u64 \<Rightarrow> search \<Rightarrow> search" where
  "search_gaps irq ex [] pre r = r"
| "search_gaps irq ex ((x, y) # gs) pre r =
     (if \<not> found r \<and> pre < irq \<and> x > irq
      then search_gaps irq ex gs x (r\<lparr>found := True, to_irq := irq - pre\<rparr>)
      else if found r \<and> x < ex \<and> ex < y then r\<lparr>to_user := Some (y - ex)\<rparr>
      else search_gaps irq ex gs x r)"

text \<open>The statistics of one packet; nothing is written when the packet was not seen inside the
  driver's soft interrupt.\<close>

record recv_stats =
  pipe_flush :: u64
  hardirq :: u64
  hardirq2igbsoftirq :: u64
  st_igb_softirq :: u64
  net1 :: u64
  net2 :: u64
  net3 :: u64
  deliver :: u64
  udp :: u64
  tcp :: u64
  igbsoftirq2sched :: u64
  st_sched_pre :: u64
  st_sched_pick :: u64
  st_sched_wakeup :: u64
  st_cs_pre :: u64
  st_cs_mm :: u64
  st_cs_reg :: u64

definition inside :: "(stat \<Rightarrow> u64) \<Rightarrow> stat \<Rightarrow> bool" where
  "inside t f \<longleftrightarrow> t igb_softirq_entry < t f \<and> t f < t igb_softirq_exit"

definition packet_stats :: "(stat \<Rightarrow> u64) \<Rightarrow> u64 \<Rightarrow> recv_stats option" where
  "packet_stats t irq_dist =
    (if t igb_softirq_entry < t net_skb1_entry \<and> t net_skb1_entry < t igb_softirq_exit then
       Some \<lparr>pipe_flush = (if irq_dist < 2000 then irq_dist else 0),
             hardirq = t common_irq_exit - t common_irq_entry,
             hardirq2igbsoftirq = t igb_softirq_entry - t common_irq_exit,
             st_igb_softirq = t igb_softirq_exit - t igb_softirq_entry,
             net1 = (if inside t net_skb1_entry then t net_skb1_exit - t net_skb1_entry else 0),
             net2 = (if inside t net_skb2_entry then t net_skb2_exit - t net_skb2_entry else 0),
             net3 = (if inside t net_skb3_entry then t net_skb3_exit - t net_skb3_entry else 0),
             deliver = t igb_intr_exit - t igb_intr_entry,
             udp = t udp_exit - t udp_entry,
             tcp = t tcp_exit - t tcp_entry,
             igbsoftirq2sched = (if t sched_entry > t igb_softirq_exit then t sched_entry - t igb_softirq_exit else 0),
             st_sched_pre = t pick_entry - t sched_entry,
             st_sched_pick = t pick_exit - t pick_entry,
             st_sched_wakeup = t cs_entry - t pick_exit,
             st_cs_pre = t cs_mm - t cs_entry,
             st_cs_mm = t cs_reg - t cs_mm,
             st_cs_reg = t cs_exit - t cs_reg\<rparr>
     else None)"

section \<open>The handshake of \<open>test.c\<close>\<close>

datatype sender_pc = S_Start | S_Send nat | S_Wait nat | S_Reset nat | S_Finish | S_Exit
datatype receiver_pc = R_Begin | R_Loop | R_Wait | R_Exit

record handshake =
  h_start :: bool
  h_received :: bool
  h_finished :: bool
  sent :: nat
  caught :: nat
  spc :: sender_pc
  rpc_pc :: receiver_pc

definition NUM_ITERS :: nat where "NUM_ITERS = 10000"

definition handshake_init :: handshake where
  "handshake_init = \<lparr>h_start = False, h_received = False, h_finished = False, sent = 0, caught = 0,
     spc = S_Start, rpc_pc = R_Begin\<rparr>"

text \<open>The next step of \<open>sender_listener\<close> (its ioctl succeeds), and of \<open>receiver\<close>; \<open>gap\<close> says whether
  the receiver's readings show a gap in this pass.\<close>

definition sender_step :: "handshake \<Rightarrow> handshake" where
  "sender_step s =
    (case spc s of
       S_Start \<Rightarrow> if h_start s then s\<lparr>spc := S_Send 0\<rparr> else s
     | S_Send i \<Rightarrow> if i < NUM_ITERS then s\<lparr>sent := sent s + 1, spc := S_Wait i\<rparr> else s\<lparr>spc := S_Finish\<rparr>
     | S_Wait i \<Rightarrow> if h_received s then s\<lparr>spc := S_Reset i\<rparr> else s
     | S_Reset i \<Rightarrow> s\<lparr>h_received := False, spc := S_Send (Suc i)\<rparr>
     | S_Finish \<Rightarrow> s\<lparr>h_finished := True, spc := S_Exit\<rparr>
     | S_Exit \<Rightarrow> s)"

definition receiver_step :: "bool \<Rightarrow> handshake \<Rightarrow> handshake" where
  "receiver_step gap s =
    (case rpc_pc s of
       R_Begin \<Rightarrow> s\<lparr>h_start := True, rpc_pc := R_Loop\<rparr>
     | R_Loop \<Rightarrow> if h_finished s then s\<lparr>rpc_pc := R_Exit\<rparr>
                else if gap then s\<lparr>caught := caught s + 1, h_received := True, rpc_pc := R_Wait\<rparr>
                else s
     | R_Wait \<Rightarrow> if h_received s then s else s\<lparr>rpc_pc := R_Loop\<rparr>
     | R_Exit \<Rightarrow> s)"

inductive handshake_reach :: "handshake \<Rightarrow> bool" where
  hs_init: "handshake_reach handshake_init"
| hs_send: "handshake_reach s \<Longrightarrow> handshake_reach (sender_step s)"
| hs_recv: "handshake_reach s \<Longrightarrow> handshake_reach (receiver_step g s)"

text \<open>\<open>between_user\<close> and what the receiver reports for a gap.\<close>

definition between_user :: "u64 \<Rightarrow> u64 \<Rightarrow> u64 \<Rightarrow> bool" where
  "between_user t7 t8 t \<longleftrightarrow> t7 < t \<and> t < t8"

definition capture :: "u64 \<times> u64 \<Rightarrow> (stat \<Rightarrow> u64) \<Rightarrow> (u64 \<times> u64) option" where
  "capture g t =
    (if between_user (fst g) (snd g) (t common_irq_entry)
     then Some (snd g - fst g, t common_irq_entry - fst g) else None)"

section \<open>\<open>Recv.c\<close> and \<open>simple_epoll.c\<close>\<close>

text \<open>The inner loop of \<open>Recv.c\<close> reads until a packet of positive length comes: how many reads it
  takes.\<close>

fun recv_until :: "int list \<Rightarrow> (int \<times> nat) option" where
  "recv_until [] = None"
| "recv_until (n # ns) =
     (if n > 0 then Some (n, 1) else map_option (\<lambda>(m, k). (m, Suc k)) (recv_until ns))"

text \<open>The two numbers \<open>Recv.c\<close> prints for a packet: the second is computed before the statistics are
  fetched.\<close>

definition recv_report :: "u64 \<Rightarrow> u64 \<Rightarrow> pipe \<Rightarrow> u64 \<times> u64" where
  "recv_report t0 t1 page = (t1 - t0, t1 - ts page igb_softirq_exit)"

definition recv_iter :: "(nat \<Rightarrow> u64) \<Rightarrow> nat \<Rightarrow> u64 \<Rightarrow> u64 \<Rightarrow> u64 \<Rightarrow> intr_dev \<Rightarrow> ((u64 \<times> u64) \<times> intr_dev) res" where
  "recv_iter rdtsc cpu pid t0 t1 s =
    (case info s of
       None \<Rightarrow> Inl Null_Deref
     | Some page \<Rightarrow>
         (let out = recv_report t0 t1 page
          in and_then (threadlet_ioctl rdtsc cpu IOCTL_GET_STATS pid s) (\<lambda>(r, s).
             if r < 0 then Inl (Exit 1)
             else and_then (threadlet_ioctl rdtsc cpu IOCTL_STAT_START pid s) (\<lambda>(r, s).
             if r < 0 then Inl (Exit 1) else Inr (out, s)))))"

text \<open>One pass of the loop of \<open>simple_epoll.c\<close>, which fetches the statistics first.\<close>

definition epoll_iter ::
  "(nat \<Rightarrow> u64) \<Rightarrow> nat \<Rightarrow> u64 \<Rightarrow> int \<Rightarrow> u64 \<Rightarrow> u64 \<Rightarrow> intr_dev \<Rightarrow> ((u64 \<times> u64 \<times> u64) option \<times> intr_dev) res" where
  "epoll_iter rdtsc cpu pid nfds t0 t1 s =
    (if nfds > 0 then
       and_then (threadlet_ioctl rdtsc cpu IOCTL_GET_STATS pid s) (\<lambda>(r, s).
         if r < 0 then Inl (Exit 1)
         else case info s of
           None \<Rightarrow> Inl Null_Deref
         | Some page \<Rightarrow>
             (let out = (t1 - t0, t1 - ts page igb_softirq_exit, ts page igb_softirq_exit - ts page igb_softirq_entry)
              in and_then (threadlet_ioctl rdtsc cpu IOCTL_STAT_START pid s) (\<lambda>(r, s).
                 if r < 0 then Inl (Exit 1) else Inr (Some out, s))))
     else Inr (None, s))"

section \<open>Gaps\<close>

lemma find_gap_some:
  "find_gap t1 t2 t3 t4 t5 t6 = Some (a, b) \<Longrightarrow> b - a > 1000 \<and> (a, b) \<in> {(t1, t2), (t2, t3), (t3, t4), (t4, t5), (t5, t6)}"
  by (auto simp: find_gap_def split: if_splits)

lemma find_gap_none:
  "find_gap t1 t2 t3 t4 t5 t6 = None \<longleftrightarrow>
   t2 - t1 \<le> 1000 \<and> t3 - t2 \<le> 1000 \<and> t4 - t3 \<le> 1000 \<and> t5 - t4 \<le> 1000 \<and> t6 - t5 \<le> 1000"
  by (auto simp: find_gap_def not_less)

lemma record_gaps_fill:
  assumes "length (t7a b) = VEC_SIZE" "length (t8a b) = VEC_SIZE" "vc b + length gs \<le> VEC_SIZE"
  shows "\<exists>b'. record_gaps gs b = Inr b' \<and> length (t7a b') = VEC_SIZE \<and> length (t8a b') = VEC_SIZE \<and>
           vc b' = vc b + length gs"
  using assms
proof (induction gs arbitrary: b)
  case (Cons g gs)
  obtain x y where g: "g = (x, y)" by fastforce
  have v: "vc b < VEC_SIZE" using Cons.prems by simp
  let ?b = "\<lparr>t7a = (t7a b)[vc b := x], t8a = (t8a b)[vc b := y], vc = Suc (vc b)\<rparr>"
  have "record_gap x y b = Inr ?b" using v Cons.prems by (simp add: record_gap_def)
  with Cons.IH [of ?b] Cons.prems g show ?case by auto
qed auto

text \<open>the receiver of \<open>recv.c\<close> has room for 100000 gaps and writes outside its arrays with the
  next one: the index is reset only after it has reached the size, so the write to
  \<open>t7a[VEC_SIZE]\<close> comes first.\<close>

theorem recv_buffer_overrun:
  assumes "length (t7a b) = VEC_SIZE" "length (t8a b) = VEC_SIZE" "vc b = 0"
  shows "record_gaps gs b = Inl Out_Of_Bounds \<longleftrightarrow> length gs > VEC_SIZE"
proof
  assume "record_gaps gs b = Inl Out_Of_Bounds"
  then show "length gs > VEC_SIZE" using record_gaps_fill [of b gs] assms by (cases "length gs > VEC_SIZE") auto
next
  assume len: "length gs > VEC_SIZE"
  have app: "record_gaps (xs @ ys) c = and_then (record_gaps xs c) (record_gaps ys)" for xs ys c
  proof (induction xs arbitrary: c)
    case (Cons x xs)
    obtain u v where "x = (u, v)" by fastforce
    with Cons show ?case by (cases "record_gap u v c") auto
  qed simp
  from record_gaps_fill [of b "take VEC_SIZE gs"] assms len obtain b' where
    b': "record_gaps (take VEC_SIZE gs) b = Inr b'" "length (t7a b') = VEC_SIZE" "vc b' = VEC_SIZE" by auto
  obtain g gs' where d: "drop VEC_SIZE gs = g # gs'" using len by (cases "drop VEC_SIZE gs") auto
  obtain u v where "g = (u, v)" by fastforce
  with b' d have "record_gaps (take VEC_SIZE gs @ drop VEC_SIZE gs) b = Inl Out_Of_Bounds"
    unfolding app by (simp add: record_gap_def)
  then show "record_gaps gs b = Inl Out_Of_Bounds" by simp
qed

text \<open>the statistics of a packet add up: for time stamps in the order in which the kernel takes
  them, the phases from the hardware interrupt to the end of the register switch (hard
  interrupt, its hand-over, soft interrupt, hand-over to the scheduler, the three phases of the
  scheduler and the three of the switch) sum to the whole time.\<close>

theorem packet_stats_telescope:
  assumes "packet_stats t d = Some r" "t sched_entry > t igb_softirq_exit"
  shows "hardirq r + hardirq2igbsoftirq r + st_igb_softirq r + igbsoftirq2sched r + st_sched_pre r +
         st_sched_pick r + st_sched_wakeup r + st_cs_pre r + st_cs_mm r + st_cs_reg r =
         t cs_exit - t common_irq_entry"
  using assms by (auto simp: packet_stats_def split: if_splits)

section \<open>The handshake\<close>

text \<open>The rounds the sender has completed.\<close>

fun rounds :: "sender_pc \<Rightarrow> nat" where
  "rounds S_Start = 0"
| "rounds (S_Send i) = i"
| "rounds (S_Wait i) = i"
| "rounds (S_Reset i) = i"
| "rounds S_Finish = NUM_ITERS"
| "rounds S_Exit = NUM_ITERS"

definition handshake_inv :: "handshake \<Rightarrow> bool" where
  "handshake_inv s \<longleftrightarrow>
     sent s = rounds (spc s) + (case spc s of S_Wait i \<Rightarrow> 1 | S_Reset i \<Rightarrow> 1 | _ \<Rightarrow> 0) \<and>
     caught s = rounds (spc s) + (if h_received s then 1 else 0) \<and>
     (h_received s \<longrightarrow> rpc_pc s = R_Wait) \<and> (case spc s of S_Reset i \<Rightarrow> h_received s | _ \<Rightarrow> True) \<and>
     (h_finished s \<longleftrightarrow> spc s = S_Exit) \<and> rounds (spc s) \<le> NUM_ITERS \<and>
     (case spc s of S_Wait i \<Rightarrow> i < NUM_ITERS | S_Reset i \<Rightarrow> i < NUM_ITERS | _ \<Rightarrow> True)"

lemma handshake_reach_inv: "handshake_reach s \<Longrightarrow> handshake_inv s"
proof (induction rule: handshake_reach.induct)
  case hs_init
  then show ?case by (simp add: handshake_inv_def handshake_init_def)
next
  case (hs_send s)
  then show ?case
    by (cases "spc s") (auto simp: handshake_inv_def sender_step_def)
next
  case (hs_recv s g)
  then show ?case
    by (cases "rpc_pc s") (auto simp: handshake_inv_def receiver_step_def split: sender_pc.splits)
qed

text \<open>From the start of a round to the start of the next.\<close>

lemma handshake_round:
  assumes "handshake_reach s" "spc s = S_Send i" "i < NUM_ITERS" "rpc_pc s = R_Loop"
  shows "\<exists>s'. handshake_reach s' \<and> spc s' = S_Send (Suc i) \<and> rpc_pc s' = R_Loop"
proof -
  have I: "\<not> h_received s" "\<not> h_finished s"
    using handshake_reach_inv [OF assms(1)] assms(2,4) by (auto simp: handshake_inv_def)
  let ?s' = "receiver_step False (sender_step (sender_step (receiver_step True (sender_step s))))"
  have "handshake_reach ?s'" by (intro hs_send hs_recv assms(1))
  moreover have "spc ?s' = S_Send (Suc i)" "rpc_pc ?s' = R_Loop"
    using assms(2-4) I by (simp_all add: sender_step_def receiver_step_def)
  ultimately show ?thesis by blast
qed

lemma handshake_reaches_round:
  "i \<le> NUM_ITERS \<Longrightarrow> \<exists>s. handshake_reach s \<and> spc s = S_Send i \<and> rpc_pc s = R_Loop"
proof (induction i)
  case 0
  let ?s = "sender_step (receiver_step False handshake_init)"
  have "handshake_reach ?s" by (intro hs_send hs_recv hs_init)
  moreover have "spc ?s = S_Send 0" "rpc_pc ?s = R_Loop"
    by (simp_all add: sender_step_def receiver_step_def handshake_init_def)
  ultimately show ?case by blast
next
  case (Suc i)
  then show ?case using handshake_round by (metis Suc_le_eq less_imp_le)
qed

text \<open>C14: the handshake of \<open>test.c\<close> loses and duplicates nothing: in every interleaving the gaps the
  receiver has acknowledged are the rounds the sender has completed, plus the one that is
  being acknowledged, and the sender has sent one interrupt per round.\<close>

theorem handshake_counts:
  assumes "handshake_reach s"
  shows "caught s = rounds (spc s) + (if h_received s then 1 else 0) \<and> sent s \<le> rounds (spc s) + 1 \<and>
         rounds (spc s) \<le> sent s \<and> sent s \<le> NUM_ITERS"
  using handshake_reach_inv [OF assms]
  by (auto simp: handshake_inv_def split: sender_pc.splits)

text \<open>but it can hang: a gap that is no interrupt of the sender, seen after the last round and
  before \<open>finished\<close> is set, makes the receiver wait for a sender that has left.  A state is
  reachable in which neither thread ever moves again and the receiver has not returned.\<close>

theorem handshake_can_hang:
  "\<exists>s. handshake_reach s \<and> rpc_pc s = R_Wait \<and> sender_step s = s \<and> (\<forall>g. receiver_step g s = s)"
proof -
  obtain s where s: "handshake_reach s" "spc s = S_Send NUM_ITERS" "rpc_pc s = R_Loop"
    using handshake_reaches_round [of NUM_ITERS] by auto
  have I: "\<not> h_received s" "\<not> h_finished s"
    using handshake_reach_inv [OF s(1)] s(2,3) by (auto simp: handshake_inv_def)
  let ?s' = "sender_step (sender_step (receiver_step True s))"
  have "handshake_reach ?s'" by (intro hs_send hs_recv s(1))
  moreover have e: "spc ?s' = S_Exit" "rpc_pc ?s' = R_Wait" "h_received ?s'"
    using s I by (simp_all add: sender_step_def receiver_step_def)
  moreover have "sender_step ?s' = ?s'" using e(1) by (simp add: sender_step_def [of ?s'])
  moreover have "receiver_step g ?s' = ?s'" for g using e(2,3) by (simp add: receiver_step_def [of g ?s'])
  ultimately show ?thesis by blast
qed

theorem recv_buffer_overrun_witness:
  "record_gaps [(1, 2), (3, 4)] \<lparr>t7a = replicate VEC_SIZE 0, t8a = replicate VEC_SIZE 0, vc = 0\<rparr> \<noteq> Inl Out_Of_Bounds"
  using recv_buffer_overrun [of "\<lparr>t7a = replicate VEC_SIZE 0, t8a = replicate VEC_SIZE 0, vc = 0\<rparr>" "[(1, 2), (3, 4)]"]
  by (simp add: VEC_SIZE_def)

definition demo_ts :: "stat \<Rightarrow> u64" where
  "demo_ts f = (case f of common_irq_entry \<Rightarrow> 100 | common_irq_exit \<Rightarrow> 150 | igb_softirq_entry \<Rightarrow> 200
     | net_skb1_entry \<Rightarrow> 250 | igb_softirq_exit \<Rightarrow> 300 | sched_entry \<Rightarrow> 350 | cs_exit \<Rightarrow> 900 | _ \<Rightarrow> 400)"

theorem packet_stats_telescope_witness:
  "\<exists>r. packet_stats demo_ts 5 = Some r \<and>
     hardirq r + hardirq2igbsoftirq r + st_igb_softirq r + igbsoftirq2sched r + st_sched_pre r +
     st_sched_pick r + st_sched_wakeup r + st_cs_pre r + st_cs_mm r + st_cs_reg r = 800"
proof -
  obtain r where r: "packet_stats demo_ts 5 = Some r"
    by (simp add: packet_stats_def demo_ts_def)
  have "demo_ts sched_entry > demo_ts igb_softirq_exit" by (simp add: demo_ts_def)
  from packet_stats_telescope [OF r this] r show ?thesis by (simp add: demo_ts_def)
qed

theorem handshake_counts_witness:
  "caught (receiver_step False handshake_init) = 0 \<and> sent (receiver_step False handshake_init) \<le> NUM_ITERS"
  using handshake_counts [OF hs_recv [OF hs_init, of False]]
  by (simp add: receiver_step_def handshake_init_def)

end
