(* ===== verification/Thlet_Switch.thy ===== *)
theory Thlet_Switch
  imports Prelude
begin

text \<open>
  The context-switch experiments of \<open>src/context_switch\<close> and the lock experiment of \<open>src/lock\<close>:
  the spinning threads and the report of \<open>motivation_sched/kernel_mode/thlet_switch.c\<close> and of its
  user-space version \<open>motivation_sched/user_mode/thlet_switch_user.c\<close>, the helper device
  \<open>thlet_switch_helper.c\<close>, the device of \<open>sched/kernel_mode/thlet_sched.c\<close> with its test program, and
  the mutex benchmark \<open>thlet_lock.c\<close>.  Random numbers and clock readings are arguments; the
  kernel's statistics record (in a kernel header) is opaque.
\<close>

section \<open>The spinning thread\<close>

definition THLET_SWITCH_ITER :: nat where "THLET_SWITCH_ITER = 100"
definition THLET_SWITCH_THREADS :: nat where "THLET_SWITCH_THREADS = 8"
definition THLET_LOOPS :: u64 where "THLET_LOOPS = 1000"

definition get_possion :: "u64 \<Rightarrow> u64" where
  "get_possion u = u mod THLET_LOOPS + THLET_LOOPS"

text \<open>The array \<open>iter_cnt\<close>: running sums of the values drawn from the random numbers.\<close>

fun iter_counts :: "u64 list \<Rightarrow> u64 \<Rightarrow> u64 list" where
  "iter_counts [] prev = []"
| "iter_counts (u # us) prev = (let c = prev + get_possion u in c # iter_counts us c)"

text \<open>\<open>do nop; while (cnt++ <= limit)\<close>: the counter and the number of passes after the loop.  With
  the largest limit the loop would not end.\<close>

partial_function (option) spin :: "u64 \<Rightarrow> u64 \<Rightarrow> nat \<Rightarrow> (u64 \<times> nat) option" where
  "spin cnt limit n =
    (if cnt \<le> limit then spin (cnt + 1) limit (n + 1) else Some (cnt + 1, n + 1))"

text \<open>The measured loop: for each limit a spin between two clock readings.  The result is the
  counter, the accumulated pure time, and the passes.\<close>

fun spin_all :: "u64 list \<Rightarrow> (u64 \<times> u64) list \<Rightarrow> u64 \<times> u64 \<times> nat \<Rightarrow> (u64 \<times> u64 \<times> nat) option" where
  "spin_all [] clocks (cnt, pure, n) = Some (cnt, pure, n)"
| "spin_all (l # ls) clocks (cnt, pure, n) =
     (case spin cnt l n of
        None \<Rightarrow> None
      | Some (cnt', n') \<Rightarrow>
          spin_all ls (tl clocks) (cnt', pure + (snd (hd clocks) - fst (hd clocks)), n'))"

record module_stats =
  ms_finished :: bool
  ms_start :: u64
  ms_end :: u64
  ms_total :: u64
  ms_pure :: u64

record switch_state =
  finish_cnt :: u64
  sw_stats :: "module_stats list"
  switch_start :: bool

text \<open>\<open>thlet_switch_fn\<close> of the kernel module, for a thread \<open>tid\<close> that reads the clock at the start and
  the end and before and after each spin.\<close>

definition thlet_switch_fn ::
  "nat \<Rightarrow> u64 list \<Rightarrow> u64 \<Rightarrow> u64 \<Rightarrow> (u64 \<times> u64) list \<Rightarrow> switch_state \<Rightarrow> switch_state res option" where
  "thlet_switch_fn tid us start_cycle end_cycle clocks s =
    (let iter_cnt = iter_counts (take THLET_SWITCH_ITER us) 0;
         s = s\<lparr>switch_start := True\<rparr>
     in case spin_all iter_cnt clocks (0, 0, 0) of
          None \<Rightarrow> None
        | Some (cnt, pure, n) \<Rightarrow>
            Some (if tid \<ge> THLET_SWITCH_THREADS then Inl (Bug_On ''id'')
                  else
                    (let s = s\<lparr>finish_cnt := finish_cnt s + 1,
                               sw_stats := (sw_stats s)[tid := \<lparr>ms_finished = True, ms_start = start_cycle,
                                 ms_end = end_cycle, ms_total = iter_cnt ! (THLET_SWITCH_ITER - 1), ms_pure = pure\<rparr>]\<rparr>
                     in Inr (if finish_cnt s = of_nat THLET_SWITCH_THREADS then s\<lparr>switch_start := False\<rparr> else s))))"

definition thlet_switch_init :: "switch_state \<Rightarrow> switch_state" where
  "thlet_switch_init s =
    s\<lparr>switch_start := False, sw_stats := map (\<lambda>m. m\<lparr>ms_finished := False\<rparr>) (sw_stats s)\<rparr>"

section \<open>The report\<close>

text \<open>The loop of \<open>thlet_switch_exit\<close> over the threads from number \<open>i\<close> on.\<close>

record report =
  rp_sum :: u64
  rp_pure :: u64
  rp_start :: u64
  rp_end :: u64

fun exit_loop :: "nat \<Rightarrow> module_stats list \<Rightarrow> report \<Rightarrow> report" where
  "exit_loop i [] r = r"
| "exit_loop i (m # ms) r =
     (let st = (if i = 0 then ms_start m else min (rp_start r) (ms_start m));
          en = (if i = 0 then ms_end m else max st (ms_end m))
      in exit_loop (Suc i) ms
           \<lparr>rp_sum = rp_sum r + ms_total m, rp_pure = rp_pure r + ms_pure m, rp_start = st, rp_end = en\<rparr>)"

definition exit_report :: "module_stats list \<Rightarrow> report" where
  "exit_report ms = exit_loop 0 ms \<lparr>rp_sum = 0, rp_pure = 0, rp_start = 0, rp_end = 0\<rparr>"

text \<open>The printed percentages: an interval of length 0 divides by zero.\<close>

definition exit_percent :: "u64 \<Rightarrow> report \<Rightarrow> u64 res" where
  "exit_percent cycles r =
    (let cost = rp_end r - rp_start r
     in if cost = 0 then Inl Div_By_Zero else Inr (cycles * 100 div cost))"

text \<open>The loop of \<open>main\<close> in \<open>thlet_switch_user.c\<close>, and its guarded percentage.\<close>

fun user_loop :: "nat \<Rightarrow> module_stats list \<Rightarrow> report \<Rightarrow> report" where
  "user_loop i [] r = r"
| "user_loop i (m # ms) r =
     user_loop (Suc i) ms
       (r\<lparr>rp_pure := rp_pure r + ms_pure m,
          rp_start := (if i = 0 \<or> ms_start m < rp_start r then ms_start m else rp_start r),
          rp_end := (if i = 0 \<or> ms_end m > rp_end r then ms_end m else rp_end r)\<rparr>)"

definition user_report :: "module_stats list \<Rightarrow> report" where
  "user_report ms = user_loop 0 ms \<lparr>rp_sum = 0, rp_pure = 0, rp_start = 0, rp_end = 0\<rparr>"

definition user_percent :: "u64 \<Rightarrow> report \<Rightarrow> u64 option" where
  "user_percent cycles r =
    (let cost = rp_end r - rp_start r
     in if cost > 0 then Some (cycles * 100 div cost) else None)"

text \<open>The commit of the user-space thread, field by field: \<open>finished\<close> is stored first.\<close>

definition user_commit :: "nat \<Rightarrow> u64 \<Rightarrow> u64 \<Rightarrow> u64 \<Rightarrow> u64 \<Rightarrow> switch_state \<Rightarrow> switch_state list" where
  "user_commit tid start end' tot pure s =
    (let upd = (\<lambda>f s. s\<lparr>sw_stats := (sw_stats s)[tid := f (sw_stats s ! tid)]\<rparr>);
         s1 = upd (ms_finished_update (\<lambda>_. True)) s;
         s2 = upd (ms_start_update (\<lambda>_. start)) s1;
         s3 = upd (ms_end_update (\<lambda>_. end')) s2;
         s4 = upd (ms_total_update (\<lambda>_. tot)) s3;
         s5 = upd (ms_pure_update (\<lambda>_. pure)) s4
     in [s1, s2, s3, s4, s5, s5\<lparr>finish_cnt := finish_cnt s5 + 1\<rparr>])"

definition get_poisson :: "int \<Rightarrow> u64" where
  "get_poisson r = to_u64 (s32 (c_mod r 500 + 500))"

section \<open>The helper devices\<close>

text \<open>\<open>thlet_switch_helper.c\<close>: the kernel's sums \<open>'s\<close> (with a zero), the switch, and the shared page.\<close>

record 's helper =
  sums :: 's
  measuring :: bool
  page :: "'s option"

definition IOC :: "u32 \<Rightarrow> u32" where "IOC nr = push_bit 8 452 + nr"

definition helper_mmap :: "'s \<Rightarrow> bool \<Rightarrow> int \<Rightarrow> 's helper \<Rightarrow> int \<times> 's helper" where
  "helper_mmap zero mem remap s =
    (if \<not> mem then (- 12, s\<lparr>page := None\<rparr>)
     else (if remap \<noteq> 0 then - 11 else 0, s\<lparr>page := Some zero\<rparr>))"

definition helper_ioctl :: "'s \<Rightarrow> u32 \<Rightarrow> 's helper \<Rightarrow> (int \<times> 's helper) res" where
  "helper_ioctl zero num s =
    (if num = IOC 0 then Inr (0, s\<lparr>sums := zero, measuring := True\<rparr>)
     else if num = IOC 1 then
       (case page s of
          None \<Rightarrow> Inl Null_Deref
        | Some _ \<Rightarrow> Inr (0, s\<lparr>measuring := False, page := Some (sums s)\<rparr>))
     else if num = IOC 2 then Inr (0, s\<lparr>sums := zero\<rparr>)
     else Inr (0, s))"

definition helper_ioctl32 :: "'s \<Rightarrow> u32 \<Rightarrow> 's helper \<Rightarrow> (int \<times> 's helper) res" where
  "helper_ioctl32 zero num s = and_then (helper_ioctl zero num s) (\<lambda>(r, s). Inr (0, s))"

definition helper_exit :: "'s helper \<Rightarrow> 's helper" where
  "helper_exit s = s\<lparr>page := None\<rparr>"

text \<open>\<open>thlet_sched.c\<close>: every ioctl reports the scheduler's statistics (\<open>report\<close>), whatever its
  number; the test program's two threads yield and report five times each.\<close>

definition sched_ioctl :: "('w \<Rightarrow> 'w) \<Rightarrow> u32 \<Rightarrow> u64 \<Rightarrow> 'w \<Rightarrow> int \<times> 'w" where
  "sched_ioctl report num param w = (0, report w)"

definition sched_ioctl32 :: "('w \<Rightarrow> 'w) \<Rightarrow> u32 \<Rightarrow> u64 \<Rightarrow> 'w \<Rightarrow> int \<times> 'w" where
  "sched_ioctl32 report num param w = (0, snd (sched_ioctl report num param w))"

definition sched_mmap :: "'p \<Rightarrow> bool \<Rightarrow> int \<Rightarrow> 'p option \<Rightarrow> int \<times> 'p option" where
  "sched_mmap zero mem remap stats =
    (if \<not> mem then (- 12, None) else (if remap \<noteq> 0 then - 11 else 0, Some zero))"

definition sched_exit :: "'p option \<Rightarrow> 'p option" where
  "sched_exit stats = None"

definition thread_func :: "('w \<Rightarrow> 'w) \<Rightarrow> ('w \<Rightarrow> 'w) \<Rightarrow> 'w \<Rightarrow> 'w" where
  "thread_func sched_yield report w = ((\<lambda>w. snd (sched_ioctl report 0 0 (sched_yield w))) ^^ 5) w"

section \<open>The lock benchmark\<close>

datatype lock_pc = L_Before | L_Locked | L_Recorded | L_After

record lock_bench =
  mutex :: "nat option"
  pc_a :: lock_pc
  pc_b :: lock_pc
  events :: "string list"

definition mutex_bench_init :: lock_bench where
  "mutex_bench_init = \<lparr>mutex = None, pc_a = L_Before, pc_b = L_Before, events = []\<rparr>"

definition thread_a_fn :: "lock_bench \<Rightarrow> lock_bench" where
  "thread_a_fn s =
    (case pc_a s of
       L_Before \<Rightarrow> if mutex s = None then s\<lparr>mutex := Some 0, pc_a := L_Locked\<rparr> else s
     | L_Locked \<Rightarrow> s\<lparr>events := events s @ [''record_unlock''], pc_a := L_Recorded\<rparr>
     | L_Recorded \<Rightarrow> s\<lparr>mutex := None, pc_a := L_After\<rparr>
     | L_After \<Rightarrow> s)"

definition thread_b_fn :: "lock_bench \<Rightarrow> lock_bench" where
  "thread_b_fn s =
    (case pc_b s of
       L_Before \<Rightarrow> if mutex s = None then s\<lparr>mutex := Some 1, pc_b := L_Locked\<rparr> else s
     | L_Locked \<Rightarrow> s\<lparr>events := events s @ [''record_acquire'', ''report''], pc_b := L_Recorded\<rparr>
     | L_Recorded \<Rightarrow> s\<lparr>mutex := None, pc_b := L_After\<rparr>
     | L_After \<Rightarrow> s)"

inductive bench_reach :: "lock_bench \<Rightarrow> bool" where
  bench_init: "bench_reach mutex_bench_init"
| bench_a: "bench_reach s \<Longrightarrow> bench_reach (thread_a_fn s)"
| bench_b: "bench_reach s \<Longrightarrow> bench_reach (thread_b_fn s)"

section \<open>The spin loops end\<close>

lemma spin_ends:
  assumes "unat limit < 2 ^ 64 - 2" "unat cnt \<le> unat limit + 1"
  shows "spin cnt limit n = Some (limit + 2, n + (unat limit + 2 - unat cnt))"
  using assms(2)
proof (induction "unat limit + 1 - unat cnt" arbitrary: cnt n)
  case 0
  have l: "unat (limit + 1) = unat limit + 1" using assms(1) by (simp add: unat_word_ariths)
  have "unat cnt = unat (limit + 1)" using 0 l by simp
  then have c: "cnt = limit + 1" by (simp only: word_unat_eq_iff)
  have "\<not> limit + 1 \<le> limit" using l by (simp add: word_le_nat_alt)
  then show ?case using c l by (subst spin.simps) simp
next
  case (Suc k)
  then have le: "cnt \<le> limit" by (simp add: word_le_nat_alt)
  then have "cnt < limit + 1"
    using assms(1) by (simp add: word_less_nat_alt word_le_nat_alt unat_word_ariths)
  then have u: "unat (cnt + 1) = Suc (unat cnt)" by (rule unat_Suc_less)
  have "spin (cnt + 1) limit (n + 1) = Some (limit + 2, n + 1 + (unat limit + 2 - unat (cnt + 1)))"
    using Suc u by (intro Suc.hyps(1)) auto
  with le u show ?case using Suc(2) by (subst spin.simps) simp
qed

lemma get_possion_range: "1000 \<le> unat (get_possion u) \<and> unat (get_possion u) < 2000"
proof -
  have m: "unat (u mod 1000) < 1000" by (simp add: unat_mod)
  then have "unat (u mod 1000 + 1000) = unat (u mod 1000) + 1000"
    by (simp add: unat_word_ariths)
  with m show ?thesis by (simp add: get_possion_def THLET_LOOPS_def)
qed

text \<open>Each limit is at least 1000 above the one before, and the sums do not wrap.\<close>

lemma spin_all_ends:
  assumes "unat prev + 2000 * length us < 2 ^ 63" "cnt = (if first then prev else prev + 2)"
    and "first \<Longrightarrow> prev = 0 \<and> n = 0" "\<not> first \<Longrightarrow> n = unat prev + 2"
  shows "\<exists>p. spin_all (iter_counts us prev) clocks (cnt, pure, n) =
           Some (if us = [] then cnt else last (iter_counts us prev) + 2, p,
                 if us = [] then n else unat (last (iter_counts us prev)) + 2) \<and>
         (us \<noteq> [] \<longrightarrow> unat prev + 1000 * length us \<le> unat (last (iter_counts us prev)) \<and>
                       unat (last (iter_counts us prev)) < unat prev + 2000 * length us)"
  using assms
proof (induction us arbitrary: prev cnt n first pure clocks)
  case Nil
  then show ?case by simp
next
  case (Cons u us)
  let ?c = "prev + get_possion u"
  have g: "1000 \<le> unat (get_possion u)" "unat (get_possion u) < 2000" using get_possion_range by auto
  have c: "unat ?c = unat prev + unat (get_possion u)"
    using g Cons.prems(1) by (simp add: unat_word_ariths)
  have p2: "unat (prev + 2) = unat prev + 2" using Cons.prems(1) by (simp add: unat_word_ariths)
  have "spin cnt ?c n = Some (?c + 2, n + (unat ?c + 2 - unat cnt))"
    by (rule spin_ends) (use c g Cons.prems p2 in \<open>auto split: if_splits\<close>)
  moreover have "n + (unat ?c + 2 - unat cnt) = unat ?c + 2"
    using Cons.prems(2-4) c g p2 by (cases first) auto
  ultimately have s: "spin cnt ?c n = Some (?c + 2, unat ?c + 2)" by simp
  have b: "unat ?c + 2000 * length us < 2 ^ 63" using Cons.prems(1) c g by simp
  have "\<exists>p. spin_all (iter_counts us ?c) (tl clocks)
        (?c + 2, pure + (snd (hd clocks) - fst (hd clocks)), unat ?c + 2) =
      Some (if us = [] then ?c + 2 else last (iter_counts us ?c) + 2, p,
            if us = [] then unat ?c + 2 else unat (last (iter_counts us ?c)) + 2) \<and>
      (us \<noteq> [] \<longrightarrow> unat ?c + 1000 * length us \<le> unat (last (iter_counts us ?c)) \<and>
                   unat (last (iter_counts us ?c)) < unat ?c + 2000 * length us)"
    by (rule Cons.IH [of ?c "?c + 2" False]) (use b in auto)
  moreover have "iter_counts us ?c \<noteq> []" if "us \<noteq> []" using that by (cases us) (auto simp: Let_def)
  ultimately show ?case using s c g by (cases "us = []") (auto simp: Let_def)
qed

text \<open>a thread of the experiment ends: its hundred spins return for all random numbers, after
  exactly two passes more than the last limit, which is between 100000 and 200000.\<close>

theorem switch_thread_work:
  assumes "length us = THLET_SWITCH_ITER"
  shows "\<exists>p. spin_all (iter_counts us 0) clocks (0, 0, 0) =
           Some (last (iter_counts us 0) + 2, p, unat (last (iter_counts us 0)) + 2) \<and>
         100000 \<le> unat (last (iter_counts us 0)) \<and> unat (last (iter_counts us 0)) < 200000"
  using spin_all_ends [of 0 us 0 True 0 clocks 0] assms by (auto simp: THLET_SWITCH_ITER_def)

section \<open>What the reports measure\<close>

lemma exit_loop_end:
  assumes "ms \<noteq> []" "0 < i \<longrightarrow> (\<forall>m\<in>set ms. rp_start r \<le> ms_end m)"
    and "\<forall>m\<in>set ms. \<forall>m'\<in>set ms. ms_start m \<le> ms_end m'"
  shows "rp_end (exit_loop i ms r) = ms_end (last ms)"
  using assms
proof (induction ms arbitrary: i r)
  case (Cons m ms)
  let ?st = "if i = 0 then ms_start m else min (rp_start r) (ms_start m)"
  have st: "\<forall>m'\<in>set (m # ms). ?st \<le> ms_end m'"
    using Cons.prems(2,3) by (auto simp: min_le_iff_disj)
  have en: "(if i = 0 then ms_end m else max ?st (ms_end m)) = ms_end m"
    using st by (auto simp: max_def)
  let ?r = "\<lparr>rp_sum = rp_sum r + ms_total m, rp_pure = rp_pure r + ms_pure m, rp_start = ?st, rp_end = ms_end m\<rparr>"
  have step: "exit_loop i (m # ms) r = exit_loop (Suc i) ms ?r"
    using en by (simp add: Let_def)
  show ?case
  proof (cases "ms = []")
    case True
    then show ?thesis using step by simp
  next
    case False
    have "rp_end (exit_loop (Suc i) ms ?r) = ms_end (last ms)"
      by (rule Cons.IH [OF False]) (use st Cons.prems(3) in auto)
    with step False show ?thesis by simp
  qed
qed simp

lemma user_loop_min_max:
  assumes "i \<noteq> 0"
  shows "rp_start (user_loop i ms r) = fold min (map ms_start ms) (rp_start r)"
    and "rp_end (user_loop i ms r) = fold max (map ms_end ms) (rp_end r)"
proof -
  have "rp_start (user_loop i ms r) = fold min (map ms_start ms) (rp_start r) \<and>
        rp_end (user_loop i ms r) = fold max (map ms_end ms) (rp_end r)"
    using assms
  proof (induction ms arbitrary: i r)
    case (Cons m ms)
    have "(if ms_start m < rp_start r then ms_start m else rp_start r) = min (ms_start m) (rp_start r)"
      "(if rp_end r < ms_end m then ms_end m else rp_end r) = max (ms_end m) (rp_end r)"
      by (auto simp: min_def max_def)
    with Cons show ?case by simp
  qed simp
  then show "rp_start (user_loop i ms r) = fold min (map ms_start ms) (rp_start r)"
    "rp_end (user_loop i ms r) = fold max (map ms_end ms) (rp_end r)" by simp_all
qed

text \<open>the user-space program reports the time from the first start to the last end of its
  threads, but the kernel module compares each end with the start instead of the end found so
  far: for overlapping threads its interval ends when the thread with the highest number ends,
  whichever ends last.\<close>

theorem switch_reports:
  assumes "ms \<noteq> []" "\<forall>m\<in>set ms. \<forall>m'\<in>set ms. ms_start m \<le> ms_end m'"
  shows "rp_start (user_report ms) = Min (ms_start ` set ms) \<and> rp_end (user_report ms) = Max (ms_end ` set ms) \<and>
         rp_end (exit_report ms) = ms_end (last ms)"
proof -
  obtain m ms' where ms: "ms = m # ms'" using assms(1) by (cases ms) auto
  have "rp_start (user_report ms) = fold min (map ms_start ms') (ms_start m)"
    "rp_end (user_report ms) = fold max (map ms_end ms') (ms_end m)"
    by (simp_all add: user_report_def ms user_loop_min_max)
  moreover have "fold min (map ms_start ms') (ms_start m) = Min (set (map ms_start ms))"
    "fold max (map ms_end ms') (ms_end m) = Max (set (map ms_end ms))"
    by (simp_all add: ms Min.set_eq_fold [symmetric] Max.set_eq_fold [symmetric] del: Min_insert Max_insert)
  moreover have "rp_end (exit_report ms) = ms_end (last ms)"
    unfolding exit_report_def by (rule exit_loop_end) (use assms in auto)
  ultimately show ?thesis by simp
qed

section \<open>The helper device and the lock\<close>

text \<open>A measurement through the helper device: start, whatever the kernel adds, finish.  The page
  then holds exactly what was added since the start.\<close>

lemma helper_measures:
  assumes "page s \<noteq> None" "helper_ioctl zero (IOC 0) s = Inr (r, s1)"
    and "helper_ioctl zero (IOC 1) (s1\<lparr>sums := add (sums s1)\<rparr>) = Inr (r', s2)"
  shows "page s2 = Some (add zero) \<and> \<not> measuring s2"
  using assms by (auto simp: helper_ioctl_def IOC_def split: option.splits)

definition bench_inv :: "lock_bench \<Rightarrow> bool" where
  "bench_inv s \<longleftrightarrow>
     (mutex s = Some 0 \<longleftrightarrow> pc_a s = L_Locked \<or> pc_a s = L_Recorded) \<and>
     (mutex s = Some 1 \<longleftrightarrow> pc_b s = L_Locked \<or> pc_b s = L_Recorded)"

lemma bench_reach_inv: "bench_reach s \<Longrightarrow> bench_inv s"
proof (induction rule: bench_reach.induct)
  case bench_init
  then show ?case by (simp add: bench_inv_def mutex_bench_init_def)
next
  case (bench_a s)
  then show ?case by (cases "pc_a s") (auto simp: bench_inv_def thread_a_fn_def)
next
  case (bench_b s)
  then show ?case by (cases "pc_b s") (auto simp: bench_inv_def thread_b_fn_def)
qed

text \<open>the lock benchmark keeps its threads apart (never both inside the mutex), but nothing
  orders them: a run exists in which the second thread records the lock's acquisition and
  reports before the first thread has recorded the release that is to be measured.\<close>

theorem lock_bench_order:
  "(bench_reach s \<longrightarrow> \<not> (pc_a s \<in> {L_Locked, L_Recorded} \<and> pc_b s \<in> {L_Locked, L_Recorded})) \<and>
   (\<exists>s'. bench_reach s' \<and> events s' = [''record_acquire'', ''report'', ''record_unlock''])"
proof -
  let ?s = "thread_a_fn (thread_a_fn (thread_b_fn (thread_b_fn (thread_b_fn mutex_bench_init))))"
  have "bench_reach ?s" by (intro bench_a bench_b bench_init)
  moreover have "events ?s = [''record_acquire'', ''report'', ''record_unlock'']"
    by (simp add: thread_a_fn_def thread_b_fn_def mutex_bench_init_def)
  ultimately show ?thesis using bench_reach_inv [of s] by (auto simp: bench_inv_def)
qed

theorem switch_thread_work_witness:
  "\<exists>p n. spin_all (iter_counts (replicate 100 7) 0) [] (0, 0, 0) =
       Some (last (iter_counts (replicate 100 7) 0) + 2, p, n) \<and> 100002 \<le> n"
  using switch_thread_work [of "replicate 100 7" "[]"] by (auto simp: THLET_SWITCH_ITER_def)

definition demo_stats :: "u64 \<Rightarrow> u64 \<Rightarrow> module_stats" where
  "demo_stats a b = \<lparr>ms_finished = True, ms_start = a, ms_end = b, ms_total = 0, ms_pure = 0\<rparr>"

theorem switch_reports_witness:
  "rp_end (user_report [demo_stats 10 90, demo_stats 20 50]) = 90 \<and>
   rp_end (exit_report [demo_stats 10 90, demo_stats 20 50]) = 50"
  using switch_reports [of "[demo_stats 10 90, demo_stats 20 50]"] by (simp add: demo_stats_def)

theorem lock_bench_order_witness:
  "\<not> (pc_a mutex_bench_init \<in> {L_Locked, L_Recorded} \<and> pc_b mutex_bench_init \<in> {L_Locked, L_Recorded})"
  using lock_bench_order [of mutex_bench_init] bench_init by blast

end
