(* ===== verification/Lm_Getopt.thy ===== *)
theory Lm_Getopt
  imports Prelude "HOL-Library.Sublist"
begin

text \<open>
  The option parser of the benchmark suite (\<open>src/lmbench-3.0-a9/src/getopt.c\<close>), which every
  benchmark uses in place of the system's.  An argument vector is a list of strings; reading a
  string at its length gives the terminating zero, reading further is an access out of bounds.
  The lemmas show that parsing any argument vector ends without a failed assertion and that it
  inverts the usual ways of writing options.
\<close>

definition NUL :: char where "NUL = CHR 0x00"

text \<open>\<open>s[j]\<close> for a C string.\<close>

definition char_at :: "string \<Rightarrow> nat \<Rightarrow> char res" where
  "char_at s j = (if j < length s then Inr (s ! j) else if j = length s then Inr NUL else Inl Out_Of_Bounds)"

text \<open>The variables of the parser.  \<open>optarg\<close> is the string the pointer points to, \<open>None\<close> the null
  pointer.\<close>

record optst =
  optind :: nat
  optn :: nat
  optarg :: "string option"
  optopt :: char

definition optst_init :: optst where
  "optst_init = \<lparr>optind = 0, optn = 0, optarg = None, optopt = NUL\<rparr>"

text \<open>The search for an option letter: the rest of \<open>opts\<close> from the letter on, empty if there is none.\<close>

fun find_letter :: "char \<Rightarrow> string \<Rightarrow> string" where
  "find_letter c [] = []"
| "find_letter c (t # ts) = (if t = c then t # ts else find_letter c ts)"

text \<open>\<open>t[1]\<close>.\<close>

definition letter_kind :: "string \<Rightarrow> char" where
  "letter_kind t = (case t of _ # k # _ \<Rightarrow> k | _ \<Rightarrow> NUL)"

definition getopt_init :: "optst \<Rightarrow> optst" where
  "getopt_init s = (if optind s = 0 then s\<lparr>optind := 1, optn := 1\<rparr> else s)"

text \<open>One call.  The result \<open>None\<close> is \<open>EOF\<close>.\<close>

definition getopt :: "string list \<Rightarrow> string \<Rightarrow> optst \<Rightarrow> (char option \<times> optst) res" where
  "getopt av opts s0 =
     (let s = getopt_init s0; i = optind s; n = optn s in
      if i \<ge> length av then Inr (None, s) else
      and_then (char_at (av ! i) 0) (\<lambda>c0.
      if c0 \<noteq> CHR ''-'' then Inr (None, s) else
      and_then (char_at (av ! i) 1) (\<lambda>c1.
      if c1 = NUL then Inr (None, s) else
      and_then (char_at (av ! i) n) (\<lambda>c.
      if c = NUL then Inl (Assert_Failed ''av[optind][n]'') else
      (case find_letter c opts of
         [] \<Rightarrow> Inr (Some CHR ''?'', s\<lparr>optopt := c\<rparr>)
       | t # ts \<Rightarrow>
         let k = letter_kind (t # ts) in
         and_then (char_at (av ! i) (n + 1)) (\<lambda>d.
         if k \<noteq> CHR '':'' \<and> k \<noteq> CHR ''|'' \<and> k \<noteq> CHR '';'' then
           (if d = NUL then Inr (Some t, s\<lparr>optind := i + 1, optn := 1\<rparr>)
            else Inr (Some t, s\<lparr>optn := n + 1\<rparr>))
         else if d \<noteq> NUL then
           Inr (Some t, s\<lparr>optarg := Some (drop (n + 1) (av ! i)), optind := i + 1, optn := 1\<rparr>)
         else if k = CHR ''|'' then
           Inr (Some t, s\<lparr>optarg := None, optind := i + 1, optn := 1\<rparr>)
         else if k = CHR '';'' then
           Inr (Some CHR ''?'', s\<lparr>optarg := None, optind := i + 1, optopt := t\<rparr>)
         else if i + 1 = length av then Inr (Some CHR ''?'', s\<lparr>optopt := c\<rparr>)
         else and_then (char_at (av ! (i + 1)) 0) (\<lambda>e.
           if e = CHR ''-'' then Inr (Some CHR ''?'', s\<lparr>optopt := c\<rparr>)
           else Inr (Some t, s\<lparr>optarg := Some (av ! (i + 1)), optind := i + 2, optn := 1\<rparr>))))))))"

text \<open>The loop of the benchmarks' \<open>main\<close>: it calls \<open>getopt\<close> until \<open>EOF\<close> and gives up (prints the
  usage and exits) at a question mark.  \<open>None\<close> means that the fuel did not suffice.\<close>

fun getopts :: "nat \<Rightarrow> string list \<Rightarrow> string \<Rightarrow> optst \<Rightarrow> ((char \<times> string option) list \<times> bool \<times> optst) res option" where
  "getopts 0 av opts s = None"
| "getopts (Suc k) av opts s =
     (case getopt av opts s of
        Inl e \<Rightarrow> Some (Inl e)
      | Inr (None, s') \<Rightarrow> Some (Inr ([], True, s'))
      | Inr (Some c, s') \<Rightarrow>
          if c = CHR ''?'' then Some (Inr ([], False, s')) else
          (case getopts k av opts s' of
             None \<Rightarrow> None
           | Some (Inl e) \<Rightarrow> Some (Inl e)
           | Some (Inr (cs, ok, s'')) \<Rightarrow> Some (Inr ((c, optarg s') # cs, ok, s''))))"


subsection \<open>Every command line is parsed\<close>

lemma char_at_simps [simp]:
  "j < length s \<Longrightarrow> char_at s j = Inr (s ! j)"
  "char_at s (length s) = Inr NUL"
  "char_at [] 0 = Inr NUL"
  "char_at (x # xs) 0 = Inr x"
  by (simp_all add: char_at_def)

lemma NUL_dash: "NUL \<noteq> CHR ''-''"
  by (simp add: NUL_def)

lemma char_at_le: "j \<le> length s \<Longrightarrow> \<exists>c. char_at s j = Inr c"
  by (auto simp: char_at_def)

definition plain :: "string list \<Rightarrow> bool" where
  "plain av \<longleftrightarrow> (\<forall>w \<in> set av. NUL \<notin> set w)"

lemma char_at_plain:
  assumes "plain av" "i < length av" "char_at (av ! i) j = Inr c"
  shows "c = NUL \<longleftrightarrow> j = length (av ! i)"
  using assms by (auto simp: char_at_def plain_def split: if_splits dest: nth_mem)

text \<open>Where the parser stands between two calls: at the start of a word, or inside a word.\<close>

definition opt_inv :: "string list \<Rightarrow> optst \<Rightarrow> bool" where
  "opt_inv av s \<longleftrightarrow> 0 < optind s \<and> 0 < optn s \<and> (1 < optn s \<longrightarrow> optind s < length av \<and> optn s < length (av ! optind s))"

definition left :: "string list \<Rightarrow> optst \<Rightarrow> nat" where
  "left av s = sum_list (map (\<lambda>w. length w + 1) (drop (optind s) av)) - (if optind s < length av then optn s else 0)"

lemma find_letter_hd: "find_letter c opts = t # ts \<Longrightarrow> t = c"
  by (induction opts) (auto split: if_splits)

lemma left_next:
  assumes "i < length av" "i < j" "n \<le> length (av ! i)"
  shows "sum_list (map (\<lambda>w. length w + 1) (drop j av)) < sum_list (map (\<lambda>w. length w + 1) (drop i av)) - n"
proof -
  have "drop i av = av ! i # drop (Suc i) av" using assms(1) by (simp add: Cons_nth_drop_Suc)
  moreover have "sum_list (map (\<lambda>w. length w + 1) (drop j av)) \<le> sum_list (map (\<lambda>w. length w + 1) (drop (Suc i) av))"
  proof -
    have "drop j av = drop (j - Suc i) (drop (Suc i) av)" using assms(2) by simp
    then show ?thesis
      by (metis (no_types) append_take_drop_id le_add2 map_append sum_list_append)
  qed
  ultimately show ?thesis using assms(3) by simp
qed

lemma getopt_init_pos [simp]: "0 < optind s \<Longrightarrow> getopt_init s = s"
  by (simp add: getopt_init_def)

lemma getopt_advances:
  assumes "plain av" "opt_inv av s"
  shows "\<exists>r s'. getopt av opts s = Inr (r, s') \<and>
           (\<forall>c. r = Some c \<and> c \<noteq> CHR ''?'' \<longrightarrow> opt_inv av s' \<and> left av s' < left av s)"
proof (cases "optind s < length av")
  case False
  then show ?thesis using assms by (auto simp: getopt_def Let_def opt_inv_def)
next
  case i: True
  let ?w = "av ! optind s"
  have pos: "0 < optind s" "0 < optn s" using assms(2) by (auto simp: opt_inv_def)
  obtain c0 where c0: "char_at ?w 0 = Inr c0" using char_at_le [of 0 ?w] by auto
  show ?thesis
  proof (cases "c0 = CHR ''-''")
    case False
    then show ?thesis using c0 i pos by (simp add: getopt_def Let_def)
  next
    case dash: True
    have ne: "0 < length ?w" using c0 dash char_at_plain [OF assms(1) i c0] by (cases ?w) (auto simp: NUL_def)
    obtain c1 where c1: "char_at ?w 1 = Inr c1" using char_at_le [of 1 ?w] ne by auto
    show ?thesis
    proof (cases "c1 = NUL")
      case True
      then show ?thesis using c0 dash c1 i pos by (simp add: getopt_def Let_def)
    next
      case more: False
      then have "1 < length ?w" using char_at_plain [OF assms(1) i c1] ne by linarith
      then have n: "optn s < length ?w" using assms(2) pos by (cases "optn s = 1") (auto simp: opt_inv_def)
      then obtain c where c: "char_at ?w (optn s) = Inr c" "c \<noteq> NUL"
        using char_at_plain [OF assms(1) i, of "optn s"] by fastforce
      obtain d where d: "char_at ?w (optn s + 1) = Inr d" "d = NUL \<longleftrightarrow> optn s + 1 = length ?w"
        using char_at_le [of "optn s + 1" ?w] n char_at_plain [OF assms(1) i] by fastforce
      obtain e where e: "optind s + 1 < length av \<Longrightarrow> char_at (av ! (optind s + 1)) 0 = Inr e"
        using char_at_le [of 0] by blast
      have dec: "left av s' < left av s" if "optind s < optind s'" for s'
        using left_next [OF i that, of "optn s"] n i by (auto simp: left_def)
      have dec': "left av (s\<lparr>optn := optn s + 1\<rparr>) < left av s"
        using i n by (simp add: left_def Cons_nth_drop_Suc [symmetric])
      show ?thesis
        using c0 dash c1 more i pos c d e n dec dec'
        by (auto simp: getopt_def Let_def opt_inv_def split: list.split)
    qed
  qed
qed

lemma getopts_total:
  assumes "plain av" "opt_inv av s" "left av s < k"
  shows "\<exists>cs ok s'. getopts k av opts s = Some (Inr (cs, ok, s'))"
  using assms(2,3)
proof (induction k arbitrary: s)
  case (Suc k)
  obtain r s' where g: "getopt av opts s = Inr (r, s')"
    and next': "\<forall>c. r = Some c \<and> c \<noteq> CHR ''?'' \<longrightarrow> opt_inv av s' \<and> left av s' < left av s"
    using getopt_advances [OF assms(1) Suc.prems(1), of opts] by blast
  show ?case
  proof (cases "\<exists>c. r = Some c \<and> c \<noteq> CHR ''?''")
    case True
    then obtain c where c: "r = Some c" "c \<noteq> CHR ''?''" by blast
    with next' Suc.prems(2) Suc.IH [of s'] obtain cs ok s'' where "getopts k av opts s' = Some (Inr (cs, ok, s''))"
      by fastforce
    with g c show ?thesis by simp
  next
    case False
    with g show ?thesis by (cases r) auto
  qed
qed simp

lemma getopts_first_call: "getopts k av opts optst_init = getopts k av opts (optst_init\<lparr>optind := 1, optn := 1\<rparr>)"
proof (cases k)
  case (Suc j)
  have "getopt av opts optst_init = getopt av opts (optst_init\<lparr>optind := 1, optn := 1\<rparr>)"
    by (simp add: getopt_def getopt_init_def optst_init_def)
  with Suc show ?thesis by simp
qed simp

text \<open>C19: the option parser never fails: for every argument vector and every option string the
  benchmarks' loop over \<open>getopt\<close> ends, in \<open>EOF\<close> or in the question mark that reports a wrong
  command line, after at most one call per character (and terminating zero) of the arguments;
  the assertion that a letter is left holds at every call and no string is read past its end.\<close>

theorem getopt_loop_ends:
  assumes "plain av"
  shows "\<exists>cs ok s'. getopts (Suc (sum_list (map (\<lambda>w. length w + 1) (drop 1 av)))) av opts optst_init =
           Some (Inr (cs, ok, s'))"
proof -
  let ?s = "optst_init\<lparr>optind := 1, optn := 1\<rparr>"
  have "opt_inv av ?s" "left av ?s \<le> sum_list (map (\<lambda>w. length w + 1) (drop 1 av))"
    by (simp_all add: opt_inv_def left_def optst_init_def)
  then show ?thesis using getopts_total [OF assms, of ?s] by (metis getopts_first_call le_imp_less_Suc)
qed


subsection \<open>Parsing inverts printing\<close>

text \<open>The ways of writing options: a word of flags, flags followed by an option with its value in
  the same word, or in the next word, or without one.\<close>

datatype optword = Flags string | Joined string char string | Spaced string char string | Bare string char

fun optword_args :: "optword \<Rightarrow> string list" where
  "optword_args (Flags fs) = [CHR ''-'' # fs]"
| "optword_args (Joined fs c v) = [CHR ''-'' # fs @ c # v]"
| "optword_args (Spaced fs c v) = [CHR ''-'' # fs @ [c], v]"
| "optword_args (Bare fs c) = [CHR ''-'' # fs @ [c]]"

definition takes_value :: "string \<Rightarrow> char \<Rightarrow> bool" where
  "takes_value opts c = (letter_kind (find_letter c opts) \<in> {CHR '':'', CHR ''|'', CHR '';''})"

definition letter :: "string \<Rightarrow> char \<Rightarrow> bool" where
  "letter opts c = (c \<in> set opts \<and> c \<noteq> CHR ''?'' \<and> c \<noteq> NUL)"

fun optword_ok :: "string \<Rightarrow> optword \<Rightarrow> bool" where
  "optword_ok opts (Flags fs) = (fs \<noteq> [] \<and> (\<forall>f\<in>set fs. letter opts f \<and> \<not> takes_value opts f))"
| "optword_ok opts (Joined fs c v) = ((\<forall>f\<in>set fs. letter opts f \<and> \<not> takes_value opts f) \<and>
     letter opts c \<and> takes_value opts c \<and> v \<noteq> [] \<and> NUL \<notin> set v)"
| "optword_ok opts (Spaced fs c v) = ((\<forall>f\<in>set fs. letter opts f \<and> \<not> takes_value opts f) \<and>
     letter opts c \<and> letter_kind (find_letter c opts) = CHR '':'' \<and> NUL \<notin> set v \<and> (v = [] \<or> hd v \<noteq> CHR ''-''))"
| "optword_ok opts (Bare fs c) = ((\<forall>f\<in>set fs. letter opts f \<and> \<not> takes_value opts f) \<and>
     letter opts c \<and> letter_kind (find_letter c opts) = CHR ''|'')"

text \<open>What the calls of \<open>getopt\<close> return: the letters, each with the value of \<open>optarg\<close> after the call
  (a flag leaves it as it was).\<close>

fun optword_values :: "string option \<Rightarrow> optword \<Rightarrow> (char \<times> string option) list" where
  "optword_values a (Flags fs) = map (\<lambda>f. (f, a)) fs"
| "optword_values a (Joined fs c v) = map (\<lambda>f. (f, a)) fs @ [(c, Some v)]"
| "optword_values a (Spaced fs c v) = map (\<lambda>f. (f, a)) fs @ [(c, Some v)]"
| "optword_values a (Bare fs c) = map (\<lambda>f. (f, a)) fs @ [(c, None)]"

fun options_values :: "string option \<Rightarrow> optword list \<Rightarrow> (char \<times> string option) list" where
  "options_values a [] = []"
| "options_values a (w # ws) =
     (let vs = optword_values a w in vs @ options_values (snd (last vs)) ws)"

definition prepend where
  "prepend cs r = (case r of Some (Inr (xs, ok, s)) \<Rightarrow> Some (Inr (cs @ xs, ok, s)) | _ \<Rightarrow> r)"

lemma prepend_simps [simp]:
  "prepend [] r = r" "prepend cs (prepend ds r) = prepend (cs @ ds) r"
  "prepend cs (Some (Inr (xs, ok, s))) = Some (Inr (cs @ xs, ok, s))"
  by (auto simp: prepend_def split: option.splits sum.splits)

lemma getopts_step:
  assumes "getopt av opts s = Inr (Some c, s')" "c \<noteq> CHR ''?''"
  shows "getopts (Suc k) av opts s = prepend [(c, optarg s')] (getopts k av opts s')"
  using assms by (simp add: prepend_def split: option.splits sum.splits prod.splits)

lemma getopts_mono: "getopts k av opts s = Some r \<Longrightarrow> getopts (k + j) av opts s = Some r"
  by (induction k arbitrary: s r) (auto split: sum.splits prod.splits option.splits if_splits)

lemma find_letter_in: "c \<in> set opts \<Longrightarrow> \<exists>ts. find_letter c opts = c # ts"
  by (induction opts) auto

lemma letterE:
  assumes "letter opts c"
  obtains ts where "find_letter c opts = c # ts" "c \<noteq> CHR ''?''" "c \<noteq> NUL"
  using assms find_letter_in by (auto simp: letter_def)

text \<open>One call inside a word, before \<open>getopt\<close> looks at the kind of the letter.\<close>

lemma getopt_at:
  assumes "0 < optind s" "optind s < length av" "av ! optind s = CHR ''-'' # pre @ c # tail"
    and "optn s = Suc (length pre)" "hd (pre @ c # tail) \<noteq> NUL" "letter opts c" "NUL \<notin> set tail"
  shows "\<not> takes_value opts c \<Longrightarrow> tail = [] \<Longrightarrow>
           getopt av opts s = Inr (Some c, s\<lparr>optind := optind s + 1, optn := 1\<rparr>)"
    and "\<not> takes_value opts c \<Longrightarrow> tail \<noteq> [] \<Longrightarrow> getopt av opts s = Inr (Some c, s\<lparr>optn := optn s + 1\<rparr>)"
    and "takes_value opts c \<Longrightarrow> tail \<noteq> [] \<Longrightarrow>
           getopt av opts s = Inr (Some c, s\<lparr>optarg := Some tail, optind := optind s + 1, optn := 1\<rparr>)"
    and "letter_kind (find_letter c opts) = CHR ''|'' \<Longrightarrow> tail = [] \<Longrightarrow>
           getopt av opts s = Inr (Some c, s\<lparr>optarg := None, optind := optind s + 1, optn := 1\<rparr>)"
    and "letter_kind (find_letter c opts) = CHR '':'' \<Longrightarrow> tail = [] \<Longrightarrow> Suc (optind s) < length av \<Longrightarrow>
         av ! Suc (optind s) = [] \<or> hd (av ! Suc (optind s)) \<noteq> CHR ''-'' \<Longrightarrow>
           getopt av opts s = Inr (Some c, s\<lparr>optarg := Some (av ! Suc (optind s)), optind := optind s + 2, optn := 1\<rparr>)"
proof -
  from assms(6) obtain ts where f: "find_letter c opts = c # ts" "c \<noteq> CHR ''?''" "c \<noteq> NUL" by (rule letterE)
  obtain x where c1: "char_at (av ! optind s) (Suc 0) = Inr x" "x \<noteq> NUL"
    unfolding assms(3) using assms(5) by (cases pre) (simp_all add: char_at_def)
  have i: "\<not> length av \<le> optind s" using assms(2) by simp
  have cn: "char_at (av ! optind s) (optn s) = Inr c" "char_at (av ! optind s) 0 = Inr CHR ''-''"
    unfolding assms(3,4) by (simp_all add: char_at_def nth_append)
  have d: "char_at (av ! optind s) (Suc (optn s)) = Inr (if tail = [] then NUL else hd tail)"
    unfolding assms(3,4) by (auto simp: char_at_def nth_append hd_conv_nth)
  have t: "tail \<noteq> [] \<Longrightarrow> hd tail \<noteq> NUL" using assms(7) by (cases tail) auto
  have dr: "drop (Suc (optn s)) (av ! optind s) = tail" unfolding assms(3,4) by simp
  note all = getopt_def Let_def c1 cn d f t dr i assms(1) takes_value_def
  show "\<not> takes_value opts c \<Longrightarrow> tail = [] \<Longrightarrow>
           getopt av opts s = Inr (Some c, s\<lparr>optind := optind s + 1, optn := 1\<rparr>)"
    by (simp add: all)
  show "\<not> takes_value opts c \<Longrightarrow> tail \<noteq> [] \<Longrightarrow> getopt av opts s = Inr (Some c, s\<lparr>optn := optn s + 1\<rparr>)"
    by (simp add: all)
  show "takes_value opts c \<Longrightarrow> tail \<noteq> [] \<Longrightarrow>
           getopt av opts s = Inr (Some c, s\<lparr>optarg := Some tail, optind := optind s + 1, optn := 1\<rparr>)"
    by (auto simp: all)
  show "letter_kind (find_letter c opts) = CHR ''|'' \<Longrightarrow> tail = [] \<Longrightarrow>
           getopt av opts s = Inr (Some c, s\<lparr>optarg := None, optind := optind s + 1, optn := 1\<rparr>)"
    by (simp add: all)
  show "letter_kind (find_letter c opts) = CHR '':'' \<Longrightarrow> tail = [] \<Longrightarrow> Suc (optind s) < length av \<Longrightarrow>
         av ! Suc (optind s) = [] \<or> hd (av ! Suc (optind s)) \<noteq> CHR ''-'' \<Longrightarrow>
           getopt av opts s = Inr (Some c, s\<lparr>optarg := Some (av ! Suc (optind s)), optind := optind s + 2, optn := 1\<rparr>)"
    by (cases "av ! Suc (optind s)") (simp_all add: all NUL_dash)
qed

lemma getopts_flags:
  assumes "0 < optind s" "optind s < length av" "av ! optind s = CHR ''-'' # pre @ fs @ tail"
    and "optn s = Suc (length pre)" "hd (pre @ fs @ tail) \<noteq> NUL" "tail \<noteq> []" "NUL \<notin> set tail"
    and "\<forall>f\<in>set fs. letter opts f \<and> \<not> takes_value opts f"
  shows "getopts (length fs + k) av opts s =
           prepend (map (\<lambda>f. (f, optarg s)) fs) (getopts k av opts (s\<lparr>optn := Suc (length (pre @ fs))\<rparr>))"
  using assms
proof (induction fs arbitrary: pre s)
  case Nil
  then have "s\<lparr>optn := Suc (length pre)\<rparr> = s" by (cases s) simp
  then show ?case by simp
next
  case (Cons f fs)
  let ?s = "s\<lparr>optn := optn s + 1\<rparr>"
  have "NUL \<notin> set (fs @ tail)" using Cons.prems(7,8) by (auto simp: letter_def)
  then have "getopt av opts s = Inr (Some f, ?s)"
    by (intro getopt_at(2) [where pre = pre and tail = "fs @ tail"]) (use Cons.prems in auto)
  then have "getopts (length (f # fs) + k) av opts s = prepend [(f, optarg s)] (getopts (length fs + k) av opts ?s)"
    using getopts_step [of av opts s f ?s "length fs + k"] Cons.prems(8) by (simp add: letter_def)
  moreover have "getopts (length fs + k) av opts ?s =
      prepend (map (\<lambda>f. (f, optarg s)) fs) (getopts k av opts (?s\<lparr>optn := Suc (length ((pre @ [f]) @ fs))\<rparr>))"
    using Cons.IH [of ?s "pre @ [f]"] Cons.prems by simp
  ultimately show ?case by simp
qed

text \<open>The last letter of a word that ends with an option.\<close>

lemma getopts_last:
  assumes "0 < optind s" "optind s < length av" "av ! optind s = CHR ''-'' # fs @ c # tail" "optn s = 1"
    and "\<forall>f\<in>set fs. letter opts f \<and> \<not> takes_value opts f" "letter opts c" "NUL \<notin> set tail"
    and "\<And>t. t = s\<lparr>optn := Suc (length fs)\<rparr> \<Longrightarrow> hd (fs @ c # tail) \<noteq> NUL \<Longrightarrow> getopt av opts t = Inr (Some c, s')"
  shows "getopts (length fs + Suc k) av opts s =
           prepend (map (\<lambda>f. (f, optarg s)) fs @ [(c, optarg s')]) (getopts k av opts s')"
proof -
  let ?t = "s\<lparr>optn := Suc (length fs)\<rparr>"
  have h: "hd (fs @ c # tail) \<noteq> NUL" using assms(5,6) by (cases fs) (auto simp: letter_def)
  have n: "NUL \<notin> set (c # tail)" using assms(6,7) by (auto simp: letter_def)
  have "getopts (length fs + Suc k) av opts s =
      prepend (map (\<lambda>f. (f, optarg s)) fs) (getopts (Suc k) av opts ?t)"
    using getopts_flags [of s av "[]" fs "c # tail" opts "Suc k"] assms(1-5) h n by simp
  moreover have "getopts (Suc k) av opts ?t = prepend [(c, optarg s')] (getopts k av opts s')"
    by (rule getopts_step) (use assms(6,8) h in \<open>auto simp: letter_def\<close>)
  ultimately show ?thesis by simp
qed

lemma drop_nth: "drop i av = x # xs \<Longrightarrow> i < length av \<and> av ! i = x"
  by (metis Cons_nth_drop_Suc drop_eq_Nil2 leI list.distinct(1) list.inject)

lemma drop_nth_Suc: "drop i av = x # y # xs \<Longrightarrow> Suc i < length av \<and> av ! Suc i = y"
  using drop_nth [of "Suc i" av y xs] by (metis drop_Suc list.sel(3) tl_drop)

lemma optword_run:
  assumes "optword_ok opts w" "0 < optind s" "optn s = 1" "drop (optind s) av = optword_args w @ rest"
  shows "\<exists>m s'. (\<forall>k. getopts (m + k) av opts s = prepend (optword_values (optarg s) w) (getopts k av opts s')) \<and>
           optind s' = optind s + length (optword_args w) \<and> optn s' = 1 \<and>
           optarg s' = snd (last (optword_values (optarg s) w))"
proof (cases w)
  case (Flags fs)
  then obtain gs c where fs: "fs = gs @ [c]" using assms(1) by (cases fs rule: rev_cases) auto
  have w: "optind s < length av" "av ! optind s = CHR ''-'' # gs @ c # []"
    using drop_nth [of "optind s" av] assms(4) Flags fs by auto
  let ?s = "s\<lparr>optind := optind s + 1, optn := 1\<rparr>"
  have g: "getopt av opts t = Inr (Some c, ?s)" if "t = s\<lparr>optn := Suc (length gs)\<rparr>" "hd (gs @ [c]) \<noteq> NUL" for t
    using getopt_at(1) [of t av gs c "[]" opts] w that assms(1,2) Flags fs by simp
  have "getopts (Suc (length gs) + k) av opts s = prepend (optword_values (optarg s) w) (getopts k av opts ?s)" for k
    using getopts_last [of s av gs c "[]" opts ?s k] w g assms(1-3) Flags fs by simp
  then show ?thesis using Flags fs by (intro exI [of _ "Suc (length gs)"] exI [of _ ?s]) simp
next
  case (Joined fs c v)
  have w: "optind s < length av" "av ! optind s = CHR ''-'' # fs @ c # v"
    using drop_nth [of "optind s" av] assms(4) Joined by auto
  let ?s = "s\<lparr>optarg := Some v, optind := optind s + 1, optn := 1\<rparr>"
  have g: "getopt av opts t = Inr (Some c, ?s)" if "t = s\<lparr>optn := Suc (length fs)\<rparr>" "hd (fs @ c # v) \<noteq> NUL" for t
    using getopt_at(3) [of t av fs c v opts] w that assms(1,2) Joined by simp
  have "getopts (Suc (length fs) + k) av opts s = prepend (optword_values (optarg s) w) (getopts k av opts ?s)" for k
    using getopts_last [of s av fs c v opts ?s k] w g assms(1-3) Joined by simp
  then show ?thesis using Joined by (intro exI [of _ "Suc (length fs)"] exI [of _ ?s]) simp
next
  case (Spaced fs c v)
  have w: "optind s < length av" "av ! optind s = CHR ''-'' # fs @ c # []" "Suc (optind s) < length av" "av ! Suc (optind s) = v"
    using drop_nth [of "optind s" av] drop_nth_Suc [of "optind s" av] assms(4) Spaced by auto
  let ?s = "s\<lparr>optarg := Some v, optind := optind s + 2, optn := 1\<rparr>"
  have g: "getopt av opts t = Inr (Some c, ?s)" if "t = s\<lparr>optn := Suc (length fs)\<rparr>" "hd (fs @ [c]) \<noteq> NUL" for t
    using getopt_at(5) [of t av fs c "[]" opts] w that assms(1,2) Spaced by simp
  have "getopts (Suc (length fs) + k) av opts s = prepend (optword_values (optarg s) w) (getopts k av opts ?s)" for k
    using getopts_last [of s av fs c "[]" opts ?s k] w g assms(1-3) Spaced by simp
  then show ?thesis using Spaced by (intro exI [of _ "Suc (length fs)"] exI [of _ ?s]) simp
next
  case (Bare fs c)
  have w: "optind s < length av" "av ! optind s = CHR ''-'' # fs @ c # []"
    using drop_nth [of "optind s" av] assms(4) Bare by auto
  let ?s = "s\<lparr>optarg := None, optind := optind s + 1, optn := 1\<rparr>"
  have g: "getopt av opts t = Inr (Some c, ?s)" if "t = s\<lparr>optn := Suc (length fs)\<rparr>" "hd (fs @ [c]) \<noteq> NUL" for t
    using getopt_at(4) [of t av fs c "[]" opts] w that assms(1,2) Bare by simp
  have "getopts (Suc (length fs) + k) av opts s = prepend (optword_values (optarg s) w) (getopts k av opts ?s)" for k
    using getopts_last [of s av fs c "[]" opts ?s k] w g assms(1-3) Bare by simp
  then show ?thesis using Bare by (intro exI [of _ "Suc (length fs)"] exI [of _ ?s]) simp
qed

definition operands :: "string list \<Rightarrow> bool" where
  "operands rest \<longleftrightarrow> rest = [] \<or> hd rest = [] \<or> hd (hd rest) \<noteq> CHR ''-'' \<or> hd rest = ''-''"

lemma getopt_operands:
  assumes "operands (drop (optind s) av)" "0 < optind s"
  shows "getopt av opts s = Inr (None, s)"
proof (cases "optind s < length av")
  case True
  then have "hd (drop (optind s) av) = av ! optind s" by (simp add: hd_drop_conv_nth)
  with True assms show ?thesis
    by (cases "av ! optind s") (auto simp: operands_def getopt_def Let_def NUL_dash char_at_def)
qed (use assms(2) in \<open>simp add: getopt_def Let_def\<close>)

lemma options_run:
  assumes "\<forall>w\<in>set ws. optword_ok opts w" "operands rest" "0 < optind s" "optn s = 1"
    and "drop (optind s) av = concat (map optword_args ws) @ rest"
  shows "\<exists>k s'. getopts k av opts s = Some (Inr (options_values (optarg s) ws, True, s')) \<and> drop (optind s') av = rest"
  using assms
proof (induction ws arbitrary: s)
  case Nil
  then have "getopt av opts s = Inr (None, s)" by (intro getopt_operands) simp_all
  then show ?case using Nil.prems(5) by (intro exI [of _ 1] exI [of _ s]) simp
next
  case (Cons w ws)
  from optword_run [of opts w s av "concat (map optword_args ws) @ rest"] Cons.prems obtain m s1 where
    m: "\<And>k. getopts (m + k) av opts s = prepend (optword_values (optarg s) w) (getopts k av opts s1)"
    and s1: "optind s1 = optind s + length (optword_args w)" "optn s1 = 1"
      "optarg s1 = snd (last (optword_values (optarg s) w))" by auto
  have "drop (optind s1) av = drop (length (optword_args w)) (drop (optind s) av)"
    by (simp add: s1(1) add.commute)
  then have "drop (optind s1) av = concat (map optword_args ws) @ rest" using Cons.prems(5) by simp
  with Cons.IH [of s1] Cons.prems s1 obtain k s' where
    "getopts k av opts s1 = Some (Inr (options_values (optarg s1) ws, True, s'))" "drop (optind s') av = rest" by auto
  then show ?case using m [of k] s1(3) by (intro exI [of _ "m + k"] exI [of _ s']) (simp add: Let_def)
qed

lemma plain_optword: "optword_ok opts w \<Longrightarrow> \<forall>x \<in> set (optword_args w). NUL \<notin> set x"
  by (cases w) (auto simp: letter_def NUL_dash)

text \<open>C18: parsing inverts printing: a command line that consists of a program name, any number of
  words of flags and options with their values (joined to the letter, in the next word, or left
  out where the option string allows it) and operands is read back as exactly these letters and
  values in their order, the parser stops before the first operand, and one call per character
  suffices.\<close>

theorem getopt_reads_options:
  assumes "\<forall>w\<in>set ws. optword_ok opts w" "operands rest" "plain rest" "NUL \<notin> set prog"
    and "av = prog # concat (map optword_args ws) @ rest"
  shows "\<exists>s'. getopts (Suc (sum_list (map (\<lambda>w. length w + 1) (drop 1 av)))) av opts optst_init =
           Some (Inr (options_values None ws, True, s')) \<and> drop (optind s') av = rest"
proof -
  let ?s = "optst_init\<lparr>optind := 1, optn := 1\<rparr>"
  let ?k = "Suc (sum_list (map (\<lambda>w. length w + 1) (drop 1 av)))"
  have p: "plain av" using assms plain_optword by (fastforce simp: plain_def)
  have "opt_inv av ?s" "left av ?s < ?k" by (simp_all add: opt_inv_def left_def optst_init_def)
  from getopts_total [OF p this] obtain r where r: "getopts ?k av opts ?s = Some r" by blast
  have a: "optarg optst_init = None" by (simp add: optst_init_def)
  from options_run [OF assms(1,2), of ?s av] assms(5) obtain k s' where
    k: "getopts k av opts ?s = Some (Inr (options_values None ws, True, s'))" "drop (optind s') av = rest"
    by (auto simp: a)
  have "r = Inr (options_values None ws, True, s')"
    using getopts_mono [OF r, of k] getopts_mono [OF k(1), of ?k] by (simp add: add.commute)
  with r k(2) show ?thesis by (metis getopts_first_call)
qed

text \<open>At an unknown letter the parser does not move: calling \<open>getopt\<close> again returns the same
  question mark for ever, so a caller has to give up.\<close>

lemma find_letter_none: "c \<notin> set opts \<Longrightarrow> find_letter c opts = []"
  by (induction opts) auto

lemma getopt_unknown_stuck:
  assumes "0 < optind s" "optind s < length av" "av ! optind s = CHR ''-'' # c # w" "optn s = 1"
    and "c \<noteq> NUL" "c \<notin> set opts"
  shows "((\<lambda>s. snd (projr (getopt av opts s))) ^^ k) s \<in> {s, s\<lparr>optopt := c\<rparr>} \<and>
         getopt av opts (((\<lambda>s. snd (projr (getopt av opts s))) ^^ k) s) = Inr (Some CHR ''?'', s\<lparr>optopt := c\<rparr>)"
proof (induction k)
  case 0
  then show ?case using assms by (simp add: getopt_def Let_def find_letter_none)
next
  case (Suc k)
  have "getopt av opts (s\<lparr>optopt := c\<rparr>) = Inr (Some CHR ''?'', s\<lparr>optopt := c\<rparr>)"
    using assms by (simp add: getopt_def Let_def find_letter_none)
  with Suc show ?case by auto
qed

theorem getopt_loop_ends_witness:
  "\<exists>cs ok s'. getopts 13 [''lat'', ''-W'', ''-z'', ''-qN'', ''1''] ''W:qN|'' optst_init = Some (Inr (cs, ok, s'))"
  using getopt_loop_ends [of "[''lat'', ''-W'', ''-z'', ''-qN'', ''1'']" "''W:qN|''"]
  by (simp add: plain_def NUL_def numeral_eq_Suc del: getopts.simps)

theorem getopt_reads_options_witness:
  "\<exists>s'. getopts 19 [''lat'', ''-qqP4'', ''-W'', ''100'', ''-N'', ''x''] ''P:W:qN|'' optst_init =
     Some (Inr ([(CHR ''q'', None), (CHR ''q'', None), (CHR ''P'', Some ''4''), (CHR ''W'', Some ''100''), (CHR ''N'', None)],
                True, s')) \<and> drop (optind s') [''lat'', ''-qqP4'', ''-W'', ''100'', ''-N'', ''x''] = [''x'']"
  using getopt_reads_options [of "[Joined ''qq'' (CHR ''P'') ''4'', Spaced [] (CHR ''W'') ''100'', Bare [] (CHR ''N'')]"
      "''P:W:qN|''" "[''x'']" "''lat''" "[''lat'', ''-qqP4'', ''-W'', ''100'', ''-N'', ''x'']"]
  by (simp add: plain_def NUL_def operands_def letter_def takes_value_def letter_kind_def numeral_eq_Suc
      del: getopts.simps)

end
