(* ===== verification/Lm_Timing.thy ===== *)
theory Lm_Timing
  imports Complex_Main Prelude "HOL-Library.Product_Lexorder"
begin

text \<open>
  The clock and the measurements of the benchmark suite's timing library
  (\<open>src/lmbench-3.0-a9/src/lib_timing.c\<close> and the types of \<open>bench.h\<close>): time values and their
  difference, the array of measurements that \<open>insertsort\<close> keeps in order, the selection of the
  best and of the median measurement, and the functions that print a result.

  A \<open>double\<close> is a rational number; every operation on doubles is the exact operation followed
  by a rounding function \<open>rnd\<close>, a parameter of the definitions.  What is printed is a list of
  items, a number together with the number of decimals asked for.
\<close>

type_synonym rounding = "rat \<Rightarrow> rat"

text \<open>The conversion of an unsigned integer to \<open>double\<close>.\<close>

definition dbl :: "rounding \<Rightarrow> u64 \<Rightarrow> rat" where
  "dbl rnd w = rnd (of_nat (unat w))"

section \<open>Time values\<close>

record timeval =
  sec :: int
  usec :: int

definition tvsub :: "timeval \<Rightarrow> timeval \<Rightarrow> timeval res" where
  "tvsub t1 t0 =
     (let s = s64 (sec t1 - sec t0); u = s64 (usec t1 - usec t0) in
      and_then
        (if u < 0 \<and> s > 0 then
           (if s64 (u + 1000000) \<ge> 0 then Inr (s - 1, s64 (u + 1000000)) else Inl (Assert_Failed ''tv_usec''))
         else Inr (s, u))
        (\<lambda>(s, u). if u < 0 \<or> sec t1 < sec t0 then Inr \<lparr>sec = 0, usec = 0\<rparr> else Inr \<lparr>sec = s, usec = u\<rparr>))"

definition usecs_of :: "timeval \<Rightarrow> u64" where
  "usecs_of td = to_u64 (sec td) * 1000000 + to_u64 (usec td)"

definition tvdelta :: "timeval \<Rightarrow> timeval \<Rightarrow> u64 res" where
  "tvdelta start stop = and_then (tvsub stop start) (\<lambda>td. Inr (usecs_of td))"

text \<open>\<open>now\<close>, given what \<open>gettimeofday\<close> stores.\<close>

definition now :: "timeval \<Rightarrow> u64" where
  "now t = usecs_of t"

text \<open>\<open>delta\<close> with its static variable \<open>last\<close>.\<close>

definition delta :: "timeval \<Rightarrow> timeval \<Rightarrow> (u64 \<times> timeval) res" where
  "delta t lst =
     (if usec lst \<noteq> 0 then and_then (tvsub t lst) (\<lambda>diff. Inr (usecs_of diff, t)) else Inr (0, t))"

section \<open>Measurements\<close>

definition TRIES :: nat where "TRIES = 11"

record value_t =
  v_u :: u64
  v_n :: u64

text \<open>\<open>result_t\<close>: the number of measurements and the array, with the room that was allocated
  for it (\<open>TRIES\<close>, or more where \<open>sizeof_result\<close> was used).\<close>

record result_t =
  r_N :: nat
  r_v :: "value_t list"

definition sizeof_result :: "int \<Rightarrow> int" where
  "sizeof_result repetitions =
     (if repetitions \<le> int TRIES then 184 else 184 + (repetitions - int TRIES) * 16)"

text \<open>The number of elements that fit into that size.\<close>

definition room_for :: "int \<Rightarrow> nat" where
  "room_for repetitions = (if repetitions \<le> int TRIES then TRIES else nat repetitions)"

definition insertinit :: "result_t \<Rightarrow> result_t" where
  "insertinit r = r\<lparr>r_N := 0\<rparr>"

text \<open>The value of \<open>u/(double)n\<close> for \<open>u\<close> not 0, as a key for comparisons: division by zero gives
  infinity, which is above every number.\<close>

definition per_iter :: "rounding \<Rightarrow> value_t \<Rightarrow> bool \<times> rat" where
  "per_iter rnd v = (if v_n v = 0 then (True, 0) else (False, rnd (dbl rnd (v_u v) / dbl rnd (v_n v))))"

definition store_value :: "nat \<Rightarrow> value_t \<Rightarrow> value_t list \<Rightarrow> value_t list res" where
  "store_value i x vs = (if i < length vs then Inr (vs[i := x]) else Inl Out_Of_Bounds)"

text \<open>The inner loop of \<open>insertsort\<close>: \<open>v[j] = v[j - 1]\<close> for \<open>j\<close> from \<open>i + d\<close> down to \<open>i + 1\<close>.\<close>

fun shift_up :: "nat \<Rightarrow> nat \<Rightarrow> value_t list \<Rightarrow> value_t list res" where
  "shift_up i 0 vs = Inr vs"
| "shift_up i (Suc d) vs = and_then (store_value (Suc (i + d)) (vs ! (i + d)) vs) (shift_up i d)"

text \<open>The outer loop, from index \<open>i\<close> on: the index at which it ends and the array then.\<close>

function insert_at :: "rounding \<Rightarrow> value_t \<Rightarrow> nat \<Rightarrow> nat \<Rightarrow> value_t list \<Rightarrow> (nat \<times> value_t list) res" where
  "insert_at rnd x i N vs =
     (if i < N then
        if per_iter rnd x > per_iter rnd (vs ! i)
        then and_then (shift_up i (N - i) vs) (\<lambda>vs'. Inr (i, vs'))
        else insert_at rnd x (Suc i) N vs
      else Inr (i, vs))"
  by pat_completeness auto
termination by (relation "measure (\<lambda>(rnd, x, i, N, vs). N - i)") auto

declare insert_at.simps [simp del]

definition insertsort :: "rounding \<Rightarrow> u64 \<Rightarrow> u64 \<Rightarrow> result_t \<Rightarrow> result_t res" where
  "insertsort rnd u n r =
     (if u = 0 then Inr r else
      let x = \<lparr>v_u = u, v_n = n\<rparr> in
      and_then (insert_at rnd x 0 (r_N r) (r_v r)) (\<lambda>(i, vs).
      and_then (store_value i x vs) (\<lambda>vs'. Inr \<lparr>r_N = Suc (r_N r), r_v = vs'\<rparr>)))"

text \<open>The variables of the library: the two time stamps, the iteration count of the current
  result, and the measurements the pointer \<open>results\<close> points to.\<close>

record timing =
  start_tv :: timeval
  stop_tv :: timeval
  iterations :: u64
  results :: result_t

definition save_n :: "u64 \<Rightarrow> timing \<Rightarrow> timing" where
  "save_n n s = s\<lparr>iterations := n\<rparr>"

definition get_n :: "timing \<Rightarrow> u64" where
  "get_n s = iterations s"

definition settime :: "u64 \<Rightarrow> timing \<Rightarrow> timing" where
  "settime usecs s =
     s\<lparr>start_tv := \<lparr>sec = 0, usec = 0\<rparr>,
       stop_tv := \<lparr>sec = uint (usecs div 1000000), usec = uint (usecs mod 1000000)\<rparr>\<rparr>"

definition gettime :: "timing \<Rightarrow> u64 res" where
  "gettime s = tvdelta (start_tv s) (stop_tv s)"

definition timespent :: "rounding \<Rightarrow> timing \<Rightarrow> rat res" where
  "timespent rnd s = and_then (tvsub (stop_tv s) (start_tv s))
     (\<lambda>td. Inr (rnd (rnd (of_int (sec td)) + rnd (rnd (of_int (usec td)) / 1000000))))"

definition get_results :: "timing \<Rightarrow> result_t" where
  "get_results s = results s"

definition save_minimum :: "timing \<Rightarrow> timing" where
  "save_minimum s =
     (let r = results s in
      if r_N r = 0 then settime 0 (save_n 1 s)
      else settime (v_u (r_v r ! (r_N r - 1))) (save_n (v_n (r_v r ! (r_N r - 1))) s))"

definition save_median :: "timing \<Rightarrow> timing" where
  "save_median s =
     (let r = results s; i = r_N r div 2;
          (n, u) =
            (if r_N r = 0 then (1, 0)
             else if r_N r mod 2 = 1 then (v_n (r_v r ! i), v_u (r_v r ! i))
             else ((v_n (r_v r ! i) + v_n (r_v r ! (i - 1))) div 2,
                   (v_u (r_v r ! i) + v_u (r_v r ! (i - 1))) div 2))
      in settime u (save_n n s))"

definition set_results :: "result_t \<Rightarrow> timing \<Rightarrow> timing" where
  "set_results r s = save_median (s\<lparr>results := r\<rparr>)"

section \<open>Properties of the clock\<close>

definition normal_tv :: "timeval \<Rightarrow> bool" where
  "normal_tv t \<longleftrightarrow> 0 \<le> sec t \<and> sec t < 2 ^ 62 \<and> 0 \<le> usec t \<and> usec t < 1000000"

definition micros :: "timeval \<Rightarrow> int" where
  "micros t = sec t * 1000000 + usec t"

lemma tvsub_normal:
  assumes "normal_tv a" "normal_tv b"
  shows "\<exists>d. tvsub b a = Inr d \<and> normal_tv d \<and> micros d = max 0 (micros b - micros a)"
proof -
  have s: "s64 (sec b - sec a) = sec b - sec a" "s64 (usec b - usec a) = usec b - usec a"
    "s64 (usec b - usec a + 1000000) = usec b - usec a + 1000000"
    using assms by (auto intro!: s64_id simp: normal_tv_def)
  show ?thesis
    using assms unfolding tvsub_def Let_def s
    by (auto simp: normal_tv_def micros_def max_def)
qed

lemma usecs_of_normal:
  assumes "normal_tv d" "micros d < 2 ^ 64"
  shows "uint (usecs_of d) = micros d"
proof -
  have "usecs_of d = word_of_int (micros d)"
    by (simp add: usecs_of_def to_u64_def micros_def)
  moreover have "0 \<le> micros d" using assms(1) by (simp add: normal_tv_def micros_def)
  ultimately show ?thesis using assms(2) by (simp add: uint_word_of_int_eq take_bit_int_eq_self)
qed

text \<open>Elapsed time: for two readings of the clock the difference is the exact number of
  microseconds, and 0 when the clock was set back; the assertion in \<open>tvsub\<close> holds.\<close>

lemma tvdelta_normal:
  assumes "normal_tv a" "normal_tv b" "micros b - micros a < 2 ^ 64"
  shows "\<exists>d. tvdelta a b = Inr d \<and> uint d = max 0 (micros b - micros a)"
proof -
  from tvsub_normal [OF assms(1,2)] obtain d where
    d: "tvsub b a = Inr d" "normal_tv d" "micros d = max 0 (micros b - micros a)" by blast
  with assms(3) usecs_of_normal [of d] show ?thesis by (simp add: tvdelta_def)
qed

lemma gettime_settime: "gettime (settime u s) = Inr u"
proof -
  let ?a = "\<lparr>sec = 0, usec = 0\<rparr>" and ?b = "\<lparr>sec = uint (u div 1000000), usec = uint (u mod 1000000)\<rparr>"
  have b: "0 \<le> uint u" "uint u < 2 ^ 64" using unsigned_less [of u] by simp_all
  have e: "uint (u div 1000000) = uint u div 1000000" "uint (u mod 1000000) = uint u mod 1000000"
    by (simp_all add: uint_div uint_mod)
  have m: "micros ?b = uint u" by (simp add: micros_def e)
  have "normal_tv ?a" "normal_tv ?b" using b by (auto simp: normal_tv_def e div_int_pos_iff)
  then obtain d where "tvdelta ?a ?b = Inr d" "uint d = max 0 (uint u)"
    using tvdelta_normal [of ?a ?b] b m by (auto simp: micros_def)
  then have "tvdelta ?a ?b = Inr u" using b by (simp add: word_uint_eq_iff)
  then show ?thesis by (simp add: gettime_def settime_def)
qed


section \<open>The array of measurements\<close>

text \<open>Insertion into a list ordered from biggest to smallest.\<close>

definition insert_desc :: "rounding \<Rightarrow> value_t \<Rightarrow> value_t list \<Rightarrow> value_t list" where
  "insert_desc rnd x xs =
     takeWhile (\<lambda>v. per_iter rnd x \<le> per_iter rnd v) xs @ x # dropWhile (\<lambda>v. per_iter rnd x \<le> per_iter rnd v) xs"

definition measured :: "result_t \<Rightarrow> value_t list" where
  "measured r = take (r_N r) (r_v r)"

definition result_ok :: "nat \<Rightarrow> result_t \<Rightarrow> bool" where
  "result_ok room r \<longleftrightarrow> length (r_v r) = room \<and> r_N r \<le> room"

lemma shift_up_ok:
  assumes "i + d < length vs"
  shows "shift_up i d vs = Inr (take (Suc i) vs @ take d (drop i vs) @ drop (Suc (i + d)) vs)"
  using assms
proof (induction d arbitrary: vs)
  case 0
  then show ?case by simp
next
  case (Suc d)
  let ?vs = "vs[Suc (i + d) := vs ! (i + d)]"
  have "shift_up i (Suc d) vs = Inr (take (Suc i) ?vs @ take d (drop i ?vs) @ drop (Suc (i + d)) ?vs)"
    using Suc by (simp add: store_value_def)
  moreover have "take (Suc i) ?vs = take (Suc i) vs" by simp
  moreover have "take d (drop i ?vs) = take d (drop i vs)"
    by (simp add: drop_update_swap)
  moreover have "drop (Suc (i + d)) ?vs = vs ! (i + d) # drop (Suc (i + Suc d)) vs"
    using Suc.prems by (simp add: Cons_nth_drop_Suc [symmetric])
  moreover have "take d (drop i vs) @ [vs ! (i + d)] = take (Suc d) (drop i vs)"
    using Suc.prems by (simp add: take_Suc_conv_app_nth)
  ultimately show ?case by (metis (no_types) append.assoc append_Cons append_Nil)
qed

lemma insert_at_end: "N \<le> i \<Longrightarrow> insert_at rnd x i N vs = Inr (i, vs)"
  by (subst insert_at.simps) simp

lemma insert_at_here:
  assumes "i < N" "\<not> per_iter rnd x \<le> per_iter rnd (vs ! i)"
  shows "insert_at rnd x i N vs = and_then (shift_up i (N - i) vs) (\<lambda>vs'. Inr (i, vs'))"
  using assms by (subst insert_at.simps) (simp add: not_le)

lemma insert_at_next:
  assumes "i < N" "per_iter rnd x \<le> per_iter rnd (vs ! i)"
  shows "insert_at rnd x i N vs = insert_at rnd x (Suc i) N vs"
  using assms by (subst insert_at.simps) (simp add: not_less [symmetric])

lemma insert_at_ok:
  assumes "i \<le> N" "N < length vs" "\<forall>v \<in> set (take i vs). per_iter rnd x \<le> per_iter rnd v"
  shows "\<exists>j vs'. insert_at rnd x i N vs = Inr (j, vs') \<and> j < length vs' \<and> length vs' = length vs \<and>
           take (Suc N) (vs'[j := x]) = insert_desc rnd x (take N vs)"
  using assms
proof (induction "N - i" arbitrary: i)
  case 0
  then have "i = N" by simp
  with 0 have t: "takeWhile (\<lambda>v. per_iter rnd x \<le> per_iter rnd v) (take N vs) = take N vs"
    "dropWhile (\<lambda>v. per_iter rnd x \<le> per_iter rnd v) (take N vs) = []" by (simp_all add: takeWhile_eq_all_conv)
  have "take (Suc N) (vs[N := x]) = take N vs @ [x]" using 0 \<open>i = N\<close> by (simp add: take_Suc_conv_app_nth)
  then show ?case unfolding insert_desc_def t using 0(3) \<open>i = N\<close> by (simp add: insert_at_end)
next
  case (Suc d)
  then have i: "i < N" by simp
  show ?case
  proof (cases "per_iter rnd x \<le> per_iter rnd (vs ! i)")
    case True
    have "\<forall>v \<in> set (take (Suc i) vs). per_iter rnd x \<le> per_iter rnd v"
      using Suc.prems True i by (auto simp: take_Suc_conv_app_nth)
    with Suc.hyps(1) [of "Suc i"] Suc.hyps(2) Suc.prems i True show ?thesis
      by (simp add: insert_at_next)
  next
    case False
    let ?P = "\<lambda>v. per_iter rnd x \<le> per_iter rnd v"
    let ?vs = "take (Suc i) vs @ take (N - i) (drop i vs) @ drop (Suc N) vs"
    have sh: "insert_at rnd x i N vs = Inr (i, ?vs)"
      using False i Suc.prems shift_up_ok [of i "N - i" vs] by (simp add: insert_at_here)
    have d: "drop i (take N vs) = vs ! i # drop (Suc i) (take N vs)"
      using i Suc.prems by (subst Cons_nth_drop_Suc [symmetric]) auto
    have dec: "take N vs = take i vs @ drop i (take N vs)"
      using i by (metis append_take_drop_id min.absorb1 less_imp_le take_take)
    have "takeWhile ?P (take i vs @ drop i (take N vs)) = take i vs"
      "dropWhile ?P (take i vs @ drop i (take N vs)) = drop i (take N vs)"
      unfolding d using Suc.prems(3) False by (simp_all add: takeWhile_append2 dropWhile_append2)
    then have tw: "takeWhile ?P (take N vs) = take i vs" "dropWhile ?P (take N vs) = drop i (take N vs)"
      using dec by argo+
    have "?vs[i := x] = take i vs @ x # take (N - i) (drop i vs) @ drop (Suc N) vs"
      using i Suc.prems by (simp add: list_update_append take_Suc_conv_app_nth)
    then have "take (Suc N) (?vs[i := x]) = take i vs @ x # take (N - i) (drop i vs)"
      using i Suc.prems by (simp add: Suc_diff_le)
    then have "take (Suc N) (?vs[i := x]) = insert_desc rnd x (take N vs)"
      by (simp add: insert_desc_def tw drop_take)
    moreover have "i < length ?vs" "length ?vs = length vs" using i Suc.prems by auto
    ultimately show ?thesis using sh by blast
  qed
qed

text \<open>\<open>insertsort\<close> refines insertion into an ordered list, as long as there is room.\<close>

lemma insertsort_refines:
  assumes "result_ok room r" "u = 0 \<or> r_N r < room"
  shows "\<exists>r'. insertsort rnd u n r = Inr r' \<and> result_ok room r' \<and>
           measured r' = (if u = 0 then measured r else insert_desc rnd \<lparr>v_u = u, v_n = n\<rparr> (measured r)) \<and>
           r_N r' = (if u = 0 then r_N r else Suc (r_N r))"
proof (cases "u = 0")
  case True
  then show ?thesis using assms(1) by (simp add: insertsort_def)
next
  case False
  from insert_at_ok [of 0 "r_N r" "r_v r" rnd "\<lparr>v_u = u, v_n = n\<rparr>"] obtain j vs' where
    "insert_at rnd \<lparr>v_u = u, v_n = n\<rparr> 0 (r_N r) (r_v r) = Inr (j, vs')" "j < length vs'"
    "length vs' = length (r_v r)"
    "take (Suc (r_N r)) (vs'[j := \<lparr>v_u = u, v_n = n\<rparr>]) = insert_desc rnd \<lparr>v_u = u, v_n = n\<rparr> (measured r)"
    using assms False by (auto simp: result_ok_def measured_def)
  then show ?thesis
    using assms False by (auto simp: insertsort_def store_value_def result_ok_def measured_def)
qed

lemma insertsort_full:
  assumes "result_ok room r" "r_N r = room" "u \<noteq> 0"
  shows "insertsort rnd u n r = Inl Out_Of_Bounds"
proof -
  let ?x = "\<lparr>v_u = u, v_n = n\<rparr>"
  have sh: "shift_up i (Suc d) vs = Inl Out_Of_Bounds" if "i + Suc d = length vs" for i d vs
    using that by (simp add: store_value_def)
  have "insert_at rnd ?x i N vs = Inl Out_Of_Bounds \<or> insert_at rnd ?x i N vs = Inr (N, vs)"
    if "i \<le> N" "N = length vs" for i N vs
    using that
  proof (induction "N - i" arbitrary: i)
    case 0
    then show ?case by (simp add: insert_at_end)
  next
    case (Suc d)
    then show ?case
      using sh [of i d vs] by (cases "per_iter rnd ?x \<le> per_iter rnd (vs ! i)") (auto simp: insert_at_next insert_at_here)
  qed
  from this [of 0 room "r_v r"] show ?thesis
    using assms by (auto simp: insertsort_def result_ok_def store_value_def)
qed

lemma mset_insert_desc [simp]: "mset (insert_desc rnd x xs) = add_mset x (mset xs)"
proof -
  have "mset xs = mset (takeWhile P xs) + mset (dropWhile P xs)" for P
    by (metis mset_append takeWhile_dropWhile_id)
  then show ?thesis by (simp add: insert_desc_def)
qed

definition descending :: "rounding \<Rightarrow> value_t list \<Rightarrow> bool" where
  "descending rnd xs = sorted_wrt (\<lambda>a b. per_iter rnd b \<le> per_iter rnd a) xs"

lemma descending_insert: "descending rnd xs \<Longrightarrow> descending rnd (insert_desc rnd x xs)"
proof (induction xs)
  case (Cons y ys)
  show ?case
  proof (cases "per_iter rnd x \<le> per_iter rnd y")
    case True
    have "set (insert_desc rnd x ys) = insert x (set ys)"
      using mset_insert_desc [of rnd x ys] by (metis set_mset_add_mset_insert set_mset_mset)
    with Cons True show ?thesis by (auto simp: descending_def insert_desc_def)
  next
    case False
    with Cons.prems show ?thesis by (fastforce simp: descending_def insert_desc_def)
  qed
qed (simp add: descending_def insert_desc_def)

text \<open>The contract of a store of samples: adding a sample that counts inserts it into an ordered
  view, as long as there is room.\<close>

fun run_all :: "('a \<Rightarrow> 's \<Rightarrow> 's res) \<Rightarrow> 'a list \<Rightarrow> 's \<Rightarrow> 's res" where
  "run_all f [] s = Inr s"
| "run_all f (x # xs) s = and_then (f x s) (run_all f xs)"

locale sample_store =
  fixes add :: "'v \<Rightarrow> 's \<Rightarrow> 's res"
    and ok :: "'s \<Rightarrow> bool"
    and view :: "'s \<Rightarrow> 'v list"
    and counts :: "'v \<Rightarrow> bool"
    and ordered :: "'v list \<Rightarrow> bool"
    and room :: nat
  assumes add_room: "ok s \<Longrightarrow> counts v \<longrightarrow> length (view s) < room \<Longrightarrow>
      \<exists>s'. add v s = Inr s' \<and> ok s' \<and> mset (view s') = (if counts v then add_mset v (mset (view s)) else mset (view s)) \<and>
           (ordered (view s) \<longrightarrow> ordered (view s'))"
    and add_full: "ok s \<Longrightarrow> counts v \<Longrightarrow> length (view s) = room \<Longrightarrow> add v s = Inl Out_Of_Bounds"
begin

lemma add_all:
  assumes "ok s" "ordered (view s)" "length (view s) + length (filter counts vs) \<le> room"
  shows "\<exists>s'. run_all add vs s = Inr s' \<and> ok s' \<and> ordered (view s') \<and>
           mset (view s') = mset (view s) + mset (filter counts vs)"
  using assms
proof (induction vs arbitrary: s)
  case (Cons v vs)
  then obtain s1 where s1: "add v s = Inr s1" "ok s1" "ordered (view s1)"
    "mset (view s1) = (if counts v then add_mset v (mset (view s)) else mset (view s))"
    using add_room [of s v] by (auto split: if_splits)
  then have "length (view s1) = (if counts v then Suc (length (view s)) else length (view s))"
    by (metis size_add_mset size_mset)
  with Cons.IH [of s1] Cons.prems s1 show ?case by (auto split: if_splits)
qed simp

lemma add_too_many:
  assumes "ok s" "ordered (view s)" "length (view s) \<le> room" "length (view s) + length (filter counts vs) > room"
  shows "run_all add vs s = Inl Out_Of_Bounds"
  using assms
proof (induction vs arbitrary: s)
  case (Cons v vs)
  show ?case
  proof (cases "counts v \<and> length (view s) = room")
    case True
    with Cons.prems add_full show ?thesis by simp
  next
    case False
    then obtain s1 where s1: "add v s = Inr s1" "ok s1" "ordered (view s1)"
      "mset (view s1) = (if counts v then add_mset v (mset (view s)) else mset (view s))"
      using add_room [of s v] Cons.prems by (auto split: if_splits)
    then have "length (view s1) = (if counts v then Suc (length (view s)) else length (view s))"
      by (metis size_add_mset size_mset)
    with Cons.IH [of s1] Cons.prems s1 False show ?thesis by (auto split: if_splits)
  qed
qed simp

end

definition insert_value :: "rounding \<Rightarrow> value_t \<Rightarrow> result_t \<Rightarrow> result_t res" where
  "insert_value rnd v r = insertsort rnd (v_u v) (v_n v) r"

lemma length_measured: "result_ok room r \<Longrightarrow> length (measured r) = r_N r"
  by (simp add: measured_def result_ok_def)

interpretation smp: sample_store "insert_value rnd" "result_ok room" measured "\<lambda>v. v_u v \<noteq> 0" "descending rnd" room
  for rnd room
proof
  fix r :: result_t and v :: value_t
  assume r: "result_ok room r" and "v_u v \<noteq> 0 \<longrightarrow> length (measured r) < room"
  then obtain r' where "insertsort rnd (v_u v) (v_n v) r = Inr r'" "result_ok room r'"
    "measured r' = (if v_u v = 0 then measured r else insert_desc rnd \<lparr>v_u = v_u v, v_n = v_n v\<rparr> (measured r))"
    using insertsort_refines [of room r "v_u v" rnd "v_n v"] length_measured by auto
  then show "\<exists>r'. insert_value rnd v r = Inr r' \<and> result_ok room r' \<and>
      mset (measured r') = (if v_u v \<noteq> 0 then add_mset v (mset (measured r)) else mset (measured r)) \<and>
      (descending rnd (measured r) \<longrightarrow> descending rnd (measured r'))"
    by (auto simp: insert_value_def descending_insert)
next
  fix r :: result_t and v :: value_t
  assume "result_ok room r" "v_u v \<noteq> 0" "length (measured r) = room"
  then show "insert_value rnd v r = Inl Out_Of_Bounds"
    using insertsort_full [of room r "v_u v" rnd "v_n v"] length_measured by (auto simp: insert_value_def)
qed

lemma insertinit_ok:
  assumes "length (r_v r) = room"
  shows "result_ok room (insertinit r)" "measured (insertinit r) = []"
  using assms by (simp_all add: insertinit_def result_ok_def measured_def)

lemma descending_last:
  assumes "descending rnd xs" "x \<in> set xs"
  shows "per_iter rnd (last xs) \<le> per_iter rnd x"
  using assms
  by (induction xs) (auto simp: descending_def)

lemma last_measured:
  assumes "result_ok room r" "r_N r \<noteq> 0"
  shows "r_v r ! (r_N r - 1) = last (measured r)"
  using assms unfolding measured_def by (subst last_conv_nth) (auto simp: result_ok_def min_def)

text \<open>C15: the measurements of a benchmark: for any sequence of at most eleven measurements that
  took time (those of 0 microseconds are dropped), \<open>insertsort\<close> keeps exactly these, ordered
  from the most expensive to the cheapest iteration, and one more writes behind the array.
  \<open>save_minimum\<close> then selects, as time and iteration count, a measurement with the least time
  per iteration; the selected time is what \<open>gettime\<close> returns.\<close>

theorem measurements_kept:
  assumes "length (r_v r0) = TRIES"
  shows "(length (filter (\<lambda>v. v_u v \<noteq> 0) vs) \<le> TRIES \<longrightarrow>
           (\<exists>r. run_all (insert_value rnd) vs (insertinit r0) = Inr r \<and> descending rnd (measured r) \<and>
                mset (measured r) = mset (filter (\<lambda>v. v_u v \<noteq> 0) vs) \<and>
                (\<forall>s. measured r \<noteq> [] \<and> results s = r \<longrightarrow>
                   (\<exists>b \<in> set (measured r). get_n (save_minimum s) = v_n b \<and> gettime (save_minimum s) = Inr (v_u b) \<and>
                      (\<forall>v \<in> set (measured r). per_iter rnd b \<le> per_iter rnd v))))) \<and>
         (TRIES < length (filter (\<lambda>v. v_u v \<noteq> 0) vs) \<longrightarrow>
           run_all (insert_value rnd) vs (insertinit r0) = Inl Out_Of_Bounds)"
proof (intro conjI impI)
  have i: "result_ok TRIES (insertinit r0)" "measured (insertinit r0) = []" using insertinit_ok [OF assms] by auto
  have d: "descending rnd []" by (simp add: descending_def)
  {
    assume "length (filter (\<lambda>v. v_u v \<noteq> 0) vs) \<le> TRIES"
    then obtain r where r: "run_all (insert_value rnd) vs (insertinit r0) = Inr r" "result_ok TRIES r"
      "descending rnd (measured r)" "mset (measured r) = mset (filter (\<lambda>v. v_u v \<noteq> 0) vs)"
      using smp.add_all [of TRIES "insertinit r0" rnd vs] i d by auto
    have "\<exists>b \<in> set (measured r). get_n (save_minimum s) = v_n b \<and> gettime (save_minimum s) = Inr (v_u b) \<and>
              (\<forall>v \<in> set (measured r). per_iter rnd b \<le> per_iter rnd v)"
      if "measured r \<noteq> [] \<and> results s = r" for s
    proof (intro bexI [of _ "last (measured r)"] conjI ballI)
      have "r_N r \<noteq> 0" using that length_measured [OF r(2)] by (metis length_0_conv)
      with last_measured [OF r(2)] that show "get_n (save_minimum s) = v_n (last (measured r))"
        "gettime (save_minimum s) = Inr (v_u (last (measured r)))"
        by (simp_all add: save_minimum_def Let_def gettime_settime get_n_def) (simp add: settime_def save_n_def)
    qed (use that r(3) descending_last in auto)
    with r show "\<exists>r. run_all (insert_value rnd) vs (insertinit r0) = Inr r \<and> descending rnd (measured r) \<and>
                mset (measured r) = mset (filter (\<lambda>v. v_u v \<noteq> 0) vs) \<and>
                (\<forall>s. measured r \<noteq> [] \<and> results s = r \<longrightarrow>
                   (\<exists>b \<in> set (measured r). get_n (save_minimum s) = v_n b \<and> gettime (save_minimum s) = Inr (v_u b) \<and>
                      (\<forall>v \<in> set (measured r). per_iter rnd b \<le> per_iter rnd v)))" by blast
  }
  assume "TRIES < length (filter (\<lambda>v. v_u v \<noteq> 0) vs)"
  then show "run_all (insert_value rnd) vs (insertinit r0) = Inl Out_Of_Bounds"
    using smp.add_too_many [of TRIES "insertinit r0" rnd vs] i d by simp
qed

text \<open>the reported median: when \<open>set_results\<close> is called with an odd number of ordered
  measurements, the time and iteration count of the current result become those of the
  measurement in the middle, with as many measurements before it, at least as expensive per
  iteration, as after it, at most as expensive.\<close>

theorem median_selected:
  assumes "result_ok room r" "descending rnd (measured r)" "r_N r = 2 * k + 1"
  shows "\<exists>xs m ys. measured r = xs @ m # ys \<and> length xs = k \<and> length ys = k \<and>
           (\<forall>x \<in> set xs. per_iter rnd m \<le> per_iter rnd x) \<and> (\<forall>y \<in> set ys. per_iter rnd y \<le> per_iter rnd m) \<and>
           get_n (set_results r s) = v_n m \<and> gettime (set_results r s) = Inr (v_u m)"
proof -
  let ?l = "measured r"
  have k: "k < length ?l" "length ?l = 2 * k + 1" using assms(3) length_measured [OF assms(1)] by simp_all
  then have l: "?l = take k ?l @ ?l ! k # drop (Suc k) ?l" by (simp add: id_take_nth_drop)
  have d: "descending rnd (take k ?l @ ?l ! k # drop (Suc k) ?l)" using assms(2) l by simp
  have m: "r_v r ! k = ?l ! k" using assms(3) by (simp add: measured_def)
  have i: "(2 * k + 1) div 2 = k" "(2 * k + 1) mod 2 = 1" by simp_all
  show ?thesis
  proof (intro exI conjI)
    show "?l = take k ?l @ ?l ! k # drop (Suc k) ?l" by (rule l)
    show "get_n (set_results r s) = v_n (?l ! k)"
      using i by (simp add: set_results_def save_median_def Let_def assms(3) m get_n_def settime_def save_n_def)
    show "gettime (set_results r s) = Inr (v_u (?l ! k))"
      using i by (simp add: set_results_def save_median_def Let_def assms(3) m gettime_settime)
  qed (use k d in \<open>auto simp: descending_def sorted_wrt_append\<close>)
qed

text \<open>With an even number the two in the middle are averaged in 64 bits, numerator and
  denominator apart, so the reported time per iteration is not their average.\<close>

lemma median_even:
  assumes "r_N r = 2 * k" "0 < k"
  shows "get_n (set_results r s) = (v_n (r_v r ! k) + v_n (r_v r ! (k - 1))) div 2"
    and "gettime (set_results r s) = Inr ((v_u (r_v r ! k) + v_u (r_v r ! (k - 1))) div 2)"
  using assms by (simp_all add: set_results_def save_median_def Let_def get_n_def gettime_settime)
    (simp add: settime_def save_n_def)

definition blank_result :: result_t where
  "blank_result = \<lparr>r_N = 0, r_v = replicate 11 \<lparr>v_u = 0, v_n = 0\<rparr>\<rparr>"

theorem measurements_kept_witness:
  "\<exists>r. run_all (insert_value id) [\<lparr>v_u = 30, v_n = 10\<rparr>, \<lparr>v_u = 0, v_n = 5\<rparr>, \<lparr>v_u = 50, v_n = 10\<rparr>] (insertinit blank_result) = Inr r \<and>
       descending id (measured r) \<and> mset (measured r) = {#\<lparr>v_u = 30, v_n = 10\<rparr>, \<lparr>v_u = 50, v_n = 10\<rparr>#}"
  using measurements_kept [of blank_result "[\<lparr>v_u = 30, v_n = 10\<rparr>, \<lparr>v_u = 0, v_n = 5\<rparr>, \<lparr>v_u = 50, v_n = 10\<rparr>]" id]
  by (simp add: blank_result_def TRIES_def) blast

definition blank_timing :: timing where
  "blank_timing = \<lparr>start_tv = \<lparr>sec = 0, usec = 0\<rparr>, stop_tv = \<lparr>sec = 0, usec = 0\<rparr>, iterations = 0, results = blank_result\<rparr>"

definition three_results :: result_t where
  "three_results = \<lparr>r_N = 3, r_v = [\<lparr>v_u = 50, v_n = 10\<rparr>, \<lparr>v_u = 30, v_n = 10\<rparr>, \<lparr>v_u = 10, v_n = 10\<rparr>]\<rparr>"

theorem median_selected_witness:
  "\<exists>m. gettime (set_results three_results blank_timing) = Inr (v_u m) \<and> m = measured three_results ! 1"
proof -
  have "descending id (measured three_results)"
    by (simp add: three_results_def measured_def descending_def per_iter_def dbl_def)
  then obtain xs m ys where "measured three_results = xs @ m # ys" "length xs = 1"
    "gettime (set_results three_results blank_timing) = Inr (v_u m)"
    using median_selected [of 3 three_results id 1 blank_timing] by (auto simp: result_ok_def three_results_def)
  then show ?thesis by (auto simp: nth_append)
qed

end
