(* ===== verification/Lm_Report.thy ===== *)
theory Lm_Report
  imports Lm_Timing
begin

text \<open>
  The functions of \<open>src/lmbench-3.0-a9/src/lib_timing.c\<close> that print the current result.  The
  conversion of a number to digits is \<open>fprintf\<close>'s; an item of the output carries the number and
  the decimals asked for.  Division by zero does not trap for doubles, so quotients can be
  infinite or not a number.
\<close>

datatype fp = Fin rat | Infty | Not_A_Number

datatype item = Txt string | Flt nat fp | Dec int

text \<open>The quotient of two doubles, the numerator not negative.\<close>

fun fp_div :: "rounding \<Rightarrow> fp \<Rightarrow> rat \<Rightarrow> fp" where
  "fp_div rnd (Fin a) b = (if b = 0 then if a = 0 then Not_A_Number else Infty else Fin (rnd (a / b)))"
| "fp_div rnd x b = x"

definition fp_lt :: "fp \<Rightarrow> rat \<Rightarrow> bool" where
  "fp_lt x c = (case x of Fin a \<Rightarrow> a < c | _ \<Rightarrow> False)"

definition fp_gt :: "fp \<Rightarrow> rat \<Rightarrow> bool" where
  "fp_gt x c = (case x of Fin a \<Rightarrow> a > c | Infty \<Rightarrow> True | Not_A_Number \<Rightarrow> False)"

definition fp_ge :: "fp \<Rightarrow> rat \<Rightarrow> bool" where
  "fp_ge x c = (case x of Fin a \<Rightarrow> a \<ge> c | Infty \<Rightarrow> True | Not_A_Number \<Rightarrow> False)"

definition KB :: rat where "KB = 1000"
definition MB :: rat where "MB = 1000 * 1000"

text \<open>\<open>nz\<close>.\<close>

definition nz :: "rat \<Rightarrow> rat" where
  "nz x = (if x = 0 then 1 else x)"

text \<open>\<open>td.tv_sec + td.tv_usec / 1000000.0\<close>, and the elapsed microseconds computed in integers.\<close>

definition seconds :: "rounding \<Rightarrow> timeval \<Rightarrow> rat" where
  "seconds rnd td = rnd (rnd (of_int (sec td)) + rnd (rnd (of_int (usec td)) / 1000000))"

definition int_micros :: "rounding \<Rightarrow> timeval \<Rightarrow> rat" where
  "int_micros rnd td = rnd (of_int (s64 (s64 (sec td * 1000000) + usec td)))"

text \<open>The conversion \<open>(int)\<close> of an unsigned integer.\<close>

definition to_int :: "u64 \<Rightarrow> int" where
  "to_int w = s32 (uint w)"

definition elapsed :: "timing \<Rightarrow> timeval res" where
  "elapsed s = tvsub (stop_tv s) (start_tv s)"

definition bandwidth :: "rounding \<Rightarrow> u64 \<Rightarrow> u64 \<Rightarrow> bool \<Rightarrow> timing \<Rightarrow> item list res" where
  "bandwidth rnd bytes tms verbose s = and_then (elapsed s) (\<lambda>td.
     let us = rnd (rnd (rnd (of_int (sec td)) * 1000000) + rnd (of_int (usec td)));
         secs = fp_div rnd (Fin (rnd (us / 1000000))) (dbl rnd tms);
         mb = rnd (dbl rnd bytes / MB);
         rate = (case secs of Fin x \<Rightarrow> fp_div rnd (Fin mb) x | Infty \<Rightarrow> Fin 0 | Not_A_Number \<Rightarrow> Not_A_Number)
     in Inr (if verbose then [Flt 4 (Fin mb), Txt '' MB in '', Flt 4 secs, Txt '' secs, '', Flt 4 rate, Txt '' MB/sec'']
             else [Flt (if mb < 1 then 6 else 2) (Fin mb), Flt (if fp_lt rate 1 then 6 else 2) rate]))"

definition kb :: "rounding \<Rightarrow> u64 \<Rightarrow> timing \<Rightarrow> item list res" where
  "kb rnd bytes s = and_then (elapsed s) (\<lambda>td.
     let t = seconds rnd td; bs = fp_div rnd (Fin (dbl rnd bytes)) (nz t)
     in Inr (if t = 0 then [] else [Flt 0 (fp_div rnd bs KB), Txt '' KB/sec'']))"

definition mb :: "rounding \<Rightarrow> u64 \<Rightarrow> timing \<Rightarrow> item list res" where
  "mb rnd bytes s = and_then (elapsed s) (\<lambda>td.
     let t = seconds rnd td; bs = fp_div rnd (Fin (dbl rnd bytes)) (nz t)
     in Inr (if t = 0 then [] else [Flt 2 (fp_div rnd bs MB), Txt '' MB/sec'']))"

definition latency :: "rounding \<Rightarrow> u64 \<Rightarrow> u64 \<Rightarrow> timing \<Rightarrow> item list res" where
  "latency rnd xfers sz s = and_then (elapsed s) (\<lambda>td.
     let t = seconds rnd td;
         each = fp_div rnd (Fin (rnd (t * 1000))) (dbl rnd xfers);
         rate = fp_div rnd (Fin (dbl rnd (xfers * sz))) (rnd (MB * t))
     in if t = 0 then Inr [] else Inr (
       (if xfers > 1
        then [Dec (to_int xfers), Txt '' '', Dec (s32 \<lfloor>rnd (dbl rnd sz / KB)\<rfloor>), Txt ''KB xfers in '',
              Flt 2 (Fin t), Txt '' secs, '']
        else [Flt 1 (fp_div rnd (Fin (dbl rnd sz)) KB), Txt ''KB in '']) @
       [Flt (if fp_gt each 100 then 0 else 4) each, Txt '' millisec'', Txt (if xfers > 1 then ''/xfer'' else ''s'')] @
       (if fp_gt rate 1 then [Flt 2 rate, Txt '' MB/sec'']
        else [Flt 2 (fp_div rnd (Fin (dbl rnd (xfers * sz))) (rnd (KB * t))), Txt '' KB/sec''])))"

definition context_print :: "rounding \<Rightarrow> u64 \<Rightarrow> timing \<Rightarrow> item list res" where
  "context_print rnd xfers s = and_then (elapsed s) (\<lambda>td.
     let t = seconds rnd td
     in Inr (if t = 0 then [] else
       [Dec (to_int xfers), Txt '' context switches in '', Flt 2 (Fin t), Txt '' secs, '',
        Flt 0 (fp_div rnd (Fin (rnd (t * 1000000))) (dbl rnd xfers)), Txt '' microsec/switch'']))"

definition nano :: "rounding \<Rightarrow> string \<Rightarrow> u64 \<Rightarrow> timing \<Rightarrow> item list res" where
  "nano rnd str n s = and_then (elapsed s) (\<lambda>td.
     let m = rnd (int_micros rnd td * 1000)
     in Inr (if m = 0 then [] else [Txt str, Txt '': '', Flt 2 (fp_div rnd (Fin m) (dbl rnd n)), Txt '' nanoseconds'']))"

definition micro :: "rounding \<Rightarrow> string \<Rightarrow> u64 \<Rightarrow> timing \<Rightarrow> item list res" where
  "micro rnd str n s = and_then (elapsed s) (\<lambda>td.
     let m = fp_div rnd (Fin (int_micros rnd td)) (dbl rnd n)
     in Inr (if m = Fin 0 then [] else [Txt str, Txt '': '', Flt 4 m, Txt '' microseconds'']))"

definition micromb :: "rounding \<Rightarrow> u64 \<Rightarrow> u64 \<Rightarrow> timing \<Rightarrow> item list res" where
  "micromb rnd sz n s = and_then (elapsed s) (\<lambda>td.
     let m = fp_div rnd (Fin (int_micros rnd td)) (dbl rnd n); megs = rnd (dbl rnd sz / MB)
     in Inr (if m = Fin 0 then [] else [Flt 6 (Fin megs), Txt '' '', Flt (if fp_ge m 10 then 0 else 3) m]))"

text \<open>\<open>milli\<close> divides integers, so a count of zero traps.\<close>

definition milli :: "string \<Rightarrow> u64 \<Rightarrow> timing \<Rightarrow> item list res" where
  "milli str n s = and_then (elapsed s) (\<lambda>td.
     let m = to_u64 (s64 (s64 (sec td * 1000) + c_div (usec td) 1000))
     in if n = 0 then Inl Div_By_Zero
        else Inr (if m div n = 0 then [] else [Txt str, Txt '': '', Dec (to_int (m div n)), Txt '' milliseconds'']))"

definition ptime :: "rounding \<Rightarrow> u64 \<Rightarrow> timing \<Rightarrow> item list res" where
  "ptime rnd n s = and_then (elapsed s) (\<lambda>td.
     let t = seconds rnd td
     in Inr (if t = 0 then [] else
       [Dec (to_int n), Txt '' in '', Flt 2 (Fin t), Txt '' secs, '',
        Flt 0 (fp_div rnd (Fin (rnd (t * 1000000))) (dbl rnd n)), Txt '' microseconds each'']))"

text \<open>What the printers see of a result that was set with \<open>settime\<close>.\<close>

lemma elapsed_settime:
  "\<exists>td. elapsed (settime u s) = Inr td \<and> normal_tv td \<and> micros td = uint u"
proof -
  let ?a = "\<lparr>sec = 0, usec = 0\<rparr>" and ?b = "\<lparr>sec = uint (u div 1000000), usec = uint (u mod 1000000)\<rparr>"
  have b: "0 \<le> uint u" "uint u < 2 ^ 64" using unsigned_less [of u] by simp_all
  have e: "uint (u div 1000000) = uint u div 1000000" "uint (u mod 1000000) = uint u mod 1000000"
    by (simp_all add: uint_div uint_mod)
  have "normal_tv ?a" "normal_tv ?b" using b by (auto simp: normal_tv_def e div_int_pos_iff)
  from tvsub_normal [OF this] b show ?thesis by (simp add: elapsed_def settime_def micros_def e)
qed

lemma int_micros_small:
  assumes "normal_tv td" "micros td < 2 ^ 63"
  shows "int_micros id td = of_int (micros td)"
proof -
  have "sec td * 1000000 \<le> micros td" "0 \<le> sec td * 1000000" using assms(1) by (simp_all add: normal_tv_def micros_def)
  with assms have "s64 (sec td * 1000000) = sec td * 1000000" "s64 (micros td) = micros td"
    by (auto intro!: s64_id simp: normal_tv_def micros_def)
  then show ?thesis by (simp add: int_micros_def micros_def)
qed

text \<open>what is reported is what was selected: for a result of \<open>u\<close> microseconds (below 2^63) and
  \<open>n\<close> iterations \<open>micro\<close> prints the time per iteration \<open>u / n\<close>, \<open>nano\<close> a thousand times that,
  and a result of 0 microseconds prints nothing at all.\<close>

theorem report_selected:
  assumes "uint u < 2 ^ 63" "n \<noteq> 0"
  shows "micro id str n (settime u s) =
           Inr (if u = 0 then [] else [Txt str, Txt '': '', Flt 4 (Fin (of_int (uint u) / of_int (uint n))), Txt '' microseconds'']) \<and>
         nano id str n (settime u s) =
           Inr (if u = 0 then [] else [Txt str, Txt '': '', Flt 2 (Fin (1000 * of_int (uint u) / of_int (uint n))), Txt '' nanoseconds''])"
proof -
  from elapsed_settime [of u s] obtain td where
    td: "elapsed (settime u s) = Inr td" "normal_tv td" "micros td = uint u" by blast
  have m: "int_micros id td = of_int (uint u)" using int_micros_small [OF td(2)] td(3) assms(1) by simp
  have n: "dbl id n = of_int (uint n)" by (simp add: dbl_def)
  have z: "(of_int (uint w) :: rat) = 0 \<longleftrightarrow> w = 0" for w :: u64
    by (simp only: of_int_eq_0_iff uint_0_iff)
  have nz: "(unsigned n :: rat) \<noteq> 0" and u: "(unsigned u :: rat) = 0 \<longleftrightarrow> u = 0"
    using z [of n] z [of u] assms(2) by simp_all
  show ?thesis using nz u by (auto simp: micro_def nano_def td(1) m n Let_def mult.commute)
qed

theorem report_selected_witness:
  "micro id ''read'' 4 (settime 10 blank_timing) = Inr [Txt ''read'', Txt '': '', Flt 4 (Fin (10 / 4)), Txt '' microseconds'']"
  using report_selected [of 10 4 "''read''" blank_timing] by simp

end
