(* ===== verification/Lm_Enough.thy ===== *)
theory Lm_Enough
  imports Lm_Timing
begin

text \<open>
  How long the benchmark suite measures: the macros \<open>BENCH_INNER\<close>, \<open>BENCH1\<close> and \<open>BENCH\<close> of
  \<open>src/lmbench-3.0-a9/src/bench.h\<close>, and from \<open>lib_timing.c\<close> the search for a measuring interval
  the clock can resolve (\<open>compute_enough\<close>) and the overheads of the clock and of the loop.

  The code that is measured is a parameter \<open>run\<close>: for a number of iterations it gives the
  microseconds the clock shows between \<open>start\<close> and \<open>stop\<close>, and the state of the machine
  afterwards.  A loop that need not end is a \<open>partial_function\<close>, \<open>None\<close> meaning that it runs for
  ever.
\<close>

type_synonym 'w runner = "u64 \<Rightarrow> 'w \<Rightarrow> u64 \<times> 'w"

text \<open>The conversion of a \<open>double\<close> that is not negative to an unsigned integer.\<close>

definition trunc :: "rat \<Rightarrow> u64" where
  "trunc x = word_of_int \<lfloor>x\<rfloor>"

section \<open>The measuring loop\<close>

text \<open>The next number of iterations: \<open>tmp = __iterations / __result; tmp *= 1.1 * __enough;\<close>
  \<open>__iterations = (iter_t)(tmp + 1)\<close>.\<close>

definition scaled :: "rounding \<Rightarrow> int \<Rightarrow> u64 \<Rightarrow> rat \<Rightarrow> u64" where
  "scaled rnd e n r = trunc (rnd (rnd (rnd (dbl rnd n / r) * rnd (rnd (11 / 10) * of_int e)) + 1))"

partial_function (option) bench_loop ::
  "rounding \<Rightarrow> 'w runner \<Rightarrow> int \<Rightarrow> u64 \<Rightarrow> rat \<Rightarrow> 'w \<Rightarrow> (u64 \<times> rat \<times> 'w) option" where
  "bench_loop rnd run e n r w =
     (if r < rnd (rnd (95 / 100) * of_int e) then
        let (u, w') = run n w; r' = dbl rnd u in
        if r' < rnd (rnd (99 / 100) * of_int e) \<or> r' > rnd (rnd (12 / 10) * of_int e) then
          if r' > 150 then bench_loop rnd run e (scaled rnd e n r') r' w'
          else if n > push_bit 27 1 then Some (n, 0, w')
          else bench_loop rnd run e (push_bit 3 n) r' w'
        else bench_loop rnd run e n r' w'
      else Some (n, r, w))"

text \<open>\<open>BENCH_INNER\<close>, with the value of its static variable \<open>__iterations\<close> before and after.\<close>

definition BENCH_INNER ::
  "rounding \<Rightarrow> 'w runner \<Rightarrow> int \<Rightarrow> u64 \<Rightarrow> timing \<Rightarrow> 'w \<Rightarrow> (timing \<times> u64 \<times> 'w) option" where
  "BENCH_INNER rnd run e n s w =
     (case bench_loop rnd run e n 0 w of
        None \<Rightarrow> None
      | Some (n', r, w') \<Rightarrow> Some (settime (trunc r) (save_n n' s), n', w'))"

text \<open>\<open>BENCH1\<close>, with the overheads of the clock and of one pass of the loop.\<close>

definition BENCH1 ::
  "rounding \<Rightarrow> 'w runner \<Rightarrow> int \<Rightarrow> u64 \<Rightarrow> rat \<Rightarrow> u64 \<Rightarrow> timing \<Rightarrow> 'w \<Rightarrow> (timing \<times> u64 \<times> 'w) res option" where
  "BENCH1 rnd run e t_ov l_ov n s w =
     (case BENCH_INNER rnd run e n s w of
        None \<Rightarrow> None
      | Some (s', n', w') \<Rightarrow> Some (and_then (gettime s') (\<lambda>u.
          let usecs = rnd (dbl rnd u - rnd (dbl rnd t_ov + rnd (dbl rnd (get_n s') * l_ov)))
          in Inr (settime (if usecs \<ge> 0 then trunc usecs else 0) s', n', w'))))"

text \<open>The repetitions of \<open>BENCH\<close>: the measurements that took time go into the result.\<close>

fun bench_tries ::
  "rounding \<Rightarrow> 'w runner \<Rightarrow> int \<Rightarrow> u64 \<Rightarrow> rat \<Rightarrow> nat \<Rightarrow> u64 \<Rightarrow> result_t \<Rightarrow> timing \<Rightarrow> 'w \<Rightarrow>
   (result_t \<times> timing \<times> u64 \<times> 'w) res option" where
  "bench_tries rnd run e t_ov l_ov 0 n r s w = Some (Inr (r, s, n, w))"
| "bench_tries rnd run e t_ov l_ov (Suc k) n r s w =
     (case BENCH1 rnd run e t_ov l_ov n s w of
        None \<Rightarrow> None
      | Some (Inl err) \<Rightarrow> Some (Inl err)
      | Some (Inr (s', n', w')) \<Rightarrow>
          (case and_then (gettime s') (\<lambda>u. if u > 0 then insertsort rnd u (get_n s') r else Inr r) of
             Inl err \<Rightarrow> Some (Inl err)
           | Inr r' \<Rightarrow> bench_tries rnd run e t_ov l_ov k n' r' s' w'))"

definition LONGER :: int where "LONGER = 7500000"

definition BENCH ::
  "rounding \<Rightarrow> 'w runner \<Rightarrow> int \<Rightarrow> int \<Rightarrow> u64 \<Rightarrow> rat \<Rightarrow> u64 \<Rightarrow> timing \<Rightarrow> 'w \<Rightarrow> (timing \<times> 'w) res option" where
  "BENCH rnd run enough got_enough t_ov l_ov n s w =
     (let N = (if enough = 0 \<or> got_enough \<le> 100000 then TRIES else 1);
          w1 = (if enough < LONGER then snd (run 1 w) else w);
          r0 = \<lparr>r_N = 0, r_v = replicate TRIES \<lparr>v_u = 0, v_n = 0\<rparr>\<rparr>
      in case bench_tries rnd run got_enough t_ov l_ov N n (insertinit r0) s w1 of
           None \<Rightarrow> None
         | Some (Inl err) \<Rightarrow> Some (Inl err)
         | Some (Inr (r, s', n', w')) \<Rightarrow> Some (Inr (s'\<lparr>results := r\<rparr>, w')))"

section \<open>The measuring interval\<close>

text \<open>\<open>time_N\<close>: the best of ten runs; \<open>k\<close> are the runs still to do.\<close>

fun time_runs :: "rounding \<Rightarrow> 'w runner \<Rightarrow> nat \<Rightarrow> u64 \<Rightarrow> result_t \<Rightarrow> 'w \<Rightarrow> (result_t \<times> 'w) res" where
  "time_runs rnd duration 0 N r w = Inr (r, w)"
| "time_runs rnd duration (Suc k) N r w =
     (let (usecs, w') = duration N w
      in and_then (insertsort rnd usecs N r) (\<lambda>r'. time_runs rnd duration k N r' w'))"

definition time_N :: "rounding \<Rightarrow> 'w runner \<Rightarrow> u64 \<Rightarrow> timing \<Rightarrow> 'w \<Rightarrow> (u64 \<times> timing \<times> 'w) res" where
  "time_N rnd duration N s w =
     (let r_save = get_results s; r0 = \<lparr>r_N = 0, r_v = replicate TRIES \<lparr>v_u = 0, v_n = 0\<rparr>\<rparr> in
      and_then (time_runs rnd duration (TRIES - 1) N (insertinit r0) w) (\<lambda>(r, w').
      let s' = save_minimum (set_results r s) in
      and_then (gettime s') (\<lambda>usecs. Inr (usecs, set_results r_save s', w'))))"

text \<open>The static variables of \<open>find_N\<close> and the library's state, in one record.\<close>

record 'w finder =
  fn_N :: u64
  fn_usecs :: u64
  fn_timing :: timing
  fn_world :: 'w

definition measure_N :: "rounding \<Rightarrow> 'w runner \<Rightarrow> 'w finder \<Rightarrow> 'w finder res" where
  "measure_N rnd duration f =
     and_then (time_N rnd duration (fn_N f) (fn_timing f) (fn_world f))
       (\<lambda>(usecs, s, w). Inr (f\<lparr>fn_usecs := usecs, fn_timing := s, fn_world := w\<rparr>))"

definition next_N :: "rounding \<Rightarrow> int \<Rightarrow> 'w finder \<Rightarrow> u64" where
  "next_N rnd enough f =
     (if fn_usecs f < 1000 then fn_N f * 10
      else trunc (rnd (rnd (rnd (dbl rnd (fn_N f) / dbl rnd (fn_usecs f)) * of_int enough) + 1)))"

fun find_loop :: "rounding \<Rightarrow> 'w runner \<Rightarrow> int \<Rightarrow> nat \<Rightarrow> 'w finder \<Rightarrow> (u64 \<times> 'w finder) res" where
  "find_loop rnd duration enough 0 f = Inr (0, f)"
| "find_loop rnd duration enough (Suc k) f =
     (if rnd (rnd (98 / 100) * of_int enough) < dbl rnd (fn_usecs f) \<and>
         dbl rnd (fn_usecs f) < rnd (rnd (102 / 100) * of_int enough)
      then Inr (fn_N f, f)
      else and_then (measure_N rnd duration (f\<lparr>fn_N := next_N rnd enough f\<rparr>)) (find_loop rnd duration enough k))"

definition find_N :: "rounding \<Rightarrow> 'w runner \<Rightarrow> int \<Rightarrow> 'w finder \<Rightarrow> (u64 \<times> 'w finder) res" where
  "find_N rnd duration enough f =
     and_then (if fn_usecs f = 0 then measure_N rnd duration f else Inr f) (find_loop rnd duration enough 10)"

definition test_points :: "rat list" where
  "test_points = [1015 / 1000, 102 / 100, 1035 / 1000]"

text \<open>The loop of \<open>test_time\<close>: the time for a little more work must grow in proportion.\<close>

fun test_loop :: "rounding \<Rightarrow> 'w runner \<Rightarrow> u64 \<Rightarrow> u64 \<Rightarrow> rat list \<Rightarrow> timing \<Rightarrow> 'w \<Rightarrow> (bool \<times> timing \<times> 'w) res" where
  "test_loop rnd duration N baseline [] s w = Inr (True, s, w)"
| "test_loop rnd duration N baseline (p # ps) s w =
     and_then (time_N rnd duration (to_u64 (s32 \<lfloor>rnd (dbl rnd N * rnd p)\<rfloor>)) s w) (\<lambda>(usecs, s', w').
     let expected = trunc (rnd (dbl rnd baseline * rnd p));
         diff = (if expected > usecs then expected - usecs else usecs - expected)
     in if expected = 0 \<and> diff > 0 \<or> expected \<noteq> 0 \<and> rnd (dbl rnd diff / dbl rnd expected) > rnd (25 / 10000)
        then Inr (False, s', w')
        else test_loop rnd duration N baseline ps s' w')"

definition test_time :: "rounding \<Rightarrow> 'w runner \<Rightarrow> int \<Rightarrow> 'w finder \<Rightarrow> (bool \<times> 'w finder) res" where
  "test_time rnd duration enough f =
     and_then (find_N rnd duration enough f) (\<lambda>(N, f1).
     if N = 0 then Inr (False, f1)
     else and_then (time_N rnd duration N (fn_timing f1) (fn_world f1)) (\<lambda>(baseline, s, w).
          and_then (test_loop rnd duration N baseline test_points s w)
            (\<lambda>(ok, s', w'). Inr (ok, f1\<lparr>fn_timing := s', fn_world := w'\<rparr>))))"

definition possibilities :: "int list" where
  "possibilities = [5000, 10000, 50000, 100000]"

definition SHORT :: int where "SHORT = 1000000"

fun first_sufficient :: "rounding \<Rightarrow> 'w runner \<Rightarrow> int list \<Rightarrow> 'w finder \<Rightarrow> (int \<times> 'w finder) res" where
  "first_sufficient rnd duration [] f = Inr (SHORT, f)"
| "first_sufficient rnd duration (p # ps) f =
     and_then (test_time rnd duration p f) (\<lambda>(ok, f').
     if ok then Inr (p, f') else first_sufficient rnd duration ps f')"

text \<open>\<open>compute_enough\<close>; \<open>env\<close> is the environment variable ENOUGH, converted by \<open>atoi\<close>.\<close>

definition compute_enough :: "rounding \<Rightarrow> 'w runner \<Rightarrow> int option \<Rightarrow> 'w finder \<Rightarrow> (int \<times> 'w finder) res" where
  "compute_enough rnd duration env f =
     (case env of Some e \<Rightarrow> Inr (e, f) | None \<Rightarrow> first_sufficient rnd duration possibilities f)"

definition get_enough :: "int \<Rightarrow> int \<Rightarrow> int" where
  "get_enough long_enough e = (if long_enough > e then long_enough else e)"

section \<open>Overheads\<close>

text \<open>Sequencing of computations that may run for ever (\<open>None\<close>) or stop.\<close>

definition bind_r :: "'a res option \<Rightarrow> ('a \<Rightarrow> 'b res option) \<Rightarrow> 'b res option" where
  "bind_r m f = (case m of None \<Rightarrow> None | Some (Inl e) \<Rightarrow> Some (Inl e) | Some (Inr x) \<Rightarrow> f x)"

text \<open>What the overheads are measured with: the four loop bodies and the environment variables
  ENOUGH, TIMING_O and LOOP_O, already converted to numbers.\<close>

record 'w bodies =
  b_duration :: "'w runner"
  b_gettimeofday :: "'w runner"
  b_one_op :: "'w runner"
  b_two_op :: "'w runner"
  env_ENOUGH :: "int option"
  env_TIMING_O :: "rat option"
  env_LOOP_O :: "rat option"

text \<open>The static variables of the library.\<close>

record 'w lib =
  lb_done :: bool
  long_enough :: int
  t_initialized :: bool
  t_value :: u64
  l_initialized :: bool
  l_value :: rat
  it_gettimeofday :: u64
  it_one_op :: u64
  it_two_op :: u64
  lb_finder :: "'w finder"

abbreviation (input) lb_timing :: "'w lib \<Rightarrow> timing" where
  "lb_timing L \<equiv> fn_timing (lb_finder L)"

definition with_timing :: "timing \<Rightarrow> 'w lib \<Rightarrow> 'w lib" where
  "with_timing s L = L\<lparr>lb_finder := (lb_finder L)\<lparr>fn_timing := s\<rparr>\<rparr>"

text \<open>\<open>set_results(r_save); save_n(N_save); settime(u_save)\<close>.\<close>

definition restore :: "result_t \<Rightarrow> u64 \<Rightarrow> u64 \<Rightarrow> timing \<Rightarrow> timing" where
  "restore r n u s = settime u (save_n n (set_results r s))"

definition inner_gtod :: "rounding \<Rightarrow> 'w bodies \<Rightarrow> 'w lib \<Rightarrow> 'w lib option" where
  "inner_gtod rnd B L =
     (case BENCH_INNER rnd (b_gettimeofday B) (get_enough (long_enough L) 0) (it_gettimeofday L)
             (lb_timing L) (fn_world (lb_finder L)) of
        None \<Rightarrow> None
      | Some (s, n, w) \<Rightarrow>
          Some (L\<lparr>it_gettimeofday := n, lb_finder := (lb_finder L)\<lparr>fn_timing := s, fn_world := w\<rparr>\<rparr>))"

definition one_op :: "rounding \<Rightarrow> 'w bodies \<Rightarrow> 'w lib \<Rightarrow> 'w lib option" where
  "one_op rnd B L =
     (case BENCH_INNER rnd (b_one_op B) (get_enough (long_enough L) 0) (it_one_op L)
             (lb_timing L) (fn_world (lb_finder L)) of
        None \<Rightarrow> None
      | Some (s, n, w) \<Rightarrow> Some (L\<lparr>it_one_op := n, lb_finder := (lb_finder L)\<lparr>fn_timing := s, fn_world := w\<rparr>\<rparr>))"

definition two_op :: "rounding \<Rightarrow> 'w bodies \<Rightarrow> 'w lib \<Rightarrow> 'w lib option" where
  "two_op rnd B L =
     (case BENCH_INNER rnd (b_two_op B) (get_enough (long_enough L) 0) (it_two_op L)
             (lb_timing L) (fn_world (lb_finder L)) of
        None \<Rightarrow> None
      | Some (s, n, w) \<Rightarrow> Some (L\<lparr>it_two_op := n, lb_finder := (lb_finder L)\<lparr>fn_timing := s, fn_world := w\<rparr>\<rparr>))"

fun gtod_tries :: "rounding \<Rightarrow> 'w bodies \<Rightarrow> nat \<Rightarrow> result_t \<Rightarrow> 'w lib \<Rightarrow> (result_t \<times> 'w lib) res option" where
  "gtod_tries rnd B 0 r L = Some (Inr (r, L))"
| "gtod_tries rnd B (Suc k) r L =
     (case inner_gtod rnd B L of
        None \<Rightarrow> None
      | Some L' \<Rightarrow> bind_r (Some (and_then (gettime (lb_timing L')) (\<lambda>u. insertsort rnd u (get_n (lb_timing L')) r)))
          (\<lambda>r'. gtod_tries rnd B k r' L'))"

definition empty_result :: result_t where
  "empty_result = insertinit \<lparr>r_N = 0, r_v = replicate TRIES \<lparr>v_u = 0, v_n = 0\<rparr>\<rparr>"

text \<open>\<open>t_overhead\<close> after its call of \<open>init_timing\<close>.\<close>

definition t_overhead :: "rounding \<Rightarrow> 'w bodies \<Rightarrow> 'w lib \<Rightarrow> (u64 \<times> 'w lib) res option" where
  "t_overhead rnd B L =
     (if t_initialized L then Some (Inr (t_value L, L)) else
      let L1 = L\<lparr>t_initialized := True\<rparr> in
      case env_TIMING_O B of
        Some x \<Rightarrow> Some (Inr (trunc x, L1\<lparr>t_value := trunc x\<rparr>))
      | None \<Rightarrow>
          if get_enough (long_enough L) 0 \<le> 50000 then
            bind_r (Some (gettime (lb_timing L1))) (\<lambda>u_save.
            bind_r (gtod_tries rnd B TRIES empty_result L1) (\<lambda>(r, L2).
            let s = save_minimum (set_results r (lb_timing L2)) in
            bind_r (Some (and_then (gettime s) (\<lambda>u. if get_n s = 0 then Inl Div_By_Zero else Inr (u div get_n s)))) (\<lambda>ov.
            Some (Inr (ov, with_timing (restore (get_results (lb_timing L)) (get_n (lb_timing L)) u_save s)
                             (L2\<lparr>t_value := ov\<rparr>))))))
          else Some (Inr (t_value L1, L1)))"

text \<open>The loop of \<open>l_overhead\<close>: both kinds of pass in turn, less the overhead of the clock.\<close>

definition keep_net :: "rounding \<Rightarrow> u64 \<Rightarrow> timing \<Rightarrow> result_t \<Rightarrow> result_t res" where
  "keep_net rnd t_ov s r =
     and_then (gettime s) (\<lambda>u. if u > t_ov then insertsort rnd (u - t_ov) (get_n s) r else Inr r)"

fun op_tries :: "rounding \<Rightarrow> 'w bodies \<Rightarrow> u64 \<Rightarrow> nat \<Rightarrow> result_t \<Rightarrow> result_t \<Rightarrow> 'w lib \<Rightarrow>
  (result_t \<times> result_t \<times> 'w lib) res option" where
  "op_tries rnd B t_ov 0 r1 r2 L = Some (Inr (r1, r2, L))"
| "op_tries rnd B t_ov (Suc k) r1 r2 L =
     (case one_op rnd B L of
        None \<Rightarrow> None
      | Some L1 \<Rightarrow> bind_r (Some (keep_net rnd t_ov (lb_timing L1) r1)) (\<lambda>r1'.
          case two_op rnd B L1 of
            None \<Rightarrow> None
          | Some L2 \<Rightarrow> bind_r (Some (keep_net rnd t_ov (lb_timing L2) r2)) (\<lambda>r2'.
              op_tries rnd B t_ov k r1' r2' L2)))"

text \<open>\<open>l_overhead\<close> after its call of \<open>init_timing\<close>.  The iteration counts it divides by are those of
  \<open>save_minimum\<close>.\<close>

definition l_overhead :: "rounding \<Rightarrow> 'w bodies \<Rightarrow> 'w lib \<Rightarrow> (rat \<times> 'w lib) res option" where
  "l_overhead rnd B L =
     (if l_initialized L then Some (Inr (l_value L, L)) else
      let L1 = L\<lparr>l_initialized := True\<rparr> in
      case env_LOOP_O B of
        Some x \<Rightarrow> Some (Inr (x, L1\<lparr>l_value := x\<rparr>))
      | None \<Rightarrow>
          bind_r (Some (gettime (lb_timing L1))) (\<lambda>u_save.
          bind_r (t_overhead rnd B L1) (\<lambda>(t_ov, L2).
          bind_r (op_tries rnd B t_ov TRIES empty_result empty_result L2) (\<lambda>(r1, r2, L3).
          let s1 = save_minimum (set_results r1 (lb_timing L3)) in
          bind_r (Some (gettime s1)) (\<lambda>u1.
          let ov1 = rnd (rnd (2 * dbl rnd u1) / dbl rnd (get_n s1));
              s2 = save_minimum (set_results r2 s1) in
          bind_r (Some (gettime s2)) (\<lambda>u2.
          let ov2 = rnd (ov1 - rnd (dbl rnd u2 / dbl rnd (get_n s2)));
              ov = (if ov2 < 0 then 0 else ov2) in
          Some (Inr (ov, with_timing (restore (get_results (lb_timing L)) (get_n (lb_timing L)) u_save s2)
                           (L3\<lparr>l_value := ov\<rparr>)))))))))"

definition init_timing :: "rounding \<Rightarrow> 'w bodies \<Rightarrow> 'w lib \<Rightarrow> 'w lib res option" where
  "init_timing rnd B L =
     (if lb_done L then Some (Inr L) else
      bind_r (Some (compute_enough rnd (b_duration B) (env_ENOUGH B) (lb_finder L))) (\<lambda>(e, f).
      bind_r (t_overhead rnd B (L\<lparr>lb_done := True, long_enough := e, lb_finder := f\<rparr>)) (\<lambda>(_, L1).
      bind_r (l_overhead rnd B L1) (\<lambda>(_, L2). Some (Inr L2)))))"

section \<open>The measuring loop ends\<close>

text \<open>A machine on which every iteration takes \<open>c\<close> microseconds, a rational number.\<close>

definition linear_run :: "rat \<Rightarrow> 'w runner" where
  "linear_run c n w = (word_of_int \<lfloor>c * of_nat (unat n)\<rfloor>, w)"

lemma unat_trunc: "0 \<le> x \<Longrightarrow> x < 2 ^ 64 \<Longrightarrow> unat (trunc x) = nat \<lfloor>x\<rfloor>"
  by (simp add: trunc_def unat_eq_nat_uint uint_word_of_int_eq take_bit_int_eq_self floor_less_iff)

lemma dbl_id: "unat n = N \<Longrightarrow> dbl id n = of_nat N"
  by (auto simp: dbl_def)

lemma linear_time:
  assumes "unat n = N" "0 < c" "c * of_nat N < 2 ^ 64"
  shows "linear_run c n w = (word_of_int \<lfloor>c * of_nat N\<rfloor>, w)"
    and "dbl id (word_of_int \<lfloor>c * of_nat N\<rfloor>) = of_int \<lfloor>c * of_nat N\<rfloor>"
proof -
  have p: "0 \<le> c * of_nat N" using assms(2) by simp
  have "unat (word_of_int \<lfloor>c * of_nat N\<rfloor> :: u64) = nat \<lfloor>c * of_nat N\<rfloor>"
    using unat_trunc [OF p assms(3)] by (simp only: trunc_def)
  with p show "dbl id (word_of_int \<lfloor>c * of_nat N\<rfloor>) = of_int \<lfloor>c * of_nat N\<rfloor>" by (simp add: dbl_id)
  show "linear_run c n w = (word_of_int \<lfloor>c * of_nat N\<rfloor>, w)" using assms(1) by (simp only: linear_run_def)
qed

lemma bench_loop_done: "r \<ge> 95 / 100 * of_int e \<Longrightarrow> bench_loop id run e n r w = Some (n, r, w)"
  by (subst bench_loop.simps) simp

lemma bench_loop_step:
  assumes "r < 95 / 100 * of_int e" "run n w = (u, w')" "dbl id u = r'"
  shows "bench_loop id run e n r w =
    (if r' < 99 / 100 * of_int e \<or> r' > 12 / 10 * of_int e then
       if r' > 150 then bench_loop id run e (scaled id e n r') r' w'
       else if n > push_bit 27 1 then Some (n, 0, w')
       else bench_loop id run e (push_bit 3 n) r' w'
     else bench_loop id run e n r' w')"
  using assms by (subst bench_loop.simps) (simp add: Let_def)

lemma bench_loop_last:
  assumes "r < 95 / 100 * of_int e" "run n w = (u, w')" "dbl id u = r'" "95 / 100 * of_int e \<le> r'" "150 < r'"
  shows "\<exists>n'. bench_loop id run e n r w = Some (n', r', w')"
proof -
  have d: "bench_loop id run e m r' w' = Some (m, r', w')" for m by (rule bench_loop_done) (rule assms(4))
  show ?thesis unfolding bench_loop_step [where run = run and n = n and w = w, OF assms(1-3)] d using assms(5) by auto
qed

text \<open>Once a run takes more than 150 microseconds the next one is long enough.\<close>

lemma scaled_val:
  assumes "unat n = N" "x = of_nat N / r * (11 / 10 * of_int e)" "0 \<le> x" "x < 2 ^ 63"
  shows "x < of_nat (unat (scaled id e n r))" "of_nat (unat (scaled id e n r)) \<le> x + 1"
proof -
  have "scaled id e n r = trunc (x + 1)" by (simp add: scaled_def dbl_id [OF assms(1)] assms(2))
  then have "unat (scaled id e n r) = nat \<lfloor>x + 1\<rfloor>" using unat_trunc [of "x + 1"] assms(3,4) by simp
  then have "int (unat (scaled id e n r)) = \<lfloor>x + 1\<rfloor>" using assms(3) by simp
  then have "rat_of_int (int (unat (scaled id e n r))) = of_int \<lfloor>x + 1\<rfloor>" by (rule arg_cong)
  then have "(of_nat (unat (scaled id e n r)) :: rat) = of_int \<lfloor>x + 1\<rfloor>" by (simp only: of_int_of_nat_eq)
  then show "x < of_nat (unat (scaled id e n r))" "of_nat (unat (scaled id e n r)) \<le> x + 1" by linarith+
qed

text \<open>A run of more than 150 microseconds: the loop ends with this run or the next.\<close>

lemma bench_loop_long:
  assumes "unat n = N" "0 < c" "c < 2 ^ 31" "7 \<le> e" "e < 2 ^ 31" "N \<le> 2 ^ 30" "r < 95 / 100 * of_int e"
    and "151 \<le> \<lfloor>c * of_nat N\<rfloor>"
  shows "\<exists>n' r'. bench_loop id (linear_run c) e n r w = Some (n', r', w) \<and> 95 / 100 * of_int e \<le> r'"
proof -
  let ?t = "\<lfloor>c * of_nat N\<rfloor>"
  have N: "(0 :: rat) < of_nat N" using assms(8) by (cases "N = 0") simp_all
  have "c * of_nat N < 2 ^ 31 * 2 ^ 30"
    using assms(2,3,6) N by (intro mult_less_le_imp_less) (simp_all add: of_nat_le_iff [of N "2 ^ 30", where ?'a = rat, simplified])
  then have b: "c * of_nat N < 2 ^ 64" by (rule less_trans) simp
  note lt = linear_time(1) [OF assms(1,2) b, of w] linear_time(2) [OF assms(1,2) b]
  note step = bench_loop_step [where run = "linear_run c", OF assms(7) lt]
  show ?thesis
  proof (cases "95 / 100 * of_int e \<le> (of_int ?t :: rat)")
    case True
    have "(150 :: rat) < of_int ?t" using assms(8) by linarith
    from bench_loop_last [where run = "linear_run c", OF assms(7) lt True this] True show ?thesis by blast
  next
    case False
    let ?x = "of_nat N / of_int ?t * (11 / 10 * of_int e) :: rat"
    have t: "(151 :: rat) \<le> of_int ?t" using assms(8) by linarith
    have e: "(7 :: rat) \<le> of_int e" "(of_int e :: rat) < 2 ^ 31"
      using assms(4,5) of_int_le_iff [of 7 e, where ?'a = rat] of_int_less_iff [of e "2 ^ 31", where ?'a = rat] by simp_all
    have x0: "0 \<le> ?x" using t e N by simp
    have q: "of_nat N / of_int ?t \<le> (of_nat N :: rat)" using t N by (simp add: field_simps)
    have "?x \<le> of_nat N * (11 / 10 * of_int e)" using q e N by (intro mult_right_mono) simp_all
    also have "\<dots> \<le> 2 ^ 30 * (11 / 10 * of_int e)"
      using assms(6) e by (intro mult_right_mono) (simp_all add: of_nat_le_iff [of N "2 ^ 30", where ?'a = rat, simplified])
    also have "\<dots> < 2 ^ 63" using e by simp
    finally have x1: "?x < 2 ^ 63" .
    note sv = scaled_val [OF assms(1) refl x0 x1]
    let ?n = "scaled id e n (of_int ?t)"
    define M where "M = unat ?n"
    have M: "unat ?n = M" by (simp add: M_def)
    have ct: "of_int ?t \<le> c * of_nat N" "c * of_nat N < of_int ?t + 1" by linarith+
    have cx: "c * ?x = (c * of_nat N) / of_int ?t * (11 / 10 * of_int e)" by simp
    have "1 \<le> (c * of_nat N) / of_int ?t" using ct(1) t by simp
    from mult_right_mono [OF this, of "11 / 10 * of_int e"] e have lo: "11 / 10 * of_int e \<le> c * ?x"
      unfolding cx by simp
    have "(c * of_nat N) / of_int ?t \<le> 2" using ct t by (simp add: field_simps)
    then have "c * ?x \<le> 2 * (11 / 10 * of_int e)" unfolding cx using e by (intro mult_right_mono) simp_all
    moreover have "c * of_nat M \<le> c * (?x + 1)" using sv(2) assms(2) unfolding M by (intro mult_left_mono) simp_all
    moreover have "c * (y + 1) = c * y + c" for y by (simp only: distrib_left mult_1_right)
    ultimately have "c * of_nat M \<le> 2 * (11 / 10 * of_int e) + c" by (metis add_mono_thms_linordered_semiring(3) order_trans)
    also have "\<dots> < 2 ^ 64" using e assms(3) by simp
    finally have b': "c * of_nat M < 2 ^ 64" .
    have "c * ?x < c * of_nat M" using sv(1) assms(2) unfolding M by (intro mult_strict_left_mono)
    with lo e have big: "95 / 100 * of_int e \<le> (of_int \<lfloor>c * of_nat M\<rfloor> :: rat)" by linarith
    note lt' = linear_time(1) [OF M assms(2) b', of w] linear_time(2) [OF M assms(2) b']
    have r': "(of_int ?t :: rat) < 95 / 100 * of_int e" using False by simp
    have s1: "bench_loop id (linear_run c) e n r w = bench_loop id (linear_run c) e ?n (of_int ?t) w"
      unfolding step using False t e by auto
    have "(150 :: rat) < of_int \<lfloor>c * of_nat M\<rfloor>" using big r' t by linarith
    from bench_loop_last [where run = "linear_run c", OF r' lt' big this] big show ?thesis unfolding s1 by blast
  qed
qed

lemma of_nat_le_2_30: "N \<le> 2 ^ 30 \<Longrightarrow> (of_nat N :: rat) \<le> 2 ^ 30"
  using of_nat_le_iff [of N "2 ^ 30", where ?'a = rat] by simp

lemma bench_loop_ends:
  assumes "unat n = N" "0 < c" "c < 2 ^ 31" "7 \<le> e" "e < 2 ^ 31" "1 \<le> N" "N \<le> 2 ^ 30" "r < 95 / 100 * of_int e"
  shows "\<exists>n' r'. bench_loop id (linear_run c) e n r w = Some (n', r', w) \<and>
           (95 / 100 * of_int e \<le> r' \<or> r' = 0 \<and> c * 2 ^ 27 < 151)"
  using assms(1,6-)
proof (induction "2 ^ 30 - N" arbitrary: n N r rule: less_induct)
  case less
  let ?t = "\<lfloor>c * of_nat N\<rfloor>"
  show ?case
  proof (cases "151 \<le> ?t")
    case True
    from bench_loop_long [OF less.prems(1) assms(2-5) less.prems(3,4) True, of w] show ?thesis by blast
  next
    case short: False
    have cN: "c * of_nat N < 151" using short by linarith
    then have b: "c * of_nat N < 2 ^ 64" by (rule less_trans) simp
    note lt = linear_time(1) [OF less.prems(1) assms(2) b, of w] linear_time(2) [OF less.prems(1) assms(2) b]
    note step = bench_loop_step [where run = "linear_run c", OF less.prems(4) lt]
    have t: "\<not> (150 :: rat) < of_int ?t" using short by linarith
    show ?thesis
    proof (cases "(of_int ?t :: rat) < 99 / 100 * of_int e \<or> (of_int ?t :: rat) > 12 / 10 * of_int e")
      case False
      then have "95 / 100 * of_int e \<le> (of_int ?t :: rat)" using assms(4) by linarith
      moreover from bench_loop_done [OF this, of "linear_run c" n w]
      have "bench_loop id (linear_run c) e n r w = Some (n, of_int ?t, w)" unfolding step by (simp only: False if_False)
      ultimately show ?thesis by blast
    next
      case cond: True
      show ?thesis
      proof (cases "N > 2 ^ 27")
        case True
        then have "n > push_bit 27 1" by (simp add: word_less_nat_alt less.prems(1))
        moreover have "c * 2 ^ 27 \<le> c * of_nat N"
          using True assms(2) of_nat_less_iff [of "2 ^ 27" N, where ?'a = rat] by (intro mult_left_mono) simp_all
        ultimately show ?thesis unfolding step using cond t cN by auto
      next
        case False
        then have p: "unat (push_bit 3 n) = 8 * N" "\<not> n > push_bit 27 1" using less.prems(1)
          by (simp_all add: unsigned_push_bit_eq take_bit_nat_eq_self push_bit_eq_mult word_less_nat_alt unat_word_ariths)
        have s1: "bench_loop id (linear_run c) e n r w = bench_loop id (linear_run c) e (push_bit 3 n) (of_int ?t) w"
          unfolding step using cond t p(2) by auto
        show ?thesis
        proof (cases "95 / 100 * of_int e \<le> (of_int ?t :: rat)")
          case True
          with bench_loop_done [OF True, of "linear_run c" "push_bit 3 n" w] show ?thesis unfolding s1 by blast
        next
          case r': False
          show ?thesis unfolding s1
            by (rule less.hyps [OF _ p(1)]) (use False less.prems(2) r' in auto)
        qed
      qed
    qed
  qed
qed

text \<open>C16: the measuring loop ends: on a machine where an iteration takes any constant time below
  2^31 microseconds (however small, and the clock counting whole microseconds), \<open>BENCH_INNER\<close>
  returns from every iteration count up to 2^30, with a result of at least 95 percent of the
  interval asked for, unless an iteration takes less than 151/2^27 microseconds; then the result
  is 0.\<close>

theorem bench_inner_ends:
  assumes "0 < c" "c < 2 ^ 31" "7 \<le> e" "e < 2 ^ 31" "1 \<le> unat n" "unat n \<le> 2 ^ 30"
  shows "\<exists>s' n' r. BENCH_INNER id (linear_run c) e n s w = Some (s', n', w) \<and>
           get_n s' = n' \<and> gettime s' = Inr (trunc r) \<and>
           (95 / 100 * of_int e \<le> r \<or> r = 0 \<and> c * 2 ^ 27 < 151)"
proof -
  have "(0 :: rat) < 95 / 100 * of_int e" using assms(3) by simp
  from bench_loop_ends [OF refl assms this, of w] obtain n' r where
    b: "bench_loop id (linear_run c) e n 0 w = Some (n', r, w)"
    and r: "95 / 100 * of_int e \<le> r \<or> r = 0 \<and> c * 2 ^ 27 < 151" by blast
  show ?thesis
  proof (intro exI conjI)
    show "BENCH_INNER id (linear_run c) e n s w = Some (settime (trunc r) (save_n n' s), n', w)"
      by (simp add: BENCH_INNER_def b)
    show "get_n (settime (trunc r) (save_n n' s)) = n'" by (simp add: get_n_def settime_def save_n_def)
    show "95 / 100 * of_int e \<le> r \<or> r = 0 \<and> c * 2 ^ 27 < 151" by (rule r)
  qed (rule gettime_settime)
qed

theorem bench_inner_ends_witness:
  "\<exists>s' n' r. BENCH_INNER id (linear_run (1 / 1000)) 5000 1 blank_timing () = Some (s', n', ()) \<and> gettime s' = Inr (trunc r)"
  using bench_inner_ends [of "1 / 1000" 5000 1 blank_timing "()"] by auto

text \<open>but the iteration count it reports need not be the one that was measured: when a run takes
  between 95 and 99 percent of the interval, the loop stops with the time of this run, after it
  has already replaced the count by the one planned for the next run.  The reported time per
  iteration is then at least ten percent too low.\<close>

theorem bench_inner_misreports:
  assumes "run n w = (u, w')" "unat n = N" "0 < N" "N < 2 ^ 62" "unat u = U" "150 < U"
    and "95 / 100 * of_int e \<le> (of_nat U :: rat)" "(of_nat U :: rat) < 99 / 100 * of_int e"
  shows "\<exists>s' n'. BENCH_INNER id run e n s w = Some (s', n', w') \<and> gettime s' = Inr u \<and>
           get_n s' = n' \<and> (11 / 10 :: rat) * of_nat N < of_nat (unat n')"
proof -
  have e: "(of_nat U :: rat) / of_int e \<ge> 95 / 100" "0 < (of_int e :: rat)" "(150 :: rat) < of_nat U"
  proof -
    show u: "(150 :: rat) < of_nat U" using assms(6) of_nat_less_iff [of 150 U, where ?'a = rat] by simp
    with assms(8) show "0 < (of_int e :: rat)" by linarith
    with assms(7) show "(of_nat U :: rat) / of_int e \<ge> 95 / 100" by (simp add: pos_le_divide_eq)
  qed
  let ?x = "of_nat N / of_nat U * (11 / 10 * of_int e) :: rat"
  have N: "(0 :: rat) < of_nat N" "(of_nat N :: rat) < 2 ^ 62"
    using assms(3,4) of_nat_less_iff [of N "2 ^ 62", where ?'a = rat] by simp_all
  have q: "11 / 10 \<le> 11 / 10 * of_int e / (of_nat U :: rat)" "11 / 10 * of_int e / (of_nat U :: rat) \<le> 2"
    using e(2,3) assms(7,8) by (simp_all add: field_simps)
  have x: "?x = of_nat N * (11 / 10 * of_int e / of_nat U)" by simp
  have lo: "11 / 10 * of_nat N \<le> ?x" unfolding x using q(1) N(1) by (simp only: mult.commute [of "11 / 10"] mult_le_cancel_left_pos)
  have "?x \<le> of_nat N * 2" unfolding x using q(2) N(1) by (simp only: mult_le_cancel_left_pos)
  then have hi: "?x < 2 ^ 63" using N(2) by simp
  have x0: "0 \<le> ?x" using lo N(1) by linarith
  note sv = scaled_val [OF assms(2) refl x0 hi]
  let ?n = "scaled id e n (of_nat U)"
  have r0: "0 < 95 / 100 * (of_int e :: rat)" using e(2) by simp
  have "bench_loop id run e n 0 w = bench_loop id run e ?n (of_nat U) w'"
    using bench_loop_step [where run = run and n = n and w = w, OF r0 assms(1) dbl_id [OF assms(5)]] assms(8) e(3) by simp
  also have "\<dots> = Some (?n, of_nat U, w')" by (rule bench_loop_done) (rule assms(7))
  finally have "BENCH_INNER id run e n s w = Some (settime (trunc (of_nat U)) (save_n ?n s), ?n, w')"
    by (simp add: BENCH_INNER_def)
  moreover have "trunc (of_nat U) = u" using assms(5) by (auto simp: trunc_def)
  moreover have "11 / 10 * of_nat N < (of_nat (unat ?n) :: rat)" using lo sv(1) by linarith
  ultimately show ?thesis by (auto simp: gettime_settime get_n_def) (simp add: settime_def save_n_def)
qed

theorem bench_inner_misreports_witness:
  "\<exists>s' n'. BENCH_INNER id (\<lambda>n w. (4800, w)) 5000 100 blank_timing () = Some (s', n', ()) \<and> gettime s' = Inr 4800 \<and>
           get_n s' = n' \<and> (110 :: rat) < of_nat (unat n')"
  using bench_inner_misreports [of "\<lambda>n w. (4800, w)" 100 "()" 4800 "()" 100 4800 5000 blank_timing] by simp

section \<open>The choice of the interval\<close>

text \<open>The times of \<open>k\<close> runs in a row, and the state afterwards.\<close>

fun durations :: "'w runner \<Rightarrow> nat \<Rightarrow> u64 \<Rightarrow> 'w \<Rightarrow> u64 list \<times> 'w" where
  "durations duration 0 N w = ([], w)"
| "durations duration (Suc k) N w =
     (let (u, w') = duration N w; (us, w'') = durations duration k N w' in (u # us, w''))"

lemma length_durations: "length (fst (durations duration k N w)) = k"
  by (induction k arbitrary: w) (auto simp: case_prod_unfold Let_def)

lemma time_runs_run_all:
  "time_runs rnd duration k N r w =
     and_then (run_all (insert_value rnd) (map (\<lambda>u. \<lparr>v_u = u, v_n = N\<rparr>) (fst (durations duration k N w))) r)
       (\<lambda>r'. Inr (r', snd (durations duration k N w)))"
proof (induction k arbitrary: r w)
  case (Suc k)
  obtain u w' where d: "duration N w = (u, w')" by fastforce
  show ?case
    by (cases "insertsort rnd u N r") (simp_all add: d Suc.IH insert_value_def case_prod_unfold Let_def)
qed simp

lemma per_iter_same_n:
  assumes "N \<noteq> 0" "per_iter id \<lparr>v_u = a, v_n = N\<rparr> \<le> per_iter id \<lparr>v_u = b, v_n = N\<rparr>"
  shows "a \<le> b"
proof -
  have N: "(0 :: rat) < of_nat (unat N)" using assms(1) by (simp only: of_nat_0_less_iff unat_gt_0 not_False_eq_True)
  have "(of_nat (unat a) :: rat) / of_nat (unat N) \<le> of_nat (unat b) / of_nat (unat N)"
    using assms by (simp add: per_iter_def dbl_def)
  then have "unat a \<le> unat b"
    using N by (simp only: divide_le_cancel of_nat_le_iff)
  then show ?thesis by (simp add: word_le_nat_alt)
qed

text \<open>\<open>time_N\<close> always returns, and restores the measurements of its caller; with exact arithmetic
  its result is the shortest of the ten runs that took time, and 0 if none did.\<close>

lemma time_N_total:
  "\<exists>u s'. time_N rnd duration N s w = Inr (u, s', snd (durations duration 10 N w)) \<and> results s' = results s \<and>
     (rnd = id \<and> N \<noteq> 0 \<longrightarrow>
       (let ds = filter (\<lambda>u. u \<noteq> 0) (fst (durations duration 10 N w))
        in if ds = [] then u = 0 else u \<in> set ds \<and> (\<forall>d \<in> set ds. u \<le> d)))"
proof -
  let ?r0 = "\<lparr>r_N = 0, r_v = replicate TRIES \<lparr>v_u = 0, v_n = 0\<rparr>\<rparr>"
  let ?us = "fst (durations duration 10 N w)"
  let ?vs = "map (\<lambda>u. \<lparr>v_u = u, v_n = N\<rparr>) ?us"
  let ?ds = "filter (\<lambda>u. u \<noteq> 0) ?us"
  have f: "filter (\<lambda>v. v_u v \<noteq> 0) ?vs = map (\<lambda>u. \<lparr>v_u = u, v_n = N\<rparr>) ?ds"
    by (simp add: filter_map comp_def)
  have "length ?ds \<le> 10" using length_filter_le [of "\<lambda>u. u \<noteq> 0" ?us] length_durations [of duration 10 N w] by simp
  then have len: "length (filter (\<lambda>v. v_u v \<noteq> 0) ?vs) \<le> TRIES" unfolding f by (simp add: TRIES_def)
  have i: "result_ok TRIES (insertinit ?r0)" "measured (insertinit ?r0) = []" by (simp_all add: insertinit_ok)
  have "descending rnd []" by (simp add: descending_def)
  with smp.add_all [of TRIES "insertinit ?r0" rnd ?vs] i len obtain r where
    r: "run_all (insert_value rnd) ?vs (insertinit ?r0) = Inr r" "result_ok TRIES r" "descending rnd (measured r)"
      "mset (measured r) = mset (map (\<lambda>u. \<lparr>v_u = u, v_n = N\<rparr>) ?ds)"
    by (auto simp: f)
  let ?s = "save_minimum (set_results r s)"
  have rs: "results (save_minimum t) = results t" "results (save_median t) = results t" for t
    by (auto simp: save_minimum_def save_median_def settime_def save_n_def Let_def)
  have R: "results (set_results r s) = r" by (simp add: set_results_def rs)
  obtain u where u: "gettime ?s = Inr u" "u = (if r_N r = 0 then 0 else v_u (last (measured r)))"
    using last_measured [OF r(2)] by (auto simp: save_minimum_def Let_def R gettime_settime)
  have set: "set (measured r) = (\<lambda>u. \<lparr>v_u = u, v_n = N\<rparr>) ` set ?ds"
    using r(4) by (metis list.set_map mset_eq_setD)
  have emp: "r_N r = 0 \<longleftrightarrow> ?ds = []"
    using length_measured [OF r(2)] set by (metis image_is_empty length_0_conv set_empty)
  have min: "if ?ds = [] then u = 0 else u \<in> set ?ds \<and> (\<forall>d \<in> set ?ds. u \<le> d)" if "rnd = id" "N \<noteq> 0"
  proof (cases "?ds = []")
    case False
    then have ne: "measured r \<noteq> []" using set by auto
    then have "last (measured r) \<in> set (measured r)" by simp
    then obtain x where x: "x \<in> set ?ds" "last (measured r) = \<lparr>v_u = x, v_n = N\<rparr>" unfolding set by blast
    have "u = x" using u(2) emp False x(2) by simp
    moreover have "x \<le> d" if d: "d \<in> set ?ds" for d
    proof -
      have "\<lparr>v_u = d, v_n = N\<rparr> \<in> set (measured r)" using d set by auto
      from descending_last [OF r(3) this] show ?thesis
        using per_iter_same_n [OF \<open>N \<noteq> 0\<close>, of x d] \<open>rnd = id\<close> x(2) by simp
    qed
    ultimately show ?thesis using x(1) False by simp
  qed (use u emp in simp)
  have "time_N rnd duration N s w = Inr (u, set_results (results s) ?s, snd (durations duration 10 N w))"
    using u(1) r(1) by (simp add: time_N_def get_results_def time_runs_run_all TRIES_def Let_def)
  moreover have "results (set_results (results s) ?s) = results s" by (simp add: set_results_def rs)
  ultimately show ?thesis using min by (auto simp: Let_def)
qed

lemma time_N_returns: "\<exists>u s'. time_N rnd duration N s w = Inr (u, s', snd (durations duration 10 N w))"
  using time_N_total [of rnd duration N s w] by (elim exE conjE) (intro exI)

lemma measure_N_total: "\<exists>f'. measure_N rnd duration f = Inr f' \<and> fn_N f' = fn_N f"
  using time_N_returns [of rnd duration "fn_N f" "fn_timing f" "fn_world f"] by (auto simp: measure_N_def)

lemma find_loop_total:
  "\<exists>N f'. find_loop rnd duration enough k f = Inr (N, f') \<and>
     (N \<noteq> 0 \<longrightarrow> N = fn_N f' \<and> rnd (rnd (98 / 100) * of_int enough) < dbl rnd (fn_usecs f') \<and>
        dbl rnd (fn_usecs f') < rnd (rnd (102 / 100) * of_int enough))"
proof (induction k arbitrary: f)
  case (Suc k)
  obtain f' where "measure_N rnd duration (f\<lparr>fn_N := next_N rnd enough f\<rparr>) = Inr f'"
    using measure_N_total by blast
  with Suc.IH [of f'] show ?case by auto
qed simp

lemma test_loop_total: "\<exists>b s' w'. test_loop rnd duration N baseline ps s w = Inr (b, s', w')"
proof (induction ps arbitrary: s w)
  case (Cons p ps)
  obtain u s' where "time_N rnd duration (to_u64 (s32 \<lfloor>rnd (dbl rnd N * rnd p)\<rfloor>)) s w =
      Inr (u, s', snd (durations duration 10 (to_u64 (s32 \<lfloor>rnd (dbl rnd N * rnd p)\<rfloor>)) w))"
    using time_N_returns [of rnd duration "to_u64 (s32 \<lfloor>rnd (dbl rnd N * rnd p)\<rfloor>)" s w] by blast
  with Cons.IH show ?case by (auto simp: Let_def)
qed auto

lemma test_time_total: "\<exists>b f'. test_time rnd duration enough f = Inr (b, f')"
proof -
  obtain f1 where "(if fn_usecs f = 0 then measure_N rnd duration f else Inr f) = Inr f1"
    using measure_N_total [of rnd duration f] by (cases "fn_usecs f = 0") auto
  with find_loop_total [of rnd duration enough 10 f1] obtain N f2 where
    "find_N rnd duration enough f = Inr (N, f2)" by (auto simp: find_N_def)
  moreover obtain u s' where "time_N rnd duration N (fn_timing f2) (fn_world f2) =
      Inr (u, s', snd (durations duration 10 N (fn_world f2)))"
    using time_N_returns [of rnd duration N "fn_timing f2" "fn_world f2"] by blast
  moreover obtain b s'' w'' where
    "test_loop rnd duration N u test_points s' (snd (durations duration 10 N (fn_world f2))) = Inr (b, s'', w'')"
    using test_loop_total [of rnd duration N u test_points s' "snd (durations duration 10 N (fn_world f2))"] by blast
  ultimately show ?thesis by (cases "N = 0") (auto simp: test_time_def)
qed

text \<open>the search for a measuring interval always ends without writing outside the array of
  measurements, whatever the clock shows and however doubles are rounded: \<open>compute_enough\<close>
  returns the value of the environment variable if there is one, and otherwise one of the four
  possibilities, each in its turn the first that passes \<open>test_time\<close>, or the default \<open>SHORT\<close>.\<close>

theorem compute_enough_total:
  "\<exists>e f'. compute_enough rnd duration env f = Inr (e, f') \<and>
     (case env of Some x \<Rightarrow> e = x | None \<Rightarrow> e = SHORT \<or> e \<in> set possibilities \<and>
        (\<exists>f0. test_time rnd duration e f0 = Inr (True, f')))"
proof -
  have "\<exists>e f'. first_sufficient rnd duration ps f = Inr (e, f') \<and>
      (e = SHORT \<or> e \<in> set ps \<and> (\<exists>f0. test_time rnd duration e f0 = Inr (True, f')))" for ps
  proof (induction ps arbitrary: f)
    case (Cons p ps)
    obtain b f1 where "test_time rnd duration p f = Inr (b, f1)" using test_time_total by blast
    with Cons.IH [of f1] show ?case by (cases b) auto
  qed simp
  from this [of possibilities] show ?thesis by (auto simp: compute_enough_def split: option.split)
qed

end
