(* ===== verification/Lm_Benchmp.thy ===== *)
theory Lm_Benchmp
  imports Lm_Enough
begin

text \<open>
  The harness that runs a benchmark in several processes at once, from
  \<open>src/lmbench-3.0-a9/src/lib_timing.c\<close>: \<open>benchmp\<close> forks the children, \<open>benchmp_parent\<close> collects
  their results, \<open>benchmp_child\<close> and \<open>benchmp_interval\<close> are the children's side.  A child is a state
  machine (warmup, timing_interval, cooldown) that is advanced by every call of
  \<open>benchmp_interval\<close>; what it does to the outside (messages on the pipe \<open>response\<close>, bytes taken
  from the other pipes, calls of the benchmark's functions) is a list of actions.
\<close>

section \<open>The child\<close>

datatype benchmp_state = Warmup | Timing_Interval | Cooldown

datatype msg = M_Ready | M_Done | M_Results result_t

datatype act =
    A_Initialize u64
  | A_Cleanup u64
  | A_Respond msg
  | A_Read_Start
  | A_Read_Result
  | A_Read_Exit

text \<open>\<open>benchmp_child_state\<close>.  Of the benchmark's functions only their presence matters here; the file
  descriptors are the pipes of the actions; \<open>r\<close> is the array the library's results point to.\<close>

record child =
  c_state :: benchmp_state
  c_initialize :: bool
  c_cleanup :: bool
  c_childid :: int
  c_enough :: int
  c_iterations :: u64
  c_parallel :: int
  c_repetitions :: int
  c_batch :: u64
  c_need_warmup :: bool
  c_i :: int
  c_timing :: timing

definition benchmp_childid :: "child \<Rightarrow> int" where
  "benchmp_childid c = c_childid c"

text \<open>What a call finds: the microseconds since the last \<open>start\<close>, whether the parent has died, and
  whether a byte waits in the pipes \<open>start_signal\<close> and \<open>result_signal\<close>.\<close>

record inputs =
  in_elapsed :: u64
  in_orphan :: bool
  in_start :: bool
  in_result :: bool

text \<open>\<open>benchmp_child_sigterm\<close> and \<open>benchmp_child_sigchld\<close>: clean up and exit with the given code.\<close>

definition benchmp_child_sigterm :: "child \<Rightarrow> act list \<times> int" where
  "benchmp_child_sigterm c = (if c_cleanup c then [A_Cleanup 0] else [], 0)"

definition benchmp_child_sigchld :: "child \<Rightarrow> act list \<times> int" where
  "benchmp_child_sigchld c = (if c_cleanup c then [A_Cleanup 0] else [], 1)"

text \<open>\<open>benchmp_child\<close> up to its loop: \<open>None\<close> if the array cannot be allocated or a termination signal
  has come in, otherwise the child's state.  \<open>s\<close> is the library's state inherited from the parent.\<close>

definition benchmp_child ::
  "bool \<Rightarrow> bool \<Rightarrow> bool \<Rightarrow> bool \<Rightarrow> int \<Rightarrow> int \<Rightarrow> u64 \<Rightarrow> int \<Rightarrow> int \<Rightarrow> timing \<Rightarrow> (act list \<times> child option)" where
  "benchmp_child allocated sigterm has_init has_cleanup childid enough iters parallel repetitions s =
     (let r = \<lparr>r_N = 0, r_v = replicate (room_for repetitions) \<lparr>v_u = 0, v_n = 0\<rparr>\<rparr>;
          c = \<lparr>c_state = Warmup, c_initialize = has_init, c_cleanup = has_cleanup, c_childid = childid,
               c_enough = enough, c_iterations = iters, c_parallel = parallel, c_repetitions = repetitions,
               c_batch = (if parallel > 1 then get_n s else 1), c_need_warmup = True, c_i = 0,
               c_timing = set_results (insertinit r) s\<rparr>;
          acts = (if has_init then [A_Initialize 0] else [])
      in if \<not> allocated then ([], None)
         else if sigterm then (acts @ fst (benchmp_child_sigterm c), None)
         else (acts, Some (c\<lparr>c_timing := (c_timing c)\<lparr>results := insertinit (results (c_timing c))\<rparr>\<rparr>)))"

text \<open>\<open>benchmp_interval\<close>: the result of the interval that has just ended.\<close>

definition interval_measure :: "rounding \<Rightarrow> u64 \<Rightarrow> rat \<Rightarrow> u64 \<Rightarrow> child \<Rightarrow> rat \<times> act list \<times> child" where
  "interval_measure rnd t_ov l_ov u c =
     (if c_need_warmup c then (of_int (c_enough c), [], c) else
      let it = (if c_state c = Timing_Interval then c_iterations c else c_batch c);
          s = save_n (c_iterations c) (c_timing c);
          r = rnd (dbl rnd u - rnd (dbl rnd t_ov + rnd (dbl rnd (get_n s) * l_ov)))
      in (r, if c_cleanup c then [A_Cleanup it] else [],
          c\<lparr>c_timing := settime (if r \<ge> 0 then trunc r else 0) s\<rparr>))"

definition interval_warmup :: "inputs \<Rightarrow> child \<Rightarrow> u64 \<times> act list \<times> child" where
  "interval_warmup inp c =
     (if in_start inp then c_iterations c else c_batch c,
      (if in_start inp then [A_Read_Start] else []) @ (if c_need_warmup c then [A_Respond M_Ready] else []),
      c\<lparr>c_state := if in_start inp then Timing_Interval else c_state c, c_need_warmup := False\<rparr>)"

text \<open>The measurement is kept if it is long enough, or if others run at the same time.\<close>

definition interval_keep :: "rounding \<Rightarrow> rat \<Rightarrow> child \<Rightarrow> child res" where
  "interval_keep rnd r c =
     (if c_parallel c > 1 \<or> r > rnd (rnd (95 / 100) * of_int (c_enough c)) then
        and_then (gettime (c_timing c)) (\<lambda>u.
        and_then (insertsort rnd u (get_n (c_timing c)) (get_results (c_timing c))) (\<lambda>res.
        Inr (c\<lparr>c_timing := (c_timing c)\<lparr>results := res\<rparr>, c_i := c_i c + 1,
               c_state := if c_i c + 1 \<ge> c_repetitions c then Cooldown else c_state c\<rparr>)))
      else Inr c)"

text \<open>The next number of iterations.\<close>

definition interval_rescale :: "rounding \<Rightarrow> rat \<Rightarrow> child \<Rightarrow> child" where
  "interval_rescale rnd r c =
     (if c_parallel c = 1 \<and> (r < rnd (rnd (99 / 100) * of_int (c_enough c)) \<or> r > rnd (rnd (12 / 10) * of_int (c_enough c))) then
        if r > 150 then c\<lparr>c_iterations := scaled rnd (c_enough c) (c_iterations c) r\<rparr>
        else let it = push_bit 3 (c_iterations c)
             in c\<lparr>c_iterations := it,
                  c_state := if it > push_bit 27 1 \<or> r < 0 \<and> it > push_bit 20 1 then Cooldown else c_state c\<rparr>
      else c)"

definition interval_timing :: "rounding \<Rightarrow> rat \<Rightarrow> child \<Rightarrow> (u64 \<times> act list \<times> child) res" where
  "interval_timing rnd r c = and_then (interval_keep rnd r c) (\<lambda>c1.
     let c2 = interval_rescale rnd r c1
     in Inr (if c_state c2 = Cooldown then (c_batch c2, [A_Respond M_Done], c2) else (c_iterations c2, [], c2)))"

text \<open>The whole call; the result \<open>None\<close> means that the process exits (after a byte from \<open>exit_signal\<close>,
  if it has reported its results).\<close>

definition benchmp_interval ::
  "rounding \<Rightarrow> u64 \<Rightarrow> rat \<Rightarrow> inputs \<Rightarrow> child \<Rightarrow> (u64 option \<times> act list \<times> child) res" where
  "benchmp_interval rnd t_ov l_ov inp c0 =
     (let (r, acts, c) = interval_measure rnd t_ov l_ov (in_elapsed inp) c0;
          cleanup = (if c_cleanup c then [A_Cleanup 0] else []);
          continue = (\<lambda>(it, acts', c'). Inr (Some it, acts @ acts' @ (if c_initialize c' then [A_Initialize it] else []), c'))
      in if in_orphan inp \<and> c_cleanup c then Inr (None, acts @ cleanup, c)
         else case c_state c of
           Warmup \<Rightarrow> continue (interval_warmup inp c)
         | Timing_Interval \<Rightarrow> and_then (interval_timing rnd r c) continue
         | Cooldown \<Rightarrow>
             if in_result inp
             then Inr (None, acts @ [A_Read_Result, A_Respond (M_Results (get_results (c_timing c)))] @ cleanup @ [A_Read_Exit], c)
             else continue (c_batch c, [], c))"

section \<open>The parent\<close>

text \<open>What a pass of one of the parent's loops meets: a signal or an error on the pipe, a timeout of
  \<open>select\<close>, or the result of \<open>read\<close>.\<close>

datatype event = E_Abort | E_Timeout | E_Read int

text \<open>The loops that collect \<open>need\<close> bytes: \<open>None\<close> if the events end before, \<open>Some (Inl ())\<close> for the jump
  to \<open>error_exit\<close>, otherwise the events that are left.\<close>

fun collect :: "nat \<Rightarrow> int \<Rightarrow> event list \<Rightarrow> (unit + event list) option" where
  "collect need got evs =
     (if got \<ge> int need then Some (Inr evs)
      else case evs of
        [] \<Rightarrow> None
      | E_Abort # es \<Rightarrow> Some (Inl ())
      | E_Timeout # es \<Rightarrow> collect need got es
      | E_Read n # es \<Rightarrow> if n < 0 then Some (Inl ()) else collect need (got + n) es)"

declare collect.simps [simp del]

text \<open>The parent's actions: writing to the pipes, killing and waiting for a child, closing.\<close>

datatype pact = P_Start nat | P_Result | P_Exit nat | P_Kill nat | P_Wait nat | P_Close

text \<open>Merging one child's measurements.\<close>

definition merge_child :: "rounding \<Rightarrow> result_t \<Rightarrow> result_t \<Rightarrow> result_t res" where
  "merge_child rnd res merged = run_all (insert_value rnd) (take (r_N res) (r_v res)) merged"

definition error_exit :: "nat \<Rightarrow> pact list" where
  "error_exit parallel = concat (map (\<lambda>i. [P_Kill i, P_Wait i]) [0..<parallel]) @ [P_Close]"

text \<open>Collecting the results, child by child; each report is \<open>sz\<close> bytes.\<close>

fun collect_results ::
  "rounding \<Rightarrow> nat \<Rightarrow> event list \<Rightarrow> result_t list \<Rightarrow> result_t \<Rightarrow> (unit + pact list \<times> result_t) res option" where
  "collect_results rnd sz evs [] merged = Some (Inr (Inr ([], merged)))"
| "collect_results rnd sz evs (res # rs) merged =
     (case collect sz 0 evs of
        None \<Rightarrow> None
      | Some (Inl u) \<Rightarrow> Some (Inr (Inl u))
      | Some (Inr evs') \<Rightarrow>
          bind_r (Some (merge_child rnd res merged)) (\<lambda>merged'.
          bind_r (collect_results rnd sz evs' rs merged') (\<lambda>out.
          Some (Inr (case out of Inl u \<Rightarrow> Inl u | Inr (acts, m) \<Rightarrow> Inr (P_Result # acts, m))))))"

text \<open>\<open>benchmp_parent\<close>: \<open>signalled\<close> tells whether a child has died or a termination signal has come in
  before; \<open>reports\<close> are the results the children send, in the order of their arrival.\<close>

definition benchmp_parent ::
  "rounding \<Rightarrow> bool \<Rightarrow> bool \<Rightarrow> nat \<Rightarrow> int \<Rightarrow> event list \<Rightarrow> event list \<Rightarrow> event list \<Rightarrow> result_t list \<Rightarrow> timing \<Rightarrow>
   (pact list \<times> timing) res option" where
  "benchmp_parent rnd signalled allocated parallel repetitions ready done' reported reports s =
     (let merged = \<lparr>r_N = 0, r_v = replicate (room_for (int parallel * repetitions)) \<lparr>v_u = 0, v_n = 0\<rparr>\<rparr>;
          err = Some (Inr (error_exit parallel, s))
      in if signalled then err
         else if \<not> allocated then Some (Inr ([], s))
         else case collect parallel 0 ready of
           None \<Rightarrow> None
         | Some (Inl _) \<Rightarrow> err
         | Some (Inr _) \<Rightarrow>
         (case collect parallel 0 done' of
           None \<Rightarrow> None
         | Some (Inl _) \<Rightarrow> err
         | Some (Inr _) \<Rightarrow>
         bind_r (collect_results rnd (nat (sizeof_result repetitions)) reported reports (insertinit merged)) (\<lambda>out.
         case out of
           Inl _ \<Rightarrow> err
         | Inr (acts, m) \<Rightarrow> Some (Inr (P_Start parallel # acts @ [P_Exit parallel, P_Close], set_results m s)))))"

section \<open>Starting and stopping the children\<close>

text \<open>The number of repetitions and, for parallel runs, the iterations for one second.\<close>

definition default_repetitions :: "int \<Rightarrow> int \<Rightarrow> int \<Rightarrow> int" where
  "default_repetitions parallel enough repetitions =
     (if repetitions < 0 then (if 1 < parallel \<or> 1000000 \<le> enough then 1 else int TRIES) else repetitions)"

definition parallel_iterations :: "rounding \<Rightarrow> int \<Rightarrow> timing \<Rightarrow> u64 res" where
  "parallel_iterations rnd enough s =
     (if enough < SHORT then
        and_then (gettime s) (\<lambda>u.
          Inr (trunc (rnd (rnd (rnd (of_int SHORT) * dbl rnd (get_n s)) / dbl rnd u)) + 1))
      else Inr (get_n s))"

text \<open>The loop that forks: what \<open>fork\<close> returns for each child, and whether a termination signal has
  come in before it.  The result is the list of process numbers, and whether all were created.\<close>

fun fork_children :: "(bool \<times> int) list \<Rightarrow> int list \<Rightarrow> int list \<times> bool" where
  "fork_children [] pids = (pids, True)"
| "fork_children ((sigterm, pid) # fs) pids =
     (if sigterm \<or> pid = - 1 then (pids, False) else fork_children fs (pids @ [pid]))"

datatype sysact = S_Fork nat u64 | S_Kill int | S_Waitpid int

text \<open>The exits of \<open>benchmp\<close>: after an error the children are killed, last one first; at the end they
  are waited for, last one first, each with an alarm.\<close>

definition benchmp_error_exit :: "int list \<Rightarrow> sysact list" where
  "benchmp_error_exit pids = concat (map (\<lambda>p. [S_Kill p, S_Waitpid p]) (rev pids))"

definition benchmp_timeout :: "int \<Rightarrow> int" where
  "benchmp_timeout enough =
     (let t = s32 (c_div (s32 (2 * enough)) 1000000 + 2) in if t < 5 then 5 else t)"

text \<open>The wait for one child: it exits by itself within the timeout, or the alarm kills it and makes
  the timeout for the others one second.  \<open>late p\<close> tells whether child \<open>p\<close> outlives \<open>t\<close> seconds.\<close>

definition benchmp_sigalrm :: "int \<Rightarrow> sysact list \<times> int" where
  "benchmp_sigalrm pid = ([S_Kill pid], 1)"

fun wait_children :: "(int \<Rightarrow> int \<Rightarrow> bool) \<Rightarrow> int list \<Rightarrow> int \<Rightarrow> sysact list" where
  "wait_children late [] t = []"
| "wait_children late (p # ps) t =
     (if late p t then
        let (acts, t') = benchmp_sigalrm p in acts @ S_Waitpid p # wait_children late ps t'
      else S_Waitpid p # wait_children late ps t)"

text \<open>What a run meets: whether the pipes and the memory could be had, what \<open>fork\<close> returns, the
  signals and events at the parent, the children's reports, and which child outlives its timeout.\<close>

record env =
  e_pipes :: bool
  e_pids :: bool
  e_forks :: "(bool \<times> int) list"
  e_signalled :: bool
  e_allocated :: bool
  e_ready :: "event list"
  e_done :: "event list"
  e_reported :: "event list"
  e_reports :: "result_t list"
  e_late :: "int \<Rightarrow> int \<Rightarrow> bool"

text \<open>The system calls among the parent's actions; it knows the children by their index.\<close>

definition parent_calls :: "int list \<Rightarrow> pact \<Rightarrow> sysact list" where
  "parent_calls pids a = (case a of P_Kill i \<Rightarrow> [S_Kill (pids ! i)] | P_Wait i \<Rightarrow> [S_Waitpid (pids ! i)] | _ \<Rightarrow> [])"

text \<open>What \<open>benchmp\<close> does after its baseline run: the pipes, the children, the parent, the exits.\<close>

definition benchmp_run ::
  "rounding \<Rightarrow> env \<Rightarrow> int \<Rightarrow> int \<Rightarrow> u64 \<Rightarrow> timing \<Rightarrow> (sysact list \<times> timing) res option" where
  "benchmp_run rnd E enough repetitions it s =
     (if \<not> e_pipes E \<or> \<not> e_pids E then Some (Inr ([], s)) else
      let (pids, ok) = fork_children (e_forks E) [];
          forks = map (\<lambda>i. S_Fork i it) [0..<length pids]
      in if \<not> ok then Some (Inr (forks @ benchmp_error_exit pids, s))
         else bind_r (benchmp_parent rnd (e_signalled E) (e_allocated E) (length (e_forks E)) repetitions
                        (e_ready E) (e_done E) (e_reported E) (e_reports E) s) (\<lambda>(pacts, s').
           Some (Inr (forks @ concat (map (parent_calls pids) pacts) @
                      wait_children (e_late E) (rev pids) (benchmp_timeout enough), s'))))"

text \<open>\<open>benchmp\<close>: for several children at once it first calls itself for a single one, the baseline;
  without a result of it nothing else is done.  \<open>Es\<close> are the environments of the runs.\<close>

function benchmp ::
  "rounding \<Rightarrow> int \<Rightarrow> (int \<Rightarrow> env) \<Rightarrow> int \<Rightarrow> int \<Rightarrow> int \<Rightarrow> timing \<Rightarrow> (sysact list \<times> timing) res option" where
  "benchmp rnd lenough Es enough0 parallel repetitions0 s0 =
     (let enough = get_enough lenough enough0;
          repetitions = default_repetitions parallel enough repetitions0;
          s = save_n 1 (settime 0 s0)
      in if parallel > 1 then
           bind_r (benchmp rnd lenough Es enough 1 repetitions s) (\<lambda>(acts, s1).
           bind_r (Some (gettime s1)) (\<lambda>u.
           if u = 0 then Some (Inr (acts, s1))
           else bind_r (Some (parallel_iterations rnd enough s1)) (\<lambda>it.
             bind_r (benchmp_run rnd (Es parallel) enough repetitions it (save_n 1 (settime 0 s1))) (\<lambda>(acts', s2).
               Some (Inr (acts @ acts', s2))))))
         else benchmp_run rnd (Es parallel) enough repetitions 1 s)"
  by pat_completeness auto
termination by (relation "measure (\<lambda>(rnd, l, Es, e, parallel, r, s). if parallel > 1 then 1 else 0)") auto

declare benchmp.simps [simp del]

section \<open>A child keeps its measurements\<close>

text \<open>The invariant of a child: its array has room for what is still to come and is ordered, nothing
  has been measured before the start, and at most as many measurements are kept as were counted.\<close>

definition child_inv :: "rounding \<Rightarrow> child \<Rightarrow> bool" where
  "child_inv rnd c \<longleftrightarrow>
     result_ok (room_for (c_repetitions c)) (results (c_timing c)) \<and> descending rnd (measured (results (c_timing c))) \<and>
     int (r_N (results (c_timing c))) \<le> c_i c \<and>
     (c_need_warmup c \<longrightarrow> c_state c = Warmup) \<and>
     (c_state c = Warmup \<longrightarrow> c_i c = 0) \<and>
     (c_state c = Timing_Interval \<longrightarrow> c_i c = 0 \<or> c_i c < c_repetitions c) \<and>
     c_i c \<le> max 1 (c_repetitions c) \<and> (\<forall>v \<in> set (measured (results (c_timing c))). v_u v \<noteq> 0)"

lemma results_settime [simp]: "results (settime u s) = results s" "results (save_n n s) = results s"
  by (simp_all add: settime_def save_n_def)

lemma get_n_simps [simp]: "get_n (settime u s) = get_n s" "get_n (save_n n s) = n"
  by (simp_all add: get_n_def settime_def save_n_def)

lemma results_set_results [simp]: "results (set_results r s) = r"
  by (simp add: set_results_def save_median_def Let_def case_prod_unfold)

lemma room_for_pos: "0 < room_for k" "k \<le> int (room_for k)"
  by (auto simp: room_for_def TRIES_def)

lemma benchmp_child_inv:
  assumes "benchmp_child al st hi hc id' e it p k s = (acts, Some c)"
  shows "child_inv rnd c \<and> c_state c = Warmup \<and> c_need_warmup c \<and> r_N (results (c_timing c)) = 0"
  using assms
  by (auto simp: benchmp_child_def Let_def child_inv_def insertinit_def result_ok_def measured_def descending_def
      split: if_splits)

lemma interval_measure_frame:
  assumes "interval_measure rnd t_ov l_ov u c = (r, acts, c')"
  shows "c_state c' = c_state c" "c_need_warmup c' = c_need_warmup c" "c_i c' = c_i c" "c_repetitions c' = c_repetitions c"
    "results (c_timing c') = results (c_timing c)" "c_iterations c' = c_iterations c" "c_batch c' = c_batch c"
    "\<not> c_need_warmup c \<Longrightarrow> get_n (c_timing c') = c_iterations c" "\<forall>m. A_Respond m \<notin> set acts"
    "A_Read_Start \<notin> set acts" "A_Read_Result \<notin> set acts" "child_inv rnd' c' = child_inv rnd' c"
    "\<not> c_need_warmup c \<Longrightarrow> \<exists>u. gettime (c_timing c') = Inr u"
  using assms
  by (auto simp: interval_measure_def Let_def child_inv_def gettime_settime split: if_splits)

text \<open>Keeping a measurement: there is room, the array stays ordered, and exactly this measurement is
  added, unless it is 0.\<close>

lemma interval_keep_ok:
  assumes "child_inv rnd c" "c_state c = Timing_Interval" "\<exists>u. gettime (c_timing c) = Inr u"
  shows "\<exists>c'. interval_keep rnd r c = Inr c' \<and> child_inv rnd c' \<and> c_state c' \<in> {Timing_Interval, Cooldown} \<and>
           c_need_warmup c' = c_need_warmup c \<and> c_iterations c' = c_iterations c \<and> c_batch c' = c_batch c \<and>
           set (measured (results (c_timing c'))) \<subseteq>
             set (measured (results (c_timing c))) \<union> {v. v_n v = get_n (c_timing c)}"
proof -
  let ?R = "results (c_timing c)"
  obtain u where u: "gettime (c_timing c) = Inr u" using assms(3) by blast
  have inv: "result_ok (room_for (c_repetitions c)) ?R" "descending rnd (measured ?R)" "int (r_N ?R) \<le> c_i c"
    "c_i c = 0 \<or> c_i c < c_repetitions c" "\<not> c_need_warmup c" "\<forall>v \<in> set (measured ?R). v_u v \<noteq> 0"
    using assms(1,2) by (auto simp: child_inv_def)
  have room: "r_N ?R < room_for (c_repetitions c)"
    using inv(3,4) room_for_pos [of "c_repetitions c"] by linarith
  from insertsort_refines [OF inv(1), of u rnd "get_n (c_timing c)"] room obtain r' where
    r': "insertsort rnd u (get_n (c_timing c)) ?R = Inr r'" "result_ok (room_for (c_repetitions c)) r'"
        "measured r' = (if u = 0 then measured ?R else insert_desc rnd \<lparr>v_u = u, v_n = get_n (c_timing c)\<rparr> (measured ?R))"
        "r_N r' = (if u = 0 then r_N ?R else Suc (r_N ?R))" by blast
  have d: "descending rnd (measured r')" using r'(3) inv(2) descending_insert by simp
  have "set (insert_desc rnd v xs) = insert v (set xs)" for v xs
    by (metis mset_insert_desc set_mset_add_mset_insert set_mset_mset)
  then have st: "set (measured r') \<subseteq> set (measured ?R) \<union> {v. v_n v = get_n (c_timing c)}"
    "\<forall>v \<in> set (measured r'). v_u v \<noteq> 0"
    using r'(3) inv(6) by auto
  show ?thesis
  proof (cases "c_parallel c > 1 \<or> r > rnd (rnd (95 / 100) * of_int (c_enough c))")
    case True
    then show ?thesis
      using u r' d inv assms(1,2) st by (auto simp: interval_keep_def get_results_def child_inv_def)
  next
    case False
    then show ?thesis using assms(1,2) by (auto simp: interval_keep_def)
  qed
qed

lemma interval_rescale_ok:
  assumes "child_inv rnd c" "c_state c \<in> {Timing_Interval, Cooldown}"
  shows "child_inv rnd (interval_rescale rnd r c)" "c_state (interval_rescale rnd r c) \<in> {Timing_Interval, Cooldown}"
    "c_timing (interval_rescale rnd r c) = c_timing c" "c_need_warmup (interval_rescale rnd r c) = c_need_warmup c"
  using assms by (auto simp: interval_rescale_def Let_def child_inv_def)

definition responses :: "act list \<Rightarrow> msg list" where
  "responses acts = concat (map (\<lambda>a. case a of A_Respond m \<Rightarrow> [m] | _ \<Rightarrow> []) acts)"

lemma responses_simps [simp]:
  "responses [] = []" "responses (xs @ ys) = responses xs @ responses ys"
  "responses (A_Respond m # xs) = m # responses xs" "responses (A_Initialize n # xs) = responses xs"
  "responses (A_Cleanup n # xs) = responses xs" "responses (A_Read_Start # xs) = responses xs"
  "responses (A_Read_Result # xs) = responses xs" "responses (A_Read_Exit # xs) = responses xs"
  by (simp_all add: responses_def)

lemma responses_none: "\<forall>m. A_Respond m \<notin> set acts \<Longrightarrow> responses acts = []"
  by (induction acts) (auto simp: responses_def split: act.splits)

text \<open>What one call of a child whose parent lives does, state by state.\<close>

inductive interval_summary :: "inputs \<Rightarrow> child \<Rightarrow> u64 option \<Rightarrow> act list \<Rightarrow> child \<Rightarrow> bool" where
  warm: "c_state c = Warmup \<Longrightarrow> c_state c' = (if in_start inp then Timing_Interval else Warmup) \<Longrightarrow>
    \<not> c_need_warmup c' \<Longrightarrow> responses acts = (if c_need_warmup c then [M_Ready] else []) \<Longrightarrow>
    (A_Read_Start \<in> set acts) = in_start inp \<Longrightarrow> A_Read_Result \<notin> set acts \<Longrightarrow>
    results (c_timing c') = results (c_timing c) \<Longrightarrow> interval_summary inp c (Some it) acts c'"
| time: "c_state c = Timing_Interval \<Longrightarrow> c_state c' = Timing_Interval \<Longrightarrow> \<not> c_need_warmup c' \<Longrightarrow> responses acts = [] \<Longrightarrow>
    A_Read_Start \<notin> set acts \<Longrightarrow> A_Read_Result \<notin> set acts \<Longrightarrow> interval_summary inp c (Some it) acts c'"
| last: "c_state c = Timing_Interval \<Longrightarrow> c_state c' = Cooldown \<Longrightarrow> \<not> c_need_warmup c' \<Longrightarrow> responses acts = [M_Done] \<Longrightarrow>
    A_Read_Start \<notin> set acts \<Longrightarrow> A_Read_Result \<notin> set acts \<Longrightarrow> interval_summary inp c (Some it) acts c'"
| cool: "c_state c = Cooldown \<Longrightarrow> \<not> in_result inp \<Longrightarrow> c_state c' = Cooldown \<Longrightarrow> \<not> c_need_warmup c' \<Longrightarrow> responses acts = [] \<Longrightarrow>
    A_Read_Start \<notin> set acts \<Longrightarrow> A_Read_Result \<notin> set acts \<Longrightarrow> results (c_timing c') = results (c_timing c) \<Longrightarrow>
    interval_summary inp c (Some it) acts c'"
| report: "c_state c = Cooldown \<Longrightarrow> in_result inp \<Longrightarrow> c_state c' = Cooldown \<Longrightarrow> \<not> c_need_warmup c' \<Longrightarrow>
    responses acts = [M_Results (results (c_timing c))] \<Longrightarrow> A_Read_Start \<notin> set acts \<Longrightarrow> A_Read_Result \<in> set acts \<Longrightarrow>
    results (c_timing c') = results (c_timing c) \<Longrightarrow> interval_summary inp c None acts c'"

lemma benchmp_interval_summary:
  assumes "child_inv rnd c" "\<not> in_orphan inp"
  shows "\<exists>it acts c'. benchmp_interval rnd t_ov l_ov inp c = Inr (it, acts, c') \<and> child_inv rnd c' \<and>
           interval_summary inp c it acts c'"
proof -
  obtain r acts0 c1 where m: "interval_measure rnd t_ov l_ov (in_elapsed inp) c = (r, acts0, c1)" by (cases "interval_measure rnd t_ov l_ov (in_elapsed inp) c")
  note F = interval_measure_frame [OF m]
  have inv: "child_inv rnd c1" using F(12) assms(1) by blast
  have r0: "responses acts0 = []" using F(9) by (rule responses_none)
  show ?thesis
  proof (cases "c_state c")
    case Warmup
    let ?w = "interval_warmup inp c1"
    have "child_inv rnd (snd (snd ?w))"
      using inv F(1) Warmup by (auto simp: interval_warmup_def child_inv_def)
    then show ?thesis
      using Warmup assms(2) m F r0
      by (auto simp: benchmp_interval_def Let_def interval_warmup_def intro!: interval_summary.warm)
  next
    case Timing_Interval
    then have nw: "\<not> c_need_warmup c" using assms(1) by (auto simp: child_inv_def)
    from interval_keep_ok [OF inv _ F(13) [OF nw], of r] F(1) Timing_Interval obtain c2 where
      k: "interval_keep rnd r c1 = Inr c2" "child_inv rnd c2" "c_state c2 \<in> {Timing_Interval, Cooldown}"
         "c_need_warmup c2 = c_need_warmup c1" by auto
    let ?c3 = "interval_rescale rnd r c2"
    note R = interval_rescale_ok [OF k(2,3), of r]
    have nw3: "\<not> c_need_warmup ?c3" using R(4) k(4) F(2) nw by simp
    show ?thesis
    proof (cases "c_state ?c3 = Cooldown")
      case True
      then show ?thesis
        using Timing_Interval assms(2) m F r0 k R nw3
        by (auto simp: benchmp_interval_def Let_def interval_timing_def intro!: interval_summary.last)
    next
      case False
      then have "c_state ?c3 = Timing_Interval" using R(2) by auto
      then show ?thesis
        using Timing_Interval assms(2) m F r0 k R nw3
        by (auto simp: benchmp_interval_def Let_def interval_timing_def intro!: interval_summary.time)
    qed
  next
    case Cooldown
    then have nw: "\<not> c_need_warmup c" using assms(1) by (auto simp: child_inv_def)
    show ?thesis
    proof (cases "in_result inp")
      case True
      then show ?thesis
        using Cooldown assms(2) m F r0 inv nw
        by (auto simp: benchmp_interval_def Let_def get_results_def intro!: interval_summary.report)
    next
      case False
      then show ?thesis
        using Cooldown assms(2) m F r0 inv nw
        by (auto simp: benchmp_interval_def Let_def intro!: interval_summary.cool)
    qed
  qed
qed

text \<open>the children count what they measure: the iterations stored with a new measurement are those
  that the preceding call of \<open>benchmp_interval\<close> told the benchmark to run, although the count is
  adapted from call to call.\<close>

theorem interval_counts_right:
  assumes "child_inv rnd c" "\<not> in_orphan inp1" "\<not> in_orphan inp2"
    and "benchmp_interval rnd t_ov l_ov inp1 c = Inr (Some it, acts1, c1)" "c_state c1 = Timing_Interval"
    and "benchmp_interval rnd t_ov l_ov inp2 c1 = Inr (x, acts2, c2)"
  shows "\<forall>v \<in> set (measured (results (c_timing c2))). v \<in> set (measured (results (c_timing c1))) \<or> v_n v = it"
proof -
  obtain r acts0 c0 where m: "interval_measure rnd t_ov l_ov (in_elapsed inp1) c = (r, acts0, c0)"
    by (cases "interval_measure rnd t_ov l_ov (in_elapsed inp1) c")
  note F0 = interval_measure_frame [OF m]
  have it: "it = c_iterations c1"
    using assms(2,4,5) m
    by (cases "c_state c0") (auto simp: benchmp_interval_def Let_def interval_warmup_def interval_timing_def and_then_Inr_iff
        split: if_splits)
  from benchmp_interval_summary [OF assms(1,2), of t_ov l_ov] assms(4) have inv1: "child_inv rnd c1" by auto
  then have nw: "\<not> c_need_warmup c1" using assms(5) by (auto simp: child_inv_def)
  obtain r' acts' c' where m': "interval_measure rnd t_ov l_ov (in_elapsed inp2) c1 = (r', acts', c')"
    by (cases "interval_measure rnd t_ov l_ov (in_elapsed inp2) c1")
  note F = interval_measure_frame [OF m']
  have inv': "child_inv rnd c'" "c_state c' = Timing_Interval" using F(12) F(1) inv1 assms(5) by auto
  from interval_keep_ok [OF inv' F(13) [OF nw], of r'] obtain c'' where
    k: "interval_keep rnd r' c' = Inr c''" "child_inv rnd c''" "c_state c'' \<in> {Timing_Interval, Cooldown}"
       "set (measured (results (c_timing c''))) \<subseteq>
          set (measured (results (c_timing c'))) \<union> {v. v_n v = get_n (c_timing c')}" by blast
  have "c2 = interval_rescale rnd r' c''"
    using assms(3,6) m' inv'(2) k(1) by (auto simp: benchmp_interval_def Let_def interval_timing_def split: if_splits)
  then have "c_timing c2 = c_timing c''" using interval_rescale_ok(3) [OF k(2,3)] by simp
  with k(4) F(5) F(8) [OF nw] it show ?thesis by auto
qed

section \<open>The parent merges everything\<close>

lemma collect_reads:
  assumes "\<forall>n \<in> set ns. 0 \<le> n" "int need \<le> got + sum_list ns"
  shows "\<exists>rest. collect need got (map E_Read ns @ evs) = Some (Inr rest)"
  using assms
proof (induction ns arbitrary: got)
  case Nil
  then show ?case by (simp add: collect.simps)
next
  case (Cons n ns)
  then show ?case using Cons.IH [of "got + n"] by (subst collect.simps) (auto simp: add.assoc)
qed

lemma collect_timeout: "got < int need \<Longrightarrow> collect need got (E_Timeout # evs) = collect need got evs"
  by (subst collect.simps) simp

lemma collect_abort: "got < int need \<Longrightarrow> collect need got (E_Abort # evs) = Some (Inl ())"
  by (subst collect.simps) simp

lemma merge_child_ok:
  assumes "result_ok room merged" "descending rnd (measured merged)" "\<forall>v \<in> set (measured res). v_u v \<noteq> 0"
    and "length (measured merged) + length (measured res) \<le> room"
  shows "\<exists>m. merge_child rnd res merged = Inr m \<and> result_ok room m \<and> descending rnd (measured m) \<and>
           mset (measured m) = mset (measured merged) + mset (measured res)"
proof -
  have f: "filter (\<lambda>v. v_u v \<noteq> 0) (measured res) = measured res" using assms(3) by (simp add: filter_id_conv)
  from smp.add_all [OF assms(1,2), of "measured res"] assms(4) show ?thesis
    unfolding f by (auto simp: merge_child_def measured_def)
qed

text \<open>An error leaves the library's result as it was, and every child is killed and waited for.\<close>

lemma parent_error:
  assumes "signalled \<or> allocated \<and> hd ready = E_Abort \<and> ready \<noteq> [] \<and> 0 < parallel"
  shows "benchmp_parent rnd signalled allocated parallel reps ready dn rep reports s = Some (Inr (error_exit parallel, s))"
  using assms by (cases ready) (auto simp: benchmp_parent_def Let_def collect_abort)

lemma error_exit_all: "i < parallel \<Longrightarrow> P_Kill i \<in> set (error_exit parallel) \<and> P_Wait i \<in> set (error_exit parallel)"
  by (auto simp: error_exit_def)

section \<open>No child is left behind\<close>

lemma fork_children_ok:
  "fork_children fs pids = (pids', ok) \<Longrightarrow>
     \<exists>k \<le> length fs. pids' = pids @ map snd (take k fs) \<and> (ok \<longleftrightarrow> k = length fs) \<and> (\<forall>(t, p) \<in> set (take k fs). \<not> t \<and> p \<noteq> - 1)"
proof (induction fs arbitrary: pids)
  case (Cons f fs)
  obtain t p where f: "f = (t, p)" by fastforce
  show ?case
  proof (cases "t \<or> p = - 1")
    case True
    with Cons.prems f show ?thesis by (intro exI [of _ 0]) auto
  next
    case False
    with Cons.IH [of "pids @ [p]"] Cons.prems f obtain k where
      "k \<le> length fs" "pids' = (pids @ [p]) @ map snd (take k fs)" "ok \<longleftrightarrow> k = length fs"
      "\<forall>(t, p) \<in> set (take k fs). \<not> t \<and> p \<noteq> - 1" by auto
    with False f show ?thesis by (intro exI [of _ "Suc k"]) auto
  qed
qed auto

abbreviation waits :: "sysact list \<Rightarrow> sysact list" where
  "waits \<equiv> filter (\<lambda>a. a \<in> range S_Waitpid)"

lemma waits_simps [simp]: "S_Fork i n \<notin> range S_Waitpid" "S_Kill p \<notin> range S_Waitpid"
  by auto

lemma wait_children_all [simp]: "waits (wait_children late ps t) = map S_Waitpid ps"
  by (induction ps arbitrary: t) (auto simp: benchmp_sigalrm_def)

lemma error_exit_waits [simp]: "waits (benchmp_error_exit pids) = map S_Waitpid (rev pids)"
  unfolding benchmp_error_exit_def by (induction pids) auto

lemma fork_waits [simp]: "waits (map (\<lambda>i. S_Fork i n) xs) = []"
  by (induction xs) auto

lemma parent_error_calls:
  "concat (map (parent_calls pids) (error_exit (length pids))) = concat (map (\<lambda>p. [S_Kill p, S_Waitpid p]) pids)"
proof -
  have "concat (map (parent_calls pids) (error_exit n)) = concat (map (\<lambda>i. [S_Kill (pids ! i), S_Waitpid (pids ! i)]) [0..<n])" for n
    by (induction n) (auto simp: error_exit_def parent_calls_def)
  also have "\<dots> (length pids) = concat (map ((\<lambda>p. [S_Kill p, S_Waitpid p]) \<circ> (!) pids) [0..<length pids])"
    by (simp add: comp_def)
  also have "\<dots> = concat (map (\<lambda>p. [S_Kill p, S_Waitpid p]) pids)"
    by (metis map_map map_nth)
  finally show ?thesis .
qed

text \<open>The parent either collects every report or kills and waits for all children and leaves the
  library's result alone.\<close>

lemma collect_results_calls:
  "collect_results rnd sz evs rs m = Some (Inr (Inr (acts, m'))) \<Longrightarrow> acts = replicate (length rs) P_Result"
proof (induction rs arbitrary: evs m acts)
  case (Cons r rs)
  then show ?case by (auto simp: bind_r_def split: option.splits sum.splits)
qed auto

lemma parent_outcome:
  assumes "benchmp_parent rnd sg al n k rd dn rp reports s = Some (Inr (acts, s'))"
  shows "acts = error_exit n \<and> s' = s \<or> acts = [] \<and> s' = s \<or>
         (\<exists>m. acts = P_Start n # replicate (length reports) P_Result @ [P_Exit n, P_Close] \<and> s' = set_results m s)"
  using assms collect_results_calls
  by (auto simp: benchmp_parent_def Let_def bind_r_def split: if_splits option.splits sum.splits)

text \<open>\<open>benchmp\<close> leaves no child behind: whether forking succeeds, fails or is interrupted half way,
  and however long the children take, every process that was created is waited for, last one first;
  if forking failed each has been killed before, and if the parent gave up each has been killed and
  waited for by it as well, and the library's result is the one from before the run.\<close>

theorem benchmp_waits_for_all:
  assumes "fork_children (e_forks E) [] = (pids, ok)" "e_pipes E" "e_pids E"
    and "benchmp_run rnd E enough reps it s = Some (Inr (acts, s'))"
  shows "(ok \<longleftrightarrow> length pids = length (e_forks E)) \<and> - 1 \<notin> set pids \<and>
         (\<not> ok \<longrightarrow> s' = s \<and> acts = map (\<lambda>i. S_Fork i it) [0..<length pids] @ concat (map (\<lambda>p. [S_Kill p, S_Waitpid p]) (rev pids))) \<and>
         (ok \<longrightarrow> filter (\<lambda>a. a \<in> range S_Waitpid) acts = map S_Waitpid (rev pids) \<or>
           s' = s \<and> filter (\<lambda>a. a \<in> range S_Waitpid) acts = map S_Waitpid (pids @ rev pids) \<and> (\<forall>p \<in> set pids. S_Kill p \<in> set acts))"
proof -
  from fork_children_ok [OF assms(1)] obtain k where
    k: "k \<le> length (e_forks E)" "pids = map snd (take k (e_forks E))" "ok \<longleftrightarrow> k = length (e_forks E)"
       "\<forall>(t, p) \<in> set (take k (e_forks E)). \<not> t \<and> p \<noteq> - 1" by auto
  have l: "ok \<longleftrightarrow> length pids = length (e_forks E)" "- 1 \<notin> set pids" using k by auto
  have fail: "s' = s \<and> acts = map (\<lambda>i. S_Fork i it) [0..<length pids] @ benchmp_error_exit pids" if "\<not> ok"
    using assms that by (auto simp: benchmp_run_def Let_def)
  have "waits acts = map S_Waitpid (rev pids) \<or>
        s' = s \<and> waits acts = map S_Waitpid (pids @ rev pids) \<and> (\<forall>p \<in> set pids. S_Kill p \<in> set acts)" if yes: "ok"
  proof -
    obtain pacts where p: "benchmp_parent rnd (e_signalled E) (e_allocated E) (length pids) reps
          (e_ready E) (e_done E) (e_reported E) (e_reports E) s = Some (Inr (pacts, s'))"
      and acts: "acts = map (\<lambda>i. S_Fork i it) [0..<length pids] @ concat (map (parent_calls pids) pacts) @
                   wait_children (e_late E) (rev pids) (benchmp_timeout enough)"
      using assms l(1) yes by (auto simp: benchmp_run_def Let_def bind_r_def split: option.splits sum.splits)
    have q: "concat (map (parent_calls pids) (replicate n P_Result)) = []" for n by (induction n) (auto simp: parent_calls_def)
    have w: "waits (concat (map (\<lambda>p. [S_Kill p, S_Waitpid p]) ps)) = map S_Waitpid ps" for ps by (induction ps) auto
    from parent_outcome [OF p] show ?thesis
    proof (elim disjE exE conjE)
      assume "pacts = error_exit (length pids)" "s' = s"
      then show ?thesis using acts by (auto simp: parent_error_calls w)
    qed (auto simp: acts q parent_calls_def)
  qed
  with fail l show ?thesis by (auto simp: benchmp_error_exit_def)
qed

definition demo_env :: env where
  "demo_env = \<lparr>e_pipes = True, e_pids = True, e_forks = [(False, 41), (False, 42), (True, 43)], e_signalled = False,
     e_allocated = True, e_ready = [], e_done = [], e_reported = [], e_reports = [], e_late = (\<lambda>p t. False)\<rparr>"

theorem benchmp_waits_for_all_witness:
  "\<exists>acts s'. benchmp_run id demo_env 5000 1 1 blank_timing = Some (Inr (acts, s')) \<and>
     acts = [S_Fork 0 1, S_Fork 1 1, S_Kill 42, S_Waitpid 42, S_Kill 41, S_Waitpid 41]"
proof -
  have f: "fork_children (e_forks demo_env) [] = ([41, 42], False)" by (simp add: demo_env_def)
  have e: "e_pipes demo_env" "e_pids demo_env" by (simp_all add: demo_env_def)
  then obtain acts s' where r: "benchmp_run id demo_env 5000 1 1 blank_timing = Some (Inr (acts, s'))"
    using f by (simp add: benchmp_run_def)
  from benchmp_waits_for_all [OF f e r] r show ?thesis by simp
qed

text \<open>Without a result of the baseline run the parallel one is not started, and the same repetitions
  are used for both.\<close>

lemma benchmp_baseline_fails:
  assumes "1 < parallel" "benchmp_run rnd (Es 1) (get_enough l e) (default_repetitions parallel (get_enough l e) reps) 1
             (save_n 1 (settime 0 (save_n 1 (settime 0 s)))) = Some (Inr (acts, s1))" "gettime s1 = Inr 0"
  shows "benchmp rnd l Es e parallel reps s = Some (Inr (acts, s1))"
proof -
  have d: "default_repetitions 1 (get_enough l e) (default_repetitions parallel (get_enough l e) reps) =
        default_repetitions parallel (get_enough l e) reps"
    by (auto simp: default_repetitions_def TRIES_def)
  have g: "get_enough l (get_enough l e) = get_enough l e" by (auto simp: get_enough_def)
  have "benchmp rnd l Es (get_enough l e) 1 (default_repetitions parallel (get_enough l e) reps) (save_n 1 (settime 0 s)) = Some (Inr (acts, s1))"
    using assms(2) by (subst benchmp.simps) (simp add: d g Let_def)
  then show ?thesis using assms(1,3) by (subst benchmp.simps) (simp add: Let_def bind_r_def)
qed

definition demo_child :: child where
  "demo_child = the (snd (benchmp_child True False False False 0 5000 100 1 11 blank_timing))"

lemma demo_child_inv: "child_inv id demo_child" "c_state demo_child = Warmup"
proof -
  obtain acts c where "benchmp_child True False False False 0 5000 100 1 11 blank_timing = (acts, Some c)"
    by (simp add: benchmp_child_def Let_def)
  with benchmp_child_inv [OF this, of id] show "child_inv id demo_child" "c_state demo_child = Warmup"
    by (simp_all add: demo_child_def)
qed

theorem interval_counts_right_witness:
  "\<exists>it acts1 c1 x acts2 c2.
     benchmp_interval id 0 0 \<lparr>in_elapsed = 0, in_orphan = False, in_start = True, in_result = False\<rparr> demo_child = Inr (Some it, acts1, c1) \<and>
     benchmp_interval id 0 0 \<lparr>in_elapsed = 5100, in_orphan = False, in_start = False, in_result = False\<rparr> c1 = Inr (x, acts2, c2) \<and>
     (\<forall>v \<in> set (measured (results (c_timing c2))). v \<in> set (measured (results (c_timing c1))) \<or> v_n v = it)"
proof -
  let ?i1 = "\<lparr>in_elapsed = 0, in_orphan = False, in_start = True, in_result = False\<rparr>"
  let ?i2 = "\<lparr>in_elapsed = 5100, in_orphan = False, in_start = False, in_result = False\<rparr>"
  from benchmp_interval_summary [OF demo_child_inv(1), of ?i1 0 0] obtain it acts1 c1 where
    c1: "benchmp_interval id 0 0 ?i1 demo_child = Inr (it, acts1, c1)" "child_inv id c1"
        "interval_summary ?i1 demo_child it acts1 c1" by auto
  from c1(3) demo_child_inv(2) obtain it' where it: "it = Some it'" "c_state c1 = Timing_Interval" by cases auto
  from benchmp_interval_summary [OF c1(2), of ?i2 0 0] obtain x acts2 c2 where
    c2: "benchmp_interval id 0 0 ?i2 c1 = Inr (x, acts2, c2)" by auto
  from interval_counts_right [OF demo_child_inv(1) _ _ c1(1) [unfolded it(1)] it(2) c2] c1(1) it(1) c2
  show ?thesis by auto
qed

end
