(* ===== verification/Lm_Benchmp_Sys.thy ===== *)
theory Lm_Benchmp_Sys
  imports Lm_Benchmp
begin

text \<open>
  The processes of \<open>benchmp\<close> running at the same time: the parent and its children take steps in any
  order and talk over three pipes.  A child's step is one call of \<open>benchmp_interval\<close>; the parent's step
  takes one message out of the pipe \<open>response\<close> (a \<open>read\<close> of several bytes is several steps).  A pipe is
  the list of its messages, or the number of its bytes where all bytes mean the same.  \<open>select\<close> and the
  \<open>read\<close> behind it are one step of a child: a child that finds the byte gone blocks, which is the same as
  coming later.  The theory shows that the phases of the parent and the children fit together.
\<close>

section \<open>The system\<close>

datatype phase = Wait_Ready nat | Wait_Done nat | Wait_Result nat | Exit_Sent

type_synonym kid = "child \<times> bool"

record psys =
  ps_phase :: phase
  ps_kids :: "kid list"
  ps_resp :: "msg list"
  ps_start :: nat
  ps_result :: nat
  ps_merged :: result_t

definition kid_step :: "rounding \<Rightarrow> u64 \<Rightarrow> rat \<Rightarrow> u64 \<Rightarrow> nat \<Rightarrow> psys \<Rightarrow> psys res" where
  "kid_step rnd t_ov l_ov elapsed j s =
     (let inp = \<lparr>in_elapsed = elapsed, in_orphan = False, in_start = 0 < ps_start s, in_result = 0 < ps_result s\<rparr>
      in and_then (benchmp_interval rnd t_ov l_ov inp (fst (ps_kids s ! j))) (\<lambda>(it, acts, c).
         Inr (s\<lparr>ps_kids := (ps_kids s)[j := (c, it = None)], ps_resp := ps_resp s @ responses acts,
                ps_start := ps_start s - (if A_Read_Start \<in> set acts then 1 else 0),
                ps_result := ps_result s - (if A_Read_Result \<in> set acts then 1 else 0)\<rparr>)))"

text \<open>The parent takes any single byte for the signal it waits for; a report it meets then, or a single
  byte in place of a report, would put it out of step with its children.\<close>

definition parent_step :: "rounding \<Rightarrow> psys \<Rightarrow> psys res" where
  "parent_step rnd s =
     (let n = length (ps_kids s) in
      case ps_resp s of
        [] \<Rightarrow> Inr s
      | m # ms \<Rightarrow>
        (let s' = s\<lparr>ps_resp := ms\<rparr> in
         case (ps_phase s, m) of
           (Wait_Ready k, M_Results r) \<Rightarrow> Inl (Panic ''out of step'')
         | (Wait_Done k, M_Results r) \<Rightarrow> Inl (Panic ''out of step'')
         | (Wait_Ready k, _) \<Rightarrow>
             Inr (if Suc k < n then s'\<lparr>ps_phase := Wait_Ready (Suc k)\<rparr>
                  else s'\<lparr>ps_phase := Wait_Done 0, ps_start := ps_start s + n\<rparr>)
         | (Wait_Done k, _) \<Rightarrow>
             Inr (if Suc k < n then s'\<lparr>ps_phase := Wait_Done (Suc k)\<rparr>
                  else s'\<lparr>ps_phase := Wait_Result 0, ps_result := Suc (ps_result s)\<rparr>)
         | (Wait_Result i, M_Results r) \<Rightarrow>
             and_then (merge_child rnd r (ps_merged s)) (\<lambda>m'.
               Inr (if Suc i < n
                    then s'\<lparr>ps_phase := Wait_Result (Suc i), ps_result := Suc (ps_result s), ps_merged := m'\<rparr>
                    else s'\<lparr>ps_phase := Exit_Sent, ps_merged := m'\<rparr>))
         | (Wait_Result i, _) \<Rightarrow> Inl (Panic ''out of step'')
         | (Exit_Sent, _) \<Rightarrow> Inl (Panic ''out of step'')))"

definition start_children :: "bool \<Rightarrow> bool \<Rightarrow> int \<Rightarrow> u64 \<Rightarrow> nat \<Rightarrow> int \<Rightarrow> timing \<Rightarrow> child list" where
  "start_children hi hc enough it n reps s =
     map (\<lambda>j. the (snd (benchmp_child True False hi hc (int j) enough it (int n) reps s))) [0..<n]"

definition psys_init :: "child list \<Rightarrow> int \<Rightarrow> psys" where
  "psys_init cs reps = \<lparr>ps_phase = Wait_Ready 0, ps_kids = map (\<lambda>c. (c, False)) cs, ps_resp = [], ps_start = 0, ps_result = 0,
     ps_merged = insertinit \<lparr>r_N = 0, r_v = replicate (room_for (int (length cs) * reps)) \<lparr>v_u = 0, v_n = 0\<rparr>\<rparr>\<rparr>"

inductive reach :: "rounding \<Rightarrow> u64 \<Rightarrow> rat \<Rightarrow> psys \<Rightarrow> psys \<Rightarrow> bool" for rnd t_ov l_ov s0 where
  start: "reach rnd t_ov l_ov s0 s0"
| kid: "reach rnd t_ov l_ov s0 s \<Longrightarrow> j < length (ps_kids s) \<Longrightarrow> \<not> snd (ps_kids s ! j) \<Longrightarrow>
    kid_step rnd t_ov l_ov u j s = Inr s' \<Longrightarrow> reach rnd t_ov l_ov s0 s'"
| parent: "reach rnd t_ov l_ov s0 s \<Longrightarrow> parent_step rnd s = Inr s' \<Longrightarrow> reach rnd t_ov l_ov s0 s'"

section \<open>Counting\<close>

text \<open>How far a child has come.\<close>

datatype stage = Cold | Warm | Measuring | Stopped | Gone

definition stage :: "kid \<Rightarrow> stage" where
  "stage k = (if snd k then Gone else
     case c_state (fst k) of
       Warmup \<Rightarrow> if c_need_warmup (fst k) then Cold else Warm
     | Timing_Interval \<Rightarrow> Measuring
     | Cooldown \<Rightarrow> Stopped)"

definition at_stage :: "stage \<Rightarrow> kid list \<Rightarrow> nat" where
  "at_stage g ks = sum_list (map (\<lambda>k. if stage k = g then 1 else 0) ks)"

abbreviation kept :: "kid \<Rightarrow> value_t multiset" where
  "kept k \<equiv> mset (measured (results (c_timing (fst k))))"

definition reported :: "kid list \<Rightarrow> value_t multiset" where
  "reported ks = sum_list (map (\<lambda>k. if stage k = Gone then kept k else {#}) ks)"

lemma sum_list_map_update:
  fixes f :: "'a \<Rightarrow> 'b :: comm_monoid_add"
  assumes "j < length xs"
  shows "sum_list (map f (xs[j := y])) + f (xs ! j) = sum_list (map f xs) + f y"
  using assms
proof (induction xs arbitrary: j)
  case (Cons x xs)
  then show ?case by (cases j) (auto simp: ac_simps)
qed simp

lemma at_total: "at_stage Cold ks + at_stage Warm ks + at_stage Measuring ks + at_stage Stopped ks + at_stage Gone ks = length ks"
proof (induction ks)
  case (Cons k ks)
  then show ?case by (cases "stage k") (simp_all add: at_stage_def)
qed (simp add: at_stage_def)

lemma at_zero: "at_stage g ks = 0 \<Longrightarrow> j < length ks \<Longrightarrow> stage (ks ! j) \<noteq> g"
proof (induction ks arbitrary: j)
  case (Cons k ks)
  then show ?case by (cases j) (auto simp: at_stage_def split: if_splits)
qed simp

lemma at_all: "at_stage g ks = length ks \<Longrightarrow> j < length ks \<Longrightarrow> stage (ks ! j) = g"
proof (induction ks arbitrary: j)
  case (Cons k ks)
  have "at_stage g ks \<le> length ks" by (induction ks) (auto simp: at_stage_def)
  with Cons.prems have "stage k = g" "at_stage g ks = length ks" by (auto simp: at_stage_def split: if_splits)
  with Cons show ?case by (cases j) auto
qed simp

lemma at_update:
  assumes "j < length ks" "stage (ks ! j) = g" "stage k = h"
  shows "at_stage x (ks[j := k]) + (if x = g then 1 else 0) = at_stage x ks + (if x = h then 1 else 0)"
  using sum_list_map_update [OF assms(1), of "\<lambda>k. if stage k = x then 1 else 0 :: nat" k] assms(2,3) by (auto simp: at_stage_def)

lemma reported_update:
  assumes "j < length ks" "stage (ks ! j) \<noteq> Gone"
  shows "reported (ks[j := k]) = reported ks + (if stage k = Gone then kept k else {#})"
  using sum_list_map_update [OF assms(1), of "\<lambda>k. if stage k = Gone then kept k else {#}" k] assms(2) by (auto simp: reported_def)

lemma reported_size:
  assumes "\<forall>k \<in> set ks. size (kept k) \<le> b"
  shows "size (reported ks) \<le> length ks * b"
  using assms by (induction ks) (auto simp: reported_def)

lemma reported_none: "at_stage Gone ks = 0 \<Longrightarrow> reported ks = {#}"
  by (induction ks) (auto simp: reported_def at_stage_def split: if_splits)

lemma reported_all: "(\<And>k. k \<in> set ks \<Longrightarrow> stage k = Gone) \<Longrightarrow> reported ks = sum_list (map kept ks)"
  by (induction ks) (auto simp: reported_def)

section \<open>One step of a child\<close>

definition kids_ok :: "rounding \<Rightarrow> int \<Rightarrow> kid list \<Rightarrow> bool" where
  "kids_ok rnd reps ks \<longleftrightarrow> (\<forall>k \<in> set ks. child_inv rnd (fst k) \<and> c_repetitions (fst k) = reps)"

lemma benchmp_interval_reps:
  assumes "benchmp_interval rnd t_ov l_ov inp c = Inr (it, acts, c')"
  shows "c_repetitions c' = c_repetitions c"
proof -
  obtain r a c1 where m: "interval_measure rnd t_ov l_ov (in_elapsed inp) c = (r, a, c1)"
    by (cases "interval_measure rnd t_ov l_ov (in_elapsed inp) c")
  have "c_repetitions (interval_rescale rnd r x) = c_repetitions x" for x
    by (simp add: interval_rescale_def Let_def)
  moreover have "interval_keep rnd r c1 = Inr x \<Longrightarrow> c_repetitions x = c_repetitions c1" for x
    by (auto simp: interval_keep_def and_then_Inr_iff split: if_splits)
  ultimately show ?thesis
    using assms m interval_measure_frame(4) [OF m]
    by (auto simp: benchmp_interval_def Let_def interval_warmup_def interval_timing_def and_then_Inr_iff
        split: if_splits benchmp_state.splits)
qed

text \<open>What a step of child \<open>j\<close> does to the pipes, by how far the child is before and after it.\<close>

inductive moves :: "psys \<Rightarrow> stage \<Rightarrow> stage \<Rightarrow> kid \<Rightarrow> msg list \<Rightarrow> nat \<Rightarrow> nat \<Rightarrow> bool" for s where
  ready: "ps_start s = 0 \<Longrightarrow> moves s Cold Warm k [M_Ready] 0 0"
| ready_go: "0 < ps_start s \<Longrightarrow> moves s Cold Measuring k [M_Ready] (Suc 0) 0"
| idle: "ps_start s = 0 \<Longrightarrow> moves s Warm Warm k [] 0 0"
| go: "0 < ps_start s \<Longrightarrow> moves s Warm Measuring k [] (Suc 0) 0"
| measure: "moves s Measuring Measuring k [] 0 0"
| stop: "moves s Measuring Stopped k [M_Done] 0 0"
| cool: "ps_result s = 0 \<Longrightarrow> moves s Stopped Stopped k [] 0 0"
| leave: "0 < ps_result s \<Longrightarrow> r = results (c_timing (fst k)) \<Longrightarrow> moves s Stopped Gone k [M_Results r] 0 (Suc 0)"

lemma kid_step_moves:
  assumes "kids_ok rnd reps (ps_kids s)" "j < length (ps_kids s)" "\<not> snd (ps_kids s ! j)"
  shows "\<exists>k out a b. moves s (stage (ps_kids s ! j)) (stage k) k out a b \<and> child_inv rnd (fst k) \<and> c_repetitions (fst k) = reps \<and>
    kid_step rnd t_ov l_ov u j s = Inr (s\<lparr>ps_kids := (ps_kids s)[j := k], ps_resp := ps_resp s @ out,
      ps_start := ps_start s - a, ps_result := ps_result s - b\<rparr>)"
proof -
  let ?inp = "\<lparr>in_elapsed = u, in_orphan = False, in_start = 0 < ps_start s, in_result = 0 < ps_result s\<rparr>"
  let ?c = "fst (ps_kids s ! j)"
  have inv: "child_inv rnd ?c" "c_repetitions ?c = reps" using assms(1,2) by (auto simp: kids_ok_def)
  from benchmp_interval_summary [OF inv(1), of ?inp t_ov l_ov] obtain it acts c' where
    b: "benchmp_interval rnd t_ov l_ov ?inp ?c = Inr (it, acts, c')" "child_inv rnd c'" "interval_summary ?inp ?c it acts c'" by auto
  let ?k = "(c', it = None)"
  have step: "kid_step rnd t_ov l_ov u j s = Inr (s\<lparr>ps_kids := (ps_kids s)[j := ?k], ps_resp := ps_resp s @ responses acts,
      ps_start := ps_start s - (if A_Read_Start \<in> set acts then 1 else 0),
      ps_result := ps_result s - (if A_Read_Result \<in> set acts then 1 else 0)\<rparr>)"
    using b(1) by (simp add: kid_step_def)
  have "moves s (stage (ps_kids s ! j)) (stage ?k) ?k (responses acts)
          (if A_Read_Start \<in> set acts then 1 else 0) (if A_Read_Result \<in> set acts then 1 else 0)"
    using b(3) assms(3) inv(1)
    by cases (auto simp: stage_def child_inv_def intro: moves.intros)
  with step b(2) benchmp_interval_reps [OF b(1)] inv(2) show ?thesis by fastforce
qed

section \<open>The phases\<close>

text \<open>What holds in each phase of the parent, in terms of how many children have come how far.\<close>

definition phase_ok :: "psys \<Rightarrow> bool" where
  "phase_ok s \<longleftrightarrow>
     (let ks = ps_kids s; n = length ks; rp = reported ks; m = mset (measured (ps_merged s)) in
      case ps_phase s of
        Wait_Ready k \<Rightarrow> k < n \<and> ps_start s = 0 \<and> ps_result s = 0 \<and> m = {#} \<and>
          at_stage Measuring ks = 0 \<and> at_stage Stopped ks = 0 \<and> at_stage Gone ks = 0 \<and>
          ps_resp s = replicate (at_stage Warm ks - k) M_Ready \<and> k \<le> at_stage Warm ks
      | Wait_Done k \<Rightarrow> k < n \<and> ps_start s = at_stage Warm ks \<and> ps_result s = 0 \<and> m = {#} \<and>
          at_stage Cold ks = 0 \<and> at_stage Gone ks = 0 \<and>
          ps_resp s = replicate (at_stage Stopped ks - k) M_Done \<and> k \<le> at_stage Stopped ks
      | Wait_Result i \<Rightarrow> i < n \<and> ps_start s = 0 \<and>
          at_stage Cold ks = 0 \<and> at_stage Warm ks = 0 \<and> at_stage Measuring ks = 0 \<and>
          (ps_resp s = [] \<and> ps_result s = 1 \<and> at_stage Gone ks = i \<and> m = rp \<or>
           ps_result s = 0 \<and> at_stage Gone ks = Suc i \<and>
           (\<exists>r. ps_resp s = [M_Results r] \<and> (\<forall>v \<in> set (measured r). v_u v \<noteq> 0) \<and> m + mset (measured r) = rp))
      | Exit_Sent \<Rightarrow> ps_start s = 0 \<and> ps_result s = 0 \<and> ps_resp s = [] \<and> at_stage Gone ks = n \<and> m = rp)"

definition sys_inv :: "rounding \<Rightarrow> int \<Rightarrow> nat \<Rightarrow> psys \<Rightarrow> bool" where
  "sys_inv rnd reps n s \<longleftrightarrow> kids_ok rnd reps (ps_kids s) \<and> length (ps_kids s) = n \<and> phase_ok s \<and>
     result_ok (room_for (int n * reps)) (ps_merged s) \<and> descending rnd (measured (ps_merged s))"

lemma kids_ok_update: "kids_ok rnd reps ks \<Longrightarrow> child_inv rnd (fst k) \<Longrightarrow> c_repetitions (fst k) = reps \<Longrightarrow> kids_ok rnd reps (ks[j := k])"
  by (auto simp: kids_ok_def dest: set_update_subset_insert [THEN subsetD])

text \<open>A child's step keeps the phase.\<close>

lemma snoc_replicate: "i \<le> w \<Longrightarrow> replicate (w - i) m @ [m] = replicate (Suc w - i) m"
  by (simp add: Suc_diff_le replicate_append_same)

lemma phase_ok_idle:
  assumes "phase_ok s" "\<And>x. at_stage x ks = at_stage x (ps_kids s)" "reported ks = reported (ps_kids s)" "length ks = length (ps_kids s)"
  shows "phase_ok (s\<lparr>ps_kids := ks\<rparr>)"
  using assms by (simp add: phase_ok_def Let_def split: phase.splits)

lemma moves_phase_ok:
  assumes "phase_ok s" "j < length (ps_kids s)" "stage (ps_kids s ! j) = g" "stage k = h" "moves s g h k out a b" "child_inv rnd (fst k)"
  shows "phase_ok (s\<lparr>ps_kids := (ps_kids s)[j := k], ps_resp := ps_resp s @ out, ps_start := ps_start s - a, ps_result := ps_result s - b\<rparr>)"
proof -
  let ?ks = "ps_kids s"
  note U = at_update [OF assms(2-4)]
  have pos: "0 < at_stage g ?ks" using at_zero [of g ?ks j] assms(2,3) by fastforce
  have rp: "reported (?ks[j := k]) = reported ?ks + (if h = Gone then kept k else {#})" if "g \<noteq> Gone"
    using reported_update [OF assms(2), of k] assms(3,4) that by simp
  have same: "phase_ok (s\<lparr>ps_kids := ?ks[j := k]\<rparr>)" if "g = h" "g \<noteq> Gone"
    using phase_ok_idle [OF assms(1), of "?ks[j := k]"] U rp that by simp
  note K = at_total [of ?ks] U [of Cold] U [of Warm] U [of Measuring] U [of Stopped] U [of Gone]
  show ?thesis
    using assms(5)
  proof cases
    case ready
    then show ?thesis using assms(1) K pos
      by (auto simp: phase_ok_def Let_def snoc_replicate split: phase.splits)
  next
    case ready_go
    then show ?thesis using assms(1) pos by (simp add: phase_ok_def Let_def split: phase.splits)
  next
    case go
    then show ?thesis using assms(1) K pos rp
      by (auto simp: phase_ok_def Let_def split: phase.splits)
  next
    case stop
    then show ?thesis using assms(1) K pos rp
      by (auto simp: phase_ok_def Let_def snoc_replicate split: phase.splits)
  next
    case (leave r)
    have "\<forall>v \<in> set (measured (results (c_timing (fst k)))). v_u v \<noteq> 0" using assms(6) by (simp add: child_inv_def)
    with leave show ?thesis using assms(1) K pos rp
      by (auto simp: phase_ok_def Let_def split: phase.splits)
  next
    case idle
    then show ?thesis using same by (cases s) simp
  next
    case measure
    then show ?thesis using same by (cases s) simp
  next
    case cool
    then show ?thesis using same by (cases s) simp
  qed
qed

text \<open>So does a step of the parent, which is never out of step.\<close>

lemma kids_ok_size:
  assumes "kids_ok rnd reps ks" "1 \<le> reps" "k \<in> set ks"
  shows "size (kept k) \<le> nat reps"
  using assms by (auto simp: kids_ok_def child_inv_def measured_def result_ok_def)

lemma parent_step_ok:
  assumes "sys_inv rnd reps n s" "1 \<le> reps"
  shows "\<exists>s'. parent_step rnd s = Inr s' \<and> sys_inv rnd reps n s'"
proof (cases "ps_resp s")
  case Nil
  with assms(1) show ?thesis by (simp add: parent_step_def)
next
  case (Cons m ms)
  note inv = assms(1) [unfolded sys_inv_def]
  note T = at_total [of "ps_kids s"]
  show ?thesis
  proof (cases "ps_phase s")
    case (Wait_Ready k)
    then have w: "m = M_Ready" "ms = replicate (at_stage Warm (ps_kids s) - Suc k) M_Ready" "Suc k \<le> at_stage Warm (ps_kids s)"
      using Cons inv by (auto simp: phase_ok_def Let_def Cons_replicate_eq)
    let ?s' = "if Suc k < n then s\<lparr>ps_resp := ms, ps_phase := Wait_Ready (Suc k)\<rparr>
               else s\<lparr>ps_resp := ms, ps_phase := Wait_Done 0, ps_start := ps_start s + n\<rparr>"
    have "parent_step rnd s = Inr ?s'"
      using Cons w(1) inv Wait_Ready by (simp add: parent_step_def Let_def)
    moreover have "sys_inv rnd reps n ?s'"
      using w(2,3) inv T Wait_Ready by (auto simp: sys_inv_def phase_ok_def Let_def)
    ultimately show ?thesis by blast
  next
    case (Wait_Done k)
    then have w: "m = M_Done" "ms = replicate (at_stage Stopped (ps_kids s) - Suc k) M_Done" "Suc k \<le> at_stage Stopped (ps_kids s)"
      using Cons inv by (auto simp: phase_ok_def Let_def Cons_replicate_eq)
    let ?s' = "if Suc k < n then s\<lparr>ps_resp := ms, ps_phase := Wait_Done (Suc k)\<rparr>
               else s\<lparr>ps_resp := ms, ps_phase := Wait_Result 0, ps_result := Suc (ps_result s)\<rparr>"
    have "parent_step rnd s = Inr ?s'"
      using Cons w(1) inv Wait_Done by (simp add: parent_step_def Let_def)
    moreover have "sys_inv rnd reps n ?s'"
      using w(2,3) inv T Wait_Done reported_none [of "ps_kids s"] by (auto simp: sys_inv_def phase_ok_def Let_def)
    ultimately show ?thesis by blast
  next
    case (Wait_Result i)
    then obtain r where r: "m = M_Results r" "ms = []" "\<forall>v \<in> set (measured r). v_u v \<noteq> 0"
        "mset (measured (ps_merged s)) + mset (measured r) = reported (ps_kids s)"
        "ps_result s = 0" "at_stage Gone (ps_kids s) = Suc i"
      using Cons inv by (auto simp: phase_ok_def Let_def)
    have "size (reported (ps_kids s)) \<le> n * nat reps"
      using reported_size [of "ps_kids s" "nat reps"] kids_ok_size [OF conjunct1 [OF inv] assms(2)] inv by blast
    also have "\<dots> \<le> room_for (int n * reps)"
      using room_for_pos(2) [of "int n * reps"] assms(2) by (metis int_nat_eq nat_int nat_le_iff of_nat_mult order_trans zero_le_one)
    finally have "length (measured (ps_merged s)) + length (measured r) \<le> room_for (int n * reps)"
      using arg_cong [OF r(4), of size] by simp
    from merge_child_ok [OF _ _ r(3) this, of rnd] inv obtain m' where
      m': "merge_child rnd r (ps_merged s) = Inr m'" "result_ok (room_for (int n * reps)) m'" "descending rnd (measured m')"
          "mset (measured m') = reported (ps_kids s)" using r(4) by auto
    let ?s' = "if Suc i < n then s\<lparr>ps_resp := [], ps_phase := Wait_Result (Suc i), ps_result := Suc (ps_result s), ps_merged := m'\<rparr>
               else s\<lparr>ps_resp := [], ps_phase := Exit_Sent, ps_merged := m'\<rparr>"
    have "parent_step rnd s = Inr ?s'"
      using Cons r(1,2) m'(1) inv Wait_Result by (simp add: parent_step_def Let_def)
    moreover have "sys_inv rnd reps n ?s'"
      using r(5,6) m' inv T Wait_Result by (auto simp: sys_inv_def phase_ok_def Let_def)
    ultimately show ?thesis by blast
  next
    case Exit_Sent
    then show ?thesis using Cons inv by (simp add: phase_ok_def Let_def)
  qed
qed

lemma kid_step_ok:
  assumes "sys_inv rnd reps n s" "j < n" "\<not> snd (ps_kids s ! j)"
  shows "\<exists>s'. kid_step rnd t_ov l_ov u j s = Inr s' \<and> sys_inv rnd reps n s'"
proof -
  note inv = assms(1) [unfolded sys_inv_def]
  from kid_step_moves [of rnd reps s j t_ov l_ov u] inv assms(2,3) obtain k out a b where
    k: "moves s (stage (ps_kids s ! j)) (stage k) k out a b" "child_inv rnd (fst k)" "c_repetitions (fst k) = reps"
       "kid_step rnd t_ov l_ov u j s = Inr (s\<lparr>ps_kids := (ps_kids s)[j := k], ps_resp := ps_resp s @ out,
          ps_start := ps_start s - a, ps_result := ps_result s - b\<rparr>)" by auto
  show ?thesis
    using moves_phase_ok [OF _ _ refl refl k(1,2)] kids_ok_update [OF _ k(2,3)] k(4) inv assms(2)
    by (auto simp: sys_inv_def)
qed

lemma start_children_ok:
  "\<forall>c \<in> set (start_children hi hc enough it n reps s). child_inv rnd c \<and> c_repetitions c = reps \<and> c_state c = Warmup \<and> c_need_warmup c"
proof -
  have "child_inv rnd c \<and> c_repetitions c = reps \<and> c_state c = Warmup \<and> c_need_warmup c"
    if "c = the (snd (benchmp_child True False hi hc (int j) enough it (int n) reps s))" for c j
  proof -
    obtain acts c' where c': "benchmp_child True False hi hc (int j) enough it (int n) reps s = (acts, Some c')" "c_repetitions c' = reps"
      by (simp add: benchmp_child_def Let_def)
    with benchmp_child_inv [OF c'(1), of rnd] that show ?thesis by simp
  qed
  then show ?thesis by (auto simp: start_children_def)
qed

lemma psys_init_inv:
  assumes "0 < n"
  shows "sys_inv rnd reps n (psys_init (start_children hi hc enough it n reps s) reps)"
proof -
  let ?cs = "start_children hi hc enough it n reps s"
  have st: "\<forall>k \<in> set (map (\<lambda>c. (c, False)) ?cs). stage k = Cold" using start_children_ok by (fastforce simp: stage_def)
  have "at_stage g ks = 0" if "\<forall>k \<in> set ks. stage k = Cold" "g \<noteq> Cold" for g ks
    using that by (induction ks) (auto simp: at_stage_def)
  then have "\<And>g. g \<noteq> Cold \<Longrightarrow> at_stage g (map (\<lambda>c. (c, False)) ?cs) = 0" using st by blast
  then show ?thesis
    using assms start_children_ok [of hi hc enough it n reps s rnd]
    by (auto simp: sys_inv_def psys_init_def phase_ok_def Let_def kids_ok_def result_ok_def insertinit_def measured_def descending_def
        start_children_def)
qed

lemma reach_inv:
  assumes "reach rnd t_ov l_ov s0 s" "sys_inv rnd reps n s0" "1 \<le> reps"
  shows "sys_inv rnd reps n s"
  using assms
proof induction
  case (kid s j u s')
  then show ?case using kid_step_ok [of rnd reps n s j t_ov l_ov u] by (auto simp: sys_inv_def)
next
  case (parent s s')
  then show ?case using parent_step_ok [of rnd reps n s] by auto
qed

section \<open>The protocol\<close>



end
