(* ===== verification/Lm_Util.thy ===== *)
theory Lm_Util
  imports Lm_Timing
begin

text \<open>
  The helpers of \<open>src/lmbench-3.0-a9/src/lib_timing.c\<close> that are not about time: reading and
  printing sizes, walking over memory, random permutations, copying a file, and seeking in steps.
  The lemmas relate the unrolled loops to plain sums, show that the shuffles permute, that what
  is printed can be read back, and that the loops end.
\<close>

section \<open>Sizes\<close>

definition is_digit :: "char \<Rightarrow> bool" where
  "is_digit c \<longleftrightarrow> (48 :: nat) \<le> of_char c \<and> of_char c \<le> (57 :: nat)"

definition is_space :: "char \<Rightarrow> bool" where
  "is_space c \<longleftrightarrow> of_char c = (32 :: nat) \<or> (9 :: nat) \<le> of_char c \<and> of_char c \<le> (13 :: nat)"

definition digits_val :: "string \<Rightarrow> nat" where
  "digits_val ds = foldl (\<lambda>v c. 10 * v + (of_char c - 48)) 0 ds"

text \<open>The conversion \<open>%llu\<close> of \<open>sscanf\<close>: white space, a sign, digits; a number that is too big
  becomes the biggest one, a negative one wraps around.\<close>

definition scan_llu :: "string \<Rightarrow> u64 option" where
  "scan_llu s =
     (let t = dropWhile is_space s;
          neg = (t \<noteq> [] \<and> hd t = CHR ''-'');
          t' = (if t \<noteq> [] \<and> (hd t = CHR ''-'' \<or> hd t = CHR ''+'') then tl t else t);
          ds = takeWhile is_digit t'
      in if ds = [] then None
         else let v = (if digits_val ds < 2 ^ 64 then of_nat (digits_val ds) else - 1)
              in Some (if neg then - v else v))"

text \<open>\<open>atoi\<close>: the same for a \<open>long\<close>, which is cut down to an \<open>int\<close>; 0 if there are no digits.\<close>

definition atoi :: "string \<Rightarrow> int" where
  "atoi s =
     (let t = dropWhile is_space s;
          neg = (t \<noteq> [] \<and> hd t = CHR ''-'');
          t' = (if t \<noteq> [] \<and> (hd t = CHR ''-'' \<or> hd t = CHR ''+'') then tl t else t);
          v = int (digits_val (takeWhile is_digit t'))
      in s32 (if neg then max (- v) (- (2 ^ 63)) else min v (2 ^ 63 - 1)))"

text \<open>\<open>last\<close>: the character before the terminating zero.\<close>

definition last_char :: "string \<Rightarrow> char res" where
  "last_char s = (if s = [] then Inl Out_Of_Bounds else Inr (List.last s))"

definition bytes :: "string \<Rightarrow> u64 res" where
  "bytes s =
     (case scan_llu s of
        None \<Rightarrow> Inr 0
      | Some n \<Rightarrow> and_then (last_char s) (\<lambda>c. Inr (
          if c = CHR ''k'' then push_bit 10 n
          else if c = CHR ''K'' then n * 1000
          else if c = CHR ''m'' then push_bit 20 n
          else if c = CHR ''M'' then n * 1000000
          else if c = CHR ''g'' then push_bit 30 n
          else if c = CHR ''G'' then n * 1000000000
          else n)))"

text \<open>\<open>p64\<close> (the variant for Linux): the two halves of the number in hexadecimal, the lower one
  padded to eight digits if the upper one is not zero.\<close>

definition hex_digit :: "nat \<Rightarrow> char" where
  "hex_digit d = char_of (if d < 10 then 48 + d else 87 + d)"

fun hex :: "nat \<Rightarrow> string" where
  "hex n = (if n < 16 then [hex_digit n] else hex (n div 16) @ [hex_digit (n mod 16)])"

declare hex.simps [simp del]

definition pad8 :: "string \<Rightarrow> string" where
  "pad8 s = replicate (8 - length s) CHR ''0'' @ s"

definition p64 :: "u64 \<Rightarrow> string" where
  "p64 big =
     (let hi = unat (drop_bit 32 big); lo = unat (take_bit 32 big)
      in if hi \<noteq> 0 then ''0x'' @ hex hi @ pad8 (hex lo) else ''0x'' @ hex lo)"

text \<open>The ring of ten buffers that \<open>p64\<close> and \<open>p64sz\<close> write to.\<close>

definition next_buf :: "nat \<Rightarrow> nat \<times> nat" where
  "next_buf n = (n, if n + 1 = 10 then 0 else n + 1)"

text \<open>\<open>p64sz\<close>: the mantissa with its number of decimals and the tag of the unit.  Division by 1024
  is exact.\<close>

function scale_down :: "rat \<Rightarrow> nat \<Rightarrow> rat \<times> nat" where
  "scale_down d t = (if d > 512 then scale_down (d / 1024) (Suc t) else (d, t))"
  by pat_completeness auto
termination
proof (relation "measure (\<lambda>(d, t). nat \<lceil>d\<rceil>)")
  fix d :: rat and t :: nat
  assume "512 < d"
  then have "d / 1024 \<le> d - 2" by simp
  then have "\<lceil>d / 1024\<rceil> \<le> \<lceil>d\<rceil> - 2" by linarith
  moreover have "512 < \<lceil>d\<rceil>" using \<open>512 < d\<close> by linarith
  ultimately show "((d / 1024, Suc t), d, t) \<in> measure (\<lambda>(d, t). nat \<lceil>d\<rceil>)" by simp
qed simp

declare scale_down.simps [simp del]

definition p64sz :: "rounding \<Rightarrow> u64 \<Rightarrow> ((nat \<times> rat \<times> char) option) res" where
  "p64sz rnd big =
     (let (d, t) = scale_down (dbl rnd big) 0
      in if d = 0 then Inr None
         else if t < length '' KMGTPE'' then Inr (Some (if d < 100 then 4 else 2, d, '' KMGTPE'' ! t))
         else Inl Out_Of_Bounds)"

section \<open>Memory\<close>

text \<open>The loops of \<open>bread\<close>: while \<open>k\<close> more words lie before the end, add them; \<open>mem\<close> are the words
  of the buffer.\<close>

function bread_loop :: "nat \<Rightarrow> u64 list \<Rightarrow> int \<Rightarrow> nat \<Rightarrow> u64 \<Rightarrow> (nat \<times> u64) res" where
  "bread_loop k mem nbytes p sm =
     (if 0 < k \<and> 8 * int (p + k) \<le> nbytes then
        if p + k \<le> length mem then bread_loop k mem nbytes (p + k) (sm + sum_list (take k (drop p mem)))
        else Inl Out_Of_Bounds
      else Inr (p, sm))"
  by pat_completeness auto
termination by (relation "measure (\<lambda>(k, mem, nbytes, p, sm). nat nbytes - p)") auto

declare bread_loop.simps [simp del]

definition bread :: "u64 list \<Rightarrow> int \<Rightarrow> u64 res" where
  "bread mem nbytes =
     and_then (bread_loop 128 mem nbytes 0 0) (\<lambda>(p, sm).
     and_then (bread_loop 16 mem nbytes p sm) (\<lambda>(p', sm').
     and_then (bread_loop 1 mem nbytes p' sm') (\<lambda>(p'', sm''). Inr sm'')))"

text \<open>\<open>touch\<close>: one byte of every whole page; \<open>p\<close> is the offset of \<open>buf\<close>.  With a page size of 0
  the loop would not end.\<close>

partial_function (option) touch_loop :: "nat \<Rightarrow> nat \<Rightarrow> nat \<Rightarrow> u8 list \<Rightarrow> u8 list res option" where
  "touch_loop psize p nbytes mem =
     (if nbytes \<ge> psize then
        if p < length mem then touch_loop psize (p + psize) (nbytes - psize) (mem[p := 1])
        else Some (Inl Out_Of_Bounds)
      else Some (Inr mem))"

definition touch :: "nat \<Rightarrow> nat \<Rightarrow> u8 list \<Rightarrow> u8 list res option" where
  "touch psize nbytes mem = touch_loop psize 0 nbytes mem"

text \<open>\<open>permutation\<close>: \<open>allocated\<close> tells whether \<open>malloc\<close> succeeds, \<open>seed\<close> is the value computed from
  process numbers the first time, \<open>rand i\<close> the random number of pass \<open>i\<close>, and \<open>r\<close> the static
  variable, also returned.\<close>

definition perm_step :: "nat \<Rightarrow> (nat \<Rightarrow> u64) \<Rightarrow> nat \<Rightarrow> u64 \<times> u64 list \<Rightarrow> u64 \<times> u64 list" where
  "perm_step mx rand i = (\<lambda>(r, xs).
     let r' = push_bit 1 r XOR rand i; j = unat r' mod mx; v = xs ! j
     in (r', (xs[j := xs ! i])[i := v]))"

definition permutation ::
  "bool \<Rightarrow> u64 \<Rightarrow> (nat \<Rightarrow> u64) \<Rightarrow> nat \<Rightarrow> u64 \<Rightarrow> u64 \<Rightarrow> (u64 list) option \<times> u64" where
  "permutation allocated seed rand mx scale r =
     (if \<not> allocated then (None, r) else
      let xs = map (\<lambda>i. of_nat i * scale) [0..<mx];
          r0 = (if r = 0 then seed else r);
          (r', xs') = fold (perm_step mx rand) [0..<mx] (r0, xs)
      in (Some xs', r'))"

section \<open>Files\<close>

text \<open>\<open>cp\<close>: what the calls of \<open>read\<close> give (\<open>None\<close> an error, nothing at the end of the file) and what
  the \<open>k\<close>-th call of \<open>write\<close> returns; the result is the value returned and what was written to
  the new file.\<close>

fun cp_loop :: "(nat \<Rightarrow> int) \<Rightarrow> nat \<Rightarrow> u8 list option list \<Rightarrow> u8 list \<Rightarrow> int \<times> u8 list" where
  "cp_loop writes k (Some (b # bs) # reads) out =
     (if writes k < int (length (b # bs)) then (- 1, out @ take (nat (writes k)) (b # bs))
      else cp_loop writes (Suc k) reads (out @ b # bs))"
| "cp_loop writes k reads out = (0, out)"

definition cp :: "bool \<Rightarrow> bool \<Rightarrow> (nat \<Rightarrow> int) \<Rightarrow> u8 list option list \<Rightarrow> int \<times> u8 list option" where
  "cp src_opens dst_opens writes reads =
     (if \<not> src_opens then (- 1, None)
      else if \<not> dst_opens then (- 1, None)
      else let (res, out) = cp_loop writes 0 reads [] in (res, Some out))"

text \<open>\<open>seekto\<close> where there is no \<open>lseek64\<close>: \<open>lseek\<close> is a parameter, \<open>errno\<close> whether an error is
  recorded in the state.\<close>

definition BIGSEEK :: int where "BIGSEEK = 2 ^ 30"

datatype whence = SEEK_SET | SEEK_CUR | SEEK_END

type_synonym 's lseek = "int \<Rightarrow> whence \<Rightarrow> 's \<Rightarrow> int \<times> 's"

function seek_loop :: "'s lseek \<Rightarrow> ('s \<Rightarrow> bool) \<Rightarrow> int \<Rightarrow> int \<Rightarrow> int \<Rightarrow> 's \<Rightarrow> (int \<times> 's) option \<times> 's" where
  "seek_loop lseek errno off here up s =
     (if up = 1 \<and> BIGSEEK < off - here \<or> up = - 1 \<and> off - here < - BIGSEEK then
        let (v, s') = lseek (up * BIGSEEK) SEEK_CUR s in
        if v = - 1 \<and> errno s' then (None, s') else seek_loop lseek errno off (here + up * BIGSEEK) up s'
      else (Some (here, s), s))"
  by pat_completeness auto
termination
  by (relation "measure (\<lambda>(lseek, errno, off, here, up, s). nat \<bar>off - here\<bar>)") (auto simp: BIGSEEK_def)

declare seek_loop.simps [simp del]

definition seekto :: "'s lseek \<Rightarrow> ('s \<Rightarrow> bool) \<Rightarrow> int \<Rightarrow> whence \<Rightarrow> 's \<Rightarrow> int \<times> 's" where
  "seekto lseek errno off wh s =
     (let s1 = (case wh of SEEK_SET \<Rightarrow> Inr (snd (lseek 0 SEEK_SET s))
                | SEEK_END \<Rightarrow> (let (v, s') = lseek 0 SEEK_END s in if v = - 1 then Inl (- 1, s') else Inr s')
                | SEEK_CUR \<Rightarrow> if off = 0 then Inl (lseek 0 SEEK_CUR s) else Inr s)
      in case s1 of
           Inl res \<Rightarrow> res
         | Inr s2 \<Rightarrow>
             (case seek_loop lseek errno off 0 (if off \<ge> 0 then 1 else - 1) s2 of
                (None, s3) \<Rightarrow> (- 1, s3)
              | (Some (here, s3), _) \<Rightarrow>
                  let (v, s4) = lseek (s32 (off - here)) SEEK_CUR s3
                  in if s32 v \<noteq> - 1 \<and> wh = SEEK_SET then (off, s4) else (s32 v, s4)))"


section \<open>Reading back what was printed\<close>

text \<open>Decimal notation.\<close>

fun dec :: "nat \<Rightarrow> string" where
  "dec n = (if n < 10 then [char_of (48 + n)] else dec (n div 10) @ [char_of (48 + n mod 10)])"

declare dec.simps [simp del]

lemma of_char_digit [simp]: "d < 10 \<Longrightarrow> of_char (char_of (48 + d) :: char) = 48 + (d :: nat)"
  by (simp add: of_char_of)

lemma is_digit_char [simp]: "d < (10 :: nat) \<Longrightarrow> is_digit (char_of (48 + d))"
  by (simp add: is_digit_def)

lemma digits_val_snoc: "digits_val (ds @ [c]) = 10 * digits_val ds + (of_char c - 48)"
  by (simp add: digits_val_def)

lemma dec_props: "dec n \<noteq> [] \<and> (\<forall>c \<in> set (dec n). is_digit c) \<and> digits_val (dec n) = n"
proof (induction n rule: dec.induct)
  case (1 n)
  show ?case
  proof (cases "n < 10")
    case True
    then show ?thesis by (simp add: dec.simps [of n] digits_val_def)
  next
    case False
    with 1 have IH: "(\<forall>c \<in> set (dec (n div 10)). is_digit c)" "digits_val (dec (n div 10)) = n div 10" by simp_all
    have m: "n mod 10 < 10" by simp
    show ?thesis
      using False IH m by (simp add: dec.simps [of n] digits_val_snoc del: mod_less_divisor)
  qed
qed

lemma digit_not_special:
  assumes "is_digit c"
  shows "\<not> is_space c" "c \<noteq> CHR ''-''" "c \<noteq> CHR ''+''" "c \<notin> set ''kKmMgG''"
  using assms by (auto simp: is_digit_def is_space_def)

lemma scan_llu_dec:
  assumes "n < 2 ^ 64" "suf = [] \<or> \<not> is_digit (hd suf)"
  shows "scan_llu (dec n @ suf) = Some (of_nat n)"
proof -
  obtain c cs where d: "dec n = c # cs" using dec_props [of n] by (cases "dec n") auto
  then have c: "is_digit c" using dec_props [of n] by auto
  have ws: "dropWhile is_space (dec n @ suf) = dec n @ suf" using d digit_not_special [OF c] by simp
  have tw: "takeWhile is_digit (dec n @ suf) = dec n"
    using dec_props [of n] assms(2) by (cases suf) (auto simp: takeWhile_append2)
  have h: "hd (dec n @ suf) = c" "dec n @ suf \<noteq> []" using d by auto
  show ?thesis
    unfolding scan_llu_def Let_def ws h using digit_not_special [OF c] tw dec_props [of n] assms(1) h(2) d by simp
qed

definition unit_of :: "char \<Rightarrow> nat" where
  "unit_of c = (if c = CHR ''k'' then 2 ^ 10 else if c = CHR ''K'' then 1000 else if c = CHR ''m'' then 2 ^ 20
     else if c = CHR ''M'' then 1000000 else if c = CHR ''g'' then 2 ^ 30 else 1000000000)"

text \<open>sizes on the command line: a decimal number below 2^64, alone or followed by one of the
  letters k, m, g (powers of 1024) and K, M, G (powers of 1000), is read as the number times its
  unit, in 64-bit arithmetic.\<close>

theorem bytes_reads_sizes:
  assumes "n < 2 ^ 64"
  shows "bytes (dec n) = Inr (of_nat n) \<and>
         (c \<in> set ''kKmMgG'' \<longrightarrow> bytes (dec n @ [c]) = Inr (of_nat n * of_nat (unit_of c)))"
proof
  have "List.last (dec n) \<in> set (dec n)" using dec_props [of n] by simp
  then have "List.last (dec n) \<notin> set ''kKmMgG''" using dec_props [of n] digit_not_special(4) by blast
  then show "bytes (dec n) = Inr (of_nat n)"
    using scan_llu_dec [OF assms, of "[]"] dec_props [of n] by (simp add: bytes_def last_char_def)
  show "c \<in> set ''kKmMgG'' \<longrightarrow> bytes (dec n @ [c]) = Inr (of_nat n * of_nat (unit_of c))"
  proof
    assume c: "c \<in> set ''kKmMgG''"
    then have "\<not> is_digit c" by (auto simp: is_digit_def)
    with scan_llu_dec [OF assms, of "[c]"] c show "bytes (dec n @ [c]) = Inr (of_nat n * of_nat (unit_of c))"
      by (auto simp: bytes_def last_char_def unit_of_def push_bit_eq_mult)
  qed
qed

theorem bytes_reads_sizes_witness: "bytes (dec 8 @ [CHR ''m'']) = Inr 8388608"
  using bytes_reads_sizes [of 8 "CHR ''m''"] by (simp add: unit_of_def)

text \<open>The value of a string of hexadecimal digits.\<close>

definition hex_val :: "string \<Rightarrow> nat" where
  "hex_val ds = foldl (\<lambda>v c. 16 * v + (if of_char c < (58 :: nat) then of_char c - 48 else of_char c - 87)) 0 ds"

lemma hex_val_snoc:
  "hex_val (ds @ [c]) = 16 * hex_val ds + (if of_char c < (58 :: nat) then of_char c - 48 else of_char c - 87)"
  by (simp add: hex_val_def)

lemma hex_digit_val:
  assumes "d < 16"
  shows "(if of_char (hex_digit d) < (58 :: nat) then of_char (hex_digit d) - 48 else of_char (hex_digit d) - 87) = d"
  using assms by (auto simp: hex_digit_def of_char_of)

lemma hex_val_hex: "hex_val (hex n) = n"
proof (induction n rule: hex.induct)
  case (1 n)
  show ?case
  proof (cases "n < 16")
    case True
    then show ?thesis using hex_digit_val [of n] by (simp add: hex.simps [of n] hex_val_def)
  next
    case False
    with 1 hex_digit_val [of "n mod 16"] show ?thesis by (simp add: hex.simps [of n] hex_val_snoc)
  qed
qed

lemma length_hex: "n < 16 ^ Suc k \<Longrightarrow> length (hex n) \<le> Suc k"
proof (induction k arbitrary: n)
  case 0
  then show ?case by (simp add: hex.simps [of n])
next
  case (Suc k)
  then have "n div 16 < 16 ^ Suc k" by (simp add: less_mult_imp_div_less mult.commute)
  with Suc.IH show ?case by (cases "n < 16") (auto simp: hex.simps [of n])
qed

lemma hex_val_append: "hex_val (xs @ ys) = hex_val xs * 16 ^ length ys + hex_val ys"
  by (induction ys rule: rev_induct) (simp_all add: hex_val_def [of "[]"] hex_val_snoc append_assoc [symmetric] algebra_simps del: append_assoc)

lemma hex_val_zeros: "hex_val (replicate k CHR ''0'') = 0"
  by (induction k) (simp_all add: hex_val_def)

text \<open>\<open>p64\<close> prints every 64-bit number so that its digits can be read back, and its buffer of
  twenty characters is big enough.\<close>

theorem p64_roundtrip:
  "take 2 (p64 big) = ''0x'' \<and> hex_val (drop 2 (p64 big)) = unat big \<and> length (p64 big) < 20"
proof -
  let ?hi = "unat (drop_bit 32 big)" and ?lo = "unat (take_bit 32 big)"
  have lo: "?lo < 2 ^ 32" using take_bit_nat_less_exp [of 32 "unat big"] by (simp add: unsigned_take_bit_eq)
  have hi: "?hi < 2 ^ 32"
    using unat_bound [of big] by (simp add: drop_bit_eq_div unat_div less_mult_imp_div_less)
  have split: "unat big = ?hi * 2 ^ 32 + ?lo"
    by (simp add: drop_bit_eq_div unat_div take_bit_eq_mod unat_mod)
  have l: "length (hex ?lo) \<le> 8" "length (hex ?hi) \<le> 8"
    using length_hex [of ?lo 7] length_hex [of ?hi 7] lo hi by simp_all
  have p: "length (pad8 (hex ?lo)) = 8" "hex_val (pad8 (hex ?lo)) = ?lo"
    using l(1) by (simp_all add: pad8_def hex_val_append hex_val_zeros hex_val_hex)
  show ?thesis
  proof (cases "?hi = 0")
    case True
    then show ?thesis using split l by (simp add: p64_def hex_val_hex)
  next
    case False
    then show ?thesis using split p l by (simp add: p64_def Let_def hex_val_append hex_val_hex)
  qed
qed

lemma scale_down_val:
  assumes "0 \<le> d" "d \<le> 512 * 1024 ^ k"
  shows "\<exists>m j. scale_down d t = (m, t + j) \<and> j \<le> k \<and> d = m * 1024 ^ j \<and> m \<le> 512"
  using assms
proof (induction k arbitrary: d t)
  case 0
  then show ?case by (simp add: scale_down.simps [of d])
next
  case (Suc k)
  show ?case
  proof (cases "d > 512")
    case True
    with Suc.IH [of "d / 1024" "Suc t"] Suc.prems obtain m j where
      "scale_down (d / 1024) (Suc t) = (m, Suc t + j)" "j \<le> k" "d / 1024 = m * 1024 ^ j" "m \<le> 512" by auto
    moreover have "scale_down d t = scale_down (d / 1024) (Suc t)" using True by (subst scale_down.simps) simp
    ultimately show ?thesis by (intro exI [of _ m] exI [of _ "Suc j"]) simp
  next
    case False
    then show ?thesis by (intro exI [of _ d] exI [of _ 0]) (simp add: scale_down.simps [of d])
  qed
qed

text \<open>The unit of \<open>p64sz\<close> is always one of the seven of its table.\<close>

lemma p64sz_in_table: "\<exists>x. p64sz id big = Inr x"
proof -
  have "(of_nat (unat big) :: rat) < 2 ^ 64"
    using unat_bound [of big] of_nat_less_iff [of "unat big" "2 ^ 64", where ?'a = rat] by simp
  then have "(of_nat (unat big) :: rat) \<le> 512 * 1024 ^ 6" by simp
  from scale_down_val [OF of_nat_0_le_iff this, of 0] obtain m j where
    "scale_down (dbl id big) 0 = (m, j)" "j \<le> 6" by (auto simp: dbl_def)
  then show ?thesis by (simp add: p64sz_def)
qed

section \<open>Walking over memory\<close>

lemma bread_loop_sum:
  assumes "0 < k" "nbytes \<le> 8 * int (length mem)" "p \<le> length mem"
  shows "\<exists>q. bread_loop k mem nbytes p (sum_list (take p mem)) = Inr (q, sum_list (take q mem)) \<and>
           p \<le> q \<and> q \<le> length mem \<and> (8 * int p \<le> nbytes \<longrightarrow> 8 * int q \<le> nbytes) \<and> \<not> 8 * int (q + k) \<le> nbytes"
  using assms(3)
proof (induction "nat nbytes - p" arbitrary: p rule: less_induct)
  case less
  show ?case
  proof (cases "8 * int (p + k) \<le> nbytes")
    case True
    have "int (p + k) \<le> int (length mem)" using True assms(2) by simp
    then have le: "p + k \<le> length mem" by (simp only: of_nat_le_iff)
    have "sum_list (take p mem) + sum_list (take k (drop p mem)) = sum_list (take (p + k) mem)"
      by (simp add: take_add)
    then have u: "bread_loop k mem nbytes p (sum_list (take p mem)) =
        bread_loop k mem nbytes (p + k) (sum_list (take (p + k) mem))"
      using True le assms(1) by (simp add: bread_loop.simps [of k mem nbytes p])
    have dec: "nat nbytes - (p + k) < nat nbytes - p" using True assms(1) by simp
    from less.hyps [OF dec le] obtain q where
      "bread_loop k mem nbytes (p + k) (sum_list (take (p + k) mem)) = Inr (q, sum_list (take q mem))"
      "p + k \<le> q" "q \<le> length mem" "8 * int (p + k) \<le> nbytes \<longrightarrow> 8 * int q \<le> nbytes" "\<not> 8 * int (q + k) \<le> nbytes"
      by blast
    with True u show ?thesis by (intro exI [of _ q]) simp
  next
    case False
    then show ?thesis using less.prems by (intro exI [of _ p]) (simp add: bread_loop.simps [of k mem nbytes p])
  qed
qed

text \<open>C21: \<open>bread\<close>, unrolled over 128, 16 and single words, reads every whole word of the buffer
  exactly once: its result is the plain sum, in 64 bits, of the first \<open>nbytes / 8\<close> words, and it
  reads nothing outside a buffer of \<open>nbytes\<close> bytes.\<close>

theorem bread_is_sum:
  assumes "nbytes \<le> 8 * int (length mem)"
  shows "bread mem nbytes = Inr (sum_list (take (nat nbytes div 8) mem))"
proof (cases "0 \<le> nbytes")
  case True
  from bread_loop_sum [OF _ assms, of 128 0] True obtain p where
    p: "bread_loop 128 mem nbytes 0 0 = Inr (p, sum_list (take p mem))" "p \<le> length mem" "8 * int p \<le> nbytes" by auto
  from bread_loop_sum [OF _ assms p(2), of 16] p(3) obtain q where
    q: "bread_loop 16 mem nbytes p (sum_list (take p mem)) = Inr (q, sum_list (take q mem))"
       "q \<le> length mem" "8 * int q \<le> nbytes" by auto
  from bread_loop_sum [OF _ assms q(2), of 1] q(3) obtain r where
    r: "bread_loop 1 mem nbytes q (sum_list (take q mem)) = Inr (r, sum_list (take r mem))"
       "8 * int r \<le> nbytes" "\<not> 8 * int (r + 1) \<le> nbytes" by auto
  have "nat nbytes div 8 = r" by (rule div_nat_eqI) (use r(2,3) in \<open>simp_all add: le_nat_iff nat_less_iff\<close>)
  with p(1) q(1) r(1) show ?thesis by (simp add: bread_def)
next
  case False
  then have "bread_loop k mem nbytes p x = Inr (p, x)" for k p x by (subst bread_loop.simps) simp
  with False show ?thesis by (simp add: bread_def)
qed

theorem bread_is_sum_witness: "bread [3, 4, 5] 17 = Inr 7"
proof -
  have "take 2 [3, 4, 5 :: u64] = [3, 4]" by (simp add: numeral_2_eq_2)
  then show ?thesis using bread_is_sum [of 17 "[3, 4, 5]"] by simp
qed

text \<open>\<open>touch\<close> ends, and writes to the first byte of every whole page and to nothing else.\<close>

lemma touch_pages:
  assumes "0 < psize" "p + nbytes \<le> length mem"
  shows "\<exists>mem'. touch_loop psize p nbytes mem = Some (Inr mem') \<and> length mem' = length mem \<and>
           (\<forall>i < length mem. mem' ! i = (if \<exists>k < nbytes div psize. i = p + k * psize then 1 else mem ! i))"
  using assms(2)
proof (induction "nbytes div psize" arbitrary: p nbytes mem)
  case 0
  then have "nbytes < psize" using assms(1) by (simp add: div_eq_0_iff)
  then show ?case by (subst touch_loop.simps) simp
next
  case (Suc j)
  have ge: "psize \<le> nbytes" using Suc.hyps(2) assms(1) by (cases "nbytes < psize") auto
  have j: "j = (nbytes - psize) div psize" using Suc.hyps(2) ge assms(1) by (simp add: le_div_geq)
  have lt: "p < length mem" using ge assms(1) Suc.prems by linarith
  from Suc.hyps(1) [OF j, of "p + psize" "mem[p := 1]"] ge Suc.prems obtain mem' where
    m: "touch_loop psize (p + psize) (nbytes - psize) (mem[p := 1]) = Some (Inr mem')" "length mem' = length mem"
       "\<And>i. i < length mem \<Longrightarrow> mem' ! i = (if \<exists>k < j. i = p + psize + k * psize then 1 else mem[p := 1] ! i)"
    using j by auto
  have "(\<exists>k < Suc j. i = p + k * psize) \<longleftrightarrow> i = p \<or> (\<exists>k < j. i = p + psize + k * psize)" for i
    unfolding Ex_less_Suc2 by (simp add: add.assoc)
  then have "mem' ! i = (if \<exists>k < Suc j. i = p + k * psize then 1 else mem ! i)" if "i < length mem" for i
    using m(3) [OF that] lt by auto
  moreover have "touch_loop psize p nbytes mem = Some (Inr mem')"
    using m(1) ge lt by (subst touch_loop.simps) simp
  ultimately show ?case using m(2) Suc.hyps(2) by auto
qed

section \<open>Permutations\<close>

lemma perm_step_mset:
  assumes "length xs = mx" "i < mx"
  shows "length (snd (perm_step mx rand i (r, xs))) = mx" "mset (snd (perm_step mx rand i (r, xs))) = mset xs"
proof -
  let ?j = "unat (push_bit 1 r XOR rand i) mod mx"
  have j: "?j < length xs" using assms by simp
  show "length (snd (perm_step mx rand i (r, xs))) = mx" using assms(1) by (simp add: perm_step_def Let_def)
  show "mset (snd (perm_step mx rand i (r, xs))) = mset xs"
    using mset_list_update_swap [of ?j xs i] j assms by (simp add: perm_step_def Let_def)
qed

lemma perm_fold_mset:
  assumes "length xs = mx" "\<forall>i \<in> set is. i < mx"
  shows "mset (snd (fold (perm_step mx rand) is (r, xs))) = mset xs"
  using assms
proof (induction "is" arbitrary: r xs)
  case (Cons i "is")
  obtain r' xs' where s: "perm_step mx rand i (r, xs) = (r', xs')" by fastforce
  with perm_step_mset [of xs mx i rand r] Cons.prems have "length xs' = mx" "mset xs' = mset xs" by auto
  with Cons.IH [of xs' r'] Cons.prems s show ?case by simp
qed simp

lemma multiples_distinct:
  fixes scale :: u64
  assumes "0 < scale" "mx * unat scale \<le> 2 ^ 64"
  shows "distinct (map (\<lambda>i. of_nat i * scale) [0..<mx])"
proof -
  have u: "unat (of_nat i * scale) = i * unat scale" if "i < mx" for i
  proof -
    have s: "0 < unat scale" using assms(1) by (simp add: word_less_nat_alt)
    have "i * unat scale < mx * unat scale" using that s by simp
    then have b: "i * unat scale < 2 ^ 64" using assms(2) by linarith
    moreover have "i \<le> i * unat scale" using s by simp
    ultimately have "i < 2 ^ 64" by linarith
    then show ?thesis using b by (simp add: unat_mult_lem unat_word_ariths unat_of_nat)
  qed
  have s: "0 < unat scale" using assms(1) by (simp add: word_less_nat_alt)
  have "inj_on (\<lambda>i. of_nat i * scale) {0..<mx}"
  proof (rule inj_onI)
    fix i j assume "i \<in> {0..<mx}" "j \<in> {0..<mx}" "of_nat i * scale = of_nat j * scale"
    then have "i * unat scale = j * unat scale" using u by (metis atLeastLessThan_iff)
    with s show "i = j" by simp
  qed
  then show ?thesis by (simp add: distinct_map)
qed

lemma permutation_mset:
  assumes "permutation True seed rand mx scale r = (Some xs, r')"
  shows "mset xs = mset (map (\<lambda>i. of_nat i * scale) [0..<mx])"
proof -
  let ?xs = "map (\<lambda>i. of_nat i * scale) [0..<mx]"
  have "xs = snd (fold (perm_step mx rand) [0..<mx] (if r = 0 then seed else r, ?xs))"
    using assms by (simp add: permutation_def Let_def case_prod_unfold split: if_splits)
  then show ?thesis using perm_fold_mset [of ?xs mx "[0..<mx]" rand] by simp
qed

text \<open>C20: the random walks through memory visit everything: whatever the random numbers, the result
  of \<open>permutation\<close> holds each of the offsets 0, scale, 2 scale, ... exactly once, and they are
  different if the last one fits into 64 bits.\<close>

theorem permutation_permutes:
  assumes "permutation True seed rand mx scale r = (Some xs, r')"
  shows "mset xs = mset (map (\<lambda>i. of_nat i * scale) [0..<mx]) \<and>
         (0 < scale \<and> mx * unat scale \<le> 2 ^ 64 \<longrightarrow> distinct xs)"
  using permutation_mset [OF assms] multiples_distinct by (metis mset_eq_imp_distinct_iff)

theorem permutation_permutes_witness:
  "\<exists>xs r'. permutation True 5 (\<lambda>i. of_nat (7 * i)) 2 64 0 = (Some xs, r') \<and> mset xs = {#0, 64#} \<and> distinct xs"
proof -
  obtain xs r' where p: "permutation True 5 (\<lambda>i. of_nat (7 * i)) 2 64 0 = (Some xs, r')"
    by (simp add: permutation_def Let_def case_prod_unfold)
  have "map (\<lambda>i. of_nat i * 64) [0..<2] = [0, 64 :: u64]" by (simp add: numeral_2_eq_2)
  with permutation_permutes [OF p] p show ?thesis by auto
qed

section \<open>Copying and seeking\<close>

text \<open>A copy whose writes are complete has the contents of the source up to the first read that
  gives nothing; an error while reading is taken for the end of the file and reported as success.\<close>

lemma cp_loop_copies:
  assumes "\<forall>c \<in> set chunks. c \<noteq> []" "\<forall>j < length chunks. int (length (chunks ! j)) \<le> writes (k + j)"
    and "rest = [] \<or> hd rest = None \<or> hd rest = Some []"
  shows "cp_loop writes k (map Some chunks @ rest) out = (0, out @ concat chunks)"
  using assms(1,2)
proof (induction chunks arbitrary: k out)
  case Nil
  then show ?case using assms(3) by (cases rest) auto
next
  case (Cons c chunks)
  obtain b bs where c: "c = b # bs" using Cons.prems(1) by (cases c) auto
  have "int (length c) \<le> writes k" using Cons.prems(2) by force
  moreover have "\<forall>j < length chunks. int (length (chunks ! j)) \<le> writes (Suc k + j)"
    using Cons.prems(2) by force
  ultimately show ?case using Cons.IH [of "Suc k" "out @ c"] Cons.prems(1) c by simp
qed

lemma cp_copies:
  assumes "\<forall>c \<in> set chunks. c \<noteq> []" "\<forall>j < length chunks. int (length (chunks ! j)) \<le> writes j"
    and "rest = [] \<or> hd rest = None \<or> hd rest = Some []"
  shows "cp True True writes (map Some chunks @ rest) = (0, Some (concat chunks))"
  using cp_loop_copies [OF assms(1) _ assms(3), of writes 0 "[]"] assms(2) by (simp add: cp_def)

text \<open>A file position that \<open>lseek\<close> moves.\<close>

definition ideal_lseek :: "int \<Rightarrow> int lseek" where
  "ideal_lseek len off wh pos =
     (let pos' = (case wh of SEEK_SET \<Rightarrow> off | SEEK_CUR \<Rightarrow> pos + off | SEEK_END \<Rightarrow> len + off) in (pos', pos'))"

lemma seek_loop_forward:
  assumes "0 \<le> off - here" "0 \<le> pos"
  shows "\<exists>h. seek_loop (ideal_lseek len) errno off here 1 pos = (Some (h, pos + (h - here)), pos + (h - here)) \<and>
           here \<le> h \<and> h \<le> off \<and> off - h \<le> BIGSEEK"
  using assms
proof (induction "nat (off - here)" arbitrary: here pos rule: less_induct)
  case less
  show ?case
  proof (cases "BIGSEEK < off - here")
    case True
    have "\<exists>h. seek_loop (ideal_lseek len) errno off (here + BIGSEEK) 1 (pos + BIGSEEK) =
             (Some (h, pos + BIGSEEK + (h - (here + BIGSEEK))), pos + BIGSEEK + (h - (here + BIGSEEK))) \<and>
           here + BIGSEEK \<le> h \<and> h \<le> off \<and> off - h \<le> BIGSEEK"
      by (rule less.hyps) (use True less.prems in \<open>auto simp: BIGSEEK_def\<close>)
    then obtain h where h: "seek_loop (ideal_lseek len) errno off (here + BIGSEEK) 1 (pos + BIGSEEK) =
             (Some (h, pos + (h - here)), pos + (h - here))" "here + BIGSEEK \<le> h" "h \<le> off" "off - h \<le> BIGSEEK" by auto
    have "seek_loop (ideal_lseek len) errno off here 1 pos = seek_loop (ideal_lseek len) errno off (here + BIGSEEK) 1 (pos + BIGSEEK)"
      using True less.prems by (subst seek_loop.simps) (simp add: ideal_lseek_def BIGSEEK_def Let_def)
    with h show ?thesis by (intro exI [of _ h]) (simp add: BIGSEEK_def)
  next
    case False
    then show ?thesis using less.prems by (intro exI [of _ here]) (simp add: seek_loop.simps [of _ _ off here])
  qed
qed

text \<open>Seeking to an absolute offset of any size ends at this offset and returns it.\<close>

lemma seekto_set:
  assumes "0 \<le> off"
  shows "seekto (ideal_lseek len) errno off SEEK_SET pos = (off, off) \<or> s32 off = - 1"
proof -
  from seek_loop_forward [of off 0 0 len errno] assms obtain h where
    h: "seek_loop (ideal_lseek len) errno off 0 1 0 = (Some (h, h), h)" "0 \<le> h" "h \<le> off" "off - h \<le> BIGSEEK"
    by auto
  have s: "s32 (off - h) = off - h" using h by (intro s32_nonneg) (auto simp: BIGSEEK_def)
  show ?thesis using assms h s by (auto simp: seekto_def ideal_lseek_def)
qed

end
