(* ===== verification/Lm_Mem.thy ===== *)
theory Lm_Mem
  imports Lm_Util
begin

text \<open>
  The pointer chains of the memory benchmarks, from \<open>src/lmbench-3.0-a9/src/lib_mem.c\<close>: each
  \<open>*_initialize\<close> writes a circular list of pointers into a buffer, \<open>mem_benchmark_N\<close> follows several
  of them at once.  Addresses and sizes are natural numbers (an allocated block never wraps around the
  address space); memory maps an address to the pointer stored there, and a store destroys every
  pointer it overlaps.  An array is a list, \<open>None\<close> the null pointer.
\<close>

section \<open>Memory\<close>

text \<open>The blocks that may be written, the pointers in them, and the static variables of the library:
  \<open>mem_benchmark_rerun\<close>, and for every \<open>mem_benchmark_N\<close> its \<open>addr_save\<close> and saved pointers.\<close>

record heap =
  h_cells :: "nat \<Rightarrow> nat option"
  h_blocks :: "(nat \<times> nat) list"
  h_rerun :: bool
  h_saved :: "nat \<Rightarrow> nat \<times> nat list"

definition in_block :: "(nat \<times> nat) list \<Rightarrow> nat \<Rightarrow> bool" where
  "in_block bs a = list_ex (\<lambda>(b, n). b \<le> a \<and> a + 8 \<le> b + n) bs"

definition put_ptr :: "nat \<Rightarrow> nat \<Rightarrow> heap \<Rightarrow> heap res" where
  "put_ptr a v h =
     (if in_block (h_blocks h) a
      then Inr (h\<lparr>h_cells := \<lambda>a'. if a' = a then Some v else if a' < a + 8 \<and> a < a' + 8 then None else h_cells h a'\<rparr>)
      else Inl Out_Of_Bounds)"

definition get_ptr :: "heap \<Rightarrow> nat \<Rightarrow> nat res" where
  "get_ptr h a =
     (if in_block (h_blocks h) a
      then case h_cells h a of None \<Rightarrow> Inl (Panic ''not a pointer'') | Some v \<Rightarrow> Inr v
      else Inl Out_Of_Bounds)"

text \<open>A loop nest whose body is a single store of a pointer is the list of its stores.\<close>

type_synonym writes = "(nat \<times> nat) list"

definition put_all :: "writes \<Rightarrow> heap \<Rightarrow> heap res" where
  "put_all ws h = run_all (\<lambda>(a, v). put_ptr a v) ws h"

section \<open>Following the chain\<close>

text \<open>\<open>struct mem_state\<close>.\<close>

record mem_state =
  ms_addr :: nat
  ms_base :: nat
  ms_p :: "nat list"
  ms_initialized :: bool
  ms_width :: nat
  ms_len :: nat
  ms_maxlen :: nat
  ms_line :: nat
  ms_pagesize :: nat
  ms_nlines :: nat
  ms_npages :: nat
  ms_nwords :: nat
  ms_pages :: "nat list option"
  ms_lines :: "nat list option"
  ms_words :: "nat list option"

definition MAX_MEM_PARALLELISM :: nat where
  "MAX_MEM_PARALLELISM = 16"

definition mem_reset :: "heap \<Rightarrow> heap" where
  "mem_reset h = h\<lparr>h_rerun := False\<rparr>"

text \<open>\<open>DEREF\<close> of all pointers, one after the other, \<open>k\<close> times.\<close>

fun deref_all :: "heap \<Rightarrow> nat list \<Rightarrow> nat list res" where
  "deref_all h [] = Inr []"
| "deref_all h (p # ps) = and_then (get_ptr h p) (\<lambda>q. and_then (deref_all h ps) (\<lambda>qs. Inr (q # qs)))"

fun chase :: "heap \<Rightarrow> nat \<Rightarrow> nat list \<Rightarrow> nat list res" where
  "chase h 0 ps = Inr ps"
| "chase h (Suc k) ps = and_then (deref_all h ps) (chase h k)"

text \<open>\<open>mem_benchmark_N\<close>, for the pointers 0 to N: it goes on where the last run of the same benchmark
  ended unless the chain has been reset.\<close>

definition mem_benchmark :: "nat \<Rightarrow> nat \<Rightarrow> mem_state \<Rightarrow> heap \<Rightarrow> heap res" where
  "mem_benchmark N iters st h =
     (let (addr_save, sp) = h_saved h N;
          ps = (if h_rerun h \<and> addr_save = ms_addr st then sp else take (Suc N) (ms_p st))
      in and_then (chase h (100 * iters) ps) (\<lambda>qs.
         Inr (h\<lparr>h_saved := (h_saved h)(N := (ms_addr st, qs)), h_rerun := True\<rparr>)))"

section \<open>Buffers\<close>

text \<open>\<open>free\<close> gives a block back.\<close>

definition free_block :: "nat \<Rightarrow> heap \<Rightarrow> heap" where
  "free_block a h = h\<lparr>h_blocks := filter (\<lambda>(b, n). b \<noteq> a) (h_blocks h)\<rparr>"

definition mem_cleanup :: "nat \<Rightarrow> mem_state \<Rightarrow> heap \<Rightarrow> mem_state \<times> heap" where
  "mem_cleanup iters st h =
     (if iters \<noteq> 0 then (st, h) else
      (st\<lparr>ms_addr := 0, ms_lines := None, ms_pages := None, ms_words := None\<rparr>,
       if ms_addr st \<noteq> 0 then free_block (ms_addr st) h else h))"

text \<open>In \<open>tlb_cleanup\<close> \<open>addr\<close> is the array of the pages' blocks, here \<open>blocks\<close>.\<close>

definition tlb_cleanup :: "nat \<Rightarrow> nat list \<Rightarrow> mem_state \<Rightarrow> heap \<Rightarrow> mem_state \<times> heap" where
  "tlb_cleanup iters blocks st h =
     (if iters \<noteq> 0 then (st, h) else
      (st\<lparr>ms_addr := 0, ms_pages := None, ms_lines := None\<rparr>,
       if ms_addr st \<noteq> 0 then fold (\<lambda>b h. if b \<noteq> 0 then free_block b h else h) (take (ms_npages st) blocks) h else h))"

text \<open>What the initialisations meet: the results of \<open>malloc\<close> for the buffer, of \<open>permutation\<close> (whether
  it gets memory, its seed, its random numbers and static variable), and of the \<open>malloc\<close> of
  \<open>words_initialize\<close>.\<close>

record mem_env =
  me_malloc :: "nat \<Rightarrow> nat option"
  me_perm_ok :: bool
  me_seed :: u64
  me_rand :: "nat \<Rightarrow> u64"
  me_r :: u64
  me_words_ok :: bool

text \<open>\<open>words_initialize\<close>: the numbers below \<open>max\<close> with their bits reversed, times \<open>scale\<close>.\<close>

fun count_bits :: "nat \<Rightarrow> nat" where
  "count_bits i = (if i = 0 then 0 else Suc (count_bits (i div 2)))"

declare count_bits.simps [simp del]

definition reverse_bits :: "nat \<Rightarrow> nat \<Rightarrow> nat" where
  "reverse_bits nbits i = fold (\<lambda>j w. if bit i j then w OR 2 ^ (nbits - j - 1) else w) [0..<nbits] 0"

definition words_initialize :: "bool \<Rightarrow> nat \<Rightarrow> nat \<Rightarrow> nat list option" where
  "words_initialize allocated mx scale =
     (if \<not> allocated then None else
      let nbits = count_bits (mx div 2) in Some (map (\<lambda>i. reverse_bits nbits i * scale) [0..<mx]))"

definition base_initialize :: "mem_env \<Rightarrow> nat \<Rightarrow> mem_state \<Rightarrow> heap \<Rightarrow> (mem_state \<times> heap) res" where
  "base_initialize E iters st h =
     (if iters \<noteq> 0 then Inr (st, h)
      else if ms_line st = 0 \<or> ms_pagesize st = 0 then Inl Div_By_Zero
      else
        let psz = ms_pagesize st; nmpages = (ms_maxlen st + psz - 1) div psz; room = ms_maxlen st + 2 * psz;
            pages = map_option (map unat) (fst (permutation (me_perm_ok E) (me_seed E) (me_rand E) nmpages (of_nat psz) (me_r E)))
        in case me_malloc E room of
             None \<Rightarrow> Inl (Exit 1)
           | Some p \<Rightarrow>
             (let st1 = st\<lparr>ms_initialized := False, ms_addr := p, ms_nwords := ms_line st div 8, ms_nlines := psz div ms_line st,
                    ms_npages := (ms_len st + psz - 1) div psz, ms_lines := None, ms_pages := pages, ms_words := None\<rparr>;
                  h1 = h\<lparr>h_blocks := (p, room) # h_blocks h\<rparr>
              in if pages = None then Inr (st1, h1)
                 else Inr (st1\<lparr>ms_base := if p mod psz \<noteq> 0 then p + (psz - p mod psz) else p, ms_initialized := True\<rparr>, mem_reset h1)))"

section \<open>The chains\<close>

text \<open>\<open>stride_initialize\<close>: the loop up to the last element, which is linked to the first.\<close>

function stride_loop :: "nat \<Rightarrow> nat \<Rightarrow> nat \<Rightarrow> nat \<Rightarrow> writes \<times> nat" where
  "stride_loop addr stride len i =
     (if 0 < stride \<and> i < len then
        let (ws, i') = stride_loop addr stride len (i + stride) in ((addr + (i - stride), addr + i) # ws, i')
      else ([], i))"
  by pat_completeness auto
termination by (relation "measure (\<lambda>(addr, stride, len, i). len - i)") auto

declare stride_loop.simps [simp del]

definition stride_initialize :: "mem_env \<Rightarrow> nat \<Rightarrow> mem_state \<Rightarrow> heap \<Rightarrow> (mem_state \<times> heap) res" where
  "stride_initialize E iters st h =
     and_then (base_initialize E iters st h) (\<lambda>(st, h).
       if \<not> ms_initialized st then Inr (st, h) else
       let addr = ms_base st; (ws, i) = stride_loop addr (ms_line st) (ms_len st) (ms_line st)
       in and_then (put_all (ws @ [(addr + (i - ms_line st), addr)]) h) (\<lambda>h.
            Inr (st\<lparr>ms_p := (ms_p st)[0 := addr]\<rparr>, mem_reset h)))"

text \<open>\<open>thrash_initialize\<close>: from each page to the same place, one word on, of the next page; for lengths
  that are not whole pages from word to word.  A read of \<open>pages\<close> beyond its end is out of bounds,
  and so is the first store of a run over no pages or words, whose bound wraps around.\<close>

definition thrash_words :: "nat \<Rightarrow> nat list \<Rightarrow> writes" where
  "thrash_words addr words =
     map (\<lambda>i. (addr + words ! i, addr + words ! Suc i)) [0..<length words - 1] @ [(addr + words ! (length words - 1), addr)]"

definition thrash_page :: "nat \<Rightarrow> nat list \<Rightarrow> nat \<Rightarrow> nat \<Rightarrow> nat \<Rightarrow> nat \<Rightarrow> writes" where
  "thrash_page addr words i shift cpage npage =
     map (\<lambda>j. (addr + (cpage + words ! ((i + j) mod length words)), addr + (npage + words ! ((shift + j + 1) mod length words))))
       [0..<length words]"

definition thrash_pages :: "nat \<Rightarrow> nat list \<Rightarrow> nat list \<Rightarrow> nat \<Rightarrow> writes" where
  "thrash_pages addr words pages n =
     concat (map (\<lambda>i. thrash_page addr words i i (pages ! i) (pages ! Suc i)) [0..<n - 1]) @
     thrash_page addr words (n - 1) 0 (pages ! (n - 1)) (pages ! 0)"

definition thrash_initialize :: "mem_env \<Rightarrow> nat \<Rightarrow> mem_state \<Rightarrow> heap \<Rightarrow> (mem_state \<times> heap) res" where
  "thrash_initialize E iters st h =
     and_then (base_initialize E iters st h) (\<lambda>(st, h).
       if \<not> ms_initialized st then Inr (st, h) else
       let addr = ms_base st; whole = (ms_len st mod ms_pagesize st = 0);
           nwords = (if whole then ms_pagesize st else ms_len st) div ms_line st;
           st = st\<lparr>ms_nwords := nwords, ms_words := words_initialize (me_words_ok E) nwords (ms_line st)\<rparr>
       in case (ms_words st, ms_pages st) of
            (None, _) \<Rightarrow> Inl (Exit (if whole then 2 else 1))
          | (_, None) \<Rightarrow> Inl Null_Deref
          | (Some words, Some pages) \<Rightarrow>
              if whole then
                if ms_npages st = 0 \<or> length pages < ms_npages st then Inl Out_Of_Bounds else
                and_then (put_all (thrash_pages addr words pages (ms_npages st)) h) (\<lambda>h.
                  Inr (st\<lparr>ms_p := (ms_p st)[0 := addr + pages ! 0]\<rparr>, mem_reset h))
              else if nwords = 0 then Inl Out_Of_Bounds else
                and_then (put_all (thrash_words addr words) h) (\<lambda>h.
                  Inr (st\<lparr>ms_p := (ms_p st)[0 := addr]\<rparr>, mem_reset h)))"

text \<open>\<open>mem_initialize\<close>: all words of a line are linked to those of the next line.\<close>

definition line_links :: "nat \<Rightarrow> nat \<Rightarrow> nat \<Rightarrow> writes" where
  "line_links line from to = map (\<lambda>k. (from + 8 * k, to + 8 * k)) [0..<(line + 7) div 8]"

text \<open>The loop over the lines of one page (at \<open>page\<close>), for the counters \<open>j\<close> and \<open>l\<close>: the stores, the
  start pointers with the new ones, and the counters at its end.\<close>

function mem_lines ::
  "nat \<Rightarrow> nat list \<Rightarrow> nat list \<Rightarrow> nat \<Rightarrow> nat \<Rightarrow> nat \<Rightarrow> nat \<Rightarrow> nat \<Rightarrow> nat \<times> nat list \<Rightarrow> (writes \<times> nat \<times> nat \<times> nat list) res" where
  "mem_lines page lines words nlines npointers line width j lp =
     (let (l, ps) = lp in
      if Suc j < nlines \<and> Suc l < npointers then
        if width = 0 \<or> npointers div width = 0 \<or> words = [] then Inl Div_By_Zero else
        let step = npointers div width; k = l div step;
            ps' = (if l mod step = 0 \<and> k < MAX_MEM_PARALLELISM
                   then ps[k := page + lines ! j + words ! (k mod length words)] else ps)
        in and_then (mem_lines page lines words nlines npointers line width (Suc j) (Suc l, ps')) (\<lambda>(ws, rest).
             Inr (line_links line (page + lines ! j) (page + lines ! Suc j) @ ws, rest))
      else Inr ([], j, l, ps))"
  by pat_completeness auto
termination by (relation "measure (\<lambda>(page, lines, words, nlines, npointers, line, width, j, lp). nlines - j)") auto

declare mem_lines.simps [simp del]

text \<open>The loop over the pages from \<open>i\<close> on; \<open>rest\<close> are the pages that follow page \<open>page\<close>.\<close>

fun mem_pages ::
  "nat \<Rightarrow> nat list \<Rightarrow> nat list \<Rightarrow> nat \<Rightarrow> nat \<Rightarrow> nat \<Rightarrow> nat \<Rightarrow> nat list \<Rightarrow> nat \<times> nat list \<Rightarrow> (writes \<times> nat \<times> nat list) res" where
  "mem_pages p lines words nlines npointers line width [] lp = Inl Out_Of_Bounds"
| "mem_pages p lines words nlines npointers line width (page # rest) lp =
     and_then (mem_lines (p + page) lines words nlines npointers line width 0 lp) (\<lambda>(ws, j, l, ps).
       if rest = [] then Inr (ws, j, ps)
       else and_then (mem_pages p lines words nlines npointers line width rest (l, ps)) (\<lambda>(ws', out).
         Inr (ws @ map (\<lambda>k. (p + page + lines ! j + words ! k, p + hd rest + lines ! 0 + words ! k)) [0..<length words] @ ws', out)))"

definition mem_close :: "nat \<Rightarrow> nat \<Rightarrow> nat list \<Rightarrow> writes" where
  "mem_close from to words =
     map (\<lambda>k. (from + words ! k, to + words ! (if k = length words - 1 then 0 else k + 1))) [0..<length words]"

definition mem_initialize :: "mem_env \<Rightarrow> nat \<Rightarrow> mem_state \<Rightarrow> heap \<Rightarrow> (mem_state \<times> heap) res" where
  "mem_initialize E iters st h =
     (if iters \<noteq> 0 then Inr (st, h) else
      and_then (base_initialize E iters st h) (\<lambda>(st, h).
       if \<not> ms_initialized st then Inr (st, h) else
       let st = st\<lparr>ms_initialized := False, ms_words := words_initialize (me_words_ok E) (ms_nwords st) 8,
                   ms_lines := words_initialize (me_words_ok E) (ms_nlines st) (ms_line st)\<rparr>;
           npointers = ms_len st div ms_line st; p = ms_base st
       in case (ms_words st, ms_lines st, ms_pages st) of
            (Some words, Some lines, Some pages) \<Rightarrow>
              if length pages < ms_npages st \<or> ms_npages st = 0 \<or> lines = [] then Inl Out_Of_Bounds else
              and_then (mem_pages p lines words (ms_nlines st) npointers (ms_line st) (ms_width st) (take (ms_npages st) pages) (0, ms_p st))
                (\<lambda>(ws, j, ps).
                  let st = st\<lparr>ms_p := ps\<rparr> in
                  and_then (put_all (ws @ mem_close (p + pages ! (ms_npages st - 1) + lines ! j) (p + pages ! 0 + lines ! 0) words) h) (\<lambda>h.
                  if ms_width st = 0 \<or> MAX_MEM_PARALLELISM < ms_width st then Inl Out_Of_Bounds else
                  and_then (mem_benchmark (ms_width st - 1) ((ms_nwords st * npointers + 100) div 100) st (mem_reset h)) (\<lambda>h.
                  Inr (st\<lparr>ms_initialized := True\<rparr>, h))))
          | _ \<Rightarrow> Inl (Exit 1)))"

text \<open>\<open>line_initialize\<close>: only the first word of every line.\<close>

definition line_page :: "nat \<Rightarrow> nat list \<Rightarrow> nat \<Rightarrow> nat \<Rightarrow> writes" where
  "line_page p lines page next_page =
     map (\<lambda>j. (p + page + lines ! j, p + page + lines ! Suc j)) [0..<length lines - 1] @
     [(p + page + lines ! (length lines - 1), p + next_page + lines ! 0)]"

definition line_initialize :: "mem_env \<Rightarrow> nat \<Rightarrow> mem_state \<Rightarrow> heap \<Rightarrow> (mem_state \<times> heap) res" where
  "line_initialize E iters st h =
     (if iters \<noteq> 0 then Inr (st, h) else
      and_then (base_initialize E iters st h) (\<lambda>(st, h).
       if \<not> ms_initialized st then Inr (st, h) else
       let st = st\<lparr>ms_initialized := False, ms_lines := words_initialize (me_words_ok E) (ms_nlines st) (ms_line st), ms_width := 1\<rparr>;
           p = ms_base st; n = ms_npages st
       in case (ms_lines st, ms_pages st) of
            (Some lines, Some pages) \<Rightarrow>
              if length pages < n \<or> n = 0 \<or> lines = [] then Inl Out_Of_Bounds else
              and_then (put_all (concat (map (\<lambda>i. line_page p lines (pages ! i) (pages ! (if i < n - 1 then i + 1 else 0))) [0..<n])) h) (\<lambda>h.
              let st = st\<lparr>ms_p := (ms_p st)[0 := p + pages ! 0 + lines ! 0]\<rparr> in
              and_then (mem_benchmark 0 ((ms_nlines st * n + 100) div 100) st (mem_reset h)) (\<lambda>h.
              Inr (st\<lparr>ms_initialized := True\<rparr>, h)))
          | _ \<Rightarrow> Inr (st, h)))"

text \<open>\<open>tlb_initialize\<close>: a block for every page; \<open>valloc\<close> is asked again for twice the size if a block
  is not aligned.  The result is the address given, the size of the block, and the aligned page.\<close>

definition tlb_page :: "nat \<Rightarrow> nat option \<times> nat option \<Rightarrow> (nat \<times> nat \<times> nat) res" where
  "tlb_page pagesize v =
     (case fst v of
        None \<Rightarrow> Inl (Exit 4)
      | Some p \<Rightarrow>
          if p mod pagesize = 0 then Inr (p, pagesize, p)
          else case snd v of
                 None \<Rightarrow> Inl (Exit 5)
               | Some q \<Rightarrow> Inr (q, 2 * pagesize, q + (pagesize - q mod pagesize)))"

fun tlb_layout :: "nat \<Rightarrow> (nat option \<times> nat option) list \<Rightarrow> (nat \<times> nat \<times> nat) list res" where
  "tlb_layout pagesize [] = Inr []"
| "tlb_layout pagesize (v # vs) = and_then (tlb_page pagesize v) (\<lambda>b. and_then (tlb_layout pagesize vs) (\<lambda>bs. Inr (b # bs)))"

text \<open>The shuffle of all pages but the first; \<open>rand k\<close> is the value of the \<open>k\<close>-th call of \<open>rand\<close>.\<close>

definition tlb_swap :: "(nat \<Rightarrow> u32) \<Rightarrow> nat \<Rightarrow> u32 \<times> nat list \<Rightarrow> u32 \<times> nat list" where
  "tlb_swap rand i = (\<lambda>(r, pages).
     let r' = push_bit 1 r XOR drop_bit 4 (rand i); o' = unat r' mod i + 1; l = pages ! o'
     in (r', (pages[o' := pages ! (i + 1)])[i + 1 := l]))"

definition tlb_shuffle :: "(nat \<Rightarrow> u32) \<Rightarrow> u32 \<Rightarrow> nat \<Rightarrow> nat list \<Rightarrow> nat list" where
  "tlb_shuffle rand r n pages = snd (fold (tlb_swap rand) (rev [1..<n - 1]) (r, pages))"

definition tlb_writes :: "nat list \<Rightarrow> nat list \<Rightarrow> writes" where
  "tlb_writes pages lines =
     map (\<lambda>i. (pages ! i + lines ! (i mod length lines), pages ! Suc i + lines ! (Suc i mod length lines))) [0..<length pages - 1] @
     [(pages ! (length pages - 1) + lines ! ((length pages - 1) mod length lines), pages ! 0 + lines ! 0)]"

definition tlb_initialize ::
  "bool \<Rightarrow> nat \<Rightarrow> (nat option \<times> nat option) list \<Rightarrow> (nat \<Rightarrow> u32) \<Rightarrow> u32 \<Rightarrow> nat \<Rightarrow> mem_state \<Rightarrow> heap \<Rightarrow> (mem_state \<times> heap) res" where
  "tlb_initialize allocated table vs rand r0 iters st h =
     (if iters \<noteq> 0 then Inr (st, h)
      else if ms_pagesize st = 0 then Inl Div_By_Zero
      else
        let psz = ms_pagesize st; nlines = psz div 8; npages = ms_len st div psz in
        case words_initialize allocated nlines 8 of
          None \<Rightarrow> Inl (Exit 1)
        | Some lines \<Rightarrow>
          and_then (tlb_layout psz (take npages vs)) (\<lambda>bs.
            let pages = tlb_shuffle rand r0 npages (map (snd \<circ> snd) bs);
                st = st\<lparr>ms_nwords := 1, ms_nlines := nlines, ms_npages := npages, ms_words := None, ms_lines := Some lines,
                        ms_pages := Some pages, ms_addr := table\<rparr>;
                h = h\<lparr>h_blocks := map (\<lambda>(p, n, q). (p, n)) bs @ h_blocks h\<rparr>
            in if pages = [] \<or> lines = [] then Inl Out_Of_Bounds else
               and_then (put_all (tlb_writes pages lines) h) (\<lambda>h.
               let st = st\<lparr>ms_p := (ms_p st)[0 := pages ! 0 + lines ! 0]\<rparr> in
               and_then (mem_benchmark 0 ((npages + 100) div 100) st (mem_reset h)) (\<lambda>h.
               Inr (st\<lparr>ms_initialized := True\<rparr>, h)))))"

section \<open>Finding the line size\<close>

text \<open>\<open>line_test\<close> visits only some lines of every page: the last of them is linked to the next page, and
  to its own successor again afterwards.\<close>

definition line_shortcut :: "nat \<Rightarrow> nat list \<Rightarrow> nat list \<Rightarrow> nat \<Rightarrow> nat \<Rightarrow> writes" where
  "line_shortcut p pages lines k n =
     map (\<lambda>i. (p + pages ! i + lines ! (k - 1), p + pages ! Suc i + lines ! 0)) [0..<n - 1] @
     [(p + pages ! (n - 1) + lines ! (k - 1), p + pages ! 0 + lines ! 0)]"

definition line_fixup :: "nat \<Rightarrow> nat list \<Rightarrow> nat list \<Rightarrow> nat \<Rightarrow> nat \<Rightarrow> writes" where
  "line_fixup p pages lines k n =
     map (\<lambda>i. (p + pages ! i + lines ! (k - 1), p + pages ! i + lines ! k)) [0..<n - 1] @
     [(p + pages ! (n - 1) + lines ! (k - 1), p + pages ! (n - 1) + lines ! k)]"

text \<open>The time per access, in nanoseconds, from what the repetitions measured.\<close>

definition line_time :: "rounding \<Rightarrow> value_t list \<Rightarrow> timing \<Rightarrow> (rat \<times> timing) res" where
  "line_time rnd samples s =
     (let r = insertinit \<lparr>r_N = 0, r_v = replicate (room_for (int (length samples))) \<lparr>v_u = 0, v_n = 0\<rparr>\<rparr> in
      and_then (run_all (insert_value rnd) samples r) (\<lambda>r.
      let s' = set_results r s in
      and_then (gettime s') (\<lambda>u.
      Inr (rnd (rnd (10 * dbl rnd u) / dbl rnd (get_n s')), set_results (get_results s) s'))))"

definition line_test :: "rounding \<Rightarrow> nat \<Rightarrow> value_t list \<Rightarrow> mem_state \<Rightarrow> heap \<times> timing \<Rightarrow> (rat \<times> heap \<times> timing) res" where
  "line_test rnd line samples st hs =
     (let (h, s) = hs; n = ms_npages st; p = ms_base st in
      if line = 0 then Inl Div_By_Zero else
      case (ms_pages st, ms_lines st) of
        (Some pages, Some lines) \<Rightarrow>
          let k = ms_pagesize st div line; part = k < ms_nlines st in
          if part \<and> (k = 0 \<or> n = 0 \<or> length pages < n) then Inl Out_Of_Bounds else
          and_then (if part then put_all (line_shortcut p pages lines k n) h else Inr h) (\<lambda>h.
          and_then (line_time rnd samples s) (\<lambda>(t, s).
          and_then (if part then put_all (line_fixup p pages lines k n) h else Inr h) (\<lambda>h.
          Inr (t, h, s))))
      | _ \<Rightarrow> Inl Null_Deref)"

text \<open>The search of \<open>line_find\<close>: the first size at which the time stops growing.  \<open>samples i\<close> are the
  measurements for size \<open>i\<close>.\<close>

function line_scan ::
  "rounding \<Rightarrow> (nat \<Rightarrow> value_t list) \<Rightarrow> nat \<Rightarrow> mem_state \<Rightarrow> bool \<Rightarrow> rat \<Rightarrow> nat \<Rightarrow> heap \<times> timing \<Rightarrow> (nat \<times> heap \<times> timing) res" where
  "line_scan rnd samples maxline st big_jump baseline i hs =
     (if 0 < i \<and> i \<le> maxline then
        and_then (line_test rnd i (samples i) st hs) (\<lambda>(t, hs').
          if t = 0 then Inr (0, hs')
          else if i > 8 then
            if t > rnd (rnd (13 / 10) * baseline) then line_scan rnd samples maxline st True t (2 * i) hs'
            else if big_jump \<and> t < rnd (rnd (115 / 100) * baseline) then Inr (i div 2, hs')
            else line_scan rnd samples maxline st big_jump t (2 * i) hs'
          else line_scan rnd samples maxline st big_jump t (2 * i) hs')
      else Inr (0, hs))"
  by pat_completeness auto
termination by (relation "measure (\<lambda>(rnd, samples, maxline, st, b, t, i, hs). Suc maxline - i)") auto

declare line_scan.simps [simp del]

definition line_find ::
  "rounding \<Rightarrow> mem_env \<Rightarrow> (nat \<Rightarrow> value_t list) \<Rightarrow> nat \<Rightarrow> nat \<Rightarrow> mem_state \<Rightarrow> heap \<times> timing \<Rightarrow> (int \<times> mem_state \<times> heap \<times> timing) res" where
  "line_find rnd E samples getpagesize len st0 hs0 =
     (let st = st0\<lparr>ms_width := 1, ms_line := 8, ms_addr := 0\<rparr>; (h0, s0) = hs0 in
      if len = 0 then Inr (- 1, st, hs0) else
      and_then (line_initialize E 0 (st\<lparr>ms_len := len, ms_maxlen := len\<rparr>) h0) (\<lambda>(st, h).
      and_then (line_scan rnd samples (getpagesize div 16) st False 0 8 (h, s0)) (\<lambda>(line, h, s).
      let (st, h) = mem_cleanup 0 st h in Inr (int line, st, h, s))))"

section \<open>Finding the memory parallelism\<close>

text \<open>The start pointer \<open>j\<close> of \<open>i + 1\<close> chains in \<open>par_mem\<close>.\<close>

definition par_start :: "mem_state \<Rightarrow> nat list \<Rightarrow> nat list \<Rightarrow> nat list \<Rightarrow> nat \<Rightarrow> nat \<Rightarrow> nat \<Rightarrow> nat res" where
  "par_start st pages lines words len i j =
     (let line = j * (len div ms_line st div (i + 1)); per_page = ms_pagesize st div ms_line st; word = (j * ms_nwords st) div (i + 1) in
      if per_page = 0 \<or> ms_nwords st = 0 then Inl Div_By_Zero
      else if length pages \<le> line div per_page \<or> length lines \<le> line mod per_page \<or> length words \<le> word mod ms_nwords st then Inl Out_Of_Bounds
      else Inr (ms_base st + pages ! (line div per_page) + lines ! (line mod per_page) + words ! (word mod ms_nwords st)))"

text \<open>The loop: \<open>ts i\<close> are the time and the iterations after \<open>BENCH\<close> of \<open>i + 1\<close> chains.  What \<open>BENCH\<close>
  itself changes in memory are the saved pointers of its benchmark only, which the reset before the
  next run makes unused.\<close>

function par_loop ::
  "rounding \<Rightarrow> (nat \<Rightarrow> u64 \<times> u64) \<Rightarrow> nat \<Rightarrow> nat \<Rightarrow> rat \<Rightarrow> rat \<Rightarrow> mem_state \<Rightarrow> heap \<Rightarrow> (rat \<times> mem_state \<times> heap) res" where
  "par_loop rnd ts len i baseline max_par st h =
     (if i < MAX_MEM_PARALLELISM then
        case (ms_pages st, ms_lines st, ms_words st) of
          (Some pages, Some lines, Some words) \<Rightarrow>
            and_then (collect_res (par_start st pages lines words len i) [0..<Suc i]) (\<lambda>ps.
            let st' = st\<lparr>ms_p := ps @ drop (Suc i) (ms_p st)\<rparr>; (u, n) = ts i;
                par = rnd (baseline / rnd (dbl rnd u / dbl rnd (of_nat (Suc i) * n))) in
            and_then (mem_benchmark i ((len div 8 + 100) div 100) st' (mem_reset h)) (\<lambda>h'.
            if i = 0 then par_loop rnd ts len (Suc i) (rnd (dbl rnd u / dbl rnd n)) max_par st' h'
            else if u > 0 then
              let m = (if par > max_par then par else max_par) in
              if rnd (4 * m) < of_nat i then Inr (m, st', h')
              else par_loop rnd ts len (Suc i) baseline m st' h'
            else par_loop rnd ts len (Suc i) baseline max_par st' h'))
        | _ \<Rightarrow> Inl Null_Deref
      else Inr (max_par, st, h))"
  by pat_completeness auto
termination by (relation "measure (\<lambda>(rnd, ts, len, i, b, m, st, h). 17 - i)") (auto simp: MAX_MEM_PARALLELISM_def)

declare par_loop.simps [simp del]

definition par_mem :: "rounding \<Rightarrow> mem_env \<Rightarrow> (nat \<Rightarrow> u64 \<times> u64) \<Rightarrow> nat \<Rightarrow> mem_state \<Rightarrow> heap \<Rightarrow> (rat \<times> mem_state \<times> heap) res" where
  "par_mem rnd E ts len st0 h0 =
     (let st = st0\<lparr>ms_width := 1, ms_addr := 0\<rparr> in
      if len = 0 then Inr (- 1, st, h0) else
      and_then (mem_initialize E 0 (st\<lparr>ms_len := len, ms_maxlen := len\<rparr>) h0) (\<lambda>(st, h).
      and_then (par_loop rnd ts len 0 0 1 st h) (\<lambda>(m, st, h).
      let (st, h) = mem_cleanup 0 st h in Inr (m, st, h))))"

end
