(* ===== verification/Lm_Mem_Chain.thy ===== *)
theory Lm_Mem_Chain
  imports Lm_Mem
begin

text \<open>
  The chains that \<open>Lm_Mem\<close> builds are rings: a memory of pointers as an interface, rings and the walk
  along them, bit reversal as a permutation, the layout of the buffer, and for every initialisation
  the ring it leaves in memory and that it writes nothing outside its buffer.
\<close>

section \<open>A memory of pointers\<close>

text \<open>What the proofs use of memory: a store to a valid place succeeds and can be read back, other
  aligned places keep their contents, and nothing else changes.\<close>

locale pointer_memory =
  fixes store :: "nat \<Rightarrow> nat \<Rightarrow> 'h \<Rightarrow> 'h res"
    and fetch :: "'h \<Rightarrow> nat \<Rightarrow> nat res"
    and valid :: "'h \<Rightarrow> nat \<Rightarrow> bool"
    and others :: "'h \<Rightarrow> 'r"
  assumes store_ok: "valid h a \<Longrightarrow> \<exists>h'. store a v h = Inr h' \<and> fetch h' a = Inr v \<and> valid h' = valid h \<and> others h' = others h \<and>
    (\<forall>b. 8 dvd a \<and> 8 dvd b \<and> a \<noteq> b \<longrightarrow> fetch h' b = fetch h b)"
begin

lemma store_all:
  assumes "distinct (map fst ws)" "\<forall>(a, v) \<in> set ws. 8 dvd a \<and> valid h a"
  shows "\<exists>h'. run_all (\<lambda>(a, v). store a v) ws h = Inr h' \<and> (\<forall>(a, v) \<in> set ws. fetch h' a = Inr v) \<and>
    valid h' = valid h \<and> others h' = others h \<and> (\<forall>b. 8 dvd b \<and> b \<notin> fst ` set ws \<longrightarrow> fetch h' b = fetch h b)"
  using assms
proof (induction ws arbitrary: h)
  case (Cons w ws)
  obtain a v where w: "w = (a, v)" by fastforce
  from Cons.prems w have a: "8 dvd a" "valid h a" "a \<notin> fst ` set ws" by auto
  from store_ok [OF a(2), of v] obtain h1 where
    h1: "store a v h = Inr h1" "fetch h1 a = Inr v" "valid h1 = valid h" "others h1 = others h"
        "\<forall>b. 8 dvd a \<and> 8 dvd b \<and> a \<noteq> b \<longrightarrow> fetch h1 b = fetch h b" by auto
  from Cons.IH [of h1] Cons.prems w h1(3) obtain h' where
    h': "run_all (\<lambda>(a, v). store a v) ws h1 = Inr h'" "\<forall>(a, v) \<in> set ws. fetch h' a = Inr v"
        "valid h' = valid h1" "others h' = others h1" "\<forall>b. 8 dvd b \<and> b \<notin> fst ` set ws \<longrightarrow> fetch h' b = fetch h1 b" by auto
  have "fetch h' a = Inr v" using h'(5) a h1(2) by simp
  then show ?case using h' h1 w a(1) by (intro exI [of _ h']) auto
qed auto

end

lemma get_put_ptr:
  assumes "in_block (h_blocks h) a"
  shows "\<exists>h'. put_ptr a v h = Inr h' \<and> get_ptr h' a = Inr v \<and> in_block (h_blocks h') = in_block (h_blocks h) \<and>
    (h_blocks h', h_rerun h', h_saved h') = (h_blocks h, h_rerun h, h_saved h) \<and>
    (\<forall>b. 8 dvd a \<and> 8 dvd b \<and> a \<noteq> b \<longrightarrow> get_ptr h' b = get_ptr h b)"
proof -
  have "\<not> (b < a + 8 \<and> a < b + 8)" if "8 dvd a" "8 dvd b" "a \<noteq> b" for b
    using that by (auto elim!: dvdE)
  then show ?thesis using assms by (auto simp: put_ptr_def get_ptr_def)
qed

interpretation mem: pointer_memory put_ptr get_ptr "\<lambda>h. in_block (h_blocks h)" "\<lambda>h. (h_blocks h, h_rerun h, h_saved h)"
  by unfold_locales (rule get_put_ptr)

lemma put_all_ok:
  assumes "distinct (map fst ws)" "\<forall>(a, v) \<in> set ws. 8 dvd a \<and> in_block (h_blocks h) a"
  obtains h' where "put_all ws h = Inr h'" "\<And>a v. (a, v) \<in> set ws \<Longrightarrow> get_ptr h' a = Inr v"
    "h_blocks h' = h_blocks h" "h_rerun h' = h_rerun h" "h_saved h' = h_saved h"
    "\<And>b. 8 dvd b \<Longrightarrow> b \<notin> fst ` set ws \<Longrightarrow> get_ptr h' b = get_ptr h b"
  using mem.store_all [OF assms] by (auto simp: put_all_def)

section \<open>Rings\<close>

text \<open>The places \<open>xs\<close> form a ring: each holds the address of the next, the last one that of the first.\<close>

definition ring :: "heap \<Rightarrow> nat list \<Rightarrow> bool" where
  "ring h xs \<longleftrightarrow> xs \<noteq> [] \<and> distinct xs \<and> (\<forall>i < length xs. get_ptr h (xs ! i) = Inr (xs ! (Suc i mod length xs)))"

lemma ringI:
  assumes "0 < n" "inj_on f {..<n}" "\<And>t. t < n \<Longrightarrow> get_ptr h (f t) = Inr (f (Suc t mod n))"
  shows "ring h (map f [0..<n])"
  using assms by (auto simp: ring_def distinct_map inj_on_def)

lemma get_ptr_cells: "h_cells h' = h_cells h \<Longrightarrow> h_blocks h' = h_blocks h \<Longrightarrow> get_ptr h' a = get_ptr h a"
  by (simp add: get_ptr_def)

lemma ring_cong: "h_cells h' = h_cells h \<Longrightarrow> h_blocks h' = h_blocks h \<Longrightarrow> ring h' xs = ring h xs"
  unfolding ring_def using get_ptr_cells [of h' h] by simp

lemma ring_mem_reset [simp]: "ring (mem_reset h) xs = ring h xs"
  by (rule ring_cong) (simp_all add: mem_reset_def)

lemma deref_ring:
  assumes "ring h xs" "\<forall>i \<in> set ps. i < length xs"
  shows "deref_all h (map ((!) xs) ps) = Inr (map (\<lambda>i. xs ! (Suc i mod length xs)) ps)"
  using assms by (induction ps) (auto simp: ring_def)

text \<open>Following pointers into a ring never fails, and each is as far along as steps were made.\<close>

lemma chase_ring:
  assumes "ring h xs" "\<forall>i \<in> set ps. i < length xs"
  shows "chase h k (map ((!) xs) ps) = Inr (map (\<lambda>i. xs ! ((i + k) mod length xs)) ps)"
  using assms(2)
proof (induction k arbitrary: ps)
  case 0
  then show ?case by simp
next
  case (Suc k)
  have n: "0 < length xs" using assms(1) by (simp add: ring_def)
  have "chase h k (map ((!) xs) (map (\<lambda>i. Suc i mod length xs) ps)) =
        Inr (map (\<lambda>i. xs ! ((i + k) mod length xs)) (map (\<lambda>i. Suc i mod length xs) ps))"
    by (rule Suc.IH) (use n in auto)
  then show ?case using deref_ring [OF assms(1) Suc.prems] by (simp add: comp_def mod_simps)
qed

lemma mem_benchmark_ring:
  assumes "ring h xs" "\<not> h_rerun h" "take (Suc N) (ms_p st) = map ((!) xs) ps" "\<forall>i \<in> set ps. i < length xs"
  shows "mem_benchmark N k st h =
    Inr (h\<lparr>h_saved := (h_saved h)(N := (ms_addr st, map (\<lambda>i. xs ! ((i + 100 * k) mod length xs)) ps)), h_rerun := True\<rparr>)"
  using chase_ring [OF assms(1,4)] assms(2,3) by (simp add: mem_benchmark_def case_prod_unfold)

section \<open>Bit reversal\<close>

lemma count_bits_pow: "count_bits (2 ^ b div 2) = b"
proof (induction b)
  case 0
  then show ?case by (simp add: count_bits.simps)
next
  case (Suc b)
  have "count_bits (2 ^ Suc b div 2) = Suc (count_bits (2 ^ b div 2))" by (subst count_bits.simps) simp
  with Suc show ?case by simp
qed

lemma bit_reverse: "bit (reverse_bits b i) m \<longleftrightarrow> m < b \<and> bit i (b - m - 1)"
proof -
  have "bit (fold (\<lambda>j w. if bit i j then w OR 2 ^ (b - j - 1) else w) [0..<n] (0 :: nat)) m \<longleftrightarrow>
        (\<exists>j < n. bit i j \<and> m = b - j - 1)" for n
    by (induction n) (auto simp: bit_or_iff bit_exp_iff less_Suc_eq)
  from this [of b] have "bit (reverse_bits b i) m \<longleftrightarrow> (\<exists>j < b. bit i j \<and> m = b - j - 1)"
    unfolding reverse_bits_def .
  also have "\<dots> \<longleftrightarrow> m < b \<and> bit i (b - m - 1)"
  proof
    assume "m < b \<and> bit i (b - m - 1)"
    then show "\<exists>j < b. bit i j \<and> m = b - j - 1" by (intro exI [of _ "b - m - 1"]) auto
  qed auto
  finally show ?thesis .
qed

lemma nat_eq_bits:
  fixes i j :: nat
  assumes "i < 2 ^ b" "j < 2 ^ b" "\<And>m. m < b \<Longrightarrow> bit i m = bit j m"
  shows "i = j"
proof (rule bit_eqI)
  fix m
  have "take_bit b i = i" "take_bit b j = j" using assms(1,2) by (simp_all add: take_bit_nat_eq_self)
  then show "bit i m = bit j m" using assms(3) by (metis bit_take_bit_iff)
qed

lemma reverse_less: "reverse_bits b i < 2 ^ b"
proof -
  have "take_bit b (reverse_bits b i) = reverse_bits b i"
    by (rule bit_eqI) (auto simp: bit_take_bit_iff bit_reverse)
  then show ?thesis by (metis take_bit_nat_less_exp)
qed

lemma reverse_inj: "inj_on (reverse_bits b) {..<2 ^ b}"
proof (rule inj_onI)
  fix i j assume ij: "i \<in> {..<2 ^ b}" "j \<in> {..<2 ^ b}" "reverse_bits b i = reverse_bits b j"
  show "i = j"
  proof (rule nat_eq_bits)
    fix m assume "m < b"
    then have "bit (reverse_bits b i) (b - m - 1) = bit i m" "bit (reverse_bits b j) (b - m - 1) = bit j m"
      by (auto simp: bit_reverse)
    with ij(3) show "bit i m = bit j m" by simp
  qed (use ij in auto)
qed

lemma reverse_bits_0 [simp]: "reverse_bits b 0 = 0"
  by (rule bit_eqI) (simp add: bit_reverse)

text \<open>For a power of two \<open>words_initialize\<close> returns each multiple of the scale exactly once.\<close>

lemma words_initialize_ok:
  assumes "0 < scale"
  obtains ws where "words_initialize True (2 ^ b) scale = Some ws" "length ws = 2 ^ b" "distinct ws"
    "set ws = (\<lambda>k. k * scale) ` {..<2 ^ b}" "ws ! 0 = 0"
proof
  let ?ws = "map (\<lambda>i. reverse_bits b i * scale) [0..<2 ^ b]"
  show "words_initialize True (2 ^ b) scale = Some ?ws"
    by (simp add: words_initialize_def count_bits_pow)
  show "distinct ?ws" using reverse_inj [of b] assms by (auto simp: distinct_map inj_on_def)
  have "reverse_bits b ` {..<2 ^ b} = {..<2 ^ b}"
    by (rule endo_inj_surj) (auto simp: reverse_less reverse_inj)
  then have "(\<lambda>k. k * scale) ` {..<2 ^ b} = (\<lambda>k. k * scale) ` reverse_bits b ` {..<2 ^ b}" by simp
  then show "set ?ws = (\<lambda>k. k * scale) ` {..<2 ^ b}" by (auto simp: image_image lessThan_atLeast0)
qed simp_all

section \<open>The buffer\<close>

text \<open>A buffer in pages: \<open>pages\<close> are different multiples of the page size, and every word of each of
  them lies in allocated memory.\<close>

definition paged :: "heap \<Rightarrow> nat \<Rightarrow> nat \<Rightarrow> nat list \<Rightarrow> bool" where
  "paged h base psz pages \<longleftrightarrow> 8 dvd psz \<and> 0 < psz \<and> psz dvd base \<and> distinct pages \<and>
     (\<forall>q \<in> set pages. psz dvd q \<and> (\<forall>a. base + q \<le> a \<and> a + 8 \<le> base + q + psz \<longrightarrow> in_block (h_blocks h) a))"

lemma place_valid:
  assumes "paged h base psz pages" "i < length pages" "x < psz" "8 dvd x"
  shows "in_block (h_blocks h) (base + pages ! i + x)" "8 dvd base + pages ! i + x"
proof -
  have d: "8 dvd psz" "psz dvd base" "psz dvd pages ! i" using assms(1,2) by (auto simp: paged_def)
  have "x + 8 \<le> psz" using d(1) assms(3,4) by (auto elim!: dvdE)
  moreover have "pages ! i \<in> set pages" using assms(2) by simp
  ultimately show "in_block (h_blocks h) (base + pages ! i + x)" using assms(1) unfolding paged_def by (metis add.assoc add_le_cancel_left le_add1)
  show "8 dvd base + pages ! i + x" using d assms(4) by (meson dvd_add dvd_trans)
qed

lemma place_inj:
  assumes "paged h base psz pages" "i < length pages" "i' < length pages" "x < psz" "x' < psz"
    and "base + pages ! i + x = base + pages ! i' + x'"
  shows "i = i' \<and> x = x'"
proof -
  have "pages ! i mod psz = 0" "pages ! i' mod psz = 0" using assms(1-3) by (auto simp: paged_def)
  then have "(pages ! i + x) mod psz = x" "(pages ! i' + x') mod psz = x'"
    using assms(4,5) by (metis add_0 mod_add_left_eq mod_less)+
  then have "x = x'" "pages ! i = pages ! i'" using assms(6) by auto
  moreover have "distinct pages" using assms(1) by (simp add: paged_def)
  ultimately show ?thesis using assms(2,3) nth_eq_iff_index_eq by blast
qed

lemma multiples_nat:
  assumes "n * s \<le> 2 ^ 64" "0 < s" "s < 2 ^ 64"
  shows "map unat (map (\<lambda>i. of_nat i * of_nat s) [0..<n] :: u64 list) = map (\<lambda>i. i * s) [0..<n]"
proof -
  have "unat (of_nat i * of_nat s :: u64) = i * s" if "i < n" for i
  proof -
    have "i * s < n * s" using that assms(2) by simp
    then have "i * s < 2 ^ 64" using assms(1) by (rule less_le_trans)
    then show ?thesis by (metis of_nat_mult unat_of_nat_u64)
  qed
  then show ?thesis by simp
qed

lemma permutation_pages:
  assumes "n * s \<le> 2 ^ 64" "0 < s" "s < 2 ^ 64"
  obtains xs r' where "permutation True seed rand n (of_nat s) r = (Some xs, r')"
    "mset (map unat xs) = mset (map (\<lambda>i. i * s) [0..<n])"
proof -
  obtain xs r' where p: "permutation True seed rand n (of_nat s) r = (Some xs, r')"
    by (simp add: permutation_def Let_def case_prod_unfold)
  have "mset (map unat xs) = mset (map unat (map (\<lambda>i. of_nat i * of_nat s) [0..<n] :: u64 list))"
    using permutation_mset [OF p] by (metis mset_map)
  also have "\<dots> = mset (map (\<lambda>i. i * s) [0..<n])" by (simp only: multiples_nat [OF assms])
  finally show ?thesis using that p by blast
qed

text \<open>What \<open>base_initialize\<close> needs of its caller, and what it gives.\<close>

definition base_ready :: "mem_env \<Rightarrow> mem_state \<Rightarrow> bool" where
  "base_ready E st \<longleftrightarrow> 0 < ms_line st \<and> 8 dvd ms_pagesize st \<and> 0 < ms_pagesize st \<and> ms_len st \<le> ms_maxlen st \<and>
     ms_maxlen st + 2 * ms_pagesize st \<le> 2 ^ 64 \<and> me_malloc E (ms_maxlen st + 2 * ms_pagesize st) \<noteq> None \<and> me_perm_ok E"

lemma base_initialize_ok:
  assumes "base_ready E st"
  obtains p base pages h' where
    "base_initialize E 0 st h = Inr (st\<lparr>ms_initialized := True, ms_addr := p, ms_base := base, ms_nwords := ms_line st div 8,
       ms_nlines := ms_pagesize st div ms_line st, ms_npages := (ms_len st + ms_pagesize st - 1) div ms_pagesize st,
       ms_lines := None, ms_pages := Some pages, ms_words := None\<rparr>, h')"
    "paged h' base (ms_pagesize st) pages" "(ms_len st + ms_pagesize st - 1) div ms_pagesize st \<le> length pages"
    "\<not> h_rerun h'" "p \<le> base" "h_blocks h' = (p, ms_maxlen st + 2 * ms_pagesize st) # h_blocks h"
    "base + ms_maxlen st + ms_pagesize st \<le> p + ms_maxlen st + 2 * ms_pagesize st"
proof -
  let ?s = "ms_pagesize st" and ?n = "(ms_maxlen st + ms_pagesize st - 1) div ms_pagesize st"
  note A = assms [unfolded base_ready_def]
  obtain p where p: "me_malloc E (ms_maxlen st + 2 * ?s) = Some p" using A by auto
  have ns: "?n * ?s \<le> ms_maxlen st + ?s - 1" by (simp add: div_times_less_eq_dividend)
  then have "?n * ?s \<le> 2 ^ 64" using A by linarith
  moreover have "?s < 2 ^ 64" using A by linarith
  ultimately obtain xs r' where x: "permutation True (me_seed E) (me_rand E) ?n (of_nat ?s) (me_r E) = (Some xs, r')"
      "mset (map unat xs) = mset (map (\<lambda>i. i * ?s) [0..<?n])"
    using permutation_pages [of ?n ?s "me_seed E" "me_rand E" "me_r E"] A by blast
  define base where "base = (if p mod ?s \<noteq> 0 then p + (?s - p mod ?s) else p)"
  let ?h' = "mem_reset (h\<lparr>h_blocks := (p, ms_maxlen st + 2 * ?s) # h_blocks h\<rparr>)"
  have "p mod ?s < ?s" using A by simp
  then have base: "p \<le> base" "base + ms_maxlen st + ?s \<le> p + ms_maxlen st + 2 * ?s" by (auto simp: base_def)
  have bd: "?s dvd base"
  proof -
    have "(p + (?s - p mod ?s)) mod ?s = 0"
      using A by (metis le_add_diff_inverse mod_add_left_eq mod_less_divisor mod_self nless_le)
    then show ?thesis by (auto simp: base_def mod_0_imp_dvd)
  qed
  have len: "length (map unat xs) = ?n" using mset_eq_length [OF x(2)] by simp
  have set: "set (map unat xs) = (\<lambda>i. i * ?s) ` {..<?n}" using mset_eq_setD [OF x(2)] by (auto simp: lessThan_atLeast0)
  have "distinct (map (\<lambda>i. i * ?s) [0..<?n])" using A by (auto simp: distinct_map inj_on_def)
  then have dist: "distinct (map unat xs)" using mset_eq_imp_distinct_iff [OF x(2)] by simp
  have "in_block (h_blocks ?h') a" if "i < ?n" "base + i * ?s \<le> a" "a + 8 \<le> base + i * ?s + ?s" for i a
  proof -
    have "i * ?s + ?s \<le> ?n * ?s" using that(1) by (metis Suc_leI add.commute mult_Suc mult_le_mono1)
    then have "p \<le> a" "a + 8 \<le> p + (ms_maxlen st + 2 * ?s)" using that(2,3) base ns by linarith+
    then show ?thesis by (simp add: in_block_def mem_reset_def)
  qed
  then have pg: "paged ?h' base ?s (map unat xs)"
    unfolding paged_def using A bd dist set by auto
  have np: "(ms_len st + ?s - 1) div ?s \<le> length (map unat xs)" unfolding len using A by (intro div_le_mono) linarith
  show ?thesis
    by (rule that [OF _ pg np _ base(1) _ base(2)]) (use A p x(1) in \<open>simp_all add: base_initialize_def Let_def mem_reset_def base_def\<close>)
qed

section \<open>Chains become rings\<close>

text \<open>If there are as many stores as places, and each place is linked to the next, then the places
  form a ring afterwards.\<close>

lemma chain_ring:
  assumes "0 < n" "length ws = n" "inj_on f {..<n}" "\<And>t. t < n \<Longrightarrow> (f t, f (Suc t mod n)) \<in> set ws"
    and "\<And>t. t < n \<Longrightarrow> 8 dvd f t \<and> in_block (h_blocks h) (f t)"
  obtains h' where "put_all ws h = Inr h'" "ring h' (map f [0..<n])" "h_blocks h' = h_blocks h"
    "h_rerun h' = h_rerun h" "h_saved h' = h_saved h"
proof -
  have sub: "f ` {..<n} \<subseteq> set (map fst ws)" using assms(4) by force
  have "n = card (f ` {..<n})" using assms(3) by (simp add: card_image)
  also have "\<dots> \<le> card (set (map fst ws))" using sub by (simp add: card_mono)
  finally have c: "card (set (map fst ws)) = length (map fst ws)" using card_length [of "map fst ws"] assms(2) by simp
  then have d: "distinct (map fst ws)" by (rule card_distinct)
  have "f ` {..<n} = set (map fst ws)"
    using sub c assms(2,3) by (intro card_subset_eq) (auto simp: card_image)
  then have "8 dvd a \<and> in_block (h_blocks h) a" if "(a, v) \<in> set ws" for a v
    using that assms(5) by (metis (no_types, lifting) fst_conv image_iff lessThan_iff list.set_map)
  then have "\<forall>(a, v) \<in> set ws. 8 dvd a \<and> in_block (h_blocks h) a" by blast
  from put_all_ok [OF d this] obtain h' where
    h': "put_all ws h = Inr h'" "\<And>a v. (a, v) \<in> set ws \<Longrightarrow> get_ptr h' a = Inr v"
        "h_blocks h' = h_blocks h" "h_rerun h' = h_rerun h" "h_saved h' = h_saved h" by metis
  show ?thesis by (rule that [OF h'(1) ringI [OF assms(1,3)] h'(3-5)]) (use h'(2) assms(4) in blast)
qed

lemma length_concat_const: "(\<And>i. i < n \<Longrightarrow> length (g i) = k) \<Longrightarrow> length (concat (map g [0..<n])) = n * k"
  by (induction n) auto

lemma in_concat_upt: "i < n \<Longrightarrow> x \<in> set (g i) \<Longrightarrow> x \<in> set (concat (map g [0..<n]))"
  by auto

text \<open>Counting on in rows of \<open>k\<close>: within a row, to the next row, or from the last row to the first.\<close>

lemma next_in_rows [consumes 2, case_names inner jump close]:
  assumes "t < n * k" "0 < k"
  obtains (inner) "Suc (t mod k) < k" "Suc t mod (n * k) = Suc t" "Suc t div k = t div k" "Suc t mod k = Suc (t mod k)"
  | (jump) "t mod k = k - 1" "Suc (t div k) < n" "Suc t mod (n * k) = Suc t" "Suc t div k = Suc (t div k)" "Suc t mod k = 0"
  | (close) "t mod k = k - 1" "t div k = n - 1" "Suc t mod (n * k) = 0"
proof -
  have i: "t div k < n" using assms(1) by (simp add: less_mult_imp_div_less)
  show ?thesis
  proof (cases "Suc (t mod k) = k")
    case False
    then have j: "Suc (t mod k) < k" using assms(2) by (meson Suc_lessI mod_less_divisor)
    then have s: "Suc t div k = t div k" "Suc t mod k = Suc (t mod k)" by (simp_all add: mod_Suc div_Suc)
    then have "Suc t < n * k" using i div_less_iff_less_mult [OF assms(2)] by metis
    with j s inner show ?thesis by simp
  next
    case True
    then have s: "Suc t mod k = 0" "Suc t div k = Suc (t div k)" by (simp_all add: mod_Suc div_Suc)
    show ?thesis
    proof (cases "Suc (t div k) < n")
      case T: True
      then have "Suc t < n * k" using s div_less_iff_less_mult [OF assms(2)] by metis
      with True T s jump show ?thesis by simp
    next
      case F: False
      then have "Suc (t div k) = n" using i by simp
      then have "Suc t = n * k" using s by (metis add.right_neutral div_mult_mod_eq)
      then show ?thesis using close True F i by simp
    qed
  qed
qed

text \<open>Numbering the lines of \<open>n\<close> pages of \<open>k\<close> lines each, page by page.\<close>

definition line_at :: "nat \<Rightarrow> nat list \<Rightarrow> nat list \<Rightarrow> nat \<Rightarrow> nat" where
  "line_at base pages lines t = base + pages ! (t div length lines) + lines ! (t mod length lines)"

text \<open>The lines of a page: different multiples of the line size.\<close>

definition lined :: "nat \<Rightarrow> nat \<Rightarrow> nat list \<Rightarrow> bool" where
  "lined psz line lines \<longleftrightarrow> lines \<noteq> [] \<and> distinct lines \<and> 8 dvd line \<and> 0 < line \<and> (\<forall>x \<in> set lines. line dvd x \<and> x < psz) \<and> lines ! 0 = 0"

lemma words_lined:
  assumes "0 < line" "8 dvd line" "2 ^ b * line \<le> psz"
  obtains lines where "words_initialize True (2 ^ b) line = Some lines" "lined psz line lines" "length lines = 2 ^ b"
proof -
  from words_initialize_ok [OF assms(1), of b] obtain ws where
    ws: "words_initialize True (2 ^ b) line = Some ws" "length ws = 2 ^ b" "distinct ws" "set ws = (\<lambda>k. k * line) ` {..<2 ^ b}" "ws ! 0 = 0" .
  have "k * line < psz" if "k < 2 ^ b" for k
  proof -
    have "k * line < 2 ^ b * line" using that assms(1) by simp
    with assms(3) show ?thesis by (rule less_le_trans [rotated])
  qed
  then have "lined psz line ws" using ws assms(1,2) by (auto simp: lined_def)
  then show ?thesis using that ws by blast
qed

lemma line_at_inj:
  assumes "paged h base psz pages" "lined psz line lines"
  shows "inj_on (line_at base pages lines) {..<length pages * length lines}"
proof (rule inj_onI)
  fix t u assume t: "t \<in> {..<length pages * length lines}" and u: "u \<in> {..<length pages * length lines}"
    and e: "line_at base pages lines t = line_at base pages lines u"
  have k: "0 < length lines" using assms(2) by (simp add: lined_def)
  have i: "t div length lines < length pages" "u div length lines < length pages"
    using t u by (auto simp: less_mult_imp_div_less)
  have j: "t mod length lines < length lines" "u mod length lines < length lines" using k by auto
  have x: "lines ! (t mod length lines) < psz" "lines ! (u mod length lines) < psz" using assms(2) j by (auto simp: lined_def)
  from place_inj [OF assms(1) i x] e have "t div length lines = u div length lines" "lines ! (t mod length lines) = lines ! (u mod length lines)"
    by (auto simp: line_at_def)
  moreover from this(2) j assms(2) have "t mod length lines = u mod length lines" by (simp add: lined_def nth_eq_iff_index_eq)
  ultimately show "t = u" by (metis div_mult_mod_eq)
qed

lemma line_at_valid:
  assumes "paged h base psz pages" "lined psz line lines" "t < length pages * length lines"
  shows "8 dvd line_at base pages lines t \<and> in_block (h_blocks h) (line_at base pages lines t)"
proof -
  have j: "t mod length lines < length lines" using assms(2) by (simp add: lined_def)
  then have "lines ! (t mod length lines) < psz" "8 dvd lines ! (t mod length lines)"
    using assms(2) dvd_trans unfolding lined_def by (metis nth_mem)+
  with place_valid [OF assms(1) less_mult_imp_div_less [OF assms(3)]] show ?thesis by (simp add: line_at_def)
qed

lemma paged_take: "paged h base psz pages \<Longrightarrow> paged h base psz (take n pages)"
  by (auto simp: paged_def dest: in_set_takeD)

lemma line_ring:
  assumes "paged h base psz pages" "lined psz line lines" "pages \<noteq> []"
  obtains h' where
    "put_all (concat (map (\<lambda>i. line_page base lines (pages ! i) (pages ! (if i < length pages - 1 then i + 1 else 0))) [0..<length pages])) h = Inr h'"
    "ring h' (map (line_at base pages lines) [0..<length pages * length lines])" "h_blocks h' = h_blocks h"
    "h_rerun h' = h_rerun h" "h_saved h' = h_saved h"
proof -
  let ?n = "length pages" and ?k = "length lines"
  let ?g = "\<lambda>i. line_page base lines (pages ! i) (pages ! (if i < ?n - 1 then i + 1 else 0))"
  have k: "0 < ?k" using assms(2) by (simp add: lined_def)
  have link: "(line_at base pages lines t, line_at base pages lines (Suc t mod (?n * ?k))) \<in> set (concat (map ?g [0..<?n]))"
    if t: "t < ?n * ?k" for t
  proof (rule in_concat_upt)
    show i: "t div ?k < ?n" using t by (simp add: less_mult_imp_div_less)
    show "(line_at base pages lines t, line_at base pages lines (Suc t mod (?n * ?k))) \<in> set (?g (t div ?k))"
      using t k
    proof (cases rule: next_in_rows)
      case inner
      then show ?thesis by (auto simp: line_page_def line_at_def intro!: image_eqI [of _ _ "t mod ?k"])
    qed (use k in \<open>auto simp: line_page_def line_at_def\<close>)
  qed
  have len: "length (concat (map ?g [0..<?n])) = ?n * ?k"
    using k by (intro length_concat_const) (simp add: line_page_def)
  show ?thesis
    by (rule chain_ring [OF _ len line_at_inj [OF assms(1,2)] link]) (use assms(3) k line_at_valid [OF assms(1,2)] that in auto)
qed

section \<open>One word per line\<close>

lemma div_up_pos: "0 < a \<Longrightarrow> 0 < s \<Longrightarrow> 0 < (a + s - 1) div (s :: nat)"
  by (simp add: div_greater_zero_iff)

text \<open>What \<open>line_initialize\<close> leaves behind.\<close>

definition line_chain :: "mem_state \<Rightarrow> nat list \<Rightarrow> nat list \<Rightarrow> heap \<Rightarrow> bool" where
  "line_chain st pages lines h \<longleftrightarrow>
     ms_pages st = Some pages \<and> ms_lines st = Some lines \<and> ms_nlines st = length lines \<and>
     0 < ms_npages st \<and> ms_npages st \<le> length pages \<and>
     paged h (ms_base st) (ms_pagesize st) pages \<and> lined (ms_pagesize st) (ms_line st) lines \<and>
     ring h (map (line_at (ms_base st) (take (ms_npages st) pages) lines) [0..<ms_npages st * length lines])"

lemma line_initialize_ok:
  assumes "base_ready E st" "me_words_ok E" "ms_pagesize st = 2 ^ b * ms_line st" "8 dvd ms_line st" "0 < ms_len st" "ms_p st \<noteq> []"
  obtains st' h' pages lines where "line_initialize E 0 st h = Inr (st', h')" "ms_initialized st'" "line_chain st' pages lines h'"
    "ms_p st' ! 0 = line_at (ms_base st') (take (ms_npages st') pages) lines 0" "length lines = 2 ^ b"
    "ms_npages st' = (ms_len st + ms_pagesize st - 1) div ms_pagesize st" "ms_pagesize st' = ms_pagesize st" "ms_line st' = ms_line st"
    "words_initialize True (2 ^ b) (ms_line st) = Some lines"
proof -
  define n where n_def: "n = (ms_len st + ms_pagesize st - 1) div ms_pagesize st"
  let ?psz = "ms_pagesize st" and ?line = "ms_line st"
  have pos: "0 < ?line" "0 < ?psz" using assms(1) by (auto simp: base_ready_def)
  obtain p base pages h1 where b: "base_initialize E 0 st h = Inr (st\<lparr>ms_initialized := True, ms_addr := p, ms_base := base,
       ms_nwords := ?line div 8, ms_nlines := ?psz div ?line, ms_npages := n,
       ms_lines := None, ms_pages := Some pages, ms_words := None\<rparr>, h1)" "paged h1 base ?psz pages" "n \<le> length pages" "\<not> h_rerun h1"
    unfolding n_def using base_initialize_ok [OF assms(1)] by metis
  obtain lines where l: "words_initialize True (2 ^ b) ?line = Some lines" "lined ?psz ?line lines" "length lines = 2 ^ b"
    using words_lined [of ?line b ?psz] pos assms(3,4) by auto
  have nl: "?psz div ?line = 2 ^ b" using assms(3) pos by simp
  have n: "0 < n" using div_up_pos [OF assms(5) pos(2)] unfolding n_def .
  let ?pp = "take n pages"
  have pp: "length ?pp = n" "?pp \<noteq> []" "\<And>i. i < n \<Longrightarrow> ?pp ! i = pages ! i" using b(3) n by auto
  obtain h2 where h2: "put_all (concat (map (\<lambda>i. line_page base lines (?pp ! i) (?pp ! (if i < length ?pp - 1 then i + 1 else 0))) [0..<length ?pp])) h1 = Inr h2"
    "ring h2 (map (line_at base ?pp lines) [0..<length ?pp * length lines])" "h_blocks h2 = h_blocks h1"
    "h_rerun h2 = h_rerun h1" "h_saved h2 = h_saved h1"
    by (rule line_ring [OF paged_take [OF b(2)] l(2) pp(2)])
  have "map (\<lambda>i. line_page base lines (?pp ! i) (?pp ! (if i < length ?pp - 1 then i + 1 else 0))) [0..<length ?pp] =
        map (\<lambda>i. line_page base lines (pages ! i) (pages ! (if i < n - 1 then i + 1 else 0))) [0..<n]"
    using pp n by (auto simp: less_diff_conv)
  with h2(1) have put: "put_all (concat (map (\<lambda>i. line_page base lines (pages ! i) (pages ! (if i < n - 1 then i + 1 else 0))) [0..<n])) h1 = Inr h2"
    by simp
  let ?st = "st\<lparr>ms_addr := p, ms_base := base, ms_nwords := ?line div 8, ms_nlines := 2 ^ b,
       ms_npages := n, ms_pages := Some pages, ms_words := None, ms_initialized := False, ms_lines := Some lines, ms_width := 1,
       ms_p := (ms_p st)[0 := base + pages ! 0 + lines ! 0]\<rparr>"
  let ?xs = "map (line_at base ?pp lines) [0..<n * length lines]"
  have r: "ring (mem_reset h2) ?xs" using h2(2) pp(1) by simp
  have x0: "?xs ! 0 = base + pages ! 0 + lines ! 0" using n l(3) pp(3) by (simp add: line_at_def)
  obtain y ys where "ms_p st = y # ys" using assms(6) by (cases "ms_p st") auto
  then have "take (Suc 0) (ms_p ?st) = map ((!) ?xs) [0]" using x0 by simp
  from mem_benchmark_ring [OF r _ this, of "(2 ^ b * n + 100) div 100"] n l(3) obtain h3 where
    h3: "mem_benchmark 0 ((2 ^ b * n + 100) div 100) ?st (mem_reset h2) = Inr h3" "h_cells h3 = h_cells h2" "h_blocks h3 = h_blocks h2"
    by (auto simp: mem_reset_def)
  have ring3: "ring h3 ?xs" using ring_cong [OF h3(2,3)] r by simp
  have pg3: "paged h3 base ?psz pages" using b(2) h3(3) h2(3) by (simp add: paged_def)
  show ?thesis
  proof (rule that [of "?st\<lparr>ms_initialized := True\<rparr>" h3 pages lines])
    show "line_initialize E 0 st h = Inr (?st\<lparr>ms_initialized := True\<rparr>, h3)"
      using b(1,3) l n assms(2) put h3(1) nl by (simp add: line_initialize_def Let_def lined_def)
    show "line_chain (?st\<lparr>ms_initialized := True\<rparr>) pages lines h3"
      using b(3) l n ring3 pg3 by (simp add: line_chain_def)
  qed (use n_def x0 l(1,3) n pp(3) \<open>ms_p st = y # ys\<close> in \<open>simp_all add: line_at_def\<close>)
qed

section \<open>Testing a line size\<close>

text \<open>The first \<open>2 ^ a\<close> lines in the order of the reversed bits are spread evenly over the page.\<close>

lemma reverse_prefix:
  assumes "a \<le> b" "j < 2 ^ a"
  shows "reverse_bits b j = 2 ^ (b - a) * reverse_bits a j"
proof (rule bit_eqI)
  fix m
  have high: "\<not> bit j i" if "a \<le> i" for i
  proof -
    have "take_bit a j = j" using assms(2) by (simp add: take_bit_nat_eq_self)
    then show ?thesis using that by (metis bit_take_bit_iff linorder_not_le)
  qed
  have "2 ^ (b - a) * reverse_bits a j = push_bit (b - a) (reverse_bits a j)" by (simp add: push_bit_eq_mult mult.commute)
  then have "bit (2 ^ (b - a) * reverse_bits a j) m \<longleftrightarrow> b - a \<le> m \<and> m - (b - a) < a \<and> bit j (a - (m - (b - a)) - 1)"
    by (simp add: bit_push_bit_iff bit_reverse)
  moreover have "m - (b - a) < a \<and> a - (m - (b - a)) - 1 = b - m - 1" if "b - a \<le> m" "m < b" using that assms(1) by linarith
  moreover have "\<not> bit j (b - m - 1)" if "m < b - a" using that by (intro high) linarith
  moreover have "m < b" if "b - a \<le> m" "m - (b - a) < a" using that assms(1) by linarith
  ultimately show "bit (reverse_bits b j) m = bit (2 ^ (b - a) * reverse_bits a j) m"
    unfolding bit_reverse by (metis linorder_not_le)
qed

lemma line_time_ok: "\<exists>t s'. line_time rnd samples s = Inr (t, s') \<and> results s' = results s"
proof -
  let ?r = "insertinit \<lparr>r_N = 0, r_v = replicate (room_for (int (length samples))) \<lparr>v_u = 0, v_n = 0\<rparr>\<rparr>"
  have "result_ok (room_for (int (length samples))) ?r" "descending rnd (measured ?r)" "length (measured ?r) = 0"
    by (auto simp: result_ok_def insertinit_def measured_def descending_def)
  moreover have "length (filter (\<lambda>v. v_u v \<noteq> 0) samples) \<le> room_for (int (length samples))"
    by (rule order_trans [OF length_filter_le]) (simp add: room_for_def)
  ultimately obtain r where r: "run_all (insert_value rnd) samples ?r = Inr r"
    using smp.add_all [of "room_for (int (length samples))" ?r rnd samples] by auto
  obtain u where "gettime (set_results r s) = Inr u"
    by (auto simp: set_results_def save_median_def Let_def case_prod_unfold gettime_settime)
  moreover have "results (set_results q s') = q" for q s'
    by (simp add: set_results_def save_median_def Let_def case_prod_unfold settime_def save_n_def)
  ultimately show ?thesis using r by (simp add: line_time_def Let_def get_results_def)
qed

lemma line_at_split: "j < length lines \<Longrightarrow> line_at base pages lines (i * length lines + j) = base + pages ! i + lines ! j"
  by (subgoal_tac "length lines \<noteq> 0") (simp add: line_at_def, linarith)

lemma line_ring_step:
  assumes "ring h (map (line_at base pages lines) [0..<n * length lines])" "i < n" "Suc j < length lines"
  shows "get_ptr h (base + pages ! i + lines ! j) = Inr (base + pages ! i + lines ! Suc j)"
proof -
  let ?k = "length lines"
  have "i * ?k + ?k \<le> n * ?k" using assms(2) by (metis Suc_leI add.commute mult_Suc mult_le_mono1)
  then have t: "i * ?k + j < n * ?k" "Suc (i * ?k + j) < n * ?k" using assms(3) by linarith+
  then have "get_ptr h (line_at base pages lines (i * ?k + j)) = Inr (line_at base pages lines (i * ?k + Suc j))"
    using assms(1) by (simp add: ring_def)
  then show ?thesis using line_at_split [of j lines] line_at_split [of "Suc j" lines] assms(3) by simp
qed

lemma lined_take: "lined psz line lines \<Longrightarrow> 0 < k \<Longrightarrow> lined psz line (take k lines)"
  by (auto simp: lined_def dest: in_set_takeD)

text \<open>Stores to the last visited line of every page: what they need and what they change.\<close>

lemma last_lines_put:
  assumes "paged h b psz pages" "lined psz line lines" "n \<le> length pages" "0 < k" "k \<le> length lines"
    and "map fst ws = map (\<lambda>i. b + pages ! i + lines ! (k - 1)) [0..<n]"
  obtains h' where "put_all ws h = Inr h'" "\<And>a v. (a, v) \<in> set ws \<Longrightarrow> get_ptr h' a = Inr v" "h_blocks h' = h_blocks h"
    "\<And>i j. i < n \<Longrightarrow> j < length lines \<Longrightarrow> j \<noteq> k - 1 \<Longrightarrow> get_ptr h' (b + pages ! i + lines ! j) = get_ptr h (b + pages ! i + lines ! j)"
proof -
  have l: "lines ! j < psz" "8 dvd lines ! j" if "j < length lines" for j
    using assms(2) that dvd_trans unfolding lined_def by (metis nth_mem)+
  have kl: "k - 1 < length lines" using assms(4,5) by simp
  have d: "distinct (map fst ws)"
    unfolding assms(6) distinct_map
    using place_inj [OF assms(1) _ _ l(1) [OF kl] l(1) [OF kl]] assms(3) by (auto simp: inj_on_def)
  have src: "\<exists>i < n. a = b + pages ! i + lines ! (k - 1)" if "a \<in> fst ` set ws" for a
    using that unfolding list.set_map [symmetric] assms(6) by auto
  have v: "\<forall>(a, v) \<in> set ws. 8 dvd a \<and> in_block (h_blocks h) a"
  proof clarify
    fix a v assume "(a, v) \<in> set ws"
    then obtain i where "i < n" "a = b + pages ! i + lines ! (k - 1)" using src [of a] by force
    then show "8 dvd a \<and> in_block (h_blocks h) a" using place_valid [OF assms(1) _ l [OF kl]] assms(3) by auto
  qed
  from put_all_ok [OF d v] obtain h' where
    h': "put_all ws h = Inr h'" "\<And>a v. (a, v) \<in> set ws \<Longrightarrow> get_ptr h' a = Inr v" "h_blocks h' = h_blocks h"
        "\<And>b. 8 dvd b \<Longrightarrow> b \<notin> fst ` set ws \<Longrightarrow> get_ptr h' b = get_ptr h b" by metis
  have "get_ptr h' (b + pages ! i + lines ! j) = get_ptr h (b + pages ! i + lines ! j)"
    if ij: "i < n" "j < length lines" "j \<noteq> k - 1" for i j
  proof (rule h'(4))
    show "8 dvd b + pages ! i + lines ! j" using place_valid [OF assms(1) _ l [OF ij(2)]] assms(3) ij(1) by auto
    have "lines ! j \<noteq> lines ! (k - 1)" using assms(2) kl ij(2,3) by (simp add: lined_def nth_eq_iff_index_eq)
    then show "b + pages ! i + lines ! j \<notin> fst ` set ws"
      using src place_inj [OF assms(1) _ _ l(1) [OF ij(2)] l(1) [OF kl], of i] assms(3) ij(1) by (metis order_less_le_trans)
  qed
  with h' that show ?thesis by blast
qed

lemma split_upt: "0 < n \<Longrightarrow> map f [0..<n - 1] @ [f (n - 1)] = map f [0..<n]"
  by (cases n) auto

lemma shortcut_ring:
  assumes "line_chain st pages lines h" "0 < k" "k < length lines"
    and "put_all (line_shortcut (ms_base st) pages lines k (ms_npages st)) h = Inr h'"
    and "\<And>a v. (a, v) \<in> set (line_shortcut (ms_base st) pages lines k (ms_npages st)) \<Longrightarrow> get_ptr h' a = Inr v"
    and "\<And>i j. i < ms_npages st \<Longrightarrow> j < length lines \<Longrightarrow> j \<noteq> k - 1 \<Longrightarrow>
       get_ptr h' (ms_base st + pages ! i + lines ! j) = get_ptr h (ms_base st + pages ! i + lines ! j)"
  shows "ring h' (map (line_at (ms_base st) (take (ms_npages st) pages) (take k lines)) [0..<ms_npages st * k])"
proof -
  let ?b = "ms_base st" and ?n = "ms_npages st" and ?p = "take (ms_npages st) pages" and ?l = "take k lines"
  have C: "paged h ?b (ms_pagesize st) pages" "lined (ms_pagesize st) (ms_line st) lines" "?n \<le> length pages" "0 < ?n"
    "ring h (map (line_at ?b ?p lines) [0..<?n * length lines])"
    using assms(1) by (auto simp: line_chain_def)
  have len: "length ?l = k" "length ?p = ?n" using assms(3) C(3) by auto
  have inj: "inj_on (line_at ?b ?p ?l) {..<?n * k}"
    using line_at_inj [OF paged_take [OF C(1)] lined_take [OF C(2) assms(2)], of ?n] unfolding len .
  have last: "get_ptr h' (?b + pages ! i + lines ! (k - 1)) = Inr (?b + pages ! (if i < ?n - 1 then Suc i else 0) + lines ! 0)" if "i < ?n" for i
  proof (rule assms(5))
    show "(?b + pages ! i + lines ! (k - 1), ?b + pages ! (if i < ?n - 1 then Suc i else 0) + lines ! 0) \<in> set (line_shortcut ?b pages lines k ?n)"
    proof (cases "i < ?n - 1")
      case False
      then have "i = ?n - 1" using that by simp
      then show ?thesis by (simp add: line_shortcut_def)
    qed (auto simp: line_shortcut_def)
  qed
  show ?thesis
  proof (rule ringI [OF _ inj])
    fix t assume t: "t < ?n * k"
    define i where "i = t div k"
    define j where "j = t mod k"
    have i: "i < ?n" "j < k" using t assms(2) by (auto simp: i_def j_def less_mult_imp_div_less)
    have here: "line_at ?b ?p ?l t = ?b + pages ! i + lines ! j"
      using i len by (simp add: line_at_def i_def [symmetric] j_def [symmetric])
    show "get_ptr h' (line_at ?b ?p ?l t) = Inr (line_at ?b ?p ?l (Suc t mod (?n * k)))"
      using t assms(2)
    proof (cases rule: next_in_rows)
      case inner
      then have "line_at ?b ?p ?l (Suc t mod (?n * k)) = ?b + pages ! i + lines ! Suc j"
        using i len by (simp add: line_at_def i_def j_def)
      moreover have "get_ptr h' (?b + pages ! i + lines ! j) = Inr (?b + pages ! i + lines ! Suc j)"
        using assms(6) [of i j] line_ring_step [OF C(5), of i j] i inner(1) assms(3) by (simp add: j_def)
      ultimately show ?thesis using here by simp
    next
      case jump
      then have "i < ?n - 1" "j = k - 1" by (simp_all add: i_def j_def)
      with jump show ?thesis using here last [OF i(1)] len assms(2) by (simp add: line_at_def i_def)
    next
      case close
      then have "\<not> i < ?n - 1" "j = k - 1" by (simp_all add: i_def j_def)
      with close show ?thesis using here last [OF i(1)] len assms(2) C(4) by (simp add: line_at_def)
    qed
  qed (use C(4) assms(2) in simp)
qed

lemma line_chain_heap:
  assumes "line_chain st pages lines h" "h_blocks h' = h_blocks h"
    and "\<And>i j. i < ms_npages st \<Longrightarrow> j < length lines \<Longrightarrow>
       get_ptr h' (ms_base st + pages ! i + lines ! j) = get_ptr h (ms_base st + pages ! i + lines ! j)"
  shows "line_chain st pages lines h'"
proof -
  let ?n = "ms_npages st" and ?k = "length lines" and ?b = "ms_base st"
  have k: "0 < ?k" using assms(1) by (simp add: line_chain_def lined_def)
  have "get_ptr h' (line_at ?b (take ?n pages) lines t) = get_ptr h (line_at ?b (take ?n pages) lines t)" if "t < ?n * ?k" for t
    using assms(3) [of "t div ?k" "t mod ?k"] that k by (simp add: line_at_def less_mult_imp_div_less)
  then show ?thesis using assms(1,2) by (auto simp: line_chain_def paged_def ring_def)
qed

lemma line_test_ok:
  assumes "line_chain st pages lines h" "ms_pagesize st div line = k" "0 < k" "k < length lines" "0 < line"
  obtains h1 h' t s' where "put_all (line_shortcut (ms_base st) pages lines k (ms_npages st)) h = Inr h1"
    "ring h1 (map (line_at (ms_base st) (take (ms_npages st) pages) (take k lines)) [0..<ms_npages st * k])"
    "line_test rnd line samples st (h, s) = Inr (t, h', s')" "line_chain st pages lines h'" "results s' = results s"
proof -
  let ?b = "ms_base st" and ?n = "ms_npages st"
  let ?ws = "line_shortcut ?b pages lines k ?n" and ?us = "line_fixup ?b pages lines k ?n"
  have C: "ms_pages st = Some pages" "ms_lines st = Some lines" "ms_nlines st = length lines" "0 < ?n" "?n \<le> length pages"
    "ring h (map (line_at ?b (take ?n pages) lines) [0..<?n * length lines])"
    "paged h ?b (ms_pagesize st) pages" "lined (ms_pagesize st) (ms_line st) lines"
    using assms(1) by (auto simp: line_chain_def)
  have f: "map fst ?ws = map (\<lambda>i. ?b + pages ! i + lines ! (k - 1)) [0..<?n]" "map fst ?us = map (\<lambda>i. ?b + pages ! i + lines ! (k - 1)) [0..<?n]"
    using split_upt [OF C(4), of "\<lambda>i. ?b + pages ! i + lines ! (k - 1)"] by (simp_all add: line_shortcut_def line_fixup_def comp_def)
  have us: "?us = map (\<lambda>i. (?b + pages ! i + lines ! (k - 1), ?b + pages ! i + lines ! k)) [0..<?n]"
    using split_upt [OF C(4)] by (simp add: line_fixup_def)
  obtain h1 where h1: "put_all ?ws h = Inr h1" "\<And>a v. (a, v) \<in> set ?ws \<Longrightarrow> get_ptr h1 a = Inr v" "h_blocks h1 = h_blocks h"
      "\<And>i j. i < ?n \<Longrightarrow> j < length lines \<Longrightarrow> j \<noteq> k - 1 \<Longrightarrow> get_ptr h1 (?b + pages ! i + lines ! j) = get_ptr h (?b + pages ! i + lines ! j)"
    by (rule last_lines_put [OF C(7,8,5) assms(3) _ f(1)]) (use assms(4) in auto)
  have pg: "paged h1 ?b (ms_pagesize st) pages" using C(7) h1(3) by (simp add: paged_def)
  obtain h2 where h2: "put_all ?us h1 = Inr h2" "\<And>a v. (a, v) \<in> set ?us \<Longrightarrow> get_ptr h2 a = Inr v" "h_blocks h2 = h_blocks h1"
      "\<And>i j. i < ?n \<Longrightarrow> j < length lines \<Longrightarrow> j \<noteq> k - 1 \<Longrightarrow> get_ptr h2 (?b + pages ! i + lines ! j) = get_ptr h1 (?b + pages ! i + lines ! j)"
    by (rule last_lines_put [OF pg C(8,5) assms(3) _ f(2)]) (use assms(4) in auto)
  have "get_ptr h2 (?b + pages ! i + lines ! j) = get_ptr h (?b + pages ! i + lines ! j)" if ij: "i < ?n" "j < length lines" for i j
  proof (cases "j = k - 1")
    case True
    have "get_ptr h2 (?b + pages ! i + lines ! j) = Inr (?b + pages ! i + lines ! k)"
      by (rule h2(2)) (use ij True in \<open>simp add: us\<close>)
    moreover have "Suc j = k" using True assms(3) by simp
    ultimately show ?thesis using line_ring_step [OF C(6) ij(1), of j] assms(4) ij C(5) by simp
  qed (use h1(4) h2(4) ij in simp)
  then have chain: "line_chain st pages lines h2" using line_chain_heap [OF assms(1), of h2] h2(3) h1(3) by simp
  obtain t s' where t: "line_time rnd samples s = Inr (t, s')" "results s' = results s" using line_time_ok by blast
  have "line_test rnd line samples st (h, s) = Inr (t, h2, s')"
    using C assms(2-5) h1(1) h2(1) t(1) by (simp add: line_test_def Let_def)
  with h1(1) shortcut_ring [OF assms(1,3,4) h1(1,2,4)] chain t(2) that show ?thesis by blast
qed

end
