(* ===== verification/Lm_Mem_Rings.thy ===== *)
theory Lm_Mem_Rings
  imports Lm_Mem_Chain
begin

text \<open>
  The rings of the other initialisations of \<open>lib_mem.c\<close>: with a fixed stride, jumping from page to page,
  through all words of all lines, and over separately allocated pages.  The lemmas count the stores
  and follow the order in which the places are visited; the theorems at the end say what the memory
  benchmarks rely on.
\<close>

section \<open>A fixed stride\<close>

lemma stride_loop_writes:
  assumes "0 < s" "m < n" "\<And>i. i * s < len \<longleftrightarrow> i < n"
  shows "stride_loop a s len (Suc m * s) = (map (\<lambda>t. (a + t * s, a + Suc t * s)) [m..<n - 1], n * s)"
  using assms(2)
proof (induction "n - 1 - m" arbitrary: m)
  case 0
  then have "Suc m = n" by linarith
  then show ?case using assms(3) [of "Suc m"] by (subst stride_loop.simps) (simp add: Let_def)
next
  case (Suc d)
  then have m: "Suc m < n" by linarith
  have "stride_loop a s len (Suc m * s + s) = (map (\<lambda>t. (a + t * s, a + Suc t * s)) [Suc m..<n - 1], n * s)"
    using Suc.hyps(1) [of "Suc m"] Suc.hyps(2) m by (simp add: add.commute)
  moreover have "[m..<n - 1] = m # [Suc m..<n - 1]" using m by (simp add: upt_conv_Cons)
  ultimately show ?case using m assms(1) assms(3) [of "Suc m"] by (subst stride_loop.simps) simp
qed

lemma ceil_less: "0 < s \<Longrightarrow> i * s < len \<longleftrightarrow> i < (len + s - 1) div (s :: nat)"
proof -
  assume s: "0 < s"
  have "i < (len + s - 1) div s \<longleftrightarrow> Suc i \<le> (len + s - 1) div s" by auto
  also have "\<dots> \<longleftrightarrow> Suc i * s \<le> len + s - 1" using s by (simp add: less_eq_div_iff_mult_less_eq)
  also have "\<dots> \<longleftrightarrow> i * s < len" using s by auto
  finally show ?thesis by simp
qed

lemma stride_ring:
  assumes "0 < s" "8 dvd s" "8 dvd a" "0 < len" "\<And>i. i * s < len \<Longrightarrow> in_block (h_blocks h) (a + i * s)"
  obtains h' where "put_all (fst (stride_loop a s len s) @ [(a + (snd (stride_loop a s len s) - s), a)]) h = Inr h'"
    "ring h' (map (\<lambda>t. a + t * s) [0..<(len + s - 1) div s])" "h_blocks h' = h_blocks h"
proof -
  define n where "n = (len + s - 1) div s"
  have n: "\<And>i. i * s < len \<longleftrightarrow> i < n" "0 < n" using ceil_less [OF assms(1)] div_up_pos [OF assms(4,1)] by (auto simp: n_def)
  have l: "stride_loop a s len s = (map (\<lambda>t. (a + t * s, a + Suc t * s)) [0..<n - 1], n * s)"
    using stride_loop_writes [OF assms(1) n(2,1), of a] by simp
  have e: "n * s - s = (n - 1) * s" by (simp add: diff_mult_distrib)
  let ?ws = "map (\<lambda>t. (a + t * s, a + Suc t * s)) [0..<n - 1] @ [(a + (n - 1) * s, a)]"
  have link: "(a + t * s, a + (Suc t mod n) * s) \<in> set ?ws" if "t < n" for t
  proof (cases "Suc t < n")
    case False
    then have "t = n - 1" "Suc t = n" using that by auto
    then show ?thesis by simp
  qed auto
  obtain h' where "put_all ?ws h = Inr h'" "ring h' (map (\<lambda>t. a + t * s) [0..<n])" "h_blocks h' = h_blocks h"
    by (rule chain_ring [of n ?ws "\<lambda>t. a + t * s"]) (use n link assms in \<open>auto simp: inj_on_def\<close>)
  then show ?thesis using that [of h'] l e by (simp add: n_def)
qed

section \<open>From page to page\<close>

definition thrash_at :: "nat \<Rightarrow> nat list \<Rightarrow> nat list \<Rightarrow> nat \<Rightarrow> nat" where
  "thrash_at base pages words t =
     base + pages ! (t mod length pages) + words ! ((t mod length pages + t div length pages) mod length words)"

lemma shift_mod_inj:
  assumes "(i + j) mod w = (i + j') mod w" "j < w" "j' < (w :: nat)"
  shows "j = j'"
proof -
  have less: "a = b" if "(i + a) mod w = (i + b) mod w" "b < w" "a \<le> b" for a b
  proof -
    have "w dvd b - a" using that(1,3) mod_eq_dvd_iff_nat [of "i + a" "i + b" w] by (simp add: eq_commute)
    then show ?thesis using that(2,3) by (metis diff_is_0_eq dvd_imp_le le_antisym less_imp_diff_less linorder_not_le neq0_conv)
  qed
  show ?thesis using less [of j j'] less [of j' j] assms by (metis nat_le_linear)
qed

lemma thrash_at_inj:
  assumes "paged h base psz pages" "lined psz line words" "pages \<noteq> []"
  shows "inj_on (thrash_at base pages words) {..<length words * length pages}"
proof (rule inj_onI)
  let ?n = "length pages" and ?w = "length words"
  fix t u assume t: "t \<in> {..<?w * ?n}" and u: "u \<in> {..<?w * ?n}" and e: "thrash_at base pages words t = thrash_at base pages words u"
  have w: "0 < ?w" "distinct words" "\<And>k. k < ?w \<Longrightarrow> words ! k < psz" using assms(2) by (auto simp: lined_def)
  have i: "t mod ?n < ?n" "u mod ?n < ?n" using assms(3) by auto
  have k: "(t mod ?n + t div ?n) mod ?w < ?w" "(u mod ?n + u div ?n) mod ?w < ?w" using w(1) by auto
  from place_inj [OF assms(1) i w(3) [OF k(1)] w(3) [OF k(2)]] e have
    "t mod ?n = u mod ?n" "words ! ((t mod ?n + t div ?n) mod ?w) = words ! ((u mod ?n + u div ?n) mod ?w)"
    by (auto simp: thrash_at_def)
  moreover from this(2) have "(t mod ?n + t div ?n) mod ?w = (u mod ?n + u div ?n) mod ?w"
    using k w(2) by (simp add: nth_eq_iff_index_eq)
  ultimately have "t mod ?n = u mod ?n" "t div ?n = u div ?n"
    using shift_mod_inj [of "t mod ?n" "t div ?n" ?w "u div ?n"] t u by (auto simp: less_mult_imp_div_less)
  then show "t = u" by (metis div_mult_mod_eq)
qed

lemma thrash_link:
  assumes "t < length words * length pages" "pages \<noteq> []"
  shows "(thrash_at base pages words t, thrash_at base pages words (Suc t mod (length words * length pages)))
           \<in> set (thrash_pages base words pages (length pages))"
proof -
  let ?n = "length pages" and ?w = "length words"
  have n: "0 < ?n" using assms(2) by simp
  have j: "t div ?n < ?w" using assms(1) by (simp add: less_mult_imp_div_less)
  show ?thesis
    using assms(1) n
  proof (cases rule: next_in_rows)
    case inner
    then have "(thrash_at base pages words t, thrash_at base pages words (Suc t mod (?w * ?n)))
        \<in> set (thrash_page base words (t mod ?n) (t mod ?n) (pages ! (t mod ?n)) (pages ! Suc (t mod ?n)))"
      using j by (auto simp: thrash_page_def thrash_at_def add.assoc intro!: image_eqI [of _ _ "t div ?n"])
    moreover have "t mod ?n < ?n - 1" using inner(1) by simp
    ultimately show ?thesis by (auto simp: thrash_pages_def)
  next
    case jump
    then have "(thrash_at base pages words t, thrash_at base pages words (Suc t mod (?w * ?n)))
        \<in> set (thrash_page base words (?n - 1) 0 (pages ! (?n - 1)) (pages ! 0))"
      using j by (auto simp: thrash_page_def thrash_at_def add.assoc intro!: image_eqI [of _ _ "t div ?n"])
    then show ?thesis by (auto simp: thrash_pages_def)
  next
    case close
    moreover have "Suc (?w - 1) = ?w" using j by linarith
    then have "Suc (?w - 1) mod ?w = 0" by simp
    ultimately have "(thrash_at base pages words t, thrash_at base pages words (Suc t mod (?w * ?n)))
        \<in> set (thrash_page base words (?n - 1) 0 (pages ! (?n - 1)) (pages ! 0))"
      using j by (auto simp: thrash_page_def thrash_at_def add.assoc intro!: image_eqI [of _ _ "t div ?n"])
    then show ?thesis by (auto simp: thrash_pages_def)
  qed
qed

lemma thrash_ring:
  assumes "paged h base psz pages" "lined psz line words" "pages \<noteq> []"
  obtains h' where "put_all (thrash_pages base words pages (length pages)) h = Inr h'"
    "ring h' (map (thrash_at base pages words) [0..<length words * length pages])" "h_blocks h' = h_blocks h"
proof -
  let ?n = "length pages" and ?w = "length words"
  have w: "0 < ?w" "\<And>k. k < ?w \<Longrightarrow> words ! k < psz \<and> 8 dvd words ! k"
    using assms(2) dvd_trans [of 8 line] by (auto simp: lined_def)
  have "length (concat (map (\<lambda>i. thrash_page base words i i (pages ! i) (pages ! Suc i)) [0..<?n - 1])) = (?n - 1) * ?w"
    by (rule length_concat_const) (simp add: thrash_page_def)
  moreover have "(?n - 1) * ?w + ?w = ?w * ?n" using assms(3) by (cases pages) simp_all
  ultimately have len: "length (thrash_pages base words pages ?n) = ?w * ?n" by (simp add: thrash_pages_def thrash_page_def)
  have valid: "8 dvd thrash_at base pages words t \<and> in_block (h_blocks h) (thrash_at base pages words t)" for t
    using place_valid [OF assms(1), of "t mod ?n"] w(2) [of "(t mod ?n + t div ?n) mod ?w"] w(1) assms(3) by (simp add: thrash_at_def)
  show ?thesis
    by (rule chain_ring [OF _ len thrash_at_inj [OF assms] thrash_link [OF _ assms(3)] valid]) (use w(1) assms(3) that in auto)
qed

section \<open>All words of all lines\<close>

text \<open>One page of \<open>mem_initialize\<close>: how far the loop gets, what it stores, and where the start pointers
  go.\<close>

definition lines_done :: "nat \<Rightarrow> nat \<Rightarrow> nat \<Rightarrow> nat" where
  "lines_done nlines npointers l = min (nlines - 1) (npointers - 1 - l)"

lemma mem_lines_ok:
  assumes "0 < width" "0 < npointers div width" "words \<noteq> []" "length ps = MAX_MEM_PARALLELISM"
    and "j + d = J" "J = min (nlines - 1) (j + (npointers - 1 - l))" "j \<le> nlines - 1"
  shows "\<exists>ps'. mem_lines page lines words nlines npointers line width j (l, ps) =
      Inr (concat (map (\<lambda>j. line_links line (page + lines ! j) (page + lines ! Suc j)) [j..<J]), J, l + d, ps') \<and>
    length ps' = length ps \<and>
    (\<forall>k < MAX_MEM_PARALLELISM. let x = k * (npointers div width) in
       if l \<le> x \<and> x < l + d then ps' ! k = page + lines ! (j + (x - l)) + words ! (k mod length words) else ps' ! k = ps ! k)"
  using assms(4-7)
proof (induction d arbitrary: j l ps)
  case 0
  then have "\<not> (Suc j < nlines \<and> Suc l < npointers)" by (auto simp: min_def split: if_splits)
  with 0 show ?case by (subst mem_lines.simps) auto
next
  case (Suc d)
  let ?s = "npointers div width"
  let ?k = "l div ?s"
  have c: "Suc j < nlines" "Suc l < npointers" using Suc.prems by (auto simp: min_def split: if_splits)
  let ?ps = "if l mod ?s = 0 \<and> ?k < MAX_MEM_PARALLELISM then ps[?k := page + lines ! j + words ! (?k mod length words)] else ps"
  have e: "Suc j + (npointers - 1 - Suc l) = j + (npointers - 1 - l)" using c by linarith
  have "length ?ps = MAX_MEM_PARALLELISM" "Suc j + d = J" "J = min (nlines - 1) (Suc j + (npointers - 1 - Suc l))" "Suc j \<le> nlines - 1"
    unfolding e using Suc.prems c by auto
  from Suc.IH [OF this] Suc.prems(1) obtain ps' where
    ps': "mem_lines page lines words nlines npointers line width (Suc j) (Suc l, ?ps) =
        Inr (concat (map (\<lambda>j. line_links line (page + lines ! j) (page + lines ! Suc j)) [Suc j..<J]), J, Suc l + d, ps')"
      "length ps' = length ps"
      "\<And>k. k < MAX_MEM_PARALLELISM \<Longrightarrow> (let x = k * ?s in if Suc l \<le> x \<and> x < Suc l + d
          then ps' ! k = page + lines ! (Suc j + (x - Suc l)) + words ! (k mod length words) else ps' ! k = ?ps ! k)"
    by auto
  have "j < J" using Suc.prems(2) by linarith
  then have J: "[j..<J] = j # [Suc j..<J]" by (rule upt_conv_Cons)
  have step: "mem_lines page lines words nlines npointers line width j (l, ps) =
      Inr (concat (map (\<lambda>j. line_links line (page + lines ! j) (page + lines ! Suc j)) [j..<J]), J, l + Suc d, ps')"
    using c assms(1-3) ps'(1) J by (subst mem_lines.simps) (simp add: Let_def)
  have "let x = k * ?s in if l \<le> x \<and> x < l + Suc d then ps' ! k = page + lines ! (j + (x - l)) + words ! (k mod length words) else ps' ! k = ps ! k"
    if k: "k < MAX_MEM_PARALLELISM" for k
  proof (cases "k * ?s = l")
    case True
    then have "l mod ?s = 0" "?k = k" using assms(2) by auto
    then show ?thesis using ps'(3) [OF k] True k Suc.prems(1) by (auto simp: Let_def)
  next
    case False
    then have "?ps ! k = ps ! k" using assms(2) by auto
    moreover have "Suc j + (k * ?s - Suc l) = j + (k * ?s - l)" if "Suc l \<le> k * ?s" using that by linarith
    moreover have "l \<le> k * ?s \<and> k * ?s < l + Suc d \<longleftrightarrow> Suc l \<le> k * ?s \<and> k * ?s < Suc l + d" using False by linarith
    ultimately show ?thesis using ps'(3) [OF k] unfolding Let_def by metis
  qed
  with step ps'(2) show ?case by blast
qed

lemma length_line_links: "length (line_links line a b) = (line + 7) div 8"
  by (simp add: line_links_def)

lemma line_links_mem: "k < (line + 7) div 8 \<Longrightarrow> (a + 8 * k, b + 8 * k) \<in> set (line_links line a b)"
  by (auto simp: line_links_def)

definition page_links :: "nat \<Rightarrow> nat \<Rightarrow> nat list \<Rightarrow> nat \<Rightarrow> writes" where
  "page_links line page lines J = concat (map (\<lambda>j. line_links line (page + lines ! j) (page + lines ! Suc j)) [0..<J])"

lemma length_page_links: "length (page_links line page lines J) = J * ((line + 7) div 8)"
  unfolding page_links_def by (rule length_concat_const) (rule length_line_links)

lemma page_links_mem:
  "j < J \<Longrightarrow> k < (line + 7) div 8 \<Longrightarrow> (page + lines ! j + 8 * k, page + lines ! Suc j + 8 * k) \<in> set (page_links line page lines J)"
  unfolding page_links_def by (erule in_concat_upt) (rule line_links_mem)

text \<open>The stores of the pages \<open>qs\<close>, the last of which is run through up to line \<open>J\<close> only, and the start
  pointers set on the way, between \<open>l\<close> and \<open>l'\<close>.\<close>

definition pages_linked ::
  "nat \<Rightarrow> nat list \<Rightarrow> nat list \<Rightarrow> nat list \<Rightarrow> nat \<Rightarrow> writes \<Rightarrow> bool" where
  "pages_linked p lines words qs J ws \<longleftrightarrow>
     (\<forall>i < length qs. \<forall>j < (if Suc i = length qs then J else length lines - 1). \<forall>k < length words.
        (p + qs ! i + lines ! j + 8 * k, p + qs ! i + lines ! Suc j + 8 * k) \<in> set ws) \<and>
     (\<forall>i. Suc i < length qs \<longrightarrow> (\<forall>k < length words.
        (p + qs ! i + lines ! (length lines - 1) + words ! k, p + qs ! Suc i + lines ! 0 + words ! k) \<in> set ws))"

definition pointers_set ::
  "nat \<Rightarrow> nat list \<Rightarrow> nat list \<Rightarrow> nat list \<Rightarrow> nat \<Rightarrow> nat \<Rightarrow> nat \<Rightarrow> nat \<Rightarrow> nat list \<Rightarrow> nat list \<Rightarrow> bool" where
  "pointers_set p lines words qs J step l l' ps ps' \<longleftrightarrow> length ps' = length ps \<and>
     (\<forall>k < MAX_MEM_PARALLELISM.
        if l \<le> k * step \<and> k * step < l'
        then \<exists>i < length qs. \<exists>j < (if Suc i = length qs then J else length lines - 1).
               i * (length lines - 1) + j = k * step - l \<and> ps' ! k = p + qs ! i + lines ! j + words ! (k mod length words)
        else ps' ! k = ps ! k)"

lemma pages_linked_Cons:
  assumes "pages_linked p lines words rest J ws" "rest \<noteq> []"
    and "\<And>j k. j < length lines - 1 \<Longrightarrow> k < length words \<Longrightarrow>
       (p + q + lines ! j + 8 * k, p + q + lines ! Suc j + 8 * k) \<in> set w1 \<union> set w2"
    and "\<And>k. k < length words \<Longrightarrow> (p + q + lines ! (length lines - 1) + words ! k, p + hd rest + lines ! 0 + words ! k) \<in> set w1 \<union> set w2"
  shows "pages_linked p lines words (q # rest) J (w1 @ w2 @ ws)"
  unfolding pages_linked_def
proof (intro conjI allI impI)
  fix i j k assume "i < length (q # rest)" "j < (if Suc i = length (q # rest) then J else length lines - 1)" "k < length words"
  then show "(p + (q # rest) ! i + lines ! j + 8 * k, p + (q # rest) ! i + lines ! Suc j + 8 * k) \<in> set (w1 @ w2 @ ws)"
    using assms(1,2) assms(3) [of j k] by (cases i) (auto simp: pages_linked_def)
next
  fix i k assume "Suc i < length (q # rest)" "k < length words"
  then show "(p + (q # rest) ! i + lines ! (length lines - 1) + words ! k, p + (q # rest) ! Suc i + lines ! 0 + words ! k) \<in> set (w1 @ w2 @ ws)"
    using assms(1,2) assms(4) [of k] by (cases i) (auto simp: pages_linked_def hd_conv_nth)
qed

lemma pointers_set_Cons:
  assumes "pointers_set p lines words rest J s (l + (length lines - 1)) l' ps1 ps'" "rest \<noteq> []" "length ps1 = length ps"
    and "\<forall>k < MAX_MEM_PARALLELISM. if l \<le> k * s \<and> k * s < l + (length lines - 1)
       then ps1 ! k = p + q + lines ! (k * s - l) + words ! (k mod length words) else ps1 ! k = ps ! k"
    and "l + (length lines - 1) \<le> l'"
  shows "pointers_set p lines words (q # rest) J s l l' ps ps'"
  unfolding pointers_set_def
proof (intro conjI allI impI)
  let ?m = "length lines - 1"
  show "length ps' = length ps" using assms(1,3) by (simp add: pointers_set_def)
  fix k assume k: "k < MAX_MEM_PARALLELISM"
  have one: "if l + ?m \<le> k * s \<and> k * s < l'
        then \<exists>i < length rest. \<exists>j < (if Suc i = length rest then J else ?m).
               i * ?m + j = k * s - (l + ?m) \<and> ps' ! k = p + rest ! i + lines ! j + words ! (k mod length words)
        else ps' ! k = ps1 ! k"
    using assms(1) k unfolding pointers_set_def by blast
  show "if l \<le> k * s \<and> k * s < l'
        then \<exists>i < length (q # rest). \<exists>j < (if Suc i = length (q # rest) then J else ?m).
               i * ?m + j = k * s - l \<and> ps' ! k = p + (q # rest) ! i + lines ! j + words ! (k mod length words)
        else ps' ! k = ps ! k"
  proof (cases "l + ?m \<le> k * s \<and> k * s < l'")
    case True
    with one obtain i j where "i < length rest" "j < (if Suc i = length rest then J else ?m)"
      "i * ?m + j = k * s - (l + ?m)" "ps' ! k = p + rest ! i + lines ! j + words ! (k mod length words)" by auto
    moreover have "Suc i * ?m + j = k * s - l" unfolding mult_Suc using calculation(3) True by linarith
    ultimately have "Suc i < length (q # rest) \<and> j < (if Suc (Suc i) = length (q # rest) then J else ?m) \<and>
        Suc i * ?m + j = k * s - l \<and> ps' ! k = p + (q # rest) ! Suc i + lines ! j + words ! (k mod length words)" by simp
    moreover have c: "l \<le> k * s \<and> k * s < l'" using True by linarith
    ultimately show ?thesis unfolding if_P [OF c] by blast
  next
    case False
    then have p1: "ps' ! k = ps1 ! k" using one by simp
    show ?thesis
    proof (cases "l \<le> k * s \<and> k * s < l + ?m")
      case True
      then have "ps' ! k = p + q + lines ! (k * s - l) + words ! (k mod length words)" "k * s - l < ?m"
        using p1 assms(4) k by auto
      then have "0 < length (q # rest) \<and> k * s - l < (if Suc 0 = length (q # rest) then J else ?m) \<and>
          0 * ?m + (k * s - l) = k * s - l \<and> ps' ! k = p + (q # rest) ! 0 + lines ! (k * s - l) + words ! (k mod length words)"
        using assms(2) by simp
      moreover have c: "l \<le> k * s \<and> k * s < l'" using True assms(5) by linarith
      ultimately show ?thesis unfolding if_P [OF c] by blast
    next
      case F: False
      then have "\<not> (l \<le> k * s \<and> k * s < l')" using False by linarith
      then show ?thesis using p1 assms(4) k F by auto
    qed
  qed
qed

lemma mem_pages_ok:
  assumes "0 < width" "0 < npointers div width" "words \<noteq> []" "lines \<noteq> []" "(line + 7) div 8 = length words"
    and "length ps = MAX_MEM_PARALLELISM" "qs \<noteq> []"
    and "length qs = 1 \<or> l + (length qs - 1) * (length lines - 1) < npointers"
    and "J = min (length lines - 1) (npointers - 1 - (l + (length qs - 1) * (length lines - 1)))"
  shows "\<exists>ws ps'. mem_pages p lines words (length lines) npointers line width qs (l, ps) = Inr (ws, J, ps') \<and>
    length ws = length words * (length lines * (length qs - 1) + J) \<and> pages_linked p lines words qs J ws \<and>
    pointers_set p lines words qs J (npointers div width) l (l + (length qs - 1) * (length lines - 1) + J) ps ps'"
  using assms(6-9)
proof (induction qs arbitrary: l ps)
  case (Cons q rest)
  let ?nl = "length lines" and ?nw = "length words" and ?s = "npointers div width"
  show ?case
  proof (cases "rest = []")
    case True
    have "0 + J = J" "J = min (?nl - 1) (0 + (npointers - 1 - l))" "0 \<le> ?nl - 1" using Cons.prems(4) True by auto
    from mem_lines_ok [OF assms(1-3) Cons.prems(1) this, of "p + q" lines line] obtain ps' where
      m: "mem_lines (p + q) lines words ?nl npointers line width 0 (l, ps) =
          Inr (page_links line (p + q) lines J, J, l + J, ps')"
         "length ps' = length ps"
         "\<forall>k < MAX_MEM_PARALLELISM. let x = k * ?s in
            if l \<le> x \<and> x < l + J then ps' ! k = p + q + lines ! (0 + (x - l)) + words ! (k mod ?nw) else ps' ! k = ps ! k"
      unfolding page_links_def by blast
    let ?ws = "page_links line (p + q) lines J"
    have "length ?ws = J * ?nw" by (simp add: length_page_links assms(5))
    moreover have "pages_linked p lines words [q] J ?ws"
      using page_links_mem [of _ J _ line "p + q" lines] assms(5) by (simp add: pages_linked_def)
    moreover have "pointers_set p lines words [q] J ?s l (l + J) ps ps'"
      using m(2,3) by (auto simp: pointers_set_def Let_def)
    ultimately show ?thesis using m(1) True by (auto simp: mult.commute)
  next
    case False
    then have r: "0 < length rest" by simp
    have full: "l + length rest * (?nl - 1) < npointers" using Cons.prems(3) r by simp
    have mono: "?nl - 1 \<le> length rest * (?nl - 1)" using r by (cases "length rest") auto
    then have "?nl - 1 \<le> npointers - 1 - l" using full by linarith
    then have "0 + (?nl - 1) = ?nl - 1" "?nl - 1 = min (?nl - 1) (0 + (npointers - 1 - l))" "0 \<le> ?nl - 1" by auto
    from mem_lines_ok [OF assms(1-3) Cons.prems(1) this, of "p + q" lines line] obtain ps1 where
      m: "mem_lines (p + q) lines words ?nl npointers line width 0 (l, ps) =
          Inr (page_links line (p + q) lines (?nl - 1), ?nl - 1, l + (?nl - 1), ps1)"
         "length ps1 = length ps"
         "\<forall>k < MAX_MEM_PARALLELISM. let x = k * ?s in
            if l \<le> x \<and> x < l + (?nl - 1) then ps1 ! k = p + q + lines ! (0 + (x - l)) + words ! (k mod ?nw) else ps1 ! k = ps ! k"
      unfolding page_links_def by blast
    have e: "l + (?nl - 1) + (length rest - 1) * (?nl - 1) = l + length rest * (?nl - 1)" using r by (cases "length rest") auto
    have "length ps1 = MAX_MEM_PARALLELISM" "rest \<noteq> []" "length rest = 1 \<or> l + (?nl - 1) + (length rest - 1) * (?nl - 1) < npointers"
      "J = min (?nl - 1) (npointers - 1 - (l + (?nl - 1) + (length rest - 1) * (?nl - 1)))"
      unfolding e using m(2) Cons.prems False full by auto
    from Cons.IH [OF this] obtain ws ps' where
      w: "mem_pages p lines words ?nl npointers line width rest (l + (?nl - 1), ps1) = Inr (ws, J, ps')"
         "length ws = ?nw * (?nl * (length rest - 1) + J)" "pages_linked p lines words rest J ws"
         "pointers_set p lines words rest J ?s (l + (?nl - 1)) (l + length rest * (?nl - 1) + J) ps1 ps'"
      unfolding e by blast
    let ?w1 = "page_links line (p + q) lines (?nl - 1)"
    let ?w2 = "map (\<lambda>k. (p + q + lines ! (?nl - 1) + words ! k, p + hd rest + lines ! 0 + words ! k)) [0..<?nw]"
    have "mem_pages p lines words ?nl npointers line width (q # rest) (l, ps) = Inr (?w1 @ ?w2 @ ws, J, ps')"
      using m(1) w(1) False by simp
    moreover have "length (?w1 @ ?w2 @ ws) = ?nw * (?nl * (length (q # rest) - 1) + J)"
    proof -
      obtain a b where "?nl = Suc a" "length rest = Suc b" using assms(4) r by (metis Suc_pred' length_greater_0_conv)
      then show ?thesis using w(2) by (simp add: length_page_links assms(5) algebra_simps)
    qed
    moreover have "pages_linked p lines words (q # rest) J (?w1 @ ?w2 @ ws)"
      by (rule pages_linked_Cons [OF w(3) False]) (use page_links_mem [of _ "?nl - 1" _ line "p + q" lines] assms(5) in auto)
    moreover have "pointers_set p lines words (q # rest) J ?s l (l + (length (q # rest) - 1) * (?nl - 1) + J) ps ps'"
    proof -
      have "length (q # rest) - 1 = length rest" by simp
      moreover have "l + (?nl - 1) \<le> l + length rest * (?nl - 1) + J"
        using mono by linarith
      ultimately show ?thesis
        using pointers_set_Cons [OF w(4) False m(2), of q] m(3) unfolding Let_def add_0 by metis
    qed
    ultimately show ?thesis by blast
  qed
qed simp

text \<open>The order of the chain: through the first word of the first \<open>M\<close> lines, then through the second
  word, and so on.\<close>

definition word_at :: "nat \<Rightarrow> nat list \<Rightarrow> nat list \<Rightarrow> nat list \<Rightarrow> nat \<Rightarrow> nat \<Rightarrow> nat" where
  "word_at base pages lines words M t = line_at base pages lines (t mod M) + words ! (t div M)"

text \<open>Where a word lies in its page.\<close>

lemma word_in_page:
  assumes "lined psz line lines" "lined line 8 words" "line dvd psz" "j < length lines" "w < length words"
  shows "lines ! j + words ! w < psz" "8 dvd lines ! j + words ! w" "words ! w < line" "(lines ! j + words ! w) mod line = words ! w"
    "\<exists>k. words ! w = 8 * k \<and> 8 * k < line"
proof -
  have l: "line dvd lines ! j" "lines ! j < psz" "8 dvd line" using assms(1,4) by (auto simp: lined_def)
  have w: "8 dvd words ! w" "words ! w < line" using assms(2,5) by (auto simp: lined_def)
  obtain a b where "lines ! j = line * a" "psz = line * b" using l(1) assms(3) by (auto elim!: dvdE)
  then have "lines ! j + line \<le> psz" using l(2) by (metis Suc_leI add.commute mult_Suc_right mult_le_mono2 nat_mult_less_cancel_disj)
  with w show "lines ! j + words ! w < psz" "words ! w < line" by linarith+
  show "8 dvd lines ! j + words ! w" using l(1,3) w(1) by (meson dvd_add dvd_trans)
  show "(lines ! j + words ! w) mod line = words ! w" using l(1) w(2) by (auto elim!: dvdE)
  show "\<exists>k. words ! w = 8 * k \<and> 8 * k < line" using w by (auto elim!: dvdE)
qed

lemma word_at_inj:
  assumes "paged h base psz pages" "lined psz line lines" "lined line 8 words" "line dvd psz" "0 < M" "M \<le> length pages * length lines"
  shows "inj_on (word_at base pages lines words M) {..<length words * M}"
proof (rule inj_onI)
  let ?nl = "length lines"
  fix t u assume t: "t \<in> {..<length words * M}" and u: "u \<in> {..<length words * M}" and e: "word_at base pages lines words M t = word_at base pages lines words M u"
  have nl: "0 < ?nl" "distinct lines" "distinct words" using assms(2,3) by (auto simp: lined_def)
  have w: "t div M < length words" "u div M < length words" using t u by (auto simp: less_mult_imp_div_less)
  have q: "t mod M < length pages * ?nl" "u mod M < length pages * ?nl" using assms(5,6) by (metis mod_less_divisor order_less_le_trans)+
  have i: "t mod M div ?nl < length pages" "u mod M div ?nl < length pages" using q by (auto simp: less_mult_imp_div_less)
  have j: "t mod M mod ?nl < ?nl" "u mod M mod ?nl < ?nl" using nl(1) by auto
  note W = word_in_page [OF assms(2-4) j(1) w(1)] word_in_page [OF assms(2-4) j(2) w(2)]
  from place_inj [OF assms(1) i W(1,6)] e have
    p: "t mod M div ?nl = u mod M div ?nl"
       "lines ! (t mod M mod ?nl) + words ! (t div M) = lines ! (u mod M mod ?nl) + words ! (u div M)"
    by (auto simp: word_at_def line_at_def)
  then have ww: "words ! (t div M) = words ! (u div M)" using W(4,9) by metis
  then have "t div M = u div M" "t mod M mod ?nl = u mod M mod ?nl"
    using p(2) nl w j by (auto simp: nth_eq_iff_index_eq)
  then have "t div M = u div M" "t mod M = u mod M" using p(1) by (metis div_mult_mod_eq)+
  then show "t = u" by (metis div_mult_mod_eq)
qed

lemma word_at_valid:
  assumes "paged h base psz pages" "lined psz line lines" "lined line 8 words" "line dvd psz" "0 < M" "M \<le> length pages * length lines"
    and "t < length words * M"
  shows "8 dvd word_at base pages lines words M t \<and> in_block (h_blocks h) (word_at base pages lines words M t)"
proof -
  let ?nl = "length lines"
  have "t mod M < length pages * ?nl" using assms(5,6) by (metis mod_less_divisor order_less_le_trans)
  then have i: "t mod M div ?nl < length pages" by (simp add: less_mult_imp_div_less)
  have "t mod M mod ?nl < ?nl" "t div M < length words" using assms(2,7) by (auto simp: lined_def less_mult_imp_div_less)
  from word_in_page [OF assms(2-4) this] place_valid [OF assms(1) i] show ?thesis
    by (simp add: word_at_def line_at_def add.assoc)
qed

lemma mem_ring_link:
  assumes "pages_linked p lines words pages J ws" "lined psz line lines" "lined line 8 words" "line = 8 * length words" "line dvd psz"
    and "pages \<noteq> []" "J < length lines" "M = (length pages - 1) * length lines + J + 1" "t < length words * M"
  shows "(word_at p pages lines words M t, word_at p pages lines words M (Suc t mod (length words * M)))
    \<in> set (ws @ mem_close (p + pages ! (length pages - 1) + lines ! J) (p + pages ! 0 + lines ! 0) words)"
proof -
  let ?n = "length pages" and ?nl = "length lines" and ?nw = "length words"
  define q where "q = t mod M"
  define w where "w = t div M"
  have nl: "0 < ?nl" using assms(7) by linarith
  have w: "w < ?nw" using assms(9) by (simp add: w_def less_mult_imp_div_less)
  have M: "0 < M" using assms(8) by simp
  have q: "q < M" using M by (simp add: q_def)
  have last: "M - 1 = (?n - 1) * ?nl + J" using assms(8) by simp
  have dm: "(M - 1) div ?nl = ?n - 1" "(M - 1) mod ?nl = J" unfolding last using nl assms(7) by simp_all
  have here: "word_at p pages lines words M t = p + pages ! (q div ?nl) + lines ! (q mod ?nl) + words ! w"
    by (simp add: word_at_def line_at_def q_def w_def)
  have M0: "?n - 1 < ?n" using assms(6) by simp
  have top: "q div ?nl \<le> ?n - 1" using q dm(1) div_le_mono [of q "M - 1" ?nl] by simp
  show ?thesis
    using assms(9) M
  proof (cases rule: next_in_rows)
    case inner
    then have s: "Suc q < M" "word_at p pages lines words M (Suc t mod (?nw * M)) = p + pages ! (Suc q div ?nl) + lines ! (Suc q mod ?nl) + words ! w"
      by (simp_all add: word_at_def line_at_def q_def w_def)
    show ?thesis
    proof (cases "Suc (q mod ?nl) = ?nl")
      case True
      then have r: "Suc q mod ?nl = 0" "Suc q div ?nl = Suc (q div ?nl)" "q mod ?nl = ?nl - 1" by (simp_all add: mod_Suc div_Suc)
      have "Suc q div ?nl \<le> ?n - 1" using s(1) dm(1) div_le_mono [of "Suc q" "M - 1" ?nl] by simp
      then have "Suc (q div ?nl) < ?n" using r(2) M0 by linarith
      then show ?thesis using assms(1) w r here s(2) by (simp add: pages_linked_def)
    next
      case False
      have lt: "Suc (q mod ?nl) < ?nl" using False nl by (meson Suc_lessI mod_less_divisor)
      then have r: "Suc q mod ?nl = Suc (q mod ?nl)" "Suc q div ?nl = q div ?nl" by (simp_all add: mod_Suc div_Suc)
      have j: "q mod ?nl < (if Suc (q div ?nl) = ?n then J else ?nl - 1)"
      proof (cases "Suc (q div ?nl) = ?n")
        case True
        then have "q = (?n - 1) * ?nl + q mod ?nl" by (metis diff_Suc_1 div_mult_mod_eq)
        then have "q mod ?nl < J" using s(1) last by linarith
        with True show ?thesis by simp
      qed (use lt in simp)
      obtain k where k: "words ! w = 8 * k" "k < ?nw" using word_in_page(5) [OF assms(2,3,5) nl w] assms(4) by auto
      have "q div ?nl < ?n" using top M0 by linarith
      then show ?thesis using assms(1) j k r here s(2) by (simp add: pages_linked_def)
    qed
  next
    case jump
    then have "q = M - 1" "Suc w < ?nw" by (simp_all add: q_def w_def)
    then have "word_at p pages lines words M (Suc t mod (?nw * M)) = p + pages ! 0 + lines ! 0 + words ! (w + 1)"
      "word_at p pages lines words M t = p + pages ! (?n - 1) + lines ! J + words ! w"
      using jump here dm by (simp_all add: word_at_def line_at_def w_def)
    with \<open>Suc w < ?nw\<close> show ?thesis by (auto simp: mem_close_def intro!: image_eqI [of _ _ w])
  next
    case close
    then have "q = M - 1" "w = ?nw - 1" by (simp_all add: q_def w_def)
    then have "word_at p pages lines words M (Suc t mod (?nw * M)) = p + pages ! 0 + lines ! 0 + words ! 0"
      "word_at p pages lines words M t = p + pages ! (?n - 1) + lines ! J + words ! (?nw - 1)"
      using close here dm by (simp_all add: word_at_def line_at_def)
    then show ?thesis using w by (auto simp: mem_close_def intro!: image_eqI [of _ _ "?nw - 1"])
  qed
qed

lemma indices_exist: "set ps \<subseteq> set xs \<Longrightarrow> \<exists>is. ps = map ((!) xs) is \<and> (\<forall>i \<in> set is. i < length xs)"
proof (induction ps)
  case (Cons p ps)
  then obtain "is" i where "ps = map ((!) xs) is" "\<forall>i \<in> set is. i < length xs" "i < length xs" "xs ! i = p"
    by (auto simp: in_set_conv_nth)
  then show ?case by (intro exI [of _ "i # is"]) auto
qed auto

lemma mem_benchmark_ok:
  assumes "ring h xs" "\<not> h_rerun h" "set (take (Suc N) (ms_p st)) \<subseteq> set xs"
  obtains h' where "mem_benchmark N k st h = Inr h'" "h_cells h' = h_cells h" "h_blocks h' = h_blocks h"
proof -
  from indices_exist [OF assms(3)] obtain "is" where "take (Suc N) (ms_p st) = map ((!) xs) is" "\<forall>i \<in> set is. i < length xs" by auto
  from mem_benchmark_ring [OF assms(1,2) this] that show ?thesis by simp
qed

text \<open>The length of the buffer in lines covers all pages but the last.\<close>

lemma pointers_cover:
  fixes len psz line nl n :: nat
  assumes "0 < line" "psz = nl * line" "0 < nl" "n = (len + psz - 1) div psz" "2 \<le> n"
  shows "(n - 1) * nl \<le> len div line" "(n - 1) * (nl - 1) < len div line"
proof -
  have "0 < psz" using assms(1-3) by simp
  then have "(n - 1) * psz < len" using ceil_less [of psz "n - 1" len] assms(4,5) by simp
  then have "(n - 1) * nl * line \<le> len" using assms(2) by (simp add: mult.assoc)
  then show c: "(n - 1) * nl \<le> len div line" using assms(1) by (simp add: less_eq_div_iff_mult_less_eq)
  have "(n - 1) * (nl - 1) < (n - 1) * nl" using assms(3,5) by simp
  with c show "(n - 1) * (nl - 1) < len div line" by linarith
qed

lemma pointer_on_ring:
  assumes "pointers_set p lines words pages J step 0 (reach) ps ps'" "k < MAX_MEM_PARALLELISM" "k * step < reach"
    and "lines \<noteq> []" "words \<noteq> []" "J < length lines" "M = (length pages - 1) * length lines + J + 1"
  shows "ps' ! k \<in> set (map (word_at p pages lines words M) [0..<length words * M])"
proof -
  let ?nl = "length lines" and ?w = "k mod length words"
  obtain i j where ij: "i < length pages" "j < (if Suc i = length pages then J else ?nl - 1)"
    "ps' ! k = p + pages ! i + lines ! j + words ! ?w"
    using assms(1-3) unfolding pointers_set_def by (metis le0)
  have j: "j < ?nl" using ij(2) assms(6) by (auto split: if_splits)
  have "i * ?nl + j < M"
  proof (cases "Suc i = length pages")
    case True
    then have "i = length pages - 1" "j < J" using ij(2) by auto
    then show ?thesis using assms(7) by simp
  next
    case False
    then have "Suc i \<le> length pages - 1" using ij(1) by linarith
    then have "i * ?nl + ?nl \<le> (length pages - 1) * ?nl" by (metis add.commute mult_Suc mult_le_mono1)
    then show ?thesis using j assms(7) by linarith
  qed
  moreover have w: "?w < length words" using assms(5) by simp
  ultimately have t: "?w * M + (i * ?nl + j) < length words * M"
    by (metis add.commute add_less_cancel_right le_eq_less_or_eq less_le_trans mult_Suc mult_le_mono1 Suc_leI add_strict_left_mono)
  have "word_at p pages lines words M (?w * M + (i * ?nl + j)) = ps' ! k"
    using ij(3) line_at_split [OF j, of p pages i] \<open>i * ?nl + j < M\<close> by (simp add: word_at_def)
  with t show ?thesis by force
qed

lemma mem_initialize_ok:
  assumes "base_ready E st" "me_words_ok E" "ms_line st = 8 * 2 ^ c" "ms_pagesize st = 2 ^ b * ms_line st" "0 < ms_len st"
    and "length (ms_p st) = MAX_MEM_PARALLELISM" "0 < ms_width st" "ms_width st \<le> MAX_MEM_PARALLELISM"
    and "n = (ms_len st + ms_pagesize st - 1) div ms_pagesize st" "np = ms_len st div ms_line st" "0 < np div ms_width st"
    and "J = min (2 ^ b - 1) (np - 1 - (n - 1) * (2 ^ b - 1))"
    and "(ms_width st - 1) * (np div ms_width st) < (n - 1) * (2 ^ b - 1) + J"
  shows "\<exists>st' h' xs. mem_initialize E 0 st h = Inr (st', h') \<and> ms_initialized st' \<and> ring h' xs \<and>
    length xs = 2 ^ c * ((n - 1) * 2 ^ b + J + 1) \<and> (\<forall>k < ms_width st. ms_p st' ! k \<in> set xs)"
proof -
  let ?psz = "ms_pagesize st" and ?line = "ms_line st"
  have pos: "0 < ?line" "0 < ?psz" using assms(1) by (auto simp: base_ready_def)
  obtain p base pages h1 where b: "base_initialize E 0 st h = Inr (st\<lparr>ms_initialized := True, ms_addr := p, ms_base := base,
       ms_nwords := ?line div 8, ms_nlines := ?psz div ?line, ms_npages := n,
       ms_lines := None, ms_pages := Some pages, ms_words := None\<rparr>, h1)" "paged h1 base ?psz pages" "n \<le> length pages" "\<not> h_rerun h1"
    unfolding assms(9) using base_initialize_ok [OF assms(1)] by metis
  obtain lines where l: "words_initialize True (2 ^ b) ?line = Some lines" "lined ?psz ?line lines" "length lines = 2 ^ b"
    using words_lined [of ?line b ?psz] pos assms(3,4) by auto
  obtain words where w: "words_initialize True (2 ^ c) 8 = Some words" "lined ?line 8 words" "length words = 2 ^ c"
    using words_lined [of 8 c ?line] assms(3) by auto
  have sizes: "?line div 8 = 2 ^ c" "?psz div ?line = 2 ^ b" using assms(3,4) pos by simp_all
  have n: "0 < n" using div_up_pos [OF assms(5) pos(2)] assms(9) by simp
  let ?pp = "take n pages"
  have pp: "length ?pp = n" "?pp \<noteq> []" "?pp ! 0 = pages ! 0" "?pp ! (n - 1) = pages ! (n - 1)" using b(3) n by auto
  have full: "n = 1 \<or> (n - 1) * (2 ^ b - 1) < np"
    using pointers_cover(2) [OF pos(1) assms(4) _ assms(9)] n assms(10) by (cases "n = 1") auto
  have ne: "words \<noteq> []" "lines \<noteq> []" using w(2) l(2) by (simp_all add: lined_def)
  have wl: "(?line + 7) div 8 = length words" using w(3) assms(3) by simp
  have fl: "length ?pp = 1 \<or> 0 + (length ?pp - 1) * (length lines - 1) < np" unfolding pp(1) l(3) using full by simp
  have Jl: "J = min (length lines - 1) (np - 1 - (0 + (length ?pp - 1) * (length lines - 1)))" unfolding pp(1) l(3) using assms(12) by simp
  from mem_pages_ok [OF assms(7,11) ne wl assms(6) pp(2) fl Jl, of base] obtain ws ps' where
    m: "mem_pages base lines words (2 ^ b) np ?line (ms_width st) ?pp (0, ms_p st) = Inr (ws, J, ps')"
       "length ws = 2 ^ c * (2 ^ b * (n - 1) + J)" "pages_linked base lines words ?pp J ws"
       "pointers_set base lines words ?pp J (np div ms_width st) 0 ((n - 1) * (2 ^ b - 1) + J) (ms_p st) ps'"
    unfolding pp(1) l(3) w(3) add_0 by blast
  define M where "M = (n - 1) * 2 ^ b + J + 1"
  have J: "J < 2 ^ b" using assms(12) by (simp add: min_less_iff_disj)
  let ?xs = "map (word_at base ?pp lines words M) [0..<2 ^ c * M]"
  let ?ws = "ws @ mem_close (base + pages ! (n - 1) + lines ! J) (base + pages ! 0 + lines ! 0) words"
  have M: "0 < M" "M \<le> length ?pp * length lines" "M = (length ?pp - 1) * length lines + J + 1"
  proof -
    have "(n - 1) * 2 ^ b + 2 ^ b = n * 2 ^ b" using n by (cases n) auto
    then show "0 < M" "M \<le> length ?pp * length lines" "M = (length ?pp - 1) * length lines + J + 1"
      unfolding M_def pp(1) l(3) using J by linarith+
  qed
  have "line dvd psz" if "psz = 2 ^ b * line" for line psz :: nat using that by simp
  then have dvd: "?line dvd ?psz" using assms(4) by blast
  have inj: "inj_on (word_at base ?pp lines words M) {..<2 ^ c * M}"
    using word_at_inj [OF paged_take [OF b(2)] l(2) w(2) dvd M(1,2)] w(3) by simp
  have link: "(word_at base ?pp lines words M t, word_at base ?pp lines words M (Suc t mod (2 ^ c * M))) \<in> set ?ws" if "t < 2 ^ c * M" for t
    using mem_ring_link [OF m(3) l(2) w(2) _ dvd pp(2) _ M(3), of t] that w(3) l(3) J assms(3) pp(1,3,4) by simp
  have len: "length ?ws = 2 ^ c * M" using m(2) w(3) by (simp add: mem_close_def M_def algebra_simps)
  obtain h2 where h2: "put_all ?ws h1 = Inr h2" "ring h2 ?xs" "h_blocks h2 = h_blocks h1" "h_rerun h2 = h_rerun h1" "h_saved h2 = h_saved h1"
    by (rule chain_ring [OF _ len inj link]) (use M(1) word_at_valid [OF paged_take [OF b(2)] l(2) w(2) dvd M(1,2)] w(3) in auto)
  have ptr: "ps' ! k \<in> set ?xs" if "k < ms_width st" for k
  proof -
    have "k * (np div ms_width st) \<le> (ms_width st - 1) * (np div ms_width st)" using that by (intro mult_le_mono1) linarith
    then have "k * (np div ms_width st) < (n - 1) * (2 ^ b - 1) + J" using assms(13) by (rule le_less_trans)
    from pointer_on_ring [OF m(4) _ this _ _ _ M(3)] show ?thesis
      using that assms(8) l w J by (simp add: lined_def)
  qed
  let ?st = "st\<lparr>ms_addr := p, ms_base := base, ms_nwords := 2 ^ c, ms_nlines := 2 ^ b, ms_npages := n, ms_pages := Some pages,
     ms_initialized := False, ms_words := Some words, ms_lines := Some lines, ms_p := ps'\<rparr>"
  have "length ps' = MAX_MEM_PARALLELISM" using m(4) assms(6) by (simp add: pointers_set_def)
  then have sub: "set (take (Suc (ms_width st - 1)) (ms_p ?st)) \<subseteq> set ?xs"
    using ptr assms(7,8) by (auto simp: in_set_conv_nth)
  have r2: "ring (mem_reset h2) ?xs" "\<not> h_rerun (mem_reset h2)" using h2(2) by (simp, simp add: mem_reset_def)
  obtain h3 where h3: "mem_benchmark (ms_width st - 1) ((2 ^ c * np + 100) div 100) ?st (mem_reset h2) = Inr h3"
      "h_cells h3 = h_cells (mem_reset h2)" "h_blocks h3 = h_blocks (mem_reset h2)"
    by (rule mem_benchmark_ok [OF r2 sub])
  have "mem_initialize E 0 st h = Inr (?st\<lparr>ms_initialized := True\<rparr>, h3)"
    using b(1,3) l w n assms(2,7,8,10) m(1) h2(1) h3(1) sizes by (simp add: mem_initialize_def Let_def lined_def)
  moreover have "ring h3 ?xs" using ring_cong [OF h3(2,3)] h2(2) by simp
  ultimately show ?thesis using ptr by (intro exI [of _ "?st\<lparr>ms_initialized := True\<rparr>"] exI [of _ h3] exI [of _ ?xs]) (simp add: M_def)
qed

section \<open>Separate pages\<close>

text \<open>The shuffle permutes the pages and leaves the first one where it is.\<close>

lemma tlb_swap_ok:
  assumes "0 < i" "Suc i < length pages"
  shows "mset (snd (tlb_swap rand i (r, pages))) = mset pages" "snd (tlb_swap rand i (r, pages)) ! 0 = pages ! 0"
    "length (snd (tlb_swap rand i (r, pages))) = length pages"
proof -
  let ?r = "push_bit 1 r XOR drop_bit 4 (rand i)"
  let ?o = "Suc (unat ?r mod i)"
  have o: "?o < length pages" using assms by (meson Suc_lessD Suc_mono less_trans mod_less_divisor)
  have e: "snd (tlb_swap rand i (r, pages)) = pages[?o := pages ! Suc i, Suc i := pages ! ?o]" by (simp add: tlb_swap_def Let_def)
  show "mset (snd (tlb_swap rand i (r, pages))) = mset pages" unfolding e using mset_list_update_swap [OF o assms(2)] .
  show "snd (tlb_swap rand i (r, pages)) ! 0 = pages ! 0" "length (snd (tlb_swap rand i (r, pages))) = length pages" unfolding e by simp_all
qed

lemma tlb_shuffle_ok:
  assumes "length pages = n"
  shows "mset (tlb_shuffle rand r n pages) = mset pages"
proof -
  have "mset (snd (fold (tlb_swap rand) is rp)) = mset (snd rp)" if "\<forall>i \<in> set is. 0 < i \<and> Suc i < n" "length (snd rp) = n" for "is" rp
    using that
  proof (induction "is" arbitrary: rp)
    case (Cons i "is")
    obtain r pages where "rp = (r, pages)" by fastforce
    with Cons tlb_swap_ok [of i pages rand r] show ?case by auto
  qed simp
  from this [of "rev [1..<n - 1]" "(r, pages)"] assms show ?thesis by (simp add: tlb_shuffle_def less_diff_conv)
qed

lemma tlb_page_ok:
  assumes "tlb_page psz v = Inr (p, sz, q)" "0 < psz"
  shows "psz dvd q" "p \<le> q" "q + psz \<le> p + sz"
proof -
  have m: "x mod psz < psz" for x using assms(2) by simp
  have d: "psz dvd x + (psz - x mod psz)" for x
  proof -
    have "x + (psz - x mod psz) = x div psz * psz + psz" using m [of x] div_mult_mod_eq [of x psz] by linarith
    then show ?thesis by simp
  qed
  have le: "x \<le> x + (psz - x mod psz)" "x + (psz - x mod psz) + psz \<le> x + 2 * psz" for x by simp_all
  from assms(1) have "q = p \<and> sz = psz \<and> p mod psz = 0 \<or> q = p + (psz - p mod psz) \<and> sz = 2 * psz"
    unfolding tlb_page_def by (simp split: option.splits if_splits)
  then have "psz dvd q \<and> p \<le> q \<and> q + psz \<le> p + sz"
  proof
    assume "q = p + (psz - p mod psz) \<and> sz = 2 * psz"
    then show ?thesis using d [of p] le [of p] by metis
  qed auto
  then show "psz dvd q" "p \<le> q" "q + psz \<le> p + sz" by blast+
qed

lemma tlb_layout_ok:
  assumes "tlb_layout psz vs = Inr bs"
  shows "length bs = length vs \<and> (\<forall>x \<in> set bs. \<exists>v. tlb_page psz v = Inr x)"
  using assms
proof (induction vs arbitrary: bs)
  case (Cons v vs)
  then obtain x xs where x: "tlb_page psz v = Inr x" "tlb_layout psz vs = Inr xs" "bs = x # xs" by (auto simp: and_then_Inr_iff)
  have "\<forall>y \<in> set bs. \<exists>v. tlb_page psz v = Inr y" unfolding x(3) using x(1) Cons.IH [OF x(2)] by (metis set_ConsD)
  then show ?case using x(3) Cons.IH [OF x(2)] by simp
qed simp

text \<open>What \<open>valloc\<close> promises: the blocks it gives do not overlap.\<close>

definition disjoint_blocks :: "(nat \<times> nat \<times> nat) list \<Rightarrow> bool" where
  "disjoint_blocks bs \<longleftrightarrow> (\<forall>i < length bs. \<forall>j < length bs. i \<noteq> j \<longrightarrow>
     (let (p, n, x) = bs ! i; (p', n', y) = bs ! j in p + n \<le> p' \<or> p' + n' \<le> p))"

lemma tlb_paged:
  assumes "tlb_layout psz vs = Inr bs" "disjoint_blocks bs" "0 < psz" "8 dvd psz" "mset pages = mset (map (snd \<circ> snd) bs)"
  shows "paged (h\<lparr>h_blocks := map (\<lambda>(p, n, q). (p, n)) bs @ h_blocks h\<rparr>) 0 psz pages"
proof -
  have B: "psz dvd q" "p \<le> q" "q + psz \<le> p + n" if "(p, n, q) \<in> set bs" for p n q
    using tlb_layout_ok [OF assms(1)] tlb_page_ok [OF _ assms(3)] that by blast+
  have ne: "snd (snd (bs ! i)) \<noteq> snd (snd (bs ! j))" if ij: "i < length bs" "j < length bs" "i \<noteq> j" for i j
  proof -
    obtain p n q p' n' q' where b: "bs ! i = (p, n, q)" "bs ! j = (p', n', q')" by (metis prod_cases3)
    moreover have "p \<le> q" "q + psz \<le> p + n" "p' \<le> q'" "q' + psz \<le> p' + n'" using B b ij nth_mem by metis+
    ultimately show ?thesis using assms(2,3) ij by (fastforce simp: disjoint_blocks_def)
  qed
  have "distinct (map (snd \<circ> snd) bs)" using ne by (auto simp: distinct_conv_nth)
  then have d: "distinct pages" using assms(5) mset_eq_imp_distinct_iff by blast
  have s: "set pages = (snd \<circ> snd) ` set bs" using mset_eq_setD [OF assms(5)] by simp
  have "psz dvd q \<and> (\<forall>a. q \<le> a \<and> a + 8 \<le> q + psz \<longrightarrow> in_block (map (\<lambda>(p, n, q). (p, n)) bs @ h_blocks h) a)" if "q \<in> set pages" for q
  proof -
    from that s obtain x where "x \<in> set bs" "q = snd (snd x)" by auto
    then obtain p n where b: "(p, n, q) \<in> set bs" by (metis prod.collapse)
    have "in_block (map (\<lambda>(p, n, q). (p, n)) bs @ h_blocks h) a" if "q \<le> a" "a + 8 \<le> q + psz" for a
    proof -
      have "p \<le> a" "a + 8 \<le> p + n" using B [OF b] that by linarith+
      then show ?thesis using b by (force simp: in_block_def list_ex_iff)
    qed
    with B(1) [OF b] show ?thesis by blast
  qed
  then show ?thesis using d assms(3,4) by (simp add: paged_def)
qed

lemma tlb_ring:
  assumes "paged h 0 psz pages" "lined psz 8 lines" "pages \<noteq> []"
  obtains h' where "put_all (tlb_writes pages lines) h = Inr h'"
    "ring h' (map (\<lambda>t. pages ! t + lines ! (t mod length lines)) [0..<length pages])" "h_blocks h' = h_blocks h"
proof -
  let ?n = "length pages" and ?f = "\<lambda>t. pages ! t + lines ! (t mod length lines)"
  have l: "lines ! (t mod length lines) < psz \<and> 8 dvd lines ! (t mod length lines)" for t
    using assms(2) by (auto simp: lined_def)
  have inj: "inj_on ?f {..<?n}"
    using place_inj [OF assms(1)] l by (auto intro!: inj_onI) blast
  have len: "length (tlb_writes pages lines) = ?n" using assms(3) by (simp add: tlb_writes_def)
  have link: "(?f t, ?f (Suc t mod ?n)) \<in> set (tlb_writes pages lines)" if "t < ?n" for t
  proof (cases "Suc t < ?n")
    case False
    then have "t = ?n - 1" "Suc t = ?n" using that by linarith+
    then show ?thesis by (simp add: tlb_writes_def)
  qed (auto simp: tlb_writes_def)
  have valid: "8 dvd ?f t \<and> in_block (h_blocks h) (?f t)" if "t < ?n" for t
    using place_valid [OF assms(1) that] l [of t] by simp
  show ?thesis by (rule chain_ring [OF _ len inj link valid]) (use assms(3) that in auto)
qed

section \<open>Pages\<close>

lemma lined_nth: "lined psz line lines \<Longrightarrow> lines ! (k mod length lines) < psz"
  by (auto simp: lined_def)

lemma page_of:
  assumes "paged h base psz pages" "i < length pages" "x < psz"
  shows "(base + pages ! i + x) div psz = base div psz + pages ! i div psz"
proof -
  obtain a b where "base = psz * a" "pages ! i = psz * b" "0 < psz"
    using assms(1,2) unfolding paged_def by (metis dvdE nth_mem)
  then show ?thesis using assms(3) by (simp flip: distrib_left)
qed

lemma page_number_inj:
  assumes "paged h base psz pages" "i < length pages" "j < length pages" "pages ! i div psz = pages ! j div psz"
  shows "i = j"
proof -
  have "pages ! i = pages ! j" using assms unfolding paged_def by (metis dvd_div_mult_self nth_mem)
  then show ?thesis using assms by (simp add: paged_def nth_eq_iff_index_eq)
qed

lemma thrash_words_ring:
  assumes "lined len line words" "8 dvd base" "\<And>x. x < len \<Longrightarrow> 8 dvd x \<Longrightarrow> in_block (h_blocks h) (base + x)"
  obtains h' where "put_all (thrash_words base words) h = Inr h'" "ring h' (map (\<lambda>t. base + words ! t) [0..<length words])"
    "h_blocks h' = h_blocks h"
proof -
  let ?n = "length words"
  have w: "words \<noteq> []" "distinct words" "words ! 0 = 0" "\<And>t. t < ?n \<Longrightarrow> words ! t < len \<and> 8 dvd words ! t"
    using assms(1) dvd_trans [of 8 line] by (auto simp: lined_def)
  have link: "(base + words ! t, base + words ! (Suc t mod ?n)) \<in> set (thrash_words base words)" if "t < ?n" for t
  proof (cases "Suc t < ?n")
    case False
    then have "t = ?n - 1" "Suc t = ?n" using that by linarith+
    then show ?thesis using w(3) by (simp add: thrash_words_def)
  qed (auto simp: thrash_words_def)
  have len: "length (thrash_words base words) = ?n" using w(1) by (simp add: thrash_words_def)
  have inj: "inj_on (\<lambda>t. base + words ! t) {..<?n}" using w(2) by (auto simp: inj_on_def nth_eq_iff_index_eq)
  have valid: "8 dvd base + words ! t \<and> in_block (h_blocks h) (base + words ! t)" if "t < ?n" for t
    using w(4) [OF that] assms(2,3) by simp
  show ?thesis by (rule chain_ring [OF _ len inj link valid]) (use w(1) that in auto)
qed

section \<open>What the memory benchmarks rely on\<close>

lemma count_bits_bounds: "0 < m \<Longrightarrow> 2 ^ count_bits (m div 2) \<le> m \<and> m < 2 * 2 ^ count_bits (m div 2)"
proof (induction m rule: less_induct)
  case (less m)
  show ?case
  proof (cases "m div 2 = 0")
    case True
    with less.prems show ?thesis by (simp add: count_bits.simps)
  next
    case False
    then have e: "count_bits (m div 2) = Suc (count_bits (m div 2 div 2))" by (subst count_bits.simps) simp
    have "2 ^ count_bits (m div 2 div 2) \<le> m div 2 \<and> m div 2 < 2 * 2 ^ count_bits (m div 2 div 2)"
      using False less by (intro less.IH) auto
    moreover have "m = 2 * (m div 2) + m mod 2" "m mod 2 < 2" by simp_all
    ultimately have "2 * 2 ^ count_bits (m div 2 div 2) \<le> m" "m < 2 * (2 * 2 ^ count_bits (m div 2 div 2))" by linarith+
    then show ?thesis unfolding e power_Suc by blast
  qed
qed

text \<open>\<open>words_initialize\<close> gives every word of a line its own place exactly if their number is a power of
  two, and then the places are the multiples of the scale; for every other number two entries
  coincide, and the chains built from them are not rings through all words.\<close>

theorem words_initialize_distinct:
  assumes "words_initialize True mx scale = Some ws" "0 < mx" "0 < scale"
  shows "(distinct ws \<longleftrightarrow> (\<exists>b. mx = 2 ^ b)) \<and> (distinct ws \<longrightarrow> set ws = {k * scale | k. k < mx})"
proof -
  let ?b = "count_bits (mx div 2)"
  have ws: "ws = map (\<lambda>i. reverse_bits ?b i * scale) [0..<mx]" using assms(1) by (simp add: words_initialize_def Let_def)
  have pow: "distinct ws \<and> set ws = {k * scale | k. k < mx}" if "mx = 2 ^ b" for b
  proof -
    obtain vs where "words_initialize True (2 ^ b) scale = Some vs" "distinct vs" "set vs = (\<lambda>k. k * scale) ` {..<2 ^ b}"
      by (rule words_initialize_ok [OF assms(3), of b])
    then show ?thesis using assms(1) that by auto
  qed
  have "mx = 2 ^ ?b" if "distinct ws"
  proof (rule ccontr)
    assume "mx \<noteq> 2 ^ ?b"
    then have "2 ^ ?b < mx" using count_bits_bounds [OF assms(2)] by linarith
    moreover have "reverse_bits ?b (2 ^ ?b) = 0"
      by (rule bit_eqI) (auto simp: bit_reverse bit_exp_iff)
    ultimately have "ws ! (2 ^ ?b) = ws ! 0" "2 ^ ?b < length ws" "2 ^ ?b \<noteq> (0 :: nat)" using ws by auto
    moreover have "0 < length ws" using calculation(2) by linarith
    ultimately have "2 ^ ?b = (0 :: nat)" using nth_eq_iff_index_eq [OF that] by metis
    then show False by simp
  qed
  with pow show ?thesis by blast
qed

theorem words_initialize_distinct_witness:
  "\<exists>ws. words_initialize True 3 8 = Some ws \<and> \<not> distinct ws \<and> (\<nexists>b. 3 = (2 :: nat) ^ b)"
proof -
  obtain ws where ws: "words_initialize True 3 8 = Some ws" by (simp add: words_initialize_def Let_def)
  have "3 \<noteq> (2 :: nat) ^ b" for b by (cases b) (simp, simp, presburger)
  with words_initialize_distinct [OF ws] ws show ?thesis by simp
qed


definition demo_mem_env :: mem_env where
  "demo_mem_env = \<lparr>me_malloc = (\<lambda>n. Some 4096), me_perm_ok = True, me_seed = 5, me_rand = (\<lambda>i. of_nat (3 * i)), me_r = 0, me_words_ok = True\<rparr>"

definition demo_mem :: "nat \<Rightarrow> nat \<Rightarrow> mem_state" where
  "demo_mem len width = \<lparr>ms_addr = 0, ms_base = 0, ms_p = replicate 16 0, ms_initialized = False, ms_width = width, ms_len = len,
     ms_maxlen = len, ms_line = 64, ms_pagesize = 4096, ms_nlines = 0, ms_npages = 0, ms_nwords = 0, ms_pages = None, ms_lines = None, ms_words = None\<rparr>"

definition demo_heap :: heap where
  "demo_heap = \<lparr>h_cells = (\<lambda>a. None), h_blocks = [], h_rerun = False, h_saved = (\<lambda>n. (0, []))\<rparr>"

lemma demo_ready: "len \<le> 65536 \<Longrightarrow> base_ready demo_mem_env (demo_mem len w)"
  by (simp add: base_ready_def demo_mem_env_def demo_mem_def)




text \<open>\<open>line_test\<close> measures what it says and leaves no trace: while it runs, the chain visits, in every page,
  exactly the places that are a multiple of the tested size (a power of two times the line) from its
  start, once each; afterwards the chain of \<open>line_initialize\<close> is complete again and the library's
  results are the ones from before.\<close>

theorem line_test_restores:
  assumes "base_ready E st" "me_words_ok E" "ms_pagesize st = 2 ^ b * ms_line st" "8 dvd ms_line st" "0 < ms_len st" "ms_p st \<noteq> []"
    and "a < b" "line_initialize E 0 st h0 = Inr (st', h)"
  shows "\<exists>pages lines h1 h' t s'. line_chain st' pages lines h \<and>
    put_all (line_shortcut (ms_base st') pages lines (2 ^ a) (ms_npages st')) h = Inr h1 \<and>
    ring h1 (map (line_at (ms_base st') (take (ms_npages st') pages) (take (2 ^ a) lines)) [0..<ms_npages st' * 2 ^ a]) \<and>
    set (take (2 ^ a) lines) = {k * (2 ^ (b - a) * ms_line st) | k. k < 2 ^ a} \<and>
    line_test rnd (2 ^ (b - a) * ms_line st) samples st' (h, s) = Inr (t, h', s') \<and>
    line_chain st' pages lines h' \<and> results s' = results s"
proof -
  let ?line = "2 ^ (b - a) * ms_line st"
  obtain st1 h2 pages lines where i: "line_initialize E 0 st h0 = Inr (st1, h2)" "ms_initialized st1" "line_chain st1 pages lines h2"
    "length lines = 2 ^ b" "ms_pagesize st1 = ms_pagesize st" "words_initialize True (2 ^ b) (ms_line st) = Some lines"
    by (rule line_initialize_ok [OF assms(1-6), of h0])
  then have e: "st1 = st'" "h2 = h" using assms(8) by simp_all
  have pos: "0 < ms_line st" using assms(1) by (simp add: base_ready_def)
  have "(2 :: nat) ^ b = 2 ^ a * 2 ^ (b - a)" using assms(7) by (simp flip: power_add)
  then have k: "ms_pagesize st' div ?line = 2 ^ a" using i(5) e assms(3) pos by (simp add: mult.assoc)
  have ab: "(2 :: nat) ^ a < length lines" using assms(7) i(4) by simp
  obtain h1 h' t s' where T: "put_all (line_shortcut (ms_base st') pages lines (2 ^ a) (ms_npages st')) h = Inr h1"
    "ring h1 (map (line_at (ms_base st') (take (ms_npages st') pages) (take (2 ^ a) lines)) [0..<ms_npages st' * 2 ^ a])"
    "line_test rnd ?line samples st' (h, s) = Inr (t, h', s')" "line_chain st' pages lines h'" "results s' = results s"
    by (rule line_test_ok [OF i(3) [unfolded e] k _ ab, of rnd samples s]) (use pos in auto)
  have "lines = map (\<lambda>i. reverse_bits b i * ms_line st) [0..<2 ^ b]"
    using i(6) by (simp add: words_initialize_def count_bits_pow)
  then have "take (2 ^ a) lines = map (\<lambda>i. reverse_bits a i * ?line) [0..<2 ^ a]"
    using assms(7) reverse_prefix [of a b] by (simp add: take_map take_upt algebra_simps)
  moreover have "reverse_bits a ` {..<2 ^ a} = {..<2 ^ a}"
    by (rule endo_inj_surj) (auto simp: reverse_less reverse_inj)
  then have "{k * ?line | k. k < 2 ^ a} = (\<lambda>k. k * ?line) ` reverse_bits a ` {..<2 ^ a}" by auto
  ultimately have "set (take (2 ^ a) lines) = {k * ?line | k. k < 2 ^ a}" by (simp add: image_image lessThan_atLeast0)
  with T i(3) e show ?thesis by blast
qed

theorem line_test_restores_witness:
  "\<exists>st' h t h' s'. line_initialize demo_mem_env 0 (demo_mem 8192 1) demo_heap = Inr (st', h) \<and>
     line_test id (2 ^ (6 - 5) * 64) [] st' (h, blank_timing) = Inr (t, h', s') \<and> results s' = results blank_timing"
proof -
  have A: "base_ready demo_mem_env (demo_mem 8192 1)" "me_words_ok demo_mem_env" "ms_pagesize (demo_mem 8192 1) = 2 ^ 6 * ms_line (demo_mem 8192 1)"
    "8 dvd ms_line (demo_mem 8192 1)" "0 < ms_len (demo_mem 8192 1)" "ms_p (demo_mem 8192 1) \<noteq> []"
    by (simp add: demo_ready, simp_all add: demo_mem_env_def demo_mem_def)
  obtain st' h where i: "line_initialize demo_mem_env 0 (demo_mem 8192 1) demo_heap = Inr (st', h)"
    using line_initialize_ok [OF A, of demo_heap] by metis
  have ml: "ms_line (demo_mem 8192 1) = 64" by (simp add: demo_mem_def)
  from line_test_restores [OF A _ i, of 5 id "[]" blank_timing] i show ?thesis unfolding ml by auto
qed

text \<open>after \<open>tlb_initialize\<close> memory holds a ring with exactly one place in each of the separately allocated
  pages, in whatever order the shuffle has put them, starting at the first page; this relies on
  \<open>valloc\<close> giving blocks that do not overlap, aligned or not.\<close>

theorem tlb_initialize_ring:
  assumes "ms_pagesize st = 2 ^ b * 8" "n = ms_len st div ms_pagesize st" "0 < n" "n \<le> length vs" "ms_p st \<noteq> []"
    and "tlb_layout (ms_pagesize st) (take n vs) = Inr bs" "disjoint_blocks bs"
  shows "\<exists>st' h' xs. tlb_initialize True table vs rand r 0 st h = Inr (st', h') \<and> ms_initialized st' \<and> ring h' xs \<and> length xs = n \<and>
    ms_p st' ! 0 = xs ! 0 \<and> distinct (map (\<lambda>x. x div ms_pagesize st) xs) \<and>
    mset (map (\<lambda>x. x div ms_pagesize st) xs) = mset (map (\<lambda>(p, m, q). q div ms_pagesize st) bs)"
proof -
  let ?psz = "ms_pagesize st"
  have psz: "0 < ?psz" "8 dvd ?psz" using assms(1) by simp_all
  obtain lines where l: "words_initialize True (2 ^ b) 8 = Some lines" "lined ?psz 8 lines" "length lines = 2 ^ b"
    using words_lined [of 8 b ?psz] assms(1) by auto
  define pages where "pages = tlb_shuffle rand r n (map (snd \<circ> snd) bs)"
  have len: "length bs = n" using tlb_layout_ok [OF assms(6)] assms(4) by simp
  then have ms: "mset pages = mset (map (snd \<circ> snd) bs)" unfolding pages_def by (intro tlb_shuffle_ok) simp
  then have pl: "length pages = n" "pages \<noteq> []" using mset_eq_length [OF ms] len assms(3) by auto
  let ?h = "h\<lparr>h_blocks := map (\<lambda>(p, n, q). (p, n)) bs @ h_blocks h\<rparr>"
  note pg = tlb_paged [OF assms(6,7) psz ms, of h]
  let ?xs = "map (\<lambda>t. pages ! t + lines ! (t mod length lines)) [0..<n]"
  obtain h1 where h1: "put_all (tlb_writes pages lines) ?h = Inr h1" "ring h1 ?xs"
    by (rule tlb_ring [OF pg l(2) pl(2), unfolded pl(1)])
  have x0: "?xs ! 0 = pages ! 0 + lines ! 0" using assms(3) by simp
  let ?st = "st\<lparr>ms_nwords := 1, ms_nlines := 2 ^ b, ms_npages := n, ms_words := None, ms_lines := Some lines,
     ms_pages := Some pages, ms_addr := table, ms_p := (ms_p st)[0 := pages ! 0 + lines ! 0]\<rparr>"
  obtain y ys where y: "ms_p st = y # ys" using assms(5) by (cases "ms_p st") auto
  have xin: "pages ! 0 + lines ! 0 \<in> set ?xs" using assms(3) by (auto simp: image_iff intro!: bexI [of _ 0])
  then have sub: "set (take (Suc 0) (ms_p ?st)) \<subseteq> set ?xs" using y by simp
  have r1: "ring (mem_reset h1) ?xs" "\<not> h_rerun (mem_reset h1)" using h1(2) by (simp, simp add: mem_reset_def)
  obtain h2 where h2: "mem_benchmark 0 ((n + 100) div 100) ?st (mem_reset h1) = Inr h2"
      "h_cells h2 = h_cells (mem_reset h1)" "h_blocks h2 = h_blocks (mem_reset h1)"
    by (rule mem_benchmark_ok [OF r1 sub])
  have "tlb_initialize True table vs rand r 0 st h = Inr (?st\<lparr>ms_initialized := True\<rparr>, h2)"
  proof -
    have "?psz div 8 = 2 ^ b" "ms_len st div ?psz = n" using assms(1,2) by simp_all
    then show ?thesis using assms(6) l psz(1) pl(2) h1(1) h2(1)
      by (simp add: tlb_initialize_def Let_def pages_def [symmetric] lined_def)
  qed
  moreover have "ring h2 ?xs" using ring_cong [OF h2(2,3)] h1(2) by simp
  moreover have "map (\<lambda>x. x div ?psz) ?xs = map (\<lambda>q. q div ?psz) pages"
    using page_of [OF pg _ lined_nth [OF l(2)]] pl(1) by (intro nth_equalityI) auto
  moreover have "distinct (map (\<lambda>q. q div ?psz) pages)" using page_number_inj [OF pg] by (auto simp: distinct_conv_nth)
  moreover have "mset (map (\<lambda>q. q div ?psz) pages) = mset (map (\<lambda>(p, m, q). q div ?psz) bs)"
    using ms by (simp add: image_mset.compositionality comp_def case_prod_unfold)
  ultimately show ?thesis using x0 y by (intro exI [of _ "?st\<lparr>ms_initialized := True\<rparr>"] exI [of _ h2] exI [of _ ?xs]) simp
qed

theorem tlb_initialize_ring_witness:
  "\<exists>st' h' xs. tlb_initialize True 64 [(Some 4096, None), (Some 8200, Some 12300)] (\<lambda>i. 7) 3 0 (demo_mem 8192 1) demo_heap = Inr (st', h') \<and>
     ring h' xs \<and> length xs = 2"
proof -
  have l: "tlb_layout (ms_pagesize (demo_mem 8192 1)) (take 2 [(Some 4096, None), (Some 8200, Some 12300)]) = Inr [(4096, 4096, 4096), (12300, 8192, 16384)]"
    by (simp add: demo_mem_def tlb_page_def numeral_2_eq_2)
  have d: "disjoint_blocks [(4096, 4096, 4096), (12300, 8192, 16384)]"
    by (auto simp: disjoint_blocks_def less_Suc_eq)
  have "\<exists>st' h' xs. tlb_initialize True 64 [(Some 4096, None), (Some 8200, Some 12300)] (\<lambda>i. 7) 3 0 (demo_mem 8192 1) demo_heap = Inr (st', h') \<and>
      ms_initialized st' \<and> ring h' xs \<and> length xs = 2 \<and> ms_p st' ! 0 = xs ! 0 \<and>
      distinct (map (\<lambda>x. x div ms_pagesize (demo_mem 8192 1)) xs) \<and>
      mset (map (\<lambda>x. x div ms_pagesize (demo_mem 8192 1)) xs) =
        mset (map (\<lambda>(p, m, q). q div ms_pagesize (demo_mem 8192 1)) [(4096 :: nat, 4096 :: nat, 4096), (12300, 8192, 16384)])"
    by (rule tlb_initialize_ring [OF _ _ _ _ _ l d, where b = 9]) (simp_all add: demo_mem_def)
  then show ?thesis by blast
qed

text \<open>after \<open>stride_initialize\<close> memory holds a ring through the multiples of the stride below the length, in
  this order, and \<open>mem_benchmark_0\<close> started on it makes \<open>100\<close> steps along the ring per iteration,
  never leaving it.\<close>

theorem stride_initialize_ring:
  assumes "base_ready E st" "8 dvd ms_line st" "0 < ms_len st" "ms_p st \<noteq> []" "n = (ms_len st + ms_line st - 1) div ms_line st"
  shows "\<exists>st' h' base. stride_initialize E 0 st h = Inr (st', h') \<and>
    ring h' (map (\<lambda>t. base + t * ms_line st) [0..<n]) \<and> ms_p st' ! 0 = base \<and>
    mem_benchmark 0 k st' h' =
      Inr (h'\<lparr>h_saved := (h_saved h')(0 := (ms_addr st', [base + 100 * k mod n * ms_line st])), h_rerun := True\<rparr>)"
proof -
  let ?s = "ms_line st"
  have pos: "0 < ?s" "0 < ms_pagesize st" "8 dvd ms_pagesize st" using assms(1) by (auto simp: base_ready_def)
  obtain p base pages h1 where b: "base_initialize E 0 st h = Inr (st\<lparr>ms_initialized := True, ms_addr := p, ms_base := base,
       ms_nwords := ?s div 8, ms_nlines := ms_pagesize st div ?s, ms_npages := (ms_len st + ms_pagesize st - 1) div ms_pagesize st,
       ms_lines := None, ms_pages := Some pages, ms_words := None\<rparr>, h1)" "paged h1 base (ms_pagesize st) pages" "p \<le> base"
     "h_blocks h1 = (p, ms_maxlen st + 2 * ms_pagesize st) # h_blocks h"
     "base + ms_maxlen st + ms_pagesize st \<le> p + ms_maxlen st + 2 * ms_pagesize st"
    by (rule base_initialize_ok [OF assms(1), of h])
  have al: "8 dvd base" using b(2) by (auto simp: paged_def intro: dvd_trans)
  have ps8: "8 \<le> ms_pagesize st" using pos by (simp add: dvd_imp_le)
  have valid: "in_block (h_blocks h1) (base + i * ?s)" if "i * ?s < ms_len st" for i
    using that b(3-5) ps8 assms(1) unfolding in_block_def base_ready_def by simp
  obtain h2 where h2: "put_all (fst (stride_loop base ?s (ms_len st) ?s) @ [(base + (snd (stride_loop base ?s (ms_len st) ?s) - ?s), base)]) h1 = Inr h2"
    "ring h2 (map (\<lambda>t. base + t * ?s) [0..<n])" "h_blocks h2 = h_blocks h1"
    unfolding assms(5) by (rule stride_ring [OF pos(1) assms(2) al assms(3) valid])
  have n: "0 < n" using div_up_pos [OF assms(3) pos(1)] assms(5) by simp
  obtain y ys where y: "ms_p st = y # ys" using assms(4) by (cases "ms_p st") auto
  obtain st' where i: "stride_initialize E 0 st h = Inr (st', mem_reset h2)" "ms_p st' = base # ys"
    using b(1) h2(1) y by (simp add: stride_initialize_def Let_def case_prod_unfold)
  have "take (Suc 0) (ms_p st') = map ((!) (map (\<lambda>t. base + t * ?s) [0..<n])) [0]" using i(2) n by simp
  moreover have "ring (mem_reset h2) (map (\<lambda>t. base + t * ?s) [0..<n])" "\<not> h_rerun (mem_reset h2)" using h2(2) by (simp, simp add: mem_reset_def)
  ultimately have
    "mem_benchmark 0 k st' (mem_reset h2) = Inr ((mem_reset h2)\<lparr>h_saved := (h_saved (mem_reset h2))(0 := (ms_addr st', [base + 100 * k mod n * ?s])), h_rerun := True\<rparr>)"
    using mem_benchmark_ring [of "mem_reset h2" "map (\<lambda>t. base + t * ?s) [0..<n]" 0 st' "[0]" k] n by simp
  with i h2(2) show ?thesis by (intro exI [of _ st'] exI [of _ "mem_reset h2"] exI [of _ base]) simp
qed

theorem stride_initialize_ring_witness:
  "\<exists>st' h' base. stride_initialize demo_mem_env 0 (demo_mem 1000 1) demo_heap = Inr (st', h') \<and> ring h' (map (\<lambda>t. base + t * 64) [0..<16])"
proof -
  have "\<exists>st' h' base. stride_initialize demo_mem_env 0 (demo_mem 1000 1) demo_heap = Inr (st', h') \<and>
    ring h' (map (\<lambda>t. base + t * ms_line (demo_mem 1000 1)) [0..<16]) \<and> ms_p st' ! 0 = base \<and>
    mem_benchmark 0 1 st' h' =
      Inr (h'\<lparr>h_saved := (h_saved h')(0 := (ms_addr st', [base + 100 * 1 mod 16 * ms_line (demo_mem 1000 1)])), h_rerun := True\<rparr>)"
    by (rule stride_initialize_ring) (simp add: demo_ready, simp_all add: demo_mem_def)
  moreover have "ms_line (demo_mem 1000 1) = 64" by (simp add: demo_mem_def)
  ultimately show ?thesis by auto
qed

end
