(* ===== verification/Lm_Cache.thy ===== *)
theory Lm_Cache
  imports Lm_Mem_Rings Lm_Enough Lm_Getopt Lm_Report
begin

text \<open>
  The cache benchmark (\<open>src/lmbench-3.0-a9/src/cache.c\<close>): it measures the latency of pointer chains of
  growing length, replaces pages that collide in the cache, and takes the jumps of the latency for
  the sizes of the caches.

  The chain is the one of \<open>Lm_Mem\<close>; \<open>measure\<close> relinks it so that it runs through a prefix of the page
  list \<open>state->pages\<close>, which the other functions permute.  What the clock shows is a parameter: the
  \<open>k\<close>-th call of \<open>measure\<close> finds the times \<open>ce_samples k\<close>, one for each repetition.  The runs of the
  measured loop only move the saved pointer along the chain, which the next call resets.
\<close>

section \<open>Data\<close>

record cache_results =
  cr_len :: nat
  cr_maxlen :: nat
  cr_line :: nat
  cr_latency :: rat
  cr_variation :: rat
  cr_ratio :: rat
  cr_slope :: rat

record cache_env =
  ce_rnd :: rounding
  ce_psz :: nat
  ce_samples :: "nat \<Rightarrow> value_t list"
  ce_malloc :: "nat \<Rightarrow> bool"

text \<open>The state: \<open>struct mem_state\<close>, memory, the static variables \<open>addr_save\<close> and \<open>available_index\<close>, the
  timing library, and the number of calls of \<open>measure\<close> so far.\<close>

record cache_world =
  cw_st :: mem_state
  cw_heap :: heap
  cw_save :: "nat option"
  cw_avail :: nat
  cw_timing :: timing
  cw_calls :: nat

definition THRESHOLD :: rat where "THRESHOLD = 3 / 2"

text \<open>\<open>SWAP\<close>.\<close>

definition swap_at :: "nat \<Rightarrow> nat \<Rightarrow> 'a list \<Rightarrow> 'a list" where
  "swap_at i j xs = xs[i := xs ! j, j := xs ! i]"

text \<open>A change of \<open>state->pages\<close>, and whether the array has a given number of elements.\<close>

definition with_pages :: "(nat list \<Rightarrow> nat list) \<Rightarrow> cache_world \<Rightarrow> cache_world" where
  "with_pages f w = w\<lparr>cw_st := (cw_st w)\<lparr>ms_pages := map_option f (ms_pages (cw_st w))\<rparr>\<rparr>"

definition has_pages :: "nat \<Rightarrow> cache_world \<Rightarrow> bool" where
  "has_pages n w = (case ms_pages (cw_st w) of None \<Rightarrow> False | Some ps \<Rightarrow> n \<le> length ps)"

definition cache_mem_benchmark :: "nat \<Rightarrow> cache_world \<Rightarrow> cache_world res" where
  "cache_mem_benchmark iters w =
     (let p = (case cw_save w of Some q \<Rightarrow> q | None \<Rightarrow> ms_p (cw_st w) ! 0) in
      and_then (chase (cw_heap w) (100 * iters) [p]) (\<lambda>qs. Inr (w\<lparr>cw_save := Some (hd qs)\<rparr>)))"

section \<open>Measuring a prefix of the page list\<close>

definition npages_of :: "nat \<Rightarrow> nat \<Rightarrow> nat" where
  "npages_of psz sz = (sz + psz - 1) div psz"

text \<open>The stores of \<open>measure\<close>: from the last line of every page to the first of the next one, and from
  the last line used of the last page to the first line, one word on.\<close>

definition measure_links :: "nat \<Rightarrow> nat list \<Rightarrow> nat list \<Rightarrow> nat list \<Rightarrow> nat \<Rightarrow> nat \<Rightarrow> writes" where
  "measure_links p pages lines words npages nlines =
     concat (map (\<lambda>i. map (\<lambda>j. (p + pages ! i + lines ! (length lines - 1) + words ! j, p + pages ! Suc i + lines ! 0 + words ! j))
       [0..<length words]) [0..<npages - 1]) @
     map (\<lambda>j. (p + pages ! (npages - 1) + lines ! (nlines - 1) + words ! j, p + pages ! 0 + lines ! 0 + words ! (Suc j mod length words)))
       [0..<length words]"

text \<open>The stores that undo the last ones if the last page is used in part only.\<close>

definition measure_fixup :: "nat \<Rightarrow> nat list \<Rightarrow> nat list \<Rightarrow> nat list \<Rightarrow> nat \<Rightarrow> nat \<Rightarrow> writes" where
  "measure_fixup p pages lines words npages nlines =
     (if nlines < length lines then
        map (\<lambda>j. (p + pages ! (npages - 1) + lines ! (nlines - 1) + words ! j, p + pages ! (npages - 1) + lines ! nlines + words ! j))
          [0..<length words]
      else [])"

text \<open>Nanoseconds per access, \<open>(1000. * gettime()) / (100. * get_n())\<close>.\<close>

definition per_access :: "rounding \<Rightarrow> timing \<Rightarrow> rat res" where
  "per_access rnd s =
     and_then (gettime s) (\<lambda>u.
       if get_n s = 0 then Inl (Panic ''not finite'')
       else Inr (rnd (rnd (1000 * dbl rnd u) / rnd (100 * dbl rnd (get_n s)))))"

text \<open>The median, its ratio to the minimum, and the library's variables afterwards.\<close>

definition measure_time :: "rounding \<Rightarrow> value_t list \<Rightarrow> timing \<Rightarrow> (rat \<times> rat \<times> timing) res" where
  "measure_time rnd samples s =
     (let r_save = get_results s;
          r = insertinit \<lparr>r_N = 0, r_v = replicate (room_for (int (length samples))) \<lparr>v_u = 0, v_n = 0\<rparr>\<rparr> in
      and_then (run_all (insert_value rnd) samples r) (\<lambda>r.
      let s = set_results r s in
      and_then (per_access rnd s) (\<lambda>median.
      let s = save_minimum s in
      and_then (per_access rnd s) (\<lambda>time.
      Inr (median, if time \<noteq> 0 then rnd (median / time) else - 1, set_results r_save s)))))"

definition measure_cache :: "cache_env \<Rightarrow> nat \<Rightarrow> cache_world \<Rightarrow> (rat \<times> rat \<times> cache_world) res" where
  "measure_cache E sz w =
     (let st = cw_st w; psz = ce_psz E; npages = npages_of psz sz; p = ms_base st in
      case (ms_pages st, ms_lines st, ms_words st) of
        (Some pages, Some lines, Some words) \<Rightarrow>
          if psz = 0 \<or> ms_line st = 0 then Inl Div_By_Zero else
          let nlines = (if sz mod psz \<noteq> 0 then (sz mod psz) div ms_line st else ms_nlines st) in
          if \<not> ce_malloc E (cw_calls w) then Inl (Exit 3)
          else if npages = 0 \<or> length pages < npages \<or> nlines = 0 \<or> length lines < nlines \<or> words = [] then Inl Out_Of_Bounds
          else
            and_then (put_all (measure_links p pages lines words npages nlines) (cw_heap w)) (\<lambda>h.
            let st = st\<lparr>ms_p := (ms_p st)[0 := p + pages ! 0 + lines ! 0 + words ! 0]\<rparr> in
            and_then (cache_mem_benchmark ((sz div 8 + 100) div 100) (w\<lparr>cw_st := st, cw_heap := h, cw_save := None\<rparr>)) (\<lambda>w.
            and_then (measure_time (ce_rnd E) (ce_samples E (cw_calls w)) (cw_timing w)) (\<lambda>(median, variation, s).
            and_then (put_all (measure_fixup p pages lines words npages nlines) h) (\<lambda>h.
            Inr (median, variation, w\<lparr>cw_heap := h, cw_timing := s, cw_calls := Suc (cw_calls w)\<rparr>)))))
      | _ \<Rightarrow> Inl Null_Deref)"

section \<open>Leaving out and replacing pages\<close>

definition swap_ends :: "nat \<Rightarrow> nat \<Rightarrow> nat \<Rightarrow> nat list \<Rightarrow> nat list" where
  "swap_ends i chunk npages pages = fold (\<lambda>j. swap_at (i + j) (npages - 1 - j)) [0..<chunk] pages"

text \<open>\<open>remove_chunk\<close>: the time without the pages \<open>i\<close> to \<open>i + chunk - 1\<close>.\<close>

definition remove_chunk :: "cache_env \<Rightarrow> nat \<Rightarrow> nat \<Rightarrow> nat \<Rightarrow> nat \<Rightarrow> cache_world \<Rightarrow> (rat \<times> cache_world) res" where
  "remove_chunk E i chunk npages len w =
     (if \<not> has_pages npages w \<or> len < chunk * ce_psz E then Inl Out_Of_Bounds else
      let exchange = (if i + chunk < npages then with_pages (swap_ends i chunk npages) else id) in
      and_then (measure_cache E (len - chunk * ce_psz E) (exchange w)) (\<lambda>(t, var, w). Inr (t, exchange w)))"

text \<open>\<open>pagesort\<close>: sorts the places \<open>from\<close> to \<open>from + n - 1\<close> of the page list by the latencies \<open>off\<close> to
  \<open>off + n - 1\<close>.\<close>

definition sort_step :: "nat \<Rightarrow> nat \<Rightarrow> nat \<times> nat \<Rightarrow> nat list \<times> rat list \<Rightarrow> nat list \<times> rat list" where
  "sort_step from off ij pl =
     (case (ij, pl) of ((i, j), (pages, lat)) \<Rightarrow>
        if lat ! (off + i) > lat ! (off + j)
        then (swap_at (from + i) (from + j) pages, swap_at (off + i) (off + j) lat) else (pages, lat))"

definition pagesort :: "nat \<Rightarrow> nat \<Rightarrow> nat \<Rightarrow> nat list \<times> rat list \<Rightarrow> nat list \<times> rat list" where
  "pagesort n from off pl = fold (sort_step from off) (concat (map (\<lambda>i. map (Pair i) [Suc i..<n]) [0..<n - 1])) pl"

text \<open>\<open>bcopy(src, dst, sizeof(int) * n)\<close> on arrays of 64-bit numbers, least significant byte first: it
  copies half as many numbers as \<open>n\<close>, and for an odd \<open>n\<close> the lower half of one more.\<close>

definition bcopy_ints :: "nat \<Rightarrow> nat list \<Rightarrow> nat list \<Rightarrow> nat list" where
  "bcopy_ints n src dst =
     take (n div 2) src @
     (if odd n then [src ! (n div 2) mod 2 ^ 32 + dst ! (n div 2) div 2 ^ 32 * 2 ^ 32] else []) @
     drop ((n + 1) div 2) dst"

text \<open>The two loops that exchange the chunk with the end of the list.\<close>

definition swap_to_end :: "nat \<Rightarrow> nat \<Rightarrow> nat \<Rightarrow> nat list \<Rightarrow> nat list" where
  "swap_to_end i chunk npages pages =
     (if i + chunk < npages then fold (\<lambda>j. swap_at (i + j) (npages - chunk + j)) [0..<chunk] pages else pages)"

text \<open>The first loop of \<open>fixup_chunk\<close>: good pages to the front, bad ones to the back of the chunk.\<close>

function keep_loop ::
  "cache_env \<Rightarrow> nat \<Rightarrow> nat \<Rightarrow> rat \<Rightarrow> nat \<Rightarrow> nat \<Rightarrow> rat list \<Rightarrow> cache_world \<Rightarrow> (nat \<times> rat list \<times> cache_world) res" where
  "keep_loop E chunk npages chunk_baseline j k lat w =
     (if j < k then
        and_then (measure_cache E ((npages - chunk + j + 1) * ce_psz E) w) (\<lambda>(t, var, w).
        if ce_rnd E (ce_rnd E (995 / 1000) * t) \<le> chunk_baseline
        then keep_loop E chunk npages chunk_baseline (Suc j) k (lat[j := t]) w
        else keep_loop E chunk npages chunk_baseline j (k - 1) (lat[k - 1 := t])
               (with_pages (swap_at (npages - chunk + j) (npages - chunk + (k - 1))) w))
      else Inr (j, lat, w))"
  by pat_completeness auto
termination by (relation "measure (\<lambda>(E, chunk, npages, b, j, k, lat, w). k - j)") auto

declare keep_loop.simps [simp del]

text \<open>\<open>pagesort\<close> on the page list of the state.\<close>

definition pagesort_world :: "nat \<Rightarrow> nat \<Rightarrow> nat \<Rightarrow> rat list \<Rightarrow> cache_world \<Rightarrow> rat list \<times> cache_world" where
  "pagesort_world n from off lat w =
     (case ms_pages (cw_st w) of
        None \<Rightarrow> (lat, w)
      | Some pages \<Rightarrow> let (pages', lat') = pagesort n from off (pages, lat) in (lat', with_pages (\<lambda>_. pages') w))"

text \<open>The body of the second loop: a spare page is tried in the place of a bad one.  \<open>substitute\<close> is its
  index in the whole list.\<close>

definition replace_try ::
  "cache_env \<Rightarrow> nat \<Rightarrow> nat \<Rightarrow> nat \<Rightarrow> nat \<Rightarrow> rat \<Rightarrow> nat \<Rightarrow> nat \<times> nat \<times> rat list \<times> cache_world \<Rightarrow> (nat \<times> nat \<times> rat list \<times> cache_world) res" where
  "replace_try E chunk npages nspare len chunk_baseline k = (\<lambda>(j, swapped, lat, w).
     if nspare = 0 then Inl Out_Of_Bounds
     else if nspare = 1 then Inl Div_By_Zero
     else
       let original = npages - chunk + j;
           substitute = npages + (nspare - 1 - (k + cw_avail w) mod (nspare - 1));
           subset_len = (if j = chunk - 1 \<and> len mod ce_psz E \<noteq> 0 then len else (original + 1) * ce_psz E)
       in and_then (measure_cache E subset_len (with_pages (swap_at original substitute) w)) (\<lambda>(t, var, w).
          let w = with_pages (swap_at original substitute) w;
              (lat, w) = (if t < lat ! (chunk - 1)
                then pagesort_world (chunk - j) original j (lat[chunk - 1 := t]) (with_pages (swap_at (npages - 1) substitute) w)
                else (lat, w))
          in if ce_rnd E (ce_rnd E (995 / 1000) * lat ! j) \<le> chunk_baseline
             then Inr (Suc j, Suc swapped, lat, w) else Inr (j, swapped, lat, w)))"

text \<open>The loop; its result is the counter \<open>k\<close>, the number of pages replaced, and the state.\<close>

function replace_loop ::
  "cache_env \<Rightarrow> nat \<Rightarrow> nat \<Rightarrow> nat \<Rightarrow> nat \<Rightarrow> rat \<Rightarrow> nat \<Rightarrow> nat \<times> nat \<times> rat list \<times> cache_world \<Rightarrow> (nat \<times> nat \<times> cache_world) res" where
  "replace_loop E chunk npages nspare len chunk_baseline k jslw =
     (if fst jslw < chunk \<and> k < 2 * npages
      then and_then (replace_try E chunk npages nspare len chunk_baseline k jslw)
             (replace_loop E chunk npages nspare len chunk_baseline (Suc k))
      else case jslw of (j, swapped, lat, w) \<Rightarrow> Inr (k, swapped, w))"
  by pat_completeness auto
termination by (relation "measure (\<lambda>(E, chunk, npages, nspare, len, b, k, jslw). 2 * npages - k)") auto

declare replace_loop.simps [simp del]

text \<open>Before that loop: the chunk goes to the end of the list, good pages are separated from bad ones, and
  the bad ones are sorted.\<close>

definition fixup_start ::
  "cache_env \<Rightarrow> nat \<Rightarrow> nat \<Rightarrow> nat \<Rightarrow> nat \<Rightarrow> rat \<Rightarrow> cache_world \<Rightarrow> (nat \<times> rat \<times> rat list \<times> cache_world) res" where
  "fixup_start E i chunk npages nspare chunk_baseline w =
     (let w = with_pages (swap_to_end i chunk npages) w;
          w = (if cw_avail w \<ge> nspare then w\<lparr>cw_avail := 0\<rparr> else w)
      in and_then (keep_loop E chunk npages chunk_baseline 0 chunk (replicate 20 0) w) (\<lambda>(j, lat, w).
         let (lat, w) = pagesort_world (chunk - j) (npages - chunk + j) j lat w in
         if chunk \<ge> npages \<and> j < chunk div 2
         then and_then (measure_cache E ((npages - chunk + chunk div 2 + 1) * ce_psz E) w) (\<lambda>(t, var, w). Inr (chunk div 2, t, lat, w))
         else Inr (j, chunk_baseline, lat, w)))"

text \<open>After it: the list with the new pages is kept if it is faster, otherwise the old one is copied back.\<close>

definition fixup_end ::
  "cache_env \<Rightarrow> nat \<Rightarrow> nat \<Rightarrow> nat \<Rightarrow> nat \<Rightarrow> nat \<Rightarrow> nat list \<Rightarrow> rat \<Rightarrow> nat \<times> nat \<times> cache_world \<Rightarrow> (bool \<times> rat \<times> cache_world) res" where
  "fixup_end E i chunk npages nspare len saved baseline = (\<lambda>(k, swapped, w).
     if nspare = 1 then Inl Div_By_Zero else
     let w = w\<lparr>cw_avail := (if nspare = 0 then k + cw_avail w else (k + cw_avail w) mod (nspare - 1))\<rparr> in
     if swapped = 0 then Inr (False, baseline, w)
     else and_then (measure_cache E len w) (\<lambda>(new_baseline, var, w).
       if new_baseline \<ge> ce_rnd E (ce_rnd E (999 / 1000) * baseline)
       then Inr (False, baseline, with_pages (bcopy_ints (npages + nspare) saved) w)
       else Inr (True, new_baseline, with_pages (swap_to_end i chunk npages) w)))"

definition fixup_chunk ::
  "cache_env \<Rightarrow> nat \<Rightarrow> nat \<Rightarrow> nat \<Rightarrow> nat \<Rightarrow> rat \<Rightarrow> rat \<Rightarrow> cache_world \<Rightarrow> (bool \<times> rat \<times> cache_world) res" where
  "fixup_chunk E i chunk npages len baseline chunk_baseline w =
     (let ntotal = npages_of (ce_psz E) (ms_maxlen (cw_st w)); nspare = ntotal - npages in
      if ce_psz E = 0 then Inl Div_By_Zero
      else if ntotal < npages \<or> \<not> has_pages ntotal w \<or> chunk > 20 \<or> npages < chunk then Inl Out_Of_Bounds
      else if \<not> ce_malloc E (cw_calls w) then Inl (Exit 4)
      else
        and_then (fixup_start E i chunk npages nspare chunk_baseline w) (\<lambda>(j, chunk_baseline, lat, w').
        and_then (replace_loop E chunk npages nspare len chunk_baseline 0 (j, 0, lat, w'))
          (fixup_end E i chunk npages nspare len (the (ms_pages (cw_st w))) baseline)))"

section \<open>Looking for pages that collide\<close>

text \<open>The loop of \<open>test_chunk\<close> over parts of the chunk; \<open>rec j subchunk baseline t\<close> is its recursive call.\<close>

function chunk_loop ::
  "cache_env \<Rightarrow> (nat \<Rightarrow> nat \<Rightarrow> rat \<Rightarrow> rat \<Rightarrow> cache_world \<Rightarrow> (bool \<times> rat \<times> cache_world) res option) \<Rightarrow>
   nat \<Rightarrow> nat \<Rightarrow> nat \<Rightarrow> nat \<Rightarrow> nat \<Rightarrow> rat \<Rightarrow> bool \<Rightarrow> rat \<Rightarrow> cache_world \<Rightarrow> (bool \<times> rat \<times> cache_world) res option" where
  "chunk_loop E rec stop npages len subchunk j nodiff modified baseline w =
     (if j < stop \<and> 0 < subchunk then
        let sub = (if j + subchunk > stop then stop - j else subchunk);
            slow = (\<lambda>t. t \<ge> ce_rnd E (ce_rnd E (99 / 100) * baseline) \<or> t \<ge> ce_rnd E (ce_rnd E (999 / 1000) * nodiff))
        in bind_r (Some (remove_chunk E j sub npages len w)) (\<lambda>(t, w).
           if slow t then chunk_loop E rec stop npages len sub (j + sub) nodiff modified baseline w
           else bind_r (Some (remove_chunk E j sub npages len w)) (\<lambda>(tt, w).
             let t = (if tt > t then tt else t) in
             if slow t then chunk_loop E rec stop npages len sub (j + sub) nodiff modified baseline w
             else bind_r (rec j sub baseline t w) (\<lambda>(changed, baseline, w).
               chunk_loop E rec stop npages len sub (j + sub) (if changed then nodiff else t) (modified \<or> changed) baseline w)))
      else Some (Inr (modified, baseline, w)))"
  by pat_completeness auto
termination by (relation "measure (\<lambda>(E, rec, stop, npages, len, subchunk, j, nodiff, modified, baseline, w). stop - j)") auto

declare chunk_loop.simps [simp del]

text \<open>\<open>test_chunk\<close>; the first argument bounds the depth of the recursion.\<close>

fun test_chunk ::
  "nat \<Rightarrow> cache_env \<Rightarrow> nat \<Rightarrow> nat \<Rightarrow> nat \<Rightarrow> nat \<Rightarrow> rat \<Rightarrow> rat \<Rightarrow> cache_world \<Rightarrow> (bool \<times> rat \<times> cache_world) res option" where
  "test_chunk 0 E i chunk npages len baseline chunk_baseline w = None"
| "test_chunk (Suc d) E i chunk npages len baseline chunk_baseline w =
     (if chunk \<le> 20 \<and> chunk < npages then Some (fixup_chunk E i chunk npages len baseline chunk_baseline w)
      else chunk_loop E (\<lambda>j sub b t w. test_chunk d E j sub npages len b t w) (i + chunk) npages len ((chunk + 19) div 20) i
             baseline False baseline w)"

section \<open>Samples\<close>

text \<open>The loop of \<open>collect_sample\<close>: at most eight passes, as long as pages were replaced.\<close>

fun sample_passes :: "nat \<Rightarrow> cache_env \<Rightarrow> nat \<Rightarrow> nat \<Rightarrow> rat \<Rightarrow> cache_world \<Rightarrow> (rat \<times> cache_world) res option" where
  "sample_passes 0 E npages len baseline w = Some (Inr (baseline, w))"
| "sample_passes (Suc k) E npages len baseline w =
     bind_r (test_chunk (Suc npages) E 0 npages npages len baseline 0 w) (\<lambda>(modified, baseline, w).
       if modified then sample_passes k E npages len baseline w else Some (Inr (baseline, w)))"

definition collect_sample :: "cache_env \<Rightarrow> cache_results \<Rightarrow> cache_world \<Rightarrow> (cache_results \<times> cache_world) res option" where
  "collect_sample E p w =
     (if ce_psz E = 0 then Some (Inl Div_By_Zero) else
      let npages = npages_of (ce_psz E) (cr_len p) in
      bind_r (Some (measure_cache E (cr_len p) w)) (\<lambda>(baseline, var, w).
      bind_r (if npages > 1 then sample_passes 8 E npages (cr_len p) baseline w else Some (Inr (baseline, w))) (\<lambda>(baseline, w).
      Some (Inr (p\<lparr>cr_variation := var, cr_latency := baseline\<rparr>, w)))))"

text \<open>The update of the left end of an interval at the start of \<open>search\<close>.\<close>

definition set_ratio :: "rounding \<Rightarrow> nat \<Rightarrow> nat \<Rightarrow> cache_results list \<Rightarrow> cache_results list" where
  "set_ratio rnd lo hi p =
     (let l = p ! lo; r = p ! hi; ratio = rnd (cr_latency r / cr_latency l);
          slope = rnd (rnd (ratio - 1) / rnd (of_nat (hi - lo))) in
      if cr_latency l > 0 then
        p[lo := if ratio < rnd (98 / 100) then l\<lparr>cr_latency := cr_latency r, cr_ratio := 1, cr_slope := 0\<rparr>
                  else l\<lparr>cr_ratio := ratio, cr_slope := slope\<rparr>]
      else p)"

text \<open>\<open>search\<close>: the middle of an interval over which the latency changes is measured, and both halves are
  searched.  For an interval of no length the slope is not a number; it is not used then.\<close>

function search ::
  "cache_env \<Rightarrow> nat \<Rightarrow> nat \<Rightarrow> cache_results list \<times> cache_world \<Rightarrow> (cache_results list \<times> cache_world) res option" where
  "search E lo hi pw =
     (let (p0, w) = pw; middle = lo + (hi - lo) div 2; rnd = ce_rnd E; p = set_ratio rnd lo hi p0 in
      if length p0 \<le> lo \<or> length p0 \<le> hi then Some (Inl Out_Of_Bounds)
      else if middle = lo \<or> middle = hi then Some (Inr (p, w))
      else if cr_ratio (p ! lo) > rnd (135 / 100) \<or> cr_ratio (p ! lo) < rnd (97 / 100) then
        bind_r (collect_sample E (p ! middle) w) (\<lambda>(m, w).
        bind_r (search E middle hi (p[middle := m], w)) (\<lambda>pw. search E lo middle pw))
      else Some (Inr (p, w)))"
  by pat_completeness auto
termination by (relation "measure (\<lambda>(E, lo, hi, pw). hi - lo)") auto

declare search.simps [simp del]

text \<open>The sizes of \<open>collect_data\<close>: four steps of the same length, then the length doubles.\<close>

fun four_steps :: "nat \<Rightarrow> nat \<Rightarrow> nat \<Rightarrow> nat \<Rightarrow> nat list \<times> nat" where
  "four_steps 0 maxlen len incr = ([], len)"
| "four_steps (Suc i) maxlen len incr =
     (if len \<le> maxlen then let (ls, len') = four_steps i maxlen (len + incr) incr in (len # ls, len') else ([], len))"

lemma four_steps_grow: "0 < incr \<Longrightarrow> len \<le> maxlen \<Longrightarrow> 0 < i \<Longrightarrow> len < snd (four_steps i maxlen len incr)"
proof (induction i arbitrary: len)
  case (Suc i)
  show ?case
  proof (cases "i = 0 \<or> maxlen < len + incr")
    case True
    then show ?thesis using Suc.prems by (cases i) (auto simp: case_prod_unfold)
  next
    case False
    with Suc.IH [of "len + incr"] Suc.prems show ?thesis by (auto simp: case_prod_unfold Let_def)
  qed
qed simp

function sample_lens :: "nat \<Rightarrow> nat \<Rightarrow> nat \<Rightarrow> nat list" where
  "sample_lens maxlen len incr =
     (if len \<le> maxlen \<and> 0 < incr then
        fst (four_steps 4 maxlen len incr) @ sample_lens maxlen (snd (four_steps 4 maxlen len incr)) (2 * incr)
      else [])"
  by pat_completeness auto
termination
proof (relation "measure (\<lambda>(maxlen, len, incr). Suc maxlen - len)", goal_cases)
  case (2 maxlen len incr)
  then show ?case using four_steps_grow [of incr len maxlen 4] by auto
qed simp

declare sample_lens.simps [simp del]

text \<open>The loop that is to find the biggest size with a latency: it measures the last sample again and
  then drops it.\<close>

fun drop_samples ::
  "cache_env \<Rightarrow> nat \<Rightarrow> cache_results list \<times> cache_world \<Rightarrow> (nat \<times> cache_results list \<times> cache_world) res" where
  "drop_samples E 0 pw = Inl Out_Of_Bounds"
| "drop_samples E (Suc n) pw =
     (let (p, w) = pw in
      if cr_latency (p ! n) \<le> 0 then
        and_then (measure_cache E (cr_len (p ! n)) w) (\<lambda>(t, var, w).
          drop_samples E n (p[n := (p ! n)\<lparr>cr_latency := t, cr_variation := var\<rparr>], w))
      else Inr (Suc n, p, w))"

text \<open>\<open>collect_data\<close>: the loop that waits for memory is left after one call, since \<open>mem_initialize\<close> exits if
  there is none.\<close>

definition collect_data ::
  "cache_env \<Rightarrow> mem_env \<Rightarrow> bool \<Rightarrow> nat \<Rightarrow> nat \<Rightarrow> nat \<Rightarrow> mem_state \<Rightarrow> cache_world \<Rightarrow>
   (nat \<times> cache_results list \<times> cache_world) res option" where
  "collect_data E ME got_memory start line maxlen st0 w =
     (let lens = sample_lens maxlen start (start div 4);
          p = map (\<lambda>len. \<lparr>cr_len = len, cr_maxlen = maxlen, cr_line = line, cr_latency = - 1, cr_variation = 0,
                         cr_ratio = - 1, cr_slope = - 1\<rparr>) lens;
          n = length lens;
          st = st0\<lparr>ms_width := 1, ms_len := maxlen, ms_maxlen := maxlen, ms_line := line, ms_pagesize := ce_psz E, ms_addr := 0\<rparr>
      in if \<not> got_memory then Some (Inl (Exit 2)) else
      bind_r (Some (mem_initialize ME 0 st (cw_heap w))) (\<lambda>(st, h).
      let w = w\<lparr>cw_st := st, cw_heap := h\<rparr>;
          w = with_pages (\<lambda>pages. map (\<lambda>i. i * ms_pagesize st) [0..<ms_npages st] @ drop (ms_npages st) pages) w in
      if n = 0 then Some (Inl Out_Of_Bounds) else
      bind_r (Some (measure_cache E (cr_len (p ! (n - 1))) w)) (\<lambda>(t, var, w).
      bind_r (Some (drop_samples E n (p[n - 1 := (p ! (n - 1))\<lparr>cr_latency := t, cr_variation := var\<rparr>], w))) (\<lambda>(n, p, w).
      bind_r (Some (measure_cache E (cr_len (p ! 0)) w)) (\<lambda>(t, var, w).
      bind_r (search E 0 (n - 1) (p[0 := (p ! 0)\<lparr>cr_latency := t, cr_variation := var\<rparr>], w)) (\<lambda>(p, w).
      let (st, h) = mem_cleanup 0 (cw_st w) (cw_heap w)
      in Some (Inr (n, p, w\<lparr>cw_st := st, cw_heap := h\<rparr>))))))))"

section \<open>Caches\<close>

text \<open>The loop of \<open>find_cache\<close>, from index \<open>i\<close> on; \<open>j\<close> is the last sample with a jump, \<open>mx\<close> the biggest ratio.\<close>

function find_loop_cache :: "cache_results list \<Rightarrow> nat \<Rightarrow> nat \<Rightarrow> nat option \<Rightarrow> rat \<Rightarrow> nat option res" where
  "find_loop_cache p n i j mx =
     (if i < n then
        if length p \<le> i then Inl Out_Of_Bounds
        else if cr_latency (p ! i) < 0 then find_loop_cache p n (Suc i) j mx
        else
          let mx = (if mx < cr_ratio (p ! i) then cr_ratio (p ! i) else mx);
              j = (if THRESHOLD < cr_ratio (p ! i) then Some i else j)
          in if THRESHOLD < mx then
               case j of
                 None \<Rightarrow> Inl Out_Of_Bounds
               | Some k \<Rightarrow> if cr_len (p ! k) * 2 \<le> cr_len (p ! i) then Inr (Some k) else find_loop_cache p n (Suc i) j mx
             else find_loop_cache p n (Suc i) j mx
      else Inr None)"
  by pat_completeness auto
termination by (relation "measure (\<lambda>(p, n, i, j, mx). n - i)") auto

declare find_loop_cache.simps [simp del]

definition find_cache :: "nat \<Rightarrow> nat \<Rightarrow> cache_results list \<Rightarrow> nat option res" where
  "find_cache start n p = find_loop_cache p n start None (- 1)"

text \<open>\<open>for (c = len; c > 7; c >>= 1)\<close>, with the length converted to \<open>int\<close>.\<close>

function leading3 :: "int \<Rightarrow> int" where
  "leading3 c = (if c > 7 then leading3 (c div 2) else c)"
  by pat_completeness auto
termination by (relation "measure nat") auto

declare leading3.simps [simp del]

lemma find_loop_cache_from:
  assumes "find_loop_cache p n i j mx = Inr (Some k)"
  shows "i \<le> k \<or> j = Some k"
  using assms
proof (induction "n - i" arbitrary: i j mx)
  case 0
  then show ?case by (subst (asm) find_loop_cache.simps) simp
next
  case (Suc d)
  have IH: "Suc i \<le> k \<or> j' = Some k" if "find_loop_cache p n (Suc i) j' mx' = Inr (Some k)" for j' mx'
    using Suc.hyps(1) [OF _ that] Suc.hyps(2) by simp
  from Suc.prems show ?case
    by (subst (asm) find_loop_cache.simps) (auto simp: Let_def split: if_splits option.splits dest!: IH)
qed

text \<open>The levels that \<open>main\<close> finds; \<open>start\<close> is where the search goes on.  The array \<open>levels\<close> has \<open>n\<close>
  elements.  After each level the latency at \<open>start\<close>, or at the place before, is read.\<close>

function find_levels :: "rounding \<Rightarrow> nat \<Rightarrow> cache_results list \<Rightarrow> nat \<Rightarrow> nat list \<Rightarrow> nat list res" where
  "find_levels rnd n r start levels =
     (case find_cache start n r of
        Inl e \<Rightarrow> Inl e
      | Inr None \<Rightarrow> Inr levels
      | Inr (Some i) \<Rightarrow>
          if rnd (cr_latency (r ! i) / cr_latency (r ! (n - 1))) > 1 / 2 then Inr levels
          else
            let c = leading3 (s32 (int (cr_len (r ! i)))); i' = (if c = 5 \<or> c = 7 then Suc i else i) in
            if n \<le> i' then Inr levels
            else if n \<le> length levels \<or> cr_latency (r ! start) \<le> 0 \<and> start = 0 then Inl Out_Of_Bounds
            else find_levels rnd n r (Suc i') (levels @ [i']))"
  by pat_completeness auto
termination
proof (relation "measure (\<lambda>(rnd, n, r, start, levels). n - start)", goal_cases)
  case (2 rnd n r start levels x2 i c i')
  then have "start \<le> i" using find_loop_cache_from [of r n start None "- 1" i] by (simp add: find_cache_def)
  with 2 show ?case by auto
qed simp

declare find_levels.simps [simp del]

text \<open>The sample of a level whose latency changes least.\<close>

definition best_sample :: "cache_results list \<Rightarrow> nat \<Rightarrow> nat \<Rightarrow> nat" where
  "best_sample r from to =
     fold (\<lambda>j mn. if cr_latency (r ! j) \<le> 0 then mn
                  else if cr_latency (r ! mn) \<le> 0 \<or> \<bar>cr_slope (r ! j)\<bar> < \<bar>cr_slope (r ! mn)\<bar> then j else mn) [from..<to] from"

text \<open>The conversion of a signed size to \<open>size_t\<close>.  What the library functions called by \<open>main\<close> meet: \<open>malloc\<close> and random numbers, the times of \<open>line_find\<close>
  and of \<open>par_mem\<close>, for each call.\<close>

definition usz :: "int \<Rightarrow> nat" where "usz x = unat (to_u64 x)"

record cache_calls =
  cc_mem :: "nat \<Rightarrow> mem_env"
  cc_line :: "nat \<Rightarrow> nat \<Rightarrow> value_t list"
  cc_par :: "nat \<Rightarrow> nat \<Rightarrow> u64 \<times> u64"

text \<open>The search for a line size that is positive, from sample \<open>j\<close> on.  \<open>k\<close> counts the calls.\<close>

function level_line ::
  "cache_env \<Rightarrow> cache_calls \<Rightarrow> nat \<Rightarrow> nat \<Rightarrow> int \<Rightarrow> cache_results list \<Rightarrow> nat \<Rightarrow> cache_world \<Rightarrow>
   (int \<times> cache_results list \<times> nat \<times> cache_world) res" where
  "level_line E CC n j line r k w =
     (if line \<le> 0 \<and> j < n then
        and_then (line_find (ce_rnd E) (cc_mem CC k) (cc_line CC k) (ce_psz E) (cr_len (r ! j)) (cw_st w) (cw_heap w, cw_timing w))
          (\<lambda>(line, st, h, s).
             level_line E CC n (Suc j) line (r[j := (r ! j)\<lparr>cr_line := usz line\<rparr>]) (Suc k)
               (w\<lparr>cw_st := st, cw_heap := h, cw_timing := s\<rparr>))
      else Inr (line, r, k, w))"
  by pat_completeness auto
termination by (relation "measure (\<lambda>(E, CC, n, j, line, r, k, w). n - j)") auto

declare level_line.simps [simp del]

text \<open>The report of the levels from the \<open>i\<close>-th on.\<close>

function report_levels ::
  "cache_env \<Rightarrow> cache_calls \<Rightarrow> nat \<Rightarrow> nat list \<Rightarrow> nat \<Rightarrow> cache_results list \<Rightarrow> nat \<Rightarrow> cache_world \<Rightarrow> (item list \<times> nat \<times> cache_world) res" where
  "report_levels E CC n levels i r k w =
     (if i < length levels then
        let from = (if i > 0 then Suc (levels ! (i - 1)) else 0); to = levels ! i; mn = best_sample r from to in
        and_then
          (if Suc i = length levels then Inr (s64 (int (cr_line (r ! (n - 1)))), r, k, w)
           else level_line E CC n ((to + levels ! Suc i) div 2) (- 1) r k w) (\<lambda>(line, r, k, w).
        if to = 0 then Inl Out_Of_Bounds else
        and_then (par_mem (ce_rnd E) (cc_mem CC k) (cc_par CC k) (cr_len (r ! (to - 1))) (cw_st w) (cw_heap w)) (\<lambda>(maxpar, st, h).
        and_then (report_levels E CC n levels (Suc i) r (Suc k) (w\<lparr>cw_st := st, cw_heap := h\<rparr>)) (\<lambda>(out, k, w).
        Inr ([Txt ''L'', Dec (int (i + 1)), Txt '' cache: '', Dec (int (cr_len (r ! to))), Txt '' bytes '',
              Flt 2 (Fin (cr_latency (r ! mn))), Txt '' nanoseconds '', Dec line, Txt '' linesize '', Flt 2 (Fin maxpar),
              Txt '' parallelism''] @ out, k, w))))
      else Inr ([], k, w))"
  by pat_completeness auto
termination by (relation "measure (\<lambda>(E, CC, n, levels, i, r, k, w). length levels - i)") auto

declare report_levels.simps [simp del]

text \<open>The smallest sample that is about as slow as memory.\<close>

definition memory_sample :: "rounding \<Rightarrow> cache_results list \<Rightarrow> nat \<Rightarrow> nat" where
  "memory_sample rnd r n =
     fold (\<lambda>i j. if cr_latency (r ! i) < 0 then j
                 else if cr_latency (r ! i) > rnd (rnd (99 / 100) * cr_latency (r ! (n - 1))) then i else j) (rev [0..<n]) (n - 1)"

text \<open>The options: line size and biggest length (warm-up and repetitions only enter the times).\<close>

fun cache_options :: "(char \<times> string option) list \<Rightarrow> int \<times> nat \<Rightarrow> (int \<times> nat) res" where
  "cache_options [] lm = Inr lm"
| "cache_options ((c, arg) # cs) (line, maxlen) =
     (case arg of
        None \<Rightarrow> Inl Null_Deref
      | Some s \<Rightarrow>
          if c = CHR ''L'' then cache_options cs (if 0 \<le> atoi s \<and> atoi s < 8 then 8 else atoi s, maxlen)
          else if c = CHR ''M'' then and_then (bytes s) (\<lambda>b. cache_options cs (line, unat b))
          else cache_options cs (line, maxlen))"

definition cache_main ::
  "cache_env \<Rightarrow> cache_calls \<Rightarrow> bool \<Rightarrow> bool \<Rightarrow> string list \<Rightarrow> mem_state \<Rightarrow> cache_world \<Rightarrow> item list res option" where
  "cache_main E CC got_data got_levels av st0 w =
     bind_r (getopts (Suc (sum_list (map (\<lambda>w. length w + 1) (drop 1 av)))) av ''L:M:W:N:'' optst_init) (\<lambda>(cs, ok, _).
     if \<not> ok then Some (Inl (Exit (- 1))) else
     bind_r (Some (cache_options cs (0, 32 * 1024 * 1024))) (\<lambda>(line, maxlen).
     let w = w\<lparr>cw_st := (cw_st w)\<lparr>ms_width := 1, ms_len := maxlen, ms_maxlen := maxlen, ms_pagesize := ce_psz E\<rparr>\<rparr> in
     bind_r (Some (
       if line = 0 then
         and_then (line_find (ce_rnd E) (cc_mem CC 0) (cc_line CC 0) (ce_psz E) maxlen (cw_st w) (cw_heap w, cw_timing w)) (\<lambda>(line, st, h, s).
         let line = (if line = 0 then int (ce_psz E div 16) else line) in
         Inr (line, w\<lparr>cw_st := st\<lparr>ms_line := usz line\<rparr>, cw_heap := h, cw_timing := s\<rparr>))
       else Inr (line, w))) (\<lambda>(line, w).
     bind_r (collect_data E (cc_mem CC 1) got_data 512 (usz line) maxlen st0 w) (\<lambda>(n, r, w').
     let r = r[n - 1 := (r ! (n - 1))\<lparr>cr_line := usz line\<rparr>]; w = w'\<lparr>cw_st := cw_st w\<rparr> in
     if \<not> got_levels then Some (Inl (Exit 1)) else
     bind_r (Some (find_levels (ce_rnd E) n r 0 [])) (\<lambda>levels.
     bind_r (Some (report_levels E CC n levels 0 r 2 w)) (\<lambda>(out, k, w).
     bind_r (Some (par_mem (ce_rnd E) (cc_mem CC k) (cc_par CC k) (cr_len (r ! memory_sample (ce_rnd E) r n)) (cw_st w) (cw_heap w))) (\<lambda>(par, _).
     Some (Inr (out @ [Txt ''Memory latency: '', Flt 2 (Fin (cr_latency (r ! (n - 1)))), Txt '' nanoseconds '', Flt 2 (Fin par),
                       Txt '' parallelism''])))))))))"

end
