(* ===== verification/Lm_Cache_Props.thy ===== *)
theory Lm_Cache_Props
  imports Lm_Cache
begin

text \<open>
  Properties of the cache benchmark: what leaving out a part of the page list measures, that the page
  list stays a permutation of the pages and where it does not, that the analysis ends, the chain that
  \<open>measure\<close> lays through the pages, and the bounds of the levels found.
\<close>

section \<open>The page list\<close>

lemma nth_swap_at:
  assumes "i < length xs" "j < length xs" "k < length xs"
  shows "swap_at i j xs ! k = (if k = j then xs ! i else if k = i then xs ! j else xs ! k)"
  using assms by (simp add: swap_at_def nth_list_update)

lemma length_swap_at [simp]: "length (swap_at i j xs) = length xs"
  by (simp add: swap_at_def)

lemma mset_swap_at: "i < length xs \<Longrightarrow> j < length xs \<Longrightarrow> mset (swap_at i j xs) = mset xs"
  by (simp add: swap_at_def mset_swap)

text \<open>Where the \<open>k\<close>-th place gets its page from after \<open>c\<close> exchanges: from the mirror image unless its pair
  was exchanged twice or not at all.\<close>

definition mirror :: "nat \<Rightarrow> nat \<Rightarrow> nat \<Rightarrow> nat \<Rightarrow> nat" where
  "mirror i c n k = (if i \<le> k \<and> k < n \<and> (k - i < c) \<noteq> (n - 1 - k < c) then i + (n - 1) - k else k)"

lemma length_fold_swaps [simp]: "length (fold (\<lambda>j. swap_at (f j) (g j)) js xs) = length xs"
  by (induction js arbitrary: xs) auto

lemma swap_ends_nth:
  assumes "i + c < n" "n \<le> length xs" "k < length xs"
  shows "swap_ends i c n xs ! k = xs ! mirror i c n k"
  using assms(1,3)
proof (induction c arbitrary: k)
  case 0
  then show ?case by (simp add: swap_ends_def mirror_def)
next
  case (Suc c)
  let ?a = "i + c" and ?b = "n - 1 - c" and ?ys = "swap_ends i c n xs"
  have len: "length ?ys = length xs" by (simp add: swap_ends_def)
  have ab: "?a < length xs" "?b < length xs" using Suc.prems assms(2) by linarith+
  have old: "?ys ! m = xs ! mirror i c n m" if "m < length xs" for m using Suc.IH [of m] Suc.prems that by simp
  have "swap_ends i (Suc c) n xs ! k = (if k = ?b then ?ys ! ?a else if k = ?a then ?ys ! ?b else ?ys ! k)"
    using ab len Suc.prems(2) nth_swap_at [of ?a ?ys ?b k] by (simp add: swap_ends_def)
  also have "\<dots> = xs ! mirror i (Suc c) n k"
  proof -
    consider "k = ?b" | "k \<noteq> ?b" "k = ?a" | "k \<noteq> ?a" "k \<noteq> ?b" by blast
    then show ?thesis
    proof cases
      case 1
      have "mirror i c n ?a = mirror i (Suc c) n ?b" using Suc.prems(1) by (auto simp: mirror_def)
      then show ?thesis using 1 old [OF ab(1)] by simp
    next
      case 2
      have "mirror i c n ?b = mirror i (Suc c) n ?a" using Suc.prems(1) by (auto simp: mirror_def)
      then show ?thesis using 2 old [OF ab(2)] by simp
    next
      case 3
      have "mirror i c n k = mirror i (Suc c) n k" using 3 Suc.prems(1) by (auto simp: mirror_def)
      then show ?thesis using 3 old [OF Suc.prems(2)] by simp
    qed
  qed
  finally show ?case .
qed

lemma mirror_twice: "i + c < n \<Longrightarrow> mirror i c n (mirror i c n k) = k"
  by (auto simp: mirror_def)

lemma swap_ends_twice:
  assumes "i + c < n" "n \<le> length xs"
  shows "swap_ends i c n (swap_ends i c n xs) = xs"
proof (rule nth_equalityI)
  show "length (swap_ends i c n (swap_ends i c n xs)) = length xs" by (simp add: swap_ends_def)
  fix k assume "k < length (swap_ends i c n (swap_ends i c n xs))"
  then have k: "k < length xs" by (simp add: swap_ends_def)
  have "mirror i c n k < length xs" using k assms by (auto simp: mirror_def)
  then show "swap_ends i c n (swap_ends i c n xs) ! k = xs ! k"
    using swap_ends_nth [of i c n "swap_ends i c n xs" k] swap_ends_nth [of i c n xs "mirror i c n k"] assms k
    by (simp add: mirror_twice swap_ends_def)
qed

text \<open>After the exchange the first places hold exactly the pages outside the chunk.\<close>

lemma swap_ends_prefix:
  assumes "i + c < n" "n \<le> length xs"
  shows "mset (take (n - c) (swap_ends i c n xs)) = mset (take i xs @ drop (i + c) (take n xs))"
proof -
  let ?I = "map (mirror i c n) [0..<n - c]" and ?O = "[0..<i] @ [i + c..<n]"
  have "take (n - c) (swap_ends i c n xs) = map (\<lambda>k. xs ! mirror i c n k) [0..<n - c]"
    using assms swap_ends_nth [OF assms] by (intro nth_equalityI) (auto simp: swap_ends_def)
  then have l: "take (n - c) (swap_ends i c n xs) = map ((!) xs) ?I" by simp
  have "take i xs @ drop (i + c) (take n xs) = map ((!) xs) ?O"
    using assms by (intro nth_equalityI) (auto simp: nth_append)
  moreover have "mset ?I = mset ?O"
  proof -
    have "distinct ?I" using mirror_twice [OF assms(1)] by (auto simp: distinct_map inj_on_def intro: arg_cong [of "mirror i c n _"] dest: arg_cong [of _ _ "mirror i c n"])
    moreover have "set ?I = set ?O"
    proof (rule card_subset_eq)
      show "set ?I \<subseteq> set ?O" using assms(1) by (auto simp: mirror_def)
      have "card (set ?I) = n - c" using \<open>distinct ?I\<close> by (metis distinct_card length_map length_upt minus_nat.diff_0)
      moreover have "card (set ?O) = n - c" using assms(1) by (subst distinct_card) auto
      ultimately show "card (set ?I) = card (set ?O)" by simp
    qed simp
    ultimately show ?thesis by (subst set_eq_iff_mset_eq_distinct [symmetric]) auto
  qed
  ultimately show ?thesis unfolding l by (metis mset_map)
qed

lemma measure_cache_frame:
  assumes "measure_cache E sz w = Inr (t, var, w')"
  shows "ms_pages (cw_st w') = ms_pages (cw_st w)" "ms_maxlen (cw_st w') = ms_maxlen (cw_st w)" "cw_avail w' = cw_avail w"
    "cw_calls w' = Suc (cw_calls w)"
  using assms
  by (auto simp: measure_cache_def cache_mem_benchmark_def Let_def and_then_Inr_iff split: option.splits if_splits)

text \<open>C27: leaving out a chunk of pages: the time that \<open>remove_chunk\<close> returns is measured with a page list
  whose first \<open>npages - chunk\<close> entries are exactly the pages outside the chunk, also where the chunk
  overlaps the end it is exchanged with, and the page list is restored afterwards.\<close>

theorem remove_chunk_measures_rest:
  assumes "remove_chunk E i chunk npages len w = Inr (t, w')" "ms_pages (cw_st w) = Some pages" "i + chunk \<le> npages"
  shows "ms_pages (cw_st w') = Some pages \<and>
    (\<exists>ps var w1. measure_cache E (len - chunk * ce_psz E) (with_pages (\<lambda>_. ps) w) = Inr (t, var, w1) \<and>
       mset (take (npages - chunk) ps) = mset (take i pages @ drop (i + chunk) (take npages pages)))"
proof -
  have len: "npages \<le> length pages" using assms(1,2) by (auto simp: remove_chunk_def has_pages_def split: if_splits)
  show ?thesis
  proof (cases "i + chunk < npages")
    case True
    let ?ps = "swap_ends i chunk npages pages"
    from assms(1) True obtain var w1 where
      m: "measure_cache E (len - chunk * ce_psz E) (with_pages (swap_ends i chunk npages) w) = Inr (t, var, w1)"
      and w': "w' = with_pages (swap_ends i chunk npages) w1"
      by (auto simp: remove_chunk_def Let_def and_then_Inr_iff split: if_splits)
    have e: "with_pages (swap_ends i chunk npages) w = with_pages (\<lambda>_. ?ps) w" using assms(2) by (simp add: with_pages_def)
    have "ms_pages (cw_st w1) = Some ?ps" using measure_cache_frame(1) [OF m] assms(2) by (simp add: with_pages_def)
    then have "ms_pages (cw_st w') = Some pages" using swap_ends_twice [OF True len] by (simp add: w' with_pages_def)
    then show ?thesis using m swap_ends_prefix [OF True len] unfolding e by blast
  next
    case False
    then have n: "npages = i + chunk" using assms(3) by simp
    from assms(1) False obtain var where m: "measure_cache E (len - chunk * ce_psz E) w = Inr (t, var, w')"
      by (auto simp: remove_chunk_def Let_def and_then_Inr_iff split: if_splits)
    moreover have "with_pages (\<lambda>_. pages) w = w" using assms(2) by (simp add: with_pages_def)
    moreover have "ms_pages (cw_st w') = Some pages" using measure_cache_frame(1) [OF m] assms(2) by simp
    ultimately show ?thesis using n by (intro conjI exI [of _ pages]) auto
  qed
qed

section \<open>Replacing pages\<close>

text \<open>The page list is a permutation of \<open>pages\<close>.\<close>

definition perm_of :: "nat list \<Rightarrow> cache_world \<Rightarrow> bool" where
  "perm_of pages w \<longleftrightarrow> (\<exists>ps. ms_pages (cw_st w) = Some ps \<and> mset ps = mset pages)"

lemma perm_of_swap:
  assumes "perm_of pages w" "i < length pages" "j < length pages"
  shows "perm_of pages (with_pages (swap_at i j) w)"
proof -
  from assms(1) obtain ps where ps: "ms_pages (cw_st w) = Some ps" "mset ps = mset pages" by (auto simp: perm_of_def)
  then have "length ps = length pages" by (metis size_mset)
  then show ?thesis using ps assms(2,3) by (simp add: perm_of_def with_pages_def mset_swap_at)
qed

lemma perm_of_measure: "measure_cache E sz w = Inr (t, var, w') \<Longrightarrow> perm_of pages w' = perm_of pages w"
  by (simp add: perm_of_def measure_cache_frame(1))

lemma perm_of_avail [simp]: "perm_of pages (w\<lparr>cw_avail := a\<rparr>) = perm_of pages w"
  by (simp add: perm_of_def)

lemma mset_swap_to_end:
  assumes "npages \<le> length xs"
  shows "mset (swap_to_end i chunk npages xs) = mset xs"
proof -
  have "mset (fold (\<lambda>j. swap_at (i + j) (npages - chunk + j)) js xs) = mset xs"
    if "i + chunk < npages" "\<forall>j \<in> set js. j < chunk" for js
    using that(2) assms
  proof (induction js arbitrary: xs)
    case (Cons j js)
    then have "i + j < length xs" "npages - chunk + j < length xs" using that(1) by auto
    with Cons show ?case by (simp add: mset_swap_at)
  qed simp
  then show ?thesis by (simp add: swap_to_end_def)
qed

lemma perm_of_to_end:
  assumes "perm_of pages w" "npages \<le> length pages"
  shows "perm_of pages (with_pages (swap_to_end i chunk npages) w)"
proof -
  from assms(1) obtain ps where ps: "ms_pages (cw_st w) = Some ps" "mset ps = mset pages" by (auto simp: perm_of_def)
  then have "length ps = length pages" by (metis size_mset)
  then show ?thesis using ps assms(2) by (simp add: perm_of_def with_pages_def mset_swap_to_end)
qed

lemma mset_pagesort:
  assumes "from + n \<le> length pages"
  shows "mset (fst (pagesort n from off (pages, lat))) = mset pages"
proof -
  have "mset (fst (fold (sort_step from off) ijs pl)) = mset (fst pl)"
    if "\<forall>(i, j) \<in> set ijs. i < n \<and> j < n" "from + n \<le> length (fst pl)" for ijs pl
    using that
  proof (induction ijs arbitrary: pl)
    case (Cons ij ijs)
    have "from + fst ij < length (fst pl)" "from + snd ij < length (fst pl)" using Cons.prems by auto
    then have "mset (fst (sort_step from off ij pl)) = mset (fst pl)" "length (fst (sort_step from off ij pl)) = length (fst pl)"
      by (auto simp: sort_step_def case_prod_unfold mset_swap_at)
    with Cons show ?case by auto
  qed simp
  then show ?thesis using assms unfolding pagesort_def by fastforce
qed

lemma perm_of_pagesort:
  assumes "perm_of pages w" "from + n \<le> length pages" "pagesort_world n from off lat w = (lat', w')"
  shows "perm_of pages w'"
proof -
  from assms(1) obtain ps where ps: "ms_pages (cw_st w) = Some ps" "mset ps = mset pages" by (auto simp: perm_of_def)
  then have "from + n \<le> length ps" using assms(2) by (metis size_mset)
  from mset_pagesort [OF this, of off lat] ps assms(3) show ?thesis
    by (auto simp: pagesort_world_def perm_of_def with_pages_def case_prod_unfold Let_def)
qed

lemma keep_loop_perm:
  assumes "keep_loop E chunk npages b j k lat w = Inr (j', lat', w')" "perm_of pages w" "j \<le> k" "k \<le> chunk" "chunk \<le> npages" "npages \<le> length pages"
  shows "perm_of pages w' \<and> j' \<le> chunk"
  using assms(1-4)
proof (induction "k - j" arbitrary: j k lat w)
  case 0
  then show ?case by (subst (asm) keep_loop.simps) auto
next
  case (Suc d)
  then have jk: "j < k" by simp
  from Suc.prems(1) jk obtain t var w1 where
    m: "measure_cache E ((npages - chunk + j + 1) * ce_psz E) w = Inr (t, var, w1)"
    and r: "(if ce_rnd E (ce_rnd E (995 / 1000) * t) \<le> b then keep_loop E chunk npages b (Suc j) k (lat[j := t]) w1
      else keep_loop E chunk npages b j (k - 1) (lat[k - 1 := t])
        (with_pages (swap_at (npages - chunk + j) (npages - chunk + (k - 1))) w1)) = Inr (j', lat', w')"
    by (subst (asm) keep_loop.simps) (auto simp: and_then_Inr_iff)
  have p: "perm_of pages w1" using perm_of_measure [OF m] Suc.prems(2) by simp
  have "npages - chunk + j < length pages" "npages - chunk + (k - 1) < length pages"
    using jk Suc.prems(4) assms(5,6) by linarith+
  from perm_of_swap [OF p this] p r show ?case
    using Suc.hyps(1) [of k "Suc j"] Suc.hyps(1) [of "k - 1" j] Suc.hyps(2) Suc.prems(4) jk by (auto split: if_splits)
qed

lemma replace_try_perm:
  assumes "replace_try E chunk npages nspare len b k (j, s, lat, w) = Inr (j', s', lat', w')" "perm_of pages w" "j < chunk" "chunk \<le> npages"
    "npages + nspare \<le> length pages"
  shows "perm_of pages w'"
proof -
  define orig where "orig = npages - chunk + j"
  define subst where "subst = npages + (nspare - 1 - (k + cw_avail w) mod (nspare - 1))"
  define sl where "sl = (if j = chunk - 1 \<and> len mod ce_psz E \<noteq> 0 then len else (orig + 1) * ce_psz E)"
  have ns: "nspare \<noteq> 0" "nspare \<noteq> 1" using assms(1) by (auto simp: replace_try_def split: if_splits)
  have idx: "orig < length pages" "subst < length pages" "npages - 1 < length pages" "orig + (chunk - j) \<le> length pages"
    using assms(3-5) ns unfolding orig_def subst_def by linarith+
  define rest where "rest = (\<lambda>(t, var :: rat, w).
     case if t < lat ! (chunk - 1)
       then pagesort_world (chunk - j) orig j (lat[chunk - 1 := t]) (with_pages (swap_at (npages - 1) subst) (with_pages (swap_at orig subst) w))
       else (lat, with_pages (swap_at orig subst) w) of
     (lat, w) \<Rightarrow> if ce_rnd E (ce_rnd E (995 / 1000) * lat ! j) \<le> b
       then Inr (Suc j, Suc s, lat, w) :: (nat \<times> nat \<times> rat list \<times> cache_world) res else Inr (j, s, lat, w))"
  have "and_then (measure_cache E sl (with_pages (swap_at orig subst) w)) rest = Inr (j', s', lat', w')"
    using assms(1) ns unfolding replace_try_def rest_def orig_def subst_def sl_def by (simp only: Let_def prod.case if_False)
  then obtain t var w1 where m: "measure_cache E sl (with_pages (swap_at orig subst) w) = Inr (t, var, w1)"
    and r: "rest (t, var, w1) = Inr (j', s', lat', w')" by (auto simp: and_then_Inr_iff)
  have p1: "perm_of pages (with_pages (swap_at orig subst) w1)"
    using perm_of_swap [OF _ idx(1,2)] perm_of_measure [OF m] assms(2) by blast
  obtain lat2 w2 where l2: "(if t < lat ! (chunk - 1)
      then pagesort_world (chunk - j) orig j (lat[chunk - 1 := t]) (with_pages (swap_at (npages - 1) subst) (with_pages (swap_at orig subst) w1))
      else (lat, with_pages (swap_at orig subst) w1)) = (lat2, w2)" by fastforce
  have "perm_of pages w2"
  proof (cases "t < lat ! (chunk - 1)")
    case True
    with l2 perm_of_pagesort [OF perm_of_swap [OF p1 idx(3,2)] idx(4)] show ?thesis by auto
  qed (use l2 p1 in auto)
  moreover have "w' = w2"
    using r unfolding rest_def prod.case l2 by (auto split: if_splits)
  ultimately show ?thesis by simp
qed

lemma replace_loop_perm:
  assumes "replace_loop E chunk npages nspare len b k (j, s, lat, w) = Inr (k', s', w')" "perm_of pages w" "chunk \<le> npages"
    "npages + nspare \<le> length pages"
  shows "perm_of pages w'"
  using assms(1,2)
proof (induction "2 * npages - k" arbitrary: k j s lat w)
  case 0
  then show ?case by (subst (asm) replace_loop.simps) auto
next
  case (Suc d)
  show ?case
  proof (cases "j < chunk \<and> k < 2 * npages")
    case False
    then show ?thesis using Suc.prems by (subst (asm) replace_loop.simps) auto
  next
    case True
    then obtain j2 s2 lat2 w2 where
      t: "replace_try E chunk npages nspare len b k (j, s, lat, w) = Inr (j2, s2, lat2, w2)"
      and r: "replace_loop E chunk npages nspare len b (Suc k) (j2, s2, lat2, w2) = Inr (k', s', w')"
      using Suc.prems(1) by (subst (asm) replace_loop.simps) (auto simp: and_then_Inr_iff)
    from replace_try_perm [OF t Suc.prems(2) _ assms(3,4)] True Suc.hyps(1) [OF _ r] Suc.hyps(2) show ?thesis by simp
  qed
qed

lemma fixup_start_perm:
  assumes "fixup_start E i chunk npages nspare b w = Inr (j, b', lat, w')" "perm_of pages w" "chunk \<le> npages" "npages \<le> length pages"
  shows "perm_of pages w'"
proof -
  define w1 where "w1 = (let w = with_pages (swap_to_end i chunk npages) w in if cw_avail w \<ge> nspare then w\<lparr>cw_avail := 0\<rparr> else w)"
  have p1: "perm_of pages w1" using perm_of_to_end [OF assms(2,4)] by (simp add: w1_def Let_def)
  from assms(1) obtain j0 lat0 w2 where
    k: "keep_loop E chunk npages b 0 chunk (replicate 20 0) w1 = Inr (j0, lat0, w2)"
    and r: "(case pagesort_world (chunk - j0) (npages - chunk + j0) j0 lat0 w2 of (lat, w) \<Rightarrow>
       if chunk \<ge> npages \<and> j0 < chunk div 2
       then and_then (measure_cache E ((npages - chunk + chunk div 2 + 1) * ce_psz E) w) (\<lambda>(t, var, w). Inr (chunk div 2, t, lat, w))
       else Inr (j0, b, lat, w)) = Inr (j, b', lat, w')"
    unfolding fixup_start_def w1_def Let_def by (auto simp only: and_then_Inr_iff prod.case)
  obtain lat3 w3 where s: "pagesort_world (chunk - j0) (npages - chunk + j0) j0 lat0 w2 = (lat3, w3)" by fastforce
  from keep_loop_perm [OF k p1] assms(3,4) have p2: "perm_of pages w2" "j0 \<le> chunk" by auto
  then have "perm_of pages w3" using perm_of_pagesort [OF p2(1) _ s] assms(3,4) by simp
  then show ?thesis using r unfolding s prod.case
    by (auto split: if_splits simp: and_then_Inr_iff perm_of_measure)
qed

text \<open>C28: the page list under \<open>fixup_chunk\<close>: it stays a permutation of the pages, except where the exchange of
  pages is taken back.  There half of the list is copied back over the changed list (the length of
  the copy is given in units of \<open>int\<close>), whatever the other half holds by then.\<close>

theorem fixup_chunk_pages:
  assumes "fixup_chunk E i chunk npages len b cb w = Inr (changed, b', w')" "ms_pages (cw_st w) = Some pages"
    "length pages = npages_of (ce_psz E) (ms_maxlen (cw_st w))"
  shows "(\<exists>ps. ms_pages (cw_st w') = Some ps \<and> mset ps = mset pages) \<or>
    \<not> changed \<and> b' = b \<and>
    (\<exists>qs. mset qs = mset pages \<and> ms_pages (cw_st w') = Some (bcopy_ints (length pages) pages qs))"
proof -
  define nspare where "nspare = length pages - npages"
  from assms have g: "npages \<le> length pages" "chunk \<le> npages"
    by (auto simp: fixup_chunk_def Let_def split: if_splits)
  from assms obtain j cb' lat w1 k s w2 where
    a: "fixup_start E i chunk npages nspare cb w = Inr (j, cb', lat, w1)"
    and r: "replace_loop E chunk npages nspare len cb' 0 (j, 0, lat, w1) = Inr (k, s, w2)"
    and e: "fixup_end E i chunk npages nspare len pages b (k, s, w2) = Inr (changed, b', w')"
    by (auto simp: fixup_chunk_def Let_def and_then_Inr_iff nspare_def split: if_splits)
  have "perm_of pages w" using assms(2) by (simp add: perm_of_def)
  from replace_loop_perm [OF r fixup_start_perm [OF a this g(2,1)] g(2)] g have p2: "perm_of pages w2" by (simp add: nspare_def)
  define w3 where "w3 = w2\<lparr>cw_avail := (if nspare = 0 then k + cw_avail w2 else (k + cw_avail w2) mod (nspare - 1))\<rparr>"
  have p3: "perm_of pages w3" using p2 by (simp add: w3_def)
  show ?thesis
  proof (cases "s = 0")
    case True
    then have "w' = w3" using e by (auto simp: fixup_end_def Let_def w3_def split: if_splits)
    with p3 show ?thesis by (simp add: perm_of_def)
  next
    case False
    with e obtain nb var w4 where m: "measure_cache E len w3 = Inr (nb, var, w4)" and
      f: "(if nb \<ge> ce_rnd E (ce_rnd E (999 / 1000) * b) then Inr (False, b, with_pages (bcopy_ints (npages + nspare) pages) w4)
         else Inr (True, nb, with_pages (swap_to_end i chunk npages) w4)) = Inr (changed, b', w')"
      by (auto simp: fixup_end_def Let_def w3_def and_then_Inr_iff split: if_splits)
    have p4: "perm_of pages w4" using perm_of_measure [OF m] p3 by simp
    then obtain qs where qs: "ms_pages (cw_st w4) = Some qs" "mset qs = mset pages" by (auto simp: perm_of_def)
    show ?thesis
    proof (cases "nb \<ge> ce_rnd E (ce_rnd E (999 / 1000) * b)")
      case True
      with f qs g(1) have "\<not> changed" "b' = b" "ms_pages (cw_st w') = Some (bcopy_ints (length pages) pages qs)"
        by (auto simp: with_pages_def nspare_def)
      with qs(2) show ?thesis by blast
    next
      case no: False
      with f have "w' = with_pages (swap_to_end i chunk npages) w4" by auto
      with perm_of_to_end [OF p4 g(1)] show ?thesis by (simp add: perm_of_def)
    qed
  qed
qed

section \<open>The chain through the pages\<close>

text \<open>What \<open>mem_initialize\<close> and \<open>measure\<close> keep in memory: within every page each word of a line points to the
  same word of the next line.\<close>

definition page_chain :: "heap \<Rightarrow> nat \<Rightarrow> nat \<Rightarrow> nat \<Rightarrow> nat list \<Rightarrow> nat list \<Rightarrow> nat list \<Rightarrow> bool" where
  "page_chain h base psz line pages lines words \<longleftrightarrow>
     paged h base psz pages \<and> lined psz line lines \<and> lined line 8 words \<and> line = 8 * length words \<and> line dvd psz \<and>
     (\<forall>q \<in> set pages. \<forall>l. Suc l < length lines \<longrightarrow> (\<forall>k < length words.
        get_ptr h (base + q + lines ! l + 8 * k) = Inr (base + q + lines ! Suc l + 8 * k)))"

lemma page_chainD:
  assumes "page_chain h base psz line pages lines words"
  shows "paged h base psz pages" "lined psz line lines" "lined line 8 words" "line dvd psz" "line = 8 * length words"
    "q \<in> set pages \<Longrightarrow> Suc l < length lines \<Longrightarrow> k < length words \<Longrightarrow>
       get_ptr h (base + q + lines ! l + 8 * k) = Inr (base + q + lines ! Suc l + 8 * k)"
  using assms unfolding page_chain_def by blast+

lemma words_cover:
  assumes "lined line 8 words" "line = 8 * length words" "k < length words"
  shows "\<exists>j < length words. words ! j = 8 * k"
proof -
  have "set words \<subseteq> (\<lambda>k. 8 * k) ` {..<length words}"
  proof
    fix x assume "x \<in> set words"
    then have "8 dvd x" "x < 8 * length words" using assms(1,2) by (auto simp: lined_def)
    then show "x \<in> (\<lambda>k. 8 * k) ` {..<length words}" by (auto elim!: dvdE)
  qed
  moreover have "card (set words) = length words" using assms(1) by (simp add: lined_def distinct_card)
  moreover have "card ((\<lambda>k. 8 * k) ` {..<length words} :: nat set) = length words" by (simp add: card_image inj_on_def)
  ultimately have "set words = (\<lambda>k. 8 * k) ` {..<length words}" by (intro card_subset_eq) auto
  then have "8 * k \<in> set words" using assms(3) by auto
  then show ?thesis by (auto simp: in_set_conv_nth)
qed

lemma chain_addr_inj:
  assumes "page_chain h base psz line pages lines words"
    and "i < length pages" "i' < length pages" "l < length lines" "l' < length lines" "j < length words" "j' < length words"
    and "base + pages ! i + lines ! l + words ! j = base + pages ! i' + lines ! l' + words ! j'"
  shows "i = i' \<and> l = l' \<and> j = j'"
proof -
  note c = page_chainD [OF assms(1)]
  note W = word_in_page [OF c(2-4) assms(4,6)] word_in_page [OF c(2-4) assms(5,7)]
  from place_inj [OF c(1) assms(2,3) W(1,6)] assms(8) have
    p: "i = i'" "lines ! l + words ! j = lines ! l' + words ! j'" by (auto simp: add.assoc)
  then have "words ! j = words ! j'" using W(4,9) by metis
  then show ?thesis using p c(2,3) assms(4-7) by (auto simp: lined_def nth_eq_iff_index_eq)
qed

lemma chain_addr_valid:
  assumes "page_chain h base psz line pages lines words" "i < length pages" "l < length lines" "j < length words"
  shows "8 dvd base + pages ! i + lines ! l + words ! j" "in_block (h_blocks h) (base + pages ! i + lines ! l + words ! j)"
proof -
  note c = page_chainD [OF assms(1)]
  from place_valid [OF c(1) assms(2)] word_in_page [OF c(2-4) assms(3,4)]
  show "8 dvd base + pages ! i + lines ! l + words ! j" "in_block (h_blocks h) (base + pages ! i + lines ! l + words ! j)"
    by (auto simp: add.assoc)
qed

text \<open>The stores of \<open>measure\<close>, one for each page used and each word.\<close>

definition measure_store :: "nat \<Rightarrow> nat list \<Rightarrow> nat list \<Rightarrow> nat list \<Rightarrow> nat \<Rightarrow> nat \<Rightarrow> nat \<times> nat \<Rightarrow> nat \<times> nat" where
  "measure_store p pages lines words np nl ij =
     (case ij of (i, j) \<Rightarrow>
       (p + pages ! i + lines ! (if Suc i = np then nl - 1 else length lines - 1) + words ! j,
        if Suc i = np then p + pages ! 0 + lines ! 0 + words ! (Suc j mod length words) else p + pages ! Suc i + lines ! 0 + words ! j))"

lemma measure_links_eq:
  assumes "0 < np"
  shows "measure_links p pages lines words np nl = map (measure_store p pages lines words np nl) (List.product [0..<np] [0..<length words])"
proof -
  have "[0..<np] = [0..<np - 1] @ [np - 1]" using assms by (cases np) auto
  then show ?thesis using assms
    by (auto simp: measure_links_def measure_store_def product_concat_map map_concat comp_def intro!: arg_cong [where f = concat])
qed

lemma measure_store_distinct:
  assumes "page_chain h base psz line pages lines words" "np \<le> length pages" "0 < nl" "nl \<le> length lines"
  shows "distinct (map fst (map (measure_store base pages lines words np nl) (List.product [0..<np] [0..<length words])))"
proof -
  let ?last = "\<lambda>i. if Suc i = np then nl - 1 else length lines - 1"
  have last: "?last i < length lines" for i using assms(3,4) by auto
  have "inj_on (fst \<circ> measure_store base pages lines words np nl) (set (List.product [0..<np] [0..<length words]))"
  proof (rule inj_onI)
    fix x y assume xy: "x \<in> set (List.product [0..<np] [0..<length words])" "y \<in> set (List.product [0..<np] [0..<length words])"
      "(fst \<circ> measure_store base pages lines words np nl) x = (fst \<circ> measure_store base pages lines words np nl) y"
    obtain i j i' j' where ij: "x = (i, j)" "y = (i', j')" by (cases x, cases y)
    have b: "i < length pages" "i' < length pages" "j < length words" "j' < length words" using xy(1,2) ij assms(2) by auto
    have "base + pages ! i + lines ! ?last i + words ! j = base + pages ! i' + lines ! ?last i' + words ! j'"
      using xy(3) unfolding ij comp_apply measure_store_def prod.case fst_conv .
    from chain_addr_inj [OF assms(1) b(1,2) last last b(3,4) this] ij show "x = y" by simp
  qed
  then show ?thesis by (simp add: distinct_map distinct_product)
qed

lemma in_map_product_iff: "x \<in> set (map f (List.product [0..<a] [0..<b])) \<longleftrightarrow> (\<exists>i < a. \<exists>j < b. x = f (i, j))"
  unfolding set_map set_product image_iff by force

text \<open>The in-page links of the pages used, as pairs.\<close>

definition inner_links :: "nat \<Rightarrow> nat list \<Rightarrow> nat list \<Rightarrow> nat \<Rightarrow> nat \<Rightarrow> nat \<Rightarrow> writes" where
  "inner_links p pages lines nw np J =
     concat (map (\<lambda>i. concat (map (\<lambda>j. map (\<lambda>k. (p + pages ! i + lines ! j + 8 * k, p + pages ! i + lines ! Suc j + 8 * k)) [0..<nw])
       [0..<if Suc i = np then J else length lines - 1])) [0..<np])"

lemma in_concat_upt_iff: "x \<in> set (concat (map f [0..<n])) \<longleftrightarrow> (\<exists>i < n. x \<in> set (f i))"
  by auto

lemma in_map_upt_iff: "x \<in> set (map f [0..<n]) \<longleftrightarrow> (\<exists>i < n. x = f i)"
  by auto

lemma inner_links_mem:
  "x \<in> set (inner_links p pages lines nw np J) \<longleftrightarrow> (\<exists>i < np. \<exists>j < (if Suc i = np then J else length lines - 1). \<exists>k < nw.
     x = (p + pages ! i + lines ! j + 8 * k, p + pages ! i + lines ! Suc j + 8 * k))"
  by (simp only: inner_links_def in_concat_upt_iff in_map_upt_iff)

lemma measure_links_mem:
  "0 < np \<Longrightarrow> x \<in> set (measure_links base pages lines words np nl) \<longleftrightarrow>
     (\<exists>i < np. \<exists>j < length words. x = measure_store base pages lines words np nl (i, j))"
  by (simp only: measure_links_eq in_map_product_iff)

text \<open>After the stores of \<open>measure\<close> both the stores and the in-page links of the pages used are in memory.\<close>

lemma measure_links_put:
  assumes C: "page_chain h base psz line pages lines words" and "0 < np" "np \<le> length pages" "0 < nl" "nl \<le> length lines"
  obtains h1 where "put_all (measure_links base pages lines words np nl) h = Inr h1"
    "\<And>a v. (a, v) \<in> set (inner_links base pages lines (length words) np (nl - 1) @ measure_links base pages lines words np nl) \<Longrightarrow> get_ptr h1 a = Inr v"
    "h_blocks h1 = h_blocks h" "h_rerun h1 = h_rerun h" "h_saved h1 = h_saved h"
    "\<And>b. 8 dvd b \<Longrightarrow> b \<notin> fst ` set (measure_links base pages lines words np nl) \<Longrightarrow> get_ptr h1 b = get_ptr h b"
proof -
  note c = page_chainD [OF C]
  let ?ws = "measure_links base pages lines words np nl" and ?last = "\<lambda>i. if Suc i = np then nl - 1 else length lines - 1"
  have last: "?last i < length lines" for i using assms(4,5) by auto
  note mem = measure_links_mem [OF assms(2)]
  have d: "distinct (map fst ?ws)" unfolding measure_links_eq [OF assms(2)] by (rule measure_store_distinct [OF C assms(3-5)])
  have v: "\<forall>(a, v) \<in> set ?ws. 8 dvd a \<and> in_block (h_blocks h) a"
    using chain_addr_valid [OF C _ last] assms(3) by (fastforce simp: mem measure_store_def)
  from put_all_ok [OF d v] obtain h1 where h1: "put_all ?ws h = Inr h1" "\<And>a v. (a, v) \<in> set ?ws \<Longrightarrow> get_ptr h1 a = Inr v"
    "h_blocks h1 = h_blocks h" "h_rerun h1 = h_rerun h" "h_saved h1 = h_saved h"
    "\<And>b. 8 dvd b \<Longrightarrow> b \<notin> fst ` set ?ws \<Longrightarrow> get_ptr h1 b = get_ptr h b" by metis
  have "get_ptr h1 a = Inr v" if "(a, v) \<in> set (inner_links base pages lines (length words) np (nl - 1))" for a v
  proof -
    from that obtain i j k where ijk: "i < np" "j < ?last i" "k < length words"
      "a = base + pages ! i + lines ! j + 8 * k" "v = base + pages ! i + lines ! Suc j + 8 * k"
      unfolding inner_links_mem by blast
    from words_cover [OF c(3,5) ijk(3)] obtain w where w: "w < length words" "words ! w = 8 * k" by blast
    have j: "j < length lines" "Suc j < length lines" using ijk(2) last [of i] by linarith+
    have i: "i < length pages" using ijk(1) assms(3) by simp
    have "a \<notin> fst ` set ?ws"
    proof
      assume "a \<in> fst ` set ?ws"
      then obtain i' j' where ij': "i' < np" "j' < length words" "a = base + pages ! i' + lines ! ?last i' + words ! j'"
        by (auto simp: mem measure_store_def)
      have e: "base + pages ! i + lines ! j + words ! w = base + pages ! i' + lines ! ?last i' + words ! j'"
        using ijk(4) w(2) ij'(3) by simp
      have "i' < length pages" using ij'(1) assms(3) by simp
      from chain_addr_inj [OF C i this j(1) last w(1) ij'(2) e] ijk(2) show False by auto
    qed
    moreover have "8 dvd a" using chain_addr_valid(1) [OF C i j(1) w(1)] ijk(4) w(2) by simp
    ultimately show ?thesis using h1(6) c(6) [of "pages ! i" j k] i j ijk by simp
  qed
  with h1 show ?thesis by (intro that [of h1]) auto
qed

text \<open>They link all lines of the pages used, and the stores close the chain.\<close>

lemma measure_pages_linked:
  assumes "0 < np" "np \<le> length pages"
  shows "pages_linked base lines words (take np pages) (nl - 1)
    (inner_links base pages lines (length words) np (nl - 1) @ measure_links base pages lines words np nl)"
proof -
  let ?pp = "take np pages" and ?J = "nl - 1" and ?ws = "measure_links base pages lines words np nl"
  let ?links = "inner_links base pages lines (length words) np ?J @ ?ws"
  have pp: "length ?pp = np" "\<And>i. i < np \<Longrightarrow> ?pp ! i = pages ! i" using assms by auto
  show ?thesis
    unfolding pages_linked_def pp(1)
  proof (intro conjI allI impI)
    fix i j k assume ijk: "i < np" "j < (if Suc i = np then ?J else length lines - 1)" "k < length words"
    then have "(base + pages ! i + lines ! j + 8 * k, base + pages ! i + lines ! Suc j + 8 * k) \<in> set (inner_links base pages lines (length words) np ?J)"
      unfolding inner_links_mem by blast
    then show "(base + ?pp ! i + lines ! j + 8 * k, base + ?pp ! i + lines ! Suc j + 8 * k) \<in> set ?links"
      unfolding pp(2) [OF ijk(1)] by simp
  next
    fix i k assume ik: "Suc i < np" "k < length words"
    then have i: "i < np" by simp
    have "measure_store base pages lines words np nl (i, k) \<in> set ?ws" using ik i unfolding measure_links_mem [OF assms(1)] by blast
    then have "(base + pages ! i + lines ! (length lines - 1) + words ! k, base + pages ! Suc i + lines ! 0 + words ! k) \<in> set ?ws"
      using ik by (simp add: measure_store_def)
    then show "(base + ?pp ! i + lines ! (length lines - 1) + words ! k, base + ?pp ! Suc i + lines ! 0 + words ! k) \<in> set ?links"
      unfolding pp(2) [OF i] pp(2) [OF ik(1)] by simp
  qed
qed

lemma measure_close:
  assumes "0 < np" "x \<in> set (mem_close (base + pages ! (np - 1) + lines ! (nl - 1)) (base + pages ! 0 + lines ! 0) words)"
  shows "x \<in> set (measure_links base pages lines words np nl)"
proof -
  from assms(2) obtain k where k: "k < length words" "x = (base + pages ! (np - 1) + lines ! (nl - 1) + words ! k,
      base + pages ! 0 + lines ! 0 + words ! (if k = length words - 1 then 0 else k + 1))"
    unfolding mem_close_def in_map_upt_iff by blast
  have n: "np - 1 < np" "Suc (np - 1) = np" using assms(1) by auto
  have "(if k = length words - 1 then 0 else k + 1) = Suc k mod length words" using k(1) by (auto simp: mod_Suc)
  then have "x = measure_store base pages lines words np nl (np - 1, k)" using k(2) n(2) by (simp add: measure_store_def)
  then show ?thesis using k(1) n(1) unfolding measure_links_mem [OF assms(1)] by blast
qed

text \<open>So memory holds a ring through the lines of the first \<open>np\<close> pages, of the last one only through the first
  \<open>nl\<close> lines.\<close>

lemma measure_links_ring:
  assumes C: "page_chain h base psz line pages lines words" and "0 < np" "np \<le> length pages" "0 < nl" "nl \<le> length lines"
    and M: "M = (np - 1) * length lines + nl"
  obtains h1 where "put_all (measure_links base pages lines words np nl) h = Inr h1"
    "ring h1 (map (word_at base (take np pages) lines words M) [0..<length words * M])"
    "h_blocks h1 = h_blocks h" "h_rerun h1 = h_rerun h" "h_saved h1 = h_saved h"
    "\<And>b. 8 dvd b \<Longrightarrow> b \<notin> fst ` set (measure_links base pages lines words np nl) \<Longrightarrow> get_ptr h1 b = get_ptr h b"
proof -
  note c = page_chainD [OF C]
  let ?pp = "take np pages" and ?ws = "measure_links base pages lines words np nl"
  let ?links = "inner_links base pages lines (length words) np (nl - 1) @ ?ws"
  from measure_links_put [OF C assms(2-5)] obtain h1 where h1: "put_all ?ws h = Inr h1"
    "\<And>a v. (a, v) \<in> set ?links \<Longrightarrow> get_ptr h1 a = Inr v"
    "h_blocks h1 = h_blocks h" "h_rerun h1 = h_rerun h" "h_saved h1 = h_saved h"
    "\<And>b. 8 dvd b \<Longrightarrow> b \<notin> fst ` set ?ws \<Longrightarrow> get_ptr h1 b = get_ptr h b" by metis
  have pp: "length ?pp = np" "?pp \<noteq> []" "?pp ! (np - 1) = pages ! (np - 1)" "?pp ! 0 = pages ! 0" using assms(2,3) by auto
  have M0: "0 < M" "M \<le> length ?pp * length lines"
  proof -
    have "(np - 1) * length lines + length lines = np * length lines" using assms(2) by (cases np) auto
    then show "0 < M" "M \<le> length ?pp * length lines" using M assms(4,5) unfolding pp(1) by linarith+
  qed
  have "words \<noteq> []" using c(3) by (simp add: lined_def)
  have "ring h1 (map (word_at base ?pp lines words M) [0..<length words * M])"
  proof (rule ringI)
    show "0 < length words * M" using M0(1) \<open>words \<noteq> []\<close> by simp
    show "inj_on (word_at base ?pp lines words M) {..<length words * M}"
      by (rule word_at_inj [OF paged_take [OF c(1)] c(2,3,4) M0])
    fix t assume t: "t < length words * M"
    have "nl - 1 < length lines" "M = (length ?pp - 1) * length lines + (nl - 1) + 1" using assms(4,5) M unfolding pp(1) by linarith+
    from mem_ring_link [OF measure_pages_linked [OF assms(2,3)] c(2,3,5,4) pp(2) this t]
    have "(word_at base ?pp lines words M t, word_at base ?pp lines words M (Suc t mod (length words * M)))
       \<in> set (?links @ mem_close (base + pages ! (np - 1) + lines ! (nl - 1)) (base + pages ! 0 + lines ! 0) words)"
      unfolding pp(1,3,4) .
    with measure_close [OF assms(2)] h1(2)
    show "get_ptr h1 (word_at base ?pp lines words M t) = Inr (word_at base ?pp lines words M (Suc t mod (length words * M)))"
      by (auto simp: Un_iff)
  qed
  with h1 that show ?thesis by blast
qed

text \<open>The stores that undo the last links of a page used in part restore the in-page links.\<close>

lemma measure_fixup_chain:
  assumes C: "page_chain h base psz line pages lines words" and "0 < np" "np \<le> length pages" "0 < nl" "nl \<le> length lines"
    and h1: "h_blocks h1 = h_blocks h"
    "\<And>b. 8 dvd b \<Longrightarrow> b \<notin> fst ` set (measure_links base pages lines words np nl) \<Longrightarrow> get_ptr h1 b = get_ptr h b"
  obtains h2 where "put_all (measure_fixup base pages lines words np nl) h1 = Inr h2" "page_chain h2 base psz line pages lines words"
    "h_blocks h2 = h_blocks h"
proof -
  note c = page_chainD [OF C]
  let ?fx = "measure_fixup base pages lines words np nl" and ?last = "\<lambda>i. if Suc i = np then nl - 1 else length lines - 1"
  have n: "np - 1 < length pages" "Suc (np - 1) = np" using assms(2,3) by linarith+
  have nl: "nl - 1 < length lines" using assms(4,5) by linarith
  have fx: "x \<in> set ?fx \<longleftrightarrow> nl < length lines \<and> (\<exists>j < length words. x = (base + pages ! (np - 1) + lines ! (nl - 1) + words ! j, base + pages ! (np - 1) + lines ! nl + words ! j))" for x
    unfolding measure_fixup_def by auto
  have d: "distinct (map fst ?fx)"
  proof (cases "nl < length lines")
    case True
    have "inj_on (\<lambda>j. base + pages ! (np - 1) + lines ! (nl - 1) + words ! j) (set [0..<length words])"
      using chain_addr_inj [OF C n(1) n(1) nl nl] by (intro inj_onI) auto
    then show ?thesis using True by (simp add: measure_fixup_def comp_def distinct_map)
  qed (simp add: measure_fixup_def)
  have v: "\<forall>(a, v) \<in> set ?fx. 8 dvd a \<and> in_block (h_blocks h1) a"
    using chain_addr_valid [OF C n(1) nl] h1(1) by (auto simp: fx)
  from put_all_ok [OF d v] obtain h2 where h2: "put_all ?fx h1 = Inr h2" "\<And>a v. (a, v) \<in> set ?fx \<Longrightarrow> get_ptr h2 a = Inr v"
    "h_blocks h2 = h_blocks h1" "\<And>b. 8 dvd b \<Longrightarrow> b \<notin> fst ` set ?fx \<Longrightarrow> get_ptr h2 b = get_ptr h1 b" by metis
  have inner: "get_ptr h2 (base + q + lines ! l + 8 * k) = Inr (base + q + lines ! Suc l + 8 * k)"
    if q: "q \<in> set pages" and l: "Suc l < length lines" and k: "k < length words" for q l k
  proof -
    from q obtain i where i: "i < length pages" "q = pages ! i" by (auto simp: in_set_conv_nth)
    from words_cover [OF c(3,5) k] obtain w where w: "w < length words" "words ! w = 8 * k" by blast
    have l': "l < length lines" using l by simp
    have a8: "8 dvd base + pages ! i + lines ! l + words ! w" by (rule chain_addr_valid(1) [OF C i(1) l' w(1)])
    show ?thesis
    proof (cases "i = np - 1 \<and> l = nl - 1")
      case True
      then have "Suc l = nl" using assms(4) by simp
      then have "(base + pages ! i + lines ! l + words ! w, base + pages ! i + lines ! Suc l + words ! w) \<in> set ?fx"
        using True w(1) l unfolding fx by auto
      from h2(2) [OF this] show ?thesis using i(2) w(2) by simp
    next
      case no: False
      have "base + pages ! i + lines ! l + words ! w \<notin> fst ` set ?fx"
      proof
        assume "base + pages ! i + lines ! l + words ! w \<in> fst ` set ?fx"
        then obtain j where j: "j < length words" "base + pages ! i + lines ! l + words ! w = base + pages ! (np - 1) + lines ! (nl - 1) + words ! j"
          by (auto simp: fx)
        from chain_addr_inj [OF C i(1) n(1) l' nl w(1) j] no show False by blast
      qed
      moreover have "base + pages ! i + lines ! l + words ! w \<notin> fst ` set (measure_links base pages lines words np nl)"
      proof
        assume "base + pages ! i + lines ! l + words ! w \<in> fst ` set (measure_links base pages lines words np nl)"
        then obtain i' j where j: "i' < np" "j < length words" "base + pages ! i + lines ! l + words ! w = base + pages ! i' + lines ! ?last i' + words ! j"
          unfolding measure_links_eq [OF assms(2)] by (auto simp: measure_store_def)
        have "i' < length pages" "?last i' < length lines" using j(1) assms(3) nl by auto
        from chain_addr_inj [OF C i(1) this(1) l' this(2) w(1) j(2,3)] no n(2) l show False by (auto split: if_splits)
      qed
      ultimately have "get_ptr h2 (base + pages ! i + lines ! l + words ! w) = get_ptr h (base + pages ! i + lines ! l + words ! w)"
        using h2(4) [OF a8] h1(2) [OF a8] by simp
      then show ?thesis using c(6) [OF q l k] i(2) w(2) by simp
    qed
  qed
  have "paged h2 base psz pages" using c(1) h1(1) h2(3) by (simp add: paged_def)
  then have "page_chain h2 base psz line pages lines words"
    unfolding page_chain_def using c(2-5) inner by blast
  then show ?thesis using that h2(1,3) h1(1) by simp
qed

lemma measure_cache_ok:
  assumes "page_chain (cw_heap w) (ms_base (cw_st w)) (ce_psz E) (ms_line (cw_st w)) pages lines words"
    and "ms_pages (cw_st w) = Some pages" "ms_lines (cw_st w) = Some lines" "ms_words (cw_st w) = Some words"
    and "ms_nlines (cw_st w) = length lines" "ce_psz E = length lines * ms_line (cw_st w)" "ms_p (cw_st w) \<noteq> []"
    and "np = npages_of (ce_psz E) sz" "0 < sz" "np \<le> length pages"
    and "nl = (if sz mod ce_psz E \<noteq> 0 then sz mod ce_psz E div ms_line (cw_st w) else length lines)" "0 < nl"
    and "ce_malloc E (cw_calls w)" "measure_time (ce_rnd E) (ce_samples E (cw_calls w)) (cw_timing w) = Inr (m, v, s)"
  shows "\<exists>h1 h2 q. put_all (measure_links (ms_base (cw_st w)) pages lines words np nl) (cw_heap w) = Inr h1 \<and>
     ring h1 (map (word_at (ms_base (cw_st w)) (take np pages) lines words ((np - 1) * length lines + nl))
       [0..<length words * ((np - 1) * length lines + nl)]) \<and>
     measure_cache E sz w = Inr (m, v, w\<lparr>cw_st := (cw_st w)\<lparr>ms_p := (ms_p (cw_st w))[0 := ms_base (cw_st w) + pages ! 0 + lines ! 0 + words ! 0]\<rparr>,
       cw_heap := h2, cw_save := q, cw_timing := s, cw_calls := Suc (cw_calls w)\<rparr>) \<and>
     page_chain h2 (ms_base (cw_st w)) (ce_psz E) (ms_line (cw_st w)) pages lines words"
proof -
  let ?st = "cw_st w"
  define M where "M = (np - 1) * length lines + nl"
  note c = page_chainD [OF assms(1)]
  have line: "0 < ms_line ?st" using c(2) by (simp add: lined_def)
  have psz: "0 < ce_psz E" using c(1) by (simp add: paged_def)
  have np: "0 < np" using div_up_pos [OF assms(9) psz] assms(8) by (simp add: npages_of_def)
  have "sz mod ce_psz E div ms_line ?st \<le> length lines"
    using assms(6) line psz by (metis div_le_mono less_imp_le_nat mod_less_divisor nonzero_mult_div_cancel_right nat_less_le)
  then have nl: "nl \<le> length lines" using assms(11) by simp
  have nl_eq: "(if sz mod ce_psz E \<noteq> 0 then sz mod ce_psz E div ms_line ?st else ms_nlines ?st) = nl" using assms(5,11) by simp
  obtain h1 where h1: "put_all (measure_links (ms_base ?st) pages lines words np nl) (cw_heap w) = Inr h1"
    "ring h1 (map (word_at (ms_base ?st) (take np pages) lines words M) [0..<length words * M])"
    "h_blocks h1 = h_blocks (cw_heap w)"
    "\<And>b. 8 dvd b \<Longrightarrow> b \<notin> fst ` set (measure_links (ms_base ?st) pages lines words np nl) \<Longrightarrow> get_ptr h1 b = get_ptr (cw_heap w) b"
    using measure_links_ring [OF assms(1) np assms(10,12) nl M_def] by metis
  obtain h2 where h2: "put_all (measure_fixup (ms_base ?st) pages lines words np nl) h1 = Inr h2"
    "page_chain h2 (ms_base ?st) (ce_psz E) (ms_line ?st) pages lines words"
    using measure_fixup_chain [OF assms(1) np assms(10,12) nl h1(3,4)] by metis
  let ?xs = "map (word_at (ms_base ?st) (take np pages) lines words M) [0..<length words * M]"
  have ne: "words \<noteq> []" "lines \<noteq> []" using c(2,3) by (auto simp: lined_def)
  have M0: "0 < length words * M" using assms(12) ne by (simp add: M_def)
  have p0: "ms_base ?st + pages ! 0 + lines ! 0 + words ! 0 = ?xs ! 0" using M0 np by (simp add: word_at_def line_at_def)
  have ch: "chase h1 n [?xs ! 0] = Inr [?xs ! (n mod length ?xs)]" for n
    using chase_ring [OF h1(2), of "[0]" n] M0 by simp
  let ?st' = "?st\<lparr>ms_p := (ms_p ?st)[0 := ms_base ?st + pages ! 0 + lines ! 0 + words ! 0]\<rparr>"
  have b: "cache_mem_benchmark k (w\<lparr>cw_st := ?st', cw_heap := h1, cw_save := None\<rparr>) =
      Inr (w\<lparr>cw_st := ?st', cw_heap := h1, cw_save := Some (?xs ! ((100 * k) mod length ?xs))\<rparr>)" for k
    using ch [of "100 * k"] assms(7) unfolding cache_mem_benchmark_def p0 by (simp add: Let_def)
  have "measure_cache E sz w = Inr (m, v, w\<lparr>cw_st := ?st', cw_heap := h2,
      cw_save := Some (?xs ! ((100 * ((sz div 8 + 100) div 100)) mod length ?xs)), cw_timing := s, cw_calls := Suc (cw_calls w)\<rparr>)"
    using assms(2-4,10,12-14) line psz np nl ne h1(1) h2(1)
    unfolding measure_cache_def Let_def assms(8) [symmetric] nl_eq by (simp add: b)
  then show ?thesis using h1(1,2) h2(2) unfolding M_def by (intro exI [of _ h1] exI [of _ h2] exI conjI)
qed

text \<open>C26: a call of \<open>measure\<close> for \<open>sz\<close> bytes: it links the first pages of the page list, in whatever order they
  are, to a ring through every word of every line of them (of the last page as many lines as the size
  asks for), follows that ring from its start without leaving it, and leaves the links within the
  pages as they were, ready for the next call.\<close>

theorem measure_cache_ring:
  assumes "page_chain (cw_heap w) (ms_base (cw_st w)) (ce_psz E) (ms_line (cw_st w)) pages lines words"
    and "ms_pages (cw_st w) = Some pages" "ms_lines (cw_st w) = Some lines" "ms_words (cw_st w) = Some words"
    and "ms_nlines (cw_st w) = length lines" "ce_psz E = length lines * ms_line (cw_st w)" "ms_p (cw_st w) \<noteq> []"
    and "np = npages_of (ce_psz E) sz" "0 < sz" "np \<le> length pages"
    and "nl = (if sz mod ce_psz E \<noteq> 0 then sz mod ce_psz E div ms_line (cw_st w) else length lines)" "0 < nl"
    and "ce_malloc E (cw_calls w)" "measure_time (ce_rnd E) (ce_samples E (cw_calls w)) (cw_timing w) = Inr (m, v, s)"
  shows "\<exists>h1 w'. put_all (measure_links (ms_base (cw_st w)) pages lines words np nl) (cw_heap w) = Inr h1 \<and>
     ring h1 (map (word_at (ms_base (cw_st w)) (take np pages) lines words ((np - 1) * length lines + nl))
       [0..<length words * ((np - 1) * length lines + nl)]) \<and>
     measure_cache E sz w = Inr (m, v, w') \<and>
     page_chain (cw_heap w') (ms_base (cw_st w')) (ce_psz E) (ms_line (cw_st w')) pages lines words"
proof -
  from measure_cache_ok [OF assms] show ?thesis by force
qed

text \<open>The chain does not depend on the order of the page list.\<close>

lemma page_chain_perm:
  assumes "mset ps = mset ps'"
  shows "page_chain h base psz line ps lines words = page_chain h base psz line ps' lines words"
proof -
  have "set ps = set ps'" "distinct ps = distinct ps'" using assms mset_eq_setD mset_eq_imp_distinct_iff by blast+
  then show ?thesis by (simp only: page_chain_def paged_def)
qed

text \<open>A machine with four pages of two lines.\<close>

definition tiny_env :: cache_env where
  "tiny_env = \<lparr>ce_rnd = id, ce_psz = 16, ce_samples = (\<lambda>k. [\<lparr>v_u = 1, v_n = (if k = 1 then 10 else 1)\<rparr>]), ce_malloc = (\<lambda>_. True)\<rparr>"

definition tiny_world :: cache_world where
  "tiny_world = \<lparr>cw_st = \<lparr>ms_addr = 64, ms_base = 64, ms_p = [64], ms_initialized = True, ms_width = 1, ms_len = 64, ms_maxlen = 64,
       ms_line = 8, ms_pagesize = 16, ms_nlines = 2, ms_npages = 4, ms_nwords = 1, ms_pages = Some [0, 16, 32, 48],
       ms_lines = Some [0, 8], ms_words = Some [0]\<rparr>,
     cw_heap = \<lparr>h_cells = (\<lambda>a. if a mod 16 = 0 then Some (a + 8) else Some 0), h_blocks = [(64, 64)], h_rerun = False, h_saved = (\<lambda>_. (0, []))\<rparr>,
     cw_save = None, cw_avail = 0, cw_timing = blank_timing, cw_calls = 0\<rparr>"


definition tiny_inv :: "nat list \<Rightarrow> nat \<Rightarrow> cache_world \<Rightarrow> bool" where
  "tiny_inv ps k w \<longleftrightarrow> mset ps = {#0, 16, 32, 48#} \<and> ms_pages (cw_st w) = Some ps \<and> ms_lines (cw_st w) = Some [0, 8] \<and> ms_words (cw_st w) = Some [0] \<and>
     ms_nlines (cw_st w) = 2 \<and> ms_base (cw_st w) = 64 \<and> ms_line (cw_st w) = 8 \<and> ms_maxlen (cw_st w) = 64 \<and> ms_p (cw_st w) \<noteq> [] \<and>
     page_chain (cw_heap w) 64 16 8 ps [0, 8] [0] \<and> cw_calls w = k \<and> cw_avail w = 0"

lemma tiny_world_inv: "tiny_inv [0, 16, 32, 48] 0 tiny_world"
proof -
  have "in_block [(64, 64)] a" if "64 + q \<le> a" "a + 8 \<le> 64 + q + 16" "q \<in> {0, 16, 32, 48}" for a q :: nat
    using that by (auto simp: in_block_def)
  then show ?thesis
    by (auto simp: tiny_inv_def tiny_world_def page_chain_def paged_def lined_def get_ptr_def in_block_def less_Suc_eq)
qed

lemma measure_time_single:
  assumes "n \<noteq> 0"
  shows "\<exists>v s'. measure_time id [\<lparr>v_u = 1, v_n = n\<rparr>] s = Inr (10 / of_nat (unat n), v, s')"
proof -
  let ?r = "insertinit \<lparr>r_N = 0, r_v = replicate (room_for (int (length [\<lparr>v_u = 1, v_n = n\<rparr>]))) \<lparr>v_u = 0, v_n = 0\<rparr>\<rparr>"
  have r: "run_all (insert_value id) [\<lparr>v_u = 1, v_n = n\<rparr>] ?r =
      Inr \<lparr>r_N = 1, r_v = \<lparr>v_u = 1, v_n = n\<rparr> # replicate 10 \<lparr>v_u = 0, v_n = 0\<rparr>\<rparr>"
    by (simp add: insert_value_def insertsort_def insert_at.simps insertinit_def store_value_def room_for_def TRIES_def numeral_eq_Suc)
  let ?q = "\<lparr>r_N = 1, r_v = \<lparr>v_u = 1, v_n = n\<rparr> # replicate 10 \<lparr>v_u = 0, v_n = 0\<rparr>\<rparr>"
  have s: "set_results ?q s = settime 1 (save_n n (s\<lparr>results := ?q\<rparr>))" by (simp add: set_results_def save_median_def Let_def)
  have g: "get_n (settime u (save_n n s')) = n" for u s' by (simp add: get_n_def settime_def save_n_def)
  have p: "per_access id (settime 1 (save_n n s')) = Inr (10 / of_nat (unat n))" for s'
    using assms by (simp add: per_access_def gettime_settime g dbl_def)
  have m: "save_minimum (settime 1 (save_n n (s\<lparr>results := ?q\<rparr>))) = settime 1 (save_n n (settime 1 (save_n n (s\<lparr>results := ?q\<rparr>))))"
    by (simp add: save_minimum_def Let_def settime_def save_n_def)
  show ?thesis unfolding measure_time_def Let_def r and_then.simps s p m by auto
qed

lemma tiny_measure:
  assumes "tiny_inv ps k w" "sz = 16 \<or> sz = 32"
  obtains v w' where "measure_cache tiny_env sz w = Inr (if k = 1 then 1 else 10, v, w')" "tiny_inv ps (Suc k) w'"
proof -
  have E: "ce_psz tiny_env = 16" "ce_malloc tiny_env j" "ce_rnd tiny_env = id"
    "ce_samples tiny_env j = [\<lparr>v_u = 1, v_n = (if j = 1 then 10 else 1)\<rparr>]" for j by (simp_all add: tiny_env_def)
  have len: "length ps = 4"
  proof -
    have "size (mset ps) = 4" using assms(1) by (simp add: tiny_inv_def)
    then show ?thesis by simp
  qed
  let ?n = "if k = 1 then 10 else 1 :: u64"
  have "?n \<noteq> 0" by simp
  from measure_time_single [OF this, of "cw_timing w"] obtain v s where
    t: "measure_time id [\<lparr>v_u = 1, v_n = ?n\<rparr>] (cw_timing w) = Inr (10 / of_nat (unat ?n), v, s)" by blast
  have "10 / of_nat (unat ?n) = (if k = 1 then 1 else 10 :: rat)" by simp
  with t E have t': "measure_time (ce_rnd tiny_env) (ce_samples tiny_env (cw_calls w)) (cw_timing w) = Inr (if k = 1 then 1 else 10, v, s)"
    using assms(1) by (simp add: tiny_inv_def)
  have i: "page_chain (cw_heap w) (ms_base (cw_st w)) (ce_psz tiny_env) (ms_line (cw_st w)) ps [0, 8] [0]"
    "ms_pages (cw_st w) = Some ps" "ms_lines (cw_st w) = Some [0, 8]" "ms_words (cw_st w) = Some [0]" "ms_nlines (cw_st w) = length [0 :: nat, 8]"
    "ce_psz tiny_env = length [0 :: nat, 8] * ms_line (cw_st w)" "ms_p (cw_st w) \<noteq> []"
    using assms(1) E by (simp_all add: tiny_inv_def)
  have n: "npages_of (ce_psz tiny_env) sz = npages_of (ce_psz tiny_env) sz" "0 < sz" "npages_of (ce_psz tiny_env) sz \<le> length ps"
    using assms(2) len E by (auto simp: npages_of_def)
  have l: "2 = (if sz mod ce_psz tiny_env \<noteq> 0 then sz mod ce_psz tiny_env div ms_line (cw_st w) else length [0 :: nat, 8])" using assms(2) E by auto
  from measure_cache_ok [OF i n l _ E(2) t'] obtain h2 q where
    m: "measure_cache tiny_env sz w = Inr (if k = 1 then 1 else 10, v,
       w\<lparr>cw_st := (cw_st w)\<lparr>ms_p := (ms_p (cw_st w))[0 := ms_base (cw_st w) + ps ! 0 + [0, 8] ! 0 + [0] ! 0]\<rparr>,
         cw_heap := h2, cw_save := q, cw_timing := s, cw_calls := Suc (cw_calls w)\<rparr>)"
    "page_chain h2 (ms_base (cw_st w)) (ce_psz tiny_env) (ms_line (cw_st w)) ps [0, 8] [0]" by auto
  show ?thesis by (rule that [OF m(1)]) (use assms(1) m(2) E in \<open>simp add: tiny_inv_def\<close>)
qed

lemma tiny_swap:
  assumes "tiny_inv ps k w" "mset (f ps) = mset ps"
  shows "tiny_inv (f ps) k (with_pages f w)"
  using assms page_chain_perm [OF assms(2)] by (simp add: tiny_inv_def with_pages_def)

lemma tiny_pages: "tiny_inv ps k w \<Longrightarrow> ms_pages (cw_st w) = Some ps \<and> cw_avail w = 0"
  by (simp add: tiny_inv_def)

lemma pagesort_1: "pagesort_world 1 from off lat w = (lat, w) \<or> ms_pages (cw_st w) = None"
  by (auto simp: pagesort_world_def pagesort_def with_pages_def)

text \<open>Such a copy loses a page: with four pages, an exchange that is taken back leaves the first page twice
  in the list and the last one nowhere.\<close>

lemma fixup_chunk_loses_page:
  "\<exists>w'. fixup_chunk tiny_env 0 1 2 32 1 5 tiny_world = Inr (False, 1, w') \<and> ms_pages (cw_st w') = Some [0, 16, 32, 0]"
proof -
  have E: "ce_psz tiny_env = 16" "ce_malloc tiny_env j" "ce_rnd tiny_env = id" for j by (simp_all add: tiny_env_def)
  define w1 where "w1 = with_pages (swap_to_end 0 1 2) tiny_world"
  have i1: "tiny_inv [16, 0, 32, 48] 0 w1"
    using tiny_swap [OF tiny_world_inv, of "swap_to_end 0 1 2"] by (simp add: w1_def swap_to_end_def swap_at_def)
  from tiny_measure [OF i1, of 32] obtain v1 w2 where m1: "measure_cache tiny_env 32 w1 = Inr (10, v1, w2)" and i2: "tiny_inv [16, 0, 32, 48] 1 w2" by auto
  have i2': "tiny_inv [16, 0, 32, 48] 1 (with_pages (swap_at 1 1) w2)" using tiny_swap [OF i2, of "swap_at 1 1"] by (simp add: swap_at_def)
  define w3 where "w3 = with_pages (swap_at 1 1) w2"
  have a1: "\<not> 2 \<le> cw_avail w1" using tiny_pages [OF i1] by simp
  have k0: "keep_loop tiny_env 1 2 5 0 0 lat w3 = Inr (0, lat, w3)" for lat by (subst keep_loop.simps) simp
  have k: "keep_loop tiny_env 1 2 5 0 1 (replicate 20 0) w1 = Inr (0, (replicate 20 0)[0 := 10], w3)"
    using m1 k0 E by (subst keep_loop.simps) (simp add: w3_def)
  have s: "pagesort_world 1 1 0 lat w3 = (lat, w3)" for lat using pagesort_1 [of 1 0 lat w3] tiny_pages [OF i2'] by (auto simp: w3_def)
  have start: "fixup_start tiny_env 0 1 2 2 5 tiny_world = Inr (0, 5, (replicate 20 0)[0 := 10], w3)"
    unfolding fixup_start_def Let_def w1_def [symmetric] using a1 k s by simp
  have i4: "tiny_inv [16, 48, 32, 0] 1 (with_pages (swap_at 1 3) w3)" using tiny_swap [OF i2', of "swap_at 1 3"] by (simp add: swap_at_def w3_def)
  from tiny_measure [OF i4, of 32] obtain v4 w4 where m4: "measure_cache tiny_env 32 (with_pages (swap_at 1 3) w3) = Inr (1, v4, w4)"
    and i5: "tiny_inv [16, 48, 32, 0] 2 w4" by (auto simp: numeral_2_eq_2)
  define w5 where "w5 = with_pages (swap_at 1 3) (with_pages (swap_at 1 3) w4)"
  have i5': "tiny_inv [16, 48, 32, 0] 2 w5"
    using tiny_swap [OF tiny_swap [OF i5, of "swap_at 1 3"], of "swap_at 1 3"] by (simp add: swap_at_def w5_def)
  have s5: "pagesort_world 1 1 0 lat w5 = (lat, w5)" for lat using pagesort_1 [of 1 0 lat w5] tiny_pages [OF i5'] by auto
  have "replace_try tiny_env 1 2 2 32 5 0 (0, 0, (replicate 20 0)[0 := 10], w3) = Inr (1, 1, (replicate 20 0)[0 := 1], w5)"
    using m4 s5 E tiny_pages [OF i2'] by (simp add: replace_try_def Let_def w3_def w5_def)
  then have r: "replace_loop tiny_env 1 2 2 32 5 0 (0, 0, (replicate 20 0)[0 := 10], w3) = Inr (1, 1, w5)"
    by (subst replace_loop.simps, simp, subst replace_loop.simps, simp)
  have av: "w5\<lparr>cw_avail := 0\<rparr> = w5" using tiny_pages [OF i5'] by simp
  have e: "(if (2 :: nat) = 0 then 1 + cw_avail w5 else (1 + cw_avail w5) mod (2 - 1)) = 0" by simp
  from tiny_measure [OF i5', of 32] obtain v6 w6 where m6: "measure_cache tiny_env 32 w5 = Inr (10, v6, w6)" and i6: "tiny_inv [16, 48, 32, 0] 3 w6" by auto
  have "fixup_end tiny_env 0 1 2 2 32 [0, 16, 32, 48] 1 (1, 1, w5) = Inr (False, 1, with_pages (bcopy_ints 4 [0, 16, 32, 48]) w6)"
    unfolding fixup_end_def prod.case Let_def e av m6 and_then.simps E by simp
  moreover have "ms_pages (cw_st (with_pages (bcopy_ints 4 [0, 16, 32, 48]) w6)) = Some [0, 16, 32, 0]"
    using tiny_pages [OF i6] by (simp add: with_pages_def bcopy_ints_def)
  moreover have "has_pages 4 tiny_world" "the (ms_pages (cw_st tiny_world)) = [0, 16, 32, 48]" "ms_maxlen (cw_st tiny_world) = 64"
    using tiny_world_inv by (simp_all add: tiny_inv_def has_pages_def)
  ultimately show ?thesis using start r E by (simp add: fixup_chunk_def npages_of_def Let_def)
qed

theorem fixup_chunk_pages_witness:
  "\<exists>w' qs. fixup_chunk tiny_env 0 1 2 32 1 5 tiny_world = Inr (False, 1, w') \<and>
     mset qs = mset [0, 16, 32, 48] \<and> Some (bcopy_ints 4 [0, 16, 32, 48] qs) = Some [0, 16, 32, 0]"
proof -
  from fixup_chunk_loses_page obtain w' where
    w: "fixup_chunk tiny_env 0 1 2 32 1 5 tiny_world = Inr (False, 1, w')" "ms_pages (cw_st w') = Some [0, 16, 32, 0]" by blast
  have p: "ms_pages (cw_st tiny_world) = Some [0, 16, 32, 48]"
    "length [0 :: nat, 16, 32, 48] = npages_of (ce_psz tiny_env) (ms_maxlen (cw_st tiny_world))"
    by (simp_all add: tiny_world_def tiny_env_def npages_of_def)
  have "count (mset [0, 16, 32, 0]) 0 \<noteq> count (mset [0 :: nat, 16, 32, 48]) 0" by simp
  then have "mset [0, 16, 32, 0] \<noteq> mset [0 :: nat, 16, 32, 48]" by metis
  with fixup_chunk_pages [OF w(1) p] w show ?thesis by (auto simp: numeral_eq_Suc)
qed

theorem remove_chunk_measures_rest_witness:
  "\<exists>t w' ps var w1. remove_chunk tiny_env 0 1 2 32 tiny_world = Inr (t, w') \<and> ms_pages (cw_st w') = Some [0, 16, 32, 48] \<and>
     measure_cache tiny_env 16 (with_pages (\<lambda>_. ps) tiny_world) = Inr (t, var, w1) \<and> mset (take 1 ps) = {#16#}"
proof -
  have i: "tiny_inv [16, 0, 32, 48] 0 (with_pages (swap_ends 0 1 2) tiny_world)"
    using tiny_swap [OF tiny_world_inv, of "swap_ends 0 1 2"] by (simp add: swap_ends_def swap_at_def)
  obtain v w1 where m: "measure_cache tiny_env 16 (with_pages (swap_ends 0 1 2) tiny_world) = Inr (if 0 = (1 :: nat) then 1 else 10, v, w1)"
    by (rule tiny_measure [OF i, of 16]) auto
  moreover have "has_pages 2 tiny_world" by (simp add: has_pages_def tiny_world_def)
  ultimately have r: "remove_chunk tiny_env 0 1 2 32 tiny_world = Inr (10, with_pages (swap_ends 0 1 2) w1)"
    by (simp add: remove_chunk_def tiny_env_def)
  have p: "ms_pages (cw_st tiny_world) = Some [0, 16, 32, 48]" by (simp add: tiny_world_def)
  have "ce_psz tiny_env = 16" by (simp add: tiny_env_def)
  with remove_chunk_measures_rest [OF r p] r show ?thesis by fastforce
qed

theorem measure_cache_ring_witness:
  "\<exists>h1 w' m v. ring h1 (map (word_at 64 [0, 16] [0, 8] [0] 3) [0..<3]) \<and> measure_cache tiny_env 24 tiny_world = Inr (m, v, w')"
proof -
  from measure_time_single [of 1 blank_timing] obtain v s where
    t: "measure_time (ce_rnd tiny_env) (ce_samples tiny_env (cw_calls tiny_world)) (cw_timing tiny_world) = Inr (10 / of_nat (unat (1 :: u64)), v, s)"
    by (auto simp: tiny_env_def tiny_world_def)
  have "page_chain (cw_heap tiny_world) (ms_base (cw_st tiny_world)) (ce_psz tiny_env) (ms_line (cw_st tiny_world)) [0, 16, 32, 48] [0, 8] [0]"
    using tiny_world_inv by (simp add: tiny_inv_def tiny_env_def)
  from measure_cache_ring [OF this _ _ _ _ _ _ refl _ _ refl _ _ t, of 24] show ?thesis
    by (fastforce simp: tiny_world_def tiny_env_def npages_of_def numeral_3_eq_3)
qed

text \<open>Where the chunk overlaps the end of the list the exchange does not move it there: of the chunk 3, 4 only
  the page 3 is among the last two afterwards.\<close>

lemma swap_to_end_overlap: "drop 4 (swap_to_end 3 2 6 [0, 1, 2, 3, 4, 5]) = [5, 3]"
  by (simp add: swap_to_end_def swap_at_def upt_rec)

section \<open>The analysis ends\<close>

text \<open>A computation comes to an end.\<close>

definition ends :: "'a res option \<Rightarrow> bool" where
  "ends m \<longleftrightarrow> m \<noteq> None"

lemma ends_simps [simp]: "ends (Some x)" "\<not> ends None"
  by (simp_all add: ends_def)

lemma ends_bind [intro]: "ends m \<Longrightarrow> (\<And>x. ends (f x)) \<Longrightarrow> ends (bind_r m f)"
  by (auto simp: ends_def bind_r_def split: option.splits sum.splits)

lemma chunk_loop_ends:
  assumes "\<And>j sub b t w. sub \<le> S \<Longrightarrow> ends (rec j sub b t w)" "subchunk \<le> S"
  shows "ends (chunk_loop E rec stop npages len subchunk j nodiff modified b w)"
  using assms(2)
proof (induction "stop - j" arbitrary: j subchunk nodiff modified b w rule: less_induct)
  case less
  define sub where "sub = (if j + subchunk > stop then stop - j else subchunk)"
  have sub: "sub \<le> S" using less.prems by (auto simp: sub_def)
  have IH: "ends (chunk_loop E rec stop npages len sub (j + sub) nodiff' modified' b' w')" if "j < stop" "0 < subchunk" for nodiff' modified' b' w'
    by (rule less.hyps [OF _ sub]) (use that in \<open>auto simp: sub_def\<close>)
  show ?case
    by (subst chunk_loop.simps) (auto simp: Let_def sub_def [symmetric] intro!: IH assms(1) [OF sub] ends_bind)
qed

lemma test_chunk_ends:
  assumes "chunk < d" "chunk \<le> npages" "2 \<le> npages"
  shows "ends (test_chunk d E i chunk npages len b t w)"
  using assms(1,2)
proof (induction d arbitrary: i chunk b t w)
  case (Suc d)
  show ?case
  proof (cases "chunk \<le> 20 \<and> chunk < npages")
    case False
    then have "2 \<le> chunk" using Suc.prems assms(3) by linarith
    then have less: "(chunk + 19) div 20 < chunk" by linarith
    have "ends (test_chunk d E j sub npages len b t w)" if "sub \<le> (chunk + 19) div 20" for j sub b t w
      by (rule Suc.IH) (use that less Suc.prems in linarith)+
    then show ?thesis using False by (auto intro!: chunk_loop_ends [where S = "(chunk + 19) div 20"])
  qed simp
qed simp

lemma collect_sample_ends: "ends (collect_sample E p w)"
proof -
  have "ends (sample_passes k E n len b w)" if "1 < n" for k n len b w
  proof (induction k arbitrary: b w)
    case (Suc k)
    have "ends (test_chunk (Suc n) E 0 n n len b 0 w)" by (rule test_chunk_ends) (use that in simp_all)
    then show ?case using Suc by (auto simp del: test_chunk.simps)
  qed simp
  then show ?thesis by (auto simp: collect_sample_def Let_def intro!: ends_bind split: prod.splits)
qed

lemma search_ends: "ends (search E lo hi pw)"
proof (induction "hi - lo" arbitrary: lo hi pw rule: less_induct)
  case less
  obtain p0 w where pw: "pw = (p0, w)" by (cases pw)
  define mid where "mid = lo + (hi - lo) div 2"
  have IH: "ends (search E mid hi pw')" "ends (search E lo mid pw')" if "mid \<noteq> lo" "mid \<noteq> hi" for pw'
    by (rule less.hyps, use that in \<open>simp add: mid_def\<close>)+
  show ?case unfolding pw
    by (subst search.simps) (auto simp: Let_def mid_def [symmetric] intro!: IH collect_sample_ends ends_bind)
qed


section \<open>Samples and levels\<close>

text \<open>the loop of \<open>collect_data\<close> that drops big sizes without a latency never succeeds: it looks at samples
  that have not been measured yet, so once it is entered it runs down to the start of the array and
  reads before it (unless the program stops earlier).\<close>

theorem drop_samples_never_recovers:
  assumes "\<forall>k < n. cr_latency (p ! k) \<le> 0" "n \<le> length p"
  shows "\<exists>e. drop_samples E n (p, w) = Inl e"
  using assms
proof (induction n arbitrary: p w)
  case (Suc n)
  show ?case
  proof (cases "measure_cache E (cr_len (p ! n)) w")
    case (Inl e)
    then show ?thesis using Suc.prems by simp
  next
    case (Inr x)
    obtain t var w' where x: "x = (t, var, w')" by (cases x)
    have "\<exists>e. drop_samples E n (p[n := (p ! n)\<lparr>cr_latency := t, cr_variation := var\<rparr>], w') = Inl e"
      by (rule Suc.IH) (use Suc.prems in \<open>auto simp: nth_list_update\<close>)
    then show ?thesis using Suc.prems Inr x by simp
  qed
qed simp

theorem drop_samples_never_recovers_witness:
  "\<exists>e. drop_samples tiny_env 1 ([\<lparr>cr_len = 32, cr_maxlen = 64, cr_line = 8, cr_latency = 0, cr_variation = 0, cr_ratio = 0, cr_slope = 0\<rparr>], tiny_world) = Inl e"
  by (rule drop_samples_never_recovers) simp_all

lemma find_loop_cache_ok:
  assumes "n \<le> length p" "THRESHOLD < mx \<longleftrightarrow> j \<noteq> None" "case j of None \<Rightarrow> True | Some k \<Rightarrow> k < i \<and> THRESHOLD < cr_ratio (p ! k)"
  shows "\<exists>r. find_loop_cache p n i j mx = Inr r \<and>
     (case r of None \<Rightarrow> True | Some k \<Rightarrow> k < n \<and> THRESHOLD < cr_ratio (p ! k) \<and> (\<exists>m < n. cr_len (p ! k) * 2 \<le> cr_len (p ! m)))"
  using assms(2,3)
proof (induction "n - i" arbitrary: i j mx)
  case 0
  then show ?case by (subst find_loop_cache.simps) simp
next
  case (Suc d)
  define P :: "nat option res \<Rightarrow> bool" where "P = (\<lambda>x. \<exists>r. x = Inr r \<and>
     (case r of None \<Rightarrow> True | Some k \<Rightarrow> k < n \<and> THRESHOLD < cr_ratio (p ! k) \<and> (\<exists>m < n. cr_len (p ! k) * 2 \<le> cr_len (p ! m))))"
  from Suc have i: "i < n" by simp
  define mx' where "mx' = (if mx < cr_ratio (p ! i) then cr_ratio (p ! i) else mx)"
  define j' where "j' = (if THRESHOLD < cr_ratio (p ! i) then Some i else j)"
  have inv: "THRESHOLD < mx' \<longleftrightarrow> j' \<noteq> None" "case j' of None \<Rightarrow> True | Some k \<Rightarrow> k < Suc i \<and> THRESHOLD < cr_ratio (p ! k)"
    using Suc.prems by (auto simp: mx'_def j'_def split: option.splits)
  have step: "find_loop_cache p n i j mx =
      (if cr_latency (p ! i) < 0 then find_loop_cache p n (Suc i) j mx
       else case j' of None \<Rightarrow> find_loop_cache p n (Suc i) j' mx'
            | Some k \<Rightarrow> if cr_len (p ! k) * 2 \<le> cr_len (p ! i) then Inr (Some k) else find_loop_cache p n (Suc i) j' mx')"
    using i assms(1) inv(1) by (subst find_loop_cache.simps) (auto simp: Let_def mx'_def [symmetric] j'_def [symmetric] split: option.splits)
  have "case j of None \<Rightarrow> True | Some k \<Rightarrow> k < Suc i \<and> THRESHOLD < cr_ratio (p ! k)" using Suc.prems(2) by (auto split: option.splits)
  moreover have "d = n - Suc i" using Suc.hyps(2) by simp
  ultimately have rec: "P (find_loop_cache p n (Suc i) j mx)" "P (find_loop_cache p n (Suc i) j' mx')"
    using Suc.hyps(1) [of "Suc i" mx j] Suc.hyps(1) [of "Suc i" mx' j'] Suc.prems(1) inv unfolding P_def by blast+
  have "P (Inr (Some k))" if "j' = Some k" "cr_len (p ! k) * 2 \<le> cr_len (p ! i)" for k
    using inv(2) that i unfolding P_def by auto
  with rec have "P (find_loop_cache p n i j mx)" unfolding step by (cases j') auto
  then show ?case unfolding P_def .
qed

lemma find_cache_ok:
  assumes "n \<le> length p"
  obtains r where "find_cache start n p = Inr r" "\<And>k. r = Some k \<Longrightarrow> start \<le> k \<and> k < n \<and> THRESHOLD < cr_ratio (p ! k)"
proof -
  have "\<exists>r. find_loop_cache p n start None (- 1) = Inr r \<and>
     (case r of None \<Rightarrow> True | Some k \<Rightarrow> k < n \<and> THRESHOLD < cr_ratio (p ! k) \<and> (\<exists>m < n. cr_len (p ! k) * 2 \<le> cr_len (p ! m)))"
    by (rule find_loop_cache_ok [OF assms]) (auto simp: THRESHOLD_def)
  then obtain r where r: "find_loop_cache p n start None (- 1) = Inr r"
    "case r of None \<Rightarrow> True | Some k \<Rightarrow> k < n \<and> THRESHOLD < cr_ratio (p ! k) \<and> (\<exists>m < n. cr_len (p ! k) * 2 \<le> cr_len (p ! m))" by blast
  have "start \<le> k \<and> k < n \<and> THRESHOLD < cr_ratio (p ! k)" if "r = Some k" for k
    using find_loop_cache_from [of p n start None "- 1" k] r that by auto
  then show ?thesis by (intro that [of r]) (simp_all add: find_cache_def r(1))
qed

text \<open>the levels of \<open>main\<close>: the loop over \<open>find_cache\<close> ends with a strictly increasing list of samples, so the
  array \<open>levels\<close> of \<open>n\<close> elements is never overrun, and each level is a sample at which the latency
  jumps by more than the threshold, or the one after it; the first sample must have a latency.\<close>

theorem find_levels_ok:
  assumes "n \<le> length r" "0 < cr_latency (r ! 0)"
  shows "\<exists>ls. find_levels rnd n r 0 [] = Inr ls \<and> length ls \<le> n \<and> sorted_wrt (<) ls \<and>
     (\<forall>l \<in> set ls. l < n \<and> (THRESHOLD < cr_ratio (r ! l) \<or> 0 < l \<and> THRESHOLD < cr_ratio (r ! (l - 1))))"
proof -
  have "\<exists>ls. find_levels rnd n r start levels = Inr (levels @ ls) \<and> sorted_wrt (<) ls \<and>
     (\<forall>l \<in> set ls. start \<le> l \<and> l < n \<and> (THRESHOLD < cr_ratio (r ! l) \<or> 0 < l \<and> THRESHOLD < cr_ratio (r ! (l - 1))))"
    if "length levels \<le> start" "start \<le> n" for start levels
    using that
  proof (induction "n - start" arbitrary: start levels rule: less_induct)
    case less
    obtain f where f: "find_cache start n r = Inr f" "\<And>k. f = Some k \<Longrightarrow> start \<le> k \<and> k < n \<and> THRESHOLD < cr_ratio (r ! k)"
      by (rule find_cache_ok [OF assms(1), of start]) blast
    show ?case
    proof (cases f)
      case None
      then show ?thesis using f(1) by (subst find_levels.simps) simp
    next
      case (Some i)
      with f(2) have i: "start \<le> i" "i < n" "THRESHOLD < cr_ratio (r ! i)" by auto
      define c where "c = leading3 (s32 (int (cr_len (r ! i))))"
      define i' where "i' = (if c = 5 \<or> c = 7 then Suc i else i)"
      define stop where "stop \<longleftrightarrow> rnd (cr_latency (r ! i) / cr_latency (r ! (n - 1))) > 1 / 2 \<or> n \<le> i'"
      have step: "find_levels rnd n r start levels = (if stop then Inr levels else find_levels rnd n r (Suc i') (levels @ [i']))"
        using f(1) Some less.prems i(1,2) assms(2)
        by (subst find_levels.simps) (auto simp: Let_def c_def [symmetric] i'_def [symmetric] stop_def)
      show ?thesis
      proof (cases stop)
        case True
        then show ?thesis using step by simp
      next
        case no: False
        then have i': "i \<le> i'" "i' < n" "THRESHOLD < cr_ratio (r ! i') \<or> 0 < i' \<and> THRESHOLD < cr_ratio (r ! (i' - 1))"
          using i(3) by (auto simp: i'_def stop_def)
        have "\<exists>ls. find_levels rnd n r (Suc i') (levels @ [i']) = Inr ((levels @ [i']) @ ls) \<and> sorted_wrt (<) ls \<and>
            (\<forall>l \<in> set ls. Suc i' \<le> l \<and> l < n \<and> (THRESHOLD < cr_ratio (r ! l) \<or> 0 < l \<and> THRESHOLD < cr_ratio (r ! (l - 1))))"
          by (rule less.hyps) (use i i' less.prems in auto)
        then obtain ls where ls: "find_levels rnd n r (Suc i') (levels @ [i']) = Inr (levels @ i' # ls)" "sorted_wrt (<) ls"
            "\<forall>l \<in> set ls. Suc i' \<le> l \<and> l < n \<and> (THRESHOLD < cr_ratio (r ! l) \<or> 0 < l \<and> THRESHOLD < cr_ratio (r ! (l - 1)))" by auto
        have "\<forall>l \<in> set ls. i' < l" "\<forall>l \<in> set ls. start \<le> l" "start \<le> i'" using ls(3) i'(1) i(1) by (meson Suc_le_eq order_trans less_imp_le_nat)+
        then have "sorted_wrt (<) (i' # ls)"
            "\<forall>l \<in> set (i' # ls). start \<le> l \<and> l < n \<and> (THRESHOLD < cr_ratio (r ! l) \<or> 0 < l \<and> THRESHOLD < cr_ratio (r ! (l - 1)))"
          using ls(2,3) i' by auto
        then show ?thesis using step no ls(1) by (intro exI [of _ "i' # ls"]) simp
      qed
    qed
  qed
  from this [of "[]" 0] obtain ls where ls: "find_levels rnd n r 0 [] = Inr ls" "sorted_wrt (<) ls"
    "\<forall>l \<in> set ls. l < n \<and> (THRESHOLD < cr_ratio (r ! l) \<or> 0 < l \<and> THRESHOLD < cr_ratio (r ! (l - 1)))" by auto
  have "card (set ls) \<le> card {..<n}" using ls(3) by (intro card_mono) auto
  moreover have "distinct ls" using ls(2) strict_sorted_iff by blast
  ultimately have "length ls \<le> n" by (simp add: distinct_card)
  with ls show ?thesis by blast
qed

definition level_example :: "cache_results list" where
  "level_example = map (\<lambda>(len, lat, ratio). \<lparr>cr_len = len, cr_maxlen = 4096, cr_line = 64, cr_latency = lat, cr_variation = 1,
     cr_ratio = ratio, cr_slope = 0\<rparr>) [(1024, 1, 10), (4096, 10, 1)]"

theorem find_levels_ok_witness:
  "\<exists>ls. find_levels id 2 level_example 0 [] = Inr ls \<and> length ls \<le> 2 \<and> sorted_wrt (<) ls"
  using find_levels_ok [of 2 level_example id] by (auto simp: level_example_def)

end
