(* ===== verification/Lm_Stats.thy ===== *)
theory Lm_Stats
  imports Lm_Timing
begin

text \<open>
  The statistics of the benchmark suite (\<open>src/lmbench-3.0-a9/src/lib_stats.c\<close>), for arrays of
  \<open>int\<close>, of \<open>uint64\<close> and of \<open>double\<close>.  An integer division by zero stops the program; a quotient
  of doubles that is not a finite number is \<open>None\<close>.  Operations on doubles are followed by the
  rounding function \<open>rnd\<close>; the square root \<open>sqr\<close> is a parameter too.
\<close>

section \<open>Order statistics\<close>

definition int_compare :: "int \<Rightarrow> int \<Rightarrow> int" where
  "int_compare a b = (if a < b then - 1 else if a > b then 1 else 0)"

definition uint64_compare :: "u64 \<Rightarrow> u64 \<Rightarrow> int" where
  "uint64_compare a b = (if a < b then - 1 else if a > b then 1 else 0)"

definition double_compare :: "rat \<Rightarrow> rat \<Rightarrow> int" where
  "double_compare a b = (if a < b then - 1 else if a > b then 1 else 0)"

text \<open>\<open>qsort\<close>: the elements in the order of the comparison function.\<close>

fun insert_cmp :: "('a \<Rightarrow> 'a \<Rightarrow> int) \<Rightarrow> 'a \<Rightarrow> 'a list \<Rightarrow> 'a list" where
  "insert_cmp cmp x [] = [x]"
| "insert_cmp cmp x (y # ys) = (if cmp x y \<le> 0 then x # y # ys else y # insert_cmp cmp x ys)"

definition qsort :: "('a \<Rightarrow> 'a \<Rightarrow> int) \<Rightarrow> 'a list \<Rightarrow> 'a list" where
  "qsort cmp xs = foldr (insert_cmp cmp) xs []"

text \<open>The medians sort the caller's array, which is returned with the result.\<close>

definition int_median :: "int list \<Rightarrow> int \<times> int list" where
  "int_median values =
     (let vs = qsort int_compare values; size = length vs
      in (if size = 0 then 0
          else if size mod 2 = 1 then vs ! (size div 2)
          else c_div (s32 (vs ! (size div 2 - 1) + vs ! (size div 2))) 2, vs))"

definition uint64_median :: "u64 list \<Rightarrow> u64 \<times> u64 list" where
  "uint64_median values =
     (let vs = qsort uint64_compare values; size = length vs
      in (if size = 0 then 0
          else if size mod 2 = 1 then vs ! (size div 2)
          else (vs ! (size div 2 - 1) + vs ! (size div 2)) div 2, vs))"

definition double_median :: "rounding \<Rightarrow> rat list \<Rightarrow> rat \<times> rat list" where
  "double_median rnd values =
     (let vs = qsort double_compare values; size = length vs
      in (if size = 0 then 0
          else if size mod 2 = 1 then vs ! (size div 2)
          else rnd (rnd (vs ! (size div 2 - 1) + vs ! (size div 2)) / 2), vs))"

text \<open>Minimum and maximum read the first element, which an empty array does not have.\<close>

definition first_then :: "('a \<Rightarrow> 'a \<Rightarrow> bool) \<Rightarrow> 'a list \<Rightarrow> 'a res" where
  "first_then better values =
     (case values of
        [] \<Rightarrow> Inl Out_Of_Bounds
      | v # vs \<Rightarrow> Inr (foldl (\<lambda>m x. if better x m then x else m) v vs))"

definition int_min :: "int list \<Rightarrow> int res" where "int_min = first_then (<)"
definition uint64_min :: "u64 list \<Rightarrow> u64 res" where "uint64_min = first_then (<)"
definition double_min :: "rat list \<Rightarrow> rat res" where "double_min = first_then (<)"
definition int_max :: "int list \<Rightarrow> int res" where "int_max = first_then (>)"
definition uint64_max :: "u64 list \<Rightarrow> u64 res" where "uint64_max = first_then (>)"
definition double_max :: "rat list \<Rightarrow> rat res" where "double_max = first_then (>)"

section \<open>Means and moments\<close>

definition quo :: "rounding \<Rightarrow> rat \<Rightarrow> rat \<Rightarrow> rat option" where
  "quo rnd a b = (if b = 0 then None else Some (rnd (a / b)))"

definition int_mean :: "int list \<Rightarrow> int res" where
  "int_mean values =
     (let sum = foldl (\<lambda>s v. s32 (s + v)) 0 values
      in if values = [] then Inl Div_By_Zero else Inr (c_div sum (int (length values))))"

definition uint64_mean :: "u64 list \<Rightarrow> u64 res" where
  "uint64_mean values =
     (let sum = foldl (+) 0 values
      in if values = [] then Inl Div_By_Zero else Inr (sum div of_nat (length values)))"

definition double_mean :: "rounding \<Rightarrow> rat list \<Rightarrow> rat option" where
  "double_mean rnd values = quo rnd (foldl (\<lambda>s v. rnd (s + v)) 0 values) (of_nat (length values))"

text \<open>The sum of a double for each element, in the order of the array.\<close>

definition dsum :: "rounding \<Rightarrow> ('a \<Rightarrow> rat) \<Rightarrow> 'a list \<Rightarrow> rat" where
  "dsum rnd f xs = foldl (\<lambda>s x. rnd (s + f x)) 0 xs"

definition int_variance :: "rounding \<Rightarrow> int list \<Rightarrow> rat option res" where
  "int_variance rnd values = and_then (int_mean values) (\<lambda>mean.
     Inr (quo rnd (dsum rnd (\<lambda>v. rnd (of_int (s32 (s32 (v - mean) * s32 (v - mean))))) values)
            (of_int (int (length values) - 1))))"

definition uint64_variance :: "rounding \<Rightarrow> u64 list \<Rightarrow> rat option res" where
  "uint64_variance rnd values = and_then (uint64_mean values) (\<lambda>mean.
     Inr (quo rnd (dsum rnd (\<lambda>v. dbl rnd ((v - mean) * (v - mean))) values)
            (of_int (int (length values) - 1))))"

definition double_variance :: "rounding \<Rightarrow> rat list \<Rightarrow> rat option" where
  "double_variance rnd values =
     (case double_mean rnd values of
        None \<Rightarrow> None
      | Some mean \<Rightarrow>
          quo rnd (dsum rnd (\<lambda>v. rnd (rnd (v - mean) * rnd (v - mean))) values) (of_int (int (length values) - 1)))"

text \<open>\<open>m = diff; for (j = 1; j < moment; ++j) m *= diff;\<close>\<close>

definition power_loop :: "rounding \<Rightarrow> nat \<Rightarrow> rat \<Rightarrow> rat" where
  "power_loop rnd moment diff = ((\<lambda>m. rnd (m * diff)) ^^ (moment - 1)) diff"

definition int_moment :: "rounding \<Rightarrow> nat \<Rightarrow> int list \<Rightarrow> rat option res" where
  "int_moment rnd moment values = and_then (int_mean values) (\<lambda>mean.
     Inr (quo rnd (dsum rnd (\<lambda>v. power_loop rnd moment (rnd (of_int (s32 (v - mean))))) values) (of_nat (length values))))"

definition uint64_moment :: "rounding \<Rightarrow> nat \<Rightarrow> u64 list \<Rightarrow> rat option res" where
  "uint64_moment rnd moment values = and_then (uint64_mean values) (\<lambda>mean.
     Inr (quo rnd (dsum rnd (\<lambda>v. power_loop rnd moment (dbl rnd (v - mean))) values) (of_nat (length values))))"

definition double_moment :: "rounding \<Rightarrow> nat \<Rightarrow> rat list \<Rightarrow> rat option" where
  "double_moment rnd moment values =
     (case double_mean rnd values of
        None \<Rightarrow> None
      | Some mean \<Rightarrow>
          quo rnd (dsum rnd (\<lambda>v. power_loop rnd moment (rnd (v - mean))) values) (of_nat (length values)))"

definition int_stderr :: "rounding \<Rightarrow> (rat \<Rightarrow> rat) \<Rightarrow> int list \<Rightarrow> rat option res" where
  "int_stderr rnd sqr values = and_then (int_variance rnd values) (\<lambda>v. Inr (map_option sqr v))"

definition uint64_stderr :: "rounding \<Rightarrow> (rat \<Rightarrow> rat) \<Rightarrow> u64 list \<Rightarrow> rat option res" where
  "uint64_stderr rnd sqr values = and_then (uint64_variance rnd values) (\<lambda>v. Inr (map_option sqr v))"

definition double_stderr :: "rounding \<Rightarrow> (rat \<Rightarrow> rat) \<Rightarrow> rat list \<Rightarrow> rat option" where
  "double_stderr rnd sqr values = map_option sqr (double_variance rnd values)"

definition skew_of :: "rounding \<Rightarrow> rat option \<Rightarrow> rat option \<Rightarrow> rat option" where
  "skew_of rnd sigma moment3 =
     (case (sigma, moment3) of (Some s, Some m) \<Rightarrow> quo rnd m (rnd (rnd (s * s) * s)) | _ \<Rightarrow> None)"

definition kurtosis_of :: "rounding \<Rightarrow> rat option \<Rightarrow> rat option \<Rightarrow> rat option" where
  "kurtosis_of rnd variance moment4 =
     (case (variance, moment4) of
        (Some v, Some m) \<Rightarrow> map_option (\<lambda>q. rnd (q - 3)) (quo rnd m (rnd (v * v)))
      | _ \<Rightarrow> None)"

definition int_skew :: "rounding \<Rightarrow> (rat \<Rightarrow> rat) \<Rightarrow> int list \<Rightarrow> rat option res" where
  "int_skew rnd sqr values = and_then (int_stderr rnd sqr values) (\<lambda>sigma.
     and_then (int_moment rnd 3 values) (\<lambda>m. Inr (skew_of rnd sigma m)))"

definition uint64_skew :: "rounding \<Rightarrow> (rat \<Rightarrow> rat) \<Rightarrow> u64 list \<Rightarrow> rat option res" where
  "uint64_skew rnd sqr values = and_then (uint64_stderr rnd sqr values) (\<lambda>sigma.
     and_then (uint64_moment rnd 3 values) (\<lambda>m. Inr (skew_of rnd sigma m)))"

definition double_skew :: "rounding \<Rightarrow> (rat \<Rightarrow> rat) \<Rightarrow> rat list \<Rightarrow> rat option" where
  "double_skew rnd sqr values = skew_of rnd (double_stderr rnd sqr values) (double_moment rnd 3 values)"

definition int_kurtosis :: "rounding \<Rightarrow> int list \<Rightarrow> rat option res" where
  "int_kurtosis rnd values = and_then (int_variance rnd values) (\<lambda>v.
     and_then (int_moment rnd 4 values) (\<lambda>m. Inr (kurtosis_of rnd v m)))"

definition uint64_kurtosis :: "rounding \<Rightarrow> u64 list \<Rightarrow> rat option res" where
  "uint64_kurtosis rnd values = and_then (uint64_variance rnd values) (\<lambda>v.
     and_then (uint64_moment rnd 4 values) (\<lambda>m. Inr (kurtosis_of rnd v m)))"

definition double_kurtosis :: "rounding \<Rightarrow> rat list \<Rightarrow> rat option" where
  "double_kurtosis rnd values = kurtosis_of rnd (double_variance rnd values) (double_moment rnd 4 values)"

section \<open>The bootstrap\<close>

definition BOOTSTRAP_COUNT :: nat where "BOOTSTRAP_COUNT = 200"

text \<open>One resample: \<open>size\<close> random choices, \<open>rand k\<close> being the \<open>k\<close>-th random number.\<close>

definition resample :: "(nat \<Rightarrow> nat) \<Rightarrow> nat \<Rightarrow> 'a list \<Rightarrow> 'a list" where
  "resample rand k values = map (\<lambda>j. values ! (rand (k + j) mod length values)) [0..<length values]"

definition bootstrap :: "rounding \<Rightarrow> (rat \<Rightarrow> rat) \<Rightarrow> (nat \<Rightarrow> nat) \<Rightarrow> ('a list \<Rightarrow> rat) \<Rightarrow> 'a list \<Rightarrow> rat" where
  "bootstrap rnd sqr rand f values =
     (let s = map (\<lambda>i. f (resample rand (i * length values) values)) [0..<BOOTSTRAP_COUNT];
          s_sum = rnd (dsum rnd id s / of_nat BOOTSTRAP_COUNT);
          sum = dsum rnd (\<lambda>x. rnd (rnd (x - s_sum) * rnd (x - s_sum))) s
      in sqr (rnd (sum / of_nat (BOOTSTRAP_COUNT - 1))))"

definition int_bootstrap_stderr ::
  "rounding \<Rightarrow> (rat \<Rightarrow> rat) \<Rightarrow> (nat \<Rightarrow> nat) \<Rightarrow> (int list \<Rightarrow> int) \<Rightarrow> int list \<Rightarrow> rat" where
  "int_bootstrap_stderr rnd sqr rand f values = bootstrap rnd sqr rand (\<lambda>xs. rnd (of_int (f xs))) values"

definition uint64_bootstrap_stderr ::
  "rounding \<Rightarrow> (rat \<Rightarrow> rat) \<Rightarrow> (nat \<Rightarrow> nat) \<Rightarrow> (u64 list \<Rightarrow> u64) \<Rightarrow> u64 list \<Rightarrow> rat" where
  "uint64_bootstrap_stderr rnd sqr rand f values = bootstrap rnd sqr rand (\<lambda>xs. dbl rnd (f xs)) values"

definition double_bootstrap_stderr ::
  "rounding \<Rightarrow> (rat \<Rightarrow> rat) \<Rightarrow> (nat \<Rightarrow> nat) \<Rightarrow> (rat list \<Rightarrow> rat) \<Rightarrow> rat list \<Rightarrow> rat" where
  "double_bootstrap_stderr rnd sqr rand f values = bootstrap rnd sqr rand f values"

section \<open>Linear regression\<close>

record fit =
  fit_a :: rat
  fit_b :: rat
  fit_sig_a :: "rat option"
  fit_sig_b :: "rat option"
  fit_chi2 :: rat

text \<open>\<open>regression\<close> on points \<open>(x, y, sig)\<close>; \<open>use_sig\<close> tells whether the array \<open>sig\<close> is given.  The
  result is \<open>None\<close> if a quotient the coefficients depend on is not finite.\<close>

definition sig_or_1 :: "bool \<Rightarrow> rat \<Rightarrow> rat" where
  "sig_or_1 use_sig sig = (if use_sig then sig else 1)"

definition regression :: "rounding \<Rightarrow> (rat \<Rightarrow> rat) \<Rightarrow> bool \<Rightarrow> (rat \<times> rat \<times> rat) list \<Rightarrow> fit option" where
  "regression rnd sqr use_sig pts =
     (if use_sig \<and> (\<exists>(x, y, g) \<in> set pts. rnd (g * g) = 0) then None else
      let w = (\<lambda>g. rnd (1 / (if use_sig then rnd (g * g) else 1)));
          S = dsum rnd (\<lambda>(x, y, g). w g) pts;
          Sx = dsum rnd (\<lambda>(x, y, g). rnd (w g * x)) pts;
          Sy = dsum rnd (\<lambda>(x, y, g). rnd (w g * y)) pts
      in if S = 0 then None else
      let Sx_S = rnd (Sx / S);
          t = (\<lambda>x g. rnd (rnd (x - Sx_S) / sig_or_1 use_sig g));
          Stt = dsum rnd (\<lambda>(x, y, g). rnd (t x g * t x g)) pts;
          b0 = dsum rnd (\<lambda>(x, y, g). rnd (rnd (t x g * y) / sig_or_1 use_sig g)) pts
      in if Stt = 0 then None else
      let b = rnd (b0 / Stt);
          a = rnd (rnd (Sy - rnd (b * Sx)) / S);
          sig_a = sqr (rnd (rnd (1 + rnd (rnd (Sx * Sx) / rnd (S * Stt))) / S));
          sig_b = sqr (rnd (1 / Stt));
          merit = (\<lambda>x y g. rnd (rnd (y - rnd (a + rnd (b * x))) / sig_or_1 use_sig g));
          chi2 = dsum rnd (\<lambda>(x, y, g). rnd (merit x y g * merit x y g)) pts;
          scale = map_option sqr (quo rnd chi2 (of_int (int (length pts) - 2)))
      in Some \<lparr>fit_a = a, fit_b = b,
              fit_sig_a = (if use_sig then Some sig_a else map_option (\<lambda>c. rnd (sig_a * c)) scale),
              fit_sig_b = (if use_sig then Some sig_b else map_option (\<lambda>c. rnd (sig_b * c)) scale),
              fit_chi2 = chi2\<rparr>)"

section \<open>Medians\<close>

text \<open>A comparison function that agrees with the order of the values.\<close>

locale total_compare =
  fixes cmp :: "'a :: linorder \<Rightarrow> 'a \<Rightarrow> int"
  assumes cmp_le: "cmp a b \<le> 0 \<longleftrightarrow> a \<le> b"
begin

lemma insert_cmp_insort: "insert_cmp cmp x xs = insort x xs"
  by (induction xs) (auto simp: cmp_le)

lemma qsort_sort: "qsort cmp xs = sort xs"
  unfolding qsort_def by (induction xs) (simp_all add: insert_cmp_insort)

text \<open>Any other way to sort gives the same array.\<close>

lemma qsort_unique: "mset ys = mset xs \<Longrightarrow> sorted_wrt (\<lambda>a b. cmp a b \<le> 0) ys \<Longrightarrow> ys = qsort cmp xs"
  using properties_for_sort [of ys xs] by (simp add: qsort_sort cmp_le)

lemma middle_splits:
  assumes "length xs = 2 * k + 1"
  shows "k < length (filter (\<lambda>v. v \<le> qsort cmp xs ! k) xs) \<and> k < length (filter (\<lambda>v. qsort cmp xs ! k \<le> v) xs)"
proof -
  let ?s = "sort xs"
  have len: "length ?s = 2 * k + 1" using assms by simp
  have nth: "?s ! i \<le> ?s ! j" if "i \<le> j" "j < length ?s" for i j using that by (simp add: sorted_nth_mono)
  have perm: "length (filter P xs) = length (filter P ?s)" for P
    by (metis mset_filter mset_sort size_mset)
  have "set (take (k + 1) ?s) \<subseteq> {v. v \<le> ?s ! k}"
    using nth len by (auto simp: in_set_conv_nth)
  then have "filter (\<lambda>v. v \<le> ?s ! k) (take (k + 1) ?s) = take (k + 1) ?s" by (auto simp: filter_id_conv)
  then have a: "k + 1 \<le> length (filter (\<lambda>v. v \<le> ?s ! k) ?s)"
    using length_filter_le len append_take_drop_id [of "k + 1" ?s]
    by (metis (no_types) add_leD1 filter_append le_add1 length_append length_take min.absorb2 add_le_mono1 mult_2 le_add2 add.assoc)
  have "set (drop k ?s) \<subseteq> {v. ?s ! k \<le> v}"
    using nth len by (auto simp: in_set_conv_nth)
  then have "filter (\<lambda>v. ?s ! k \<le> v) (drop k ?s) = drop k ?s" by (auto simp: filter_id_conv)
  then have b: "k + 1 \<le> length (filter (\<lambda>v. ?s ! k \<le> v) ?s)"
    using len append_take_drop_id [of k ?s] by (metis (no_types) filter_append length_append length_drop le_add2 add_diff_cancel_left' mult_2 add.assoc)
  show ?thesis using a b perm by (simp add: qsort_sort)
qed

end

interpretation int_cmp: total_compare int_compare
  by unfold_locales (simp add: int_compare_def)

interpretation uint64_cmp: total_compare uint64_compare
  by unfold_locales (auto simp: uint64_compare_def)

interpretation double_cmp: total_compare double_compare
  by unfold_locales (simp add: double_compare_def)

text \<open>the median of an array of 64-bit numbers: the array ends up sorted with the same elements;
  of an odd number of values, more than half are at most the median and more than half at least;
  of an even number, the median lies between the two in the middle, provided their sum fits into
  64 bits.\<close>

theorem uint64_median_ok:
  assumes "uint64_median values = (m, vs)"
  shows "sorted vs \<and> mset vs = mset values \<and>
         (length values = 2 * k + 1 \<longrightarrow>
            k < length (filter (\<lambda>v. v \<le> m) values) \<and> k < length (filter (\<lambda>v. m \<le> v) values)) \<and>
         (length values = 2 * k \<and> 0 < k \<and> unat (vs ! (k - 1)) + unat (vs ! k) < 2 ^ 64 \<longrightarrow>
            vs ! (k - 1) \<le> m \<and> m \<le> vs ! k)"
proof -
  let ?s = "qsort uint64_compare values"
  have s: "?s = sort values" "length ?s = length values" by (simp_all add: uint64_cmp.qsort_sort)
  have vs: "vs = ?s" using assms by (simp add: uint64_median_def Let_def)
  have odd: "m = ?s ! k" if n: "length values = 2 * k + 1"
  proof -
    have "?s \<noteq> []" "length ?s div 2 = k" "length ?s mod 2 = 1" using n s(2) by auto
    then show ?thesis using assms by (auto simp: uint64_median_def Let_def)
  qed
  have even: "m = (?s ! (k - 1) + ?s ! k) div 2" if n: "length values = 2 * k" "0 < k"
  proof -
    have "?s \<noteq> []" "length ?s div 2 = k" "length ?s mod 2 = 0" using n s(2) by auto
    then show ?thesis using assms by (auto simp: uint64_median_def Let_def)
  qed
  have mid: "vs ! (k - 1) \<le> m \<and> m \<le> vs ! k"
    if "length values = 2 * k" "0 < k" "unat (vs ! (k - 1)) + unat (vs ! k) < 2 ^ 64"
  proof -
    have le: "vs ! (k - 1) \<le> vs ! k" unfolding vs s(1) using that(1,2) by (intro sorted_nth_mono) auto
    have "unat m = (unat (vs ! (k - 1)) + unat (vs ! k)) div 2"
      using even [OF that(1,2)] that(3) vs by (simp add: unat_div unat_word_ariths)
    with le show ?thesis by (simp add: word_le_nat_alt) linarith
  qed
  show ?thesis
    using vs s odd uint64_cmp.middle_splits [of "values" k] mid by auto
qed

theorem uint64_median_ok_witness:
  "\<exists>m. uint64_median [7, 3, 5] = (m, [3, 5, 7]) \<and> 1 < length (filter (\<lambda>v. v \<le> m) [7, 3, 5]) \<and>
       1 < length (filter (\<lambda>v. m \<le> v) [7, 3, 5])"
proof -
  have "qsort uint64_compare [7, 3, 5] = [3, 5, 7]" by (simp add: qsort_def uint64_compare_def)
  then obtain m where m: "uint64_median [7, 3, 5] = (m, [3, 5, 7])" by (simp add: uint64_median_def Let_def)
  from uint64_median_ok [OF m, of 1] m show ?thesis by auto
qed

text \<open>Without the proviso the average wraps around.\<close>

lemma uint64_median_wraps: "uint64_median [2 ^ 63, 2 ^ 63] = (0, [2 ^ 63, 2 ^ 63])"
  by (simp add: uint64_median_def Let_def qsort_def uint64_compare_def)

section \<open>Moments of unsigned numbers\<close>

lemma dsum_id: "dsum id f xs = sum_list (map f xs)"
proof -
  have "foldl (\<lambda>s x. s + f x) a xs = a + sum_list (map f xs)" for a
    by (induction xs arbitrary: a) (simp_all add: add.assoc)
  then show ?thesis by (simp add: dsum_def)
qed

lemma power_loop_id: "0 < k \<Longrightarrow> power_loop id k d = d ^ k"
proof -
  have "((\<lambda>m. id (m * d)) ^^ j) d = d ^ Suc j" for j
    by (induction j) simp_all
  then show "0 < k \<Longrightarrow> ?thesis" by (cases k) (simp_all add: power_loop_def)
qed

text \<open>The square of a difference is exact in 64 bits as long as the difference is below 2^32,
  whichever of the two numbers is the bigger.\<close>

lemma square_diff_word:
  fixes v m :: u64
  assumes "\<bar>int (unat v) - int (unat m)\<bar> < 2 ^ 32"
  shows "int (unat ((v - m) * (v - m))) = (int (unat v) - int (unat m))\<^sup>2"
proof -
  let ?d = "int (unat v) - int (unat m)"
  have e: "(v - m) * (v - m) = word_of_int (?d\<^sup>2)" by (simp add: power2_eq_square)
  have "?d\<^sup>2 < 2 ^ 64" using power_strict_mono [of "\<bar>?d\<bar>" "2 ^ 32" 2] assms by simp
  then have "uint (word_of_int (?d\<^sup>2) :: u64) = ?d\<^sup>2"
    unfolding uint_word_of_int by (intro mod_pos_pos_trivial) simp_all
  then show ?thesis unfolding e uint_nat [symmetric] by simp
qed

text \<open>the variance of 64-bit numbers is exact (before rounding) although the differences are
  taken modulo 2^64: if all values are within 2^32 of the mean, it is the sum of the squared
  distances from the (truncated) mean divided by the number of values less one; the number of
  values must not be 1.\<close>

theorem uint64_variance_exact:
  assumes "uint64_mean values = Inr mean" "length values \<noteq> 1"
    and "\<forall>v \<in> set values. \<bar>int (unat v) - int (unat mean)\<bar> < 2 ^ 32"
  shows "uint64_variance id values =
           Inr (Some (of_int (\<Sum>v\<leftarrow>values. (int (unat v) - int (unat mean))\<^sup>2) / of_int (int (length values) - 1)))"
proof -
  have ne: "values \<noteq> []" using assms(1) by (auto simp: uint64_mean_def)
  then have n: "(of_int (int (length values) - 1) :: rat) \<noteq> 0"
    using assms(2) by simp
  have "dbl id ((v - mean) * (v - mean)) = of_int ((int (unat v) - int (unat mean))\<^sup>2)" if "v \<in> set values" for v
  proof -
    have "rat_of_int (int (unat ((v - mean) * (v - mean)))) = of_int ((int (unat v) - int (unat mean))\<^sup>2)"
      using square_diff_word [of v mean] assms(3) that by (simp only:)
    then show ?thesis unfolding dbl_def id_apply of_int_of_nat_eq .
  qed
  then have "map (\<lambda>v. dbl id ((v - mean) * (v - mean))) values =
      map of_int (map (\<lambda>v. (int (unat v) - int (unat mean))\<^sup>2) values)" by simp
  moreover have "sum_list (map rat_of_int xs) = of_int (sum_list xs)" for xs by (induction xs) simp_all
  ultimately have "dsum id (\<lambda>v. dbl id ((v - mean) * (v - mean))) values =
      of_int (\<Sum>v\<leftarrow>values. (int (unat v) - int (unat mean))\<^sup>2)" by (simp only: dsum_id)
  then show ?thesis using assms(1) n by (simp only: uint64_variance_def and_then.simps quo_def if_False id_apply)
qed

theorem uint64_variance_exact_witness: "uint64_variance id [2, 4, 6] = Inr (Some 4)"
proof -
  have "uint64_mean [2, 4, 6] = Inr 4" by (simp add: uint64_mean_def)
  from uint64_variance_exact [OF this] show ?thesis by simp
qed

text \<open>but the moments of 64-bit numbers are wrong as soon as one value lies below the mean: its
  difference wraps around to almost 2^64, so even the first moment, which is below 1 for the true
  differences, is at least \<open>(2^64 - mean) / n\<close>.\<close>

theorem uint64_moment_wraps:
  assumes "uint64_mean values = Inr mean" "v \<in> set values" "v < mean"
  shows "\<exists>m. uint64_moment id 1 values = Inr (Some m) \<and>
           (2 ^ 64 - of_nat (unat mean)) / of_nat (length values) \<le> m"
proof -
  let ?s = "\<Sum>v\<leftarrow>values. dbl id (v - mean)"
  have ne: "values \<noteq> []" using assms(2) by auto
  have nn: "0 \<le> dbl id (w - mean)" for w unfolding dbl_def id_apply by (rule of_nat_0_le_iff)
  have "unat v < unat mean" using assms(3) by (simp add: word_less_nat_alt)
  then have "unat (v - mean) = 2 ^ 64 + unat v - unat mean"
    using unat_bound [of mean] by (simp add: unat_sub_if_size word_size) 
  then have "2 ^ 64 - unat mean \<le> unat (v - mean)" by simp
  then have "rat_of_nat (2 ^ 64 - unat mean) \<le> dbl id (v - mean)" by (simp only: dbl_def id_apply of_nat_le_iff)
  moreover have "rat_of_nat (2 ^ 64 - unat mean) = 2 ^ 64 - of_nat (unat mean)"
    using unat_bound [of mean] by (subst of_nat_diff) (simp_all del: of_nat_unat)
  moreover have "dbl id (v - mean) \<le> ?s"
    using assms(2) nn by (intro member_le_sum_list) auto
  ultimately have "2 ^ 64 - of_nat (unat mean) \<le> ?s" by simp
  then have "(2 ^ 64 - of_nat (unat mean)) / of_nat (length values) \<le> ?s / of_nat (length values)"
    by (rule divide_right_mono) simp
  moreover have "uint64_moment id 1 values = Inr (Some (?s / of_nat (length values)))"
    using assms(1) ne by (simp add: uint64_moment_def dsum_id power_loop_id quo_def)
  ultimately show ?thesis by blast
qed

theorem uint64_moment_wraps_witness:
  "\<exists>m. uint64_moment id 1 [0, 2] = Inr (Some m) \<and> (2 ^ 64 - 1) / 2 \<le> m"
proof -
  have "uint64_mean [0, 2] = Inr 1" by (simp add: uint64_mean_def)
  from uint64_moment_wraps [OF this, of 0] show ?thesis by simp
qed

section \<open>The regression line\<close>

text \<open>The squared error of the line \<open>y = a + b x\<close>.\<close>

definition sq_error :: "rat \<Rightarrow> rat \<Rightarrow> (rat \<times> rat \<times> rat) list \<Rightarrow> rat" where
  "sq_error a b pts = (\<Sum>(x, y, g)\<leftarrow>pts. (y - (a + b * x))\<^sup>2)"

lemma sum_list_lin:
  fixes f g :: "'a \<Rightarrow> rat"
  shows "(\<Sum>p\<leftarrow>ps. f p + g p) = (\<Sum>p\<leftarrow>ps. f p) + (\<Sum>p\<leftarrow>ps. g p)"
    and "(\<Sum>p\<leftarrow>ps. f p - g p) = (\<Sum>p\<leftarrow>ps. f p) - (\<Sum>p\<leftarrow>ps. g p)"
    and "(\<Sum>p\<leftarrow>ps. c * f p) = c * (\<Sum>p\<leftarrow>ps. f p)"
    and "(\<Sum>p\<leftarrow>ps. c) = of_nat (length ps) * (c :: rat)"
  by (induction ps) (simp_all add: algebra_simps)

text \<open>A line whose residuals have no sum and no product with the abscissas is the best one.\<close>

lemma normal_equations_optimal:
  fixes pts :: "(rat \<times> rat \<times> rat) list"
  assumes "(\<Sum>(x, y, g)\<leftarrow>pts. y - (a + b * x)) = 0" "(\<Sum>(x, y, g)\<leftarrow>pts. x * (y - (a + b * x))) = 0"
  shows "sq_error a b pts \<le> sq_error a' b' pts"
proof -
  let ?r = "\<lambda>p :: rat \<times> rat \<times> rat. fst (snd p) - (a + b * fst p)"
  let ?d = "\<lambda>p :: rat \<times> rat \<times> rat. (a - a') + (b - b') * fst p"
  have "sq_error a' b' pts = (\<Sum>p\<leftarrow>pts. ?r p * ?r p + (?d p * ?d p + 2 * (?r p * ?d p)))"
    unfolding sq_error_def by (intro arg_cong [where f = sum_list] map_cong refl)
      (auto simp: power2_eq_square algebra_simps)
  also have "\<dots> = sq_error a b pts + ((\<Sum>p\<leftarrow>pts. ?d p * ?d p) + 2 * (\<Sum>p\<leftarrow>pts. ?r p * ?d p))"
    by (simp add: sum_list_lin sq_error_def power2_eq_square case_prod_unfold)
  also have "(\<Sum>p\<leftarrow>pts. ?r p * ?d p) = (\<Sum>p\<leftarrow>pts. (a - a') * ?r p + (b - b') * (fst p * ?r p))"
    by (intro arg_cong [where f = sum_list] map_cong refl) (auto simp: algebra_simps)
  also have "\<dots> = (a - a') * (\<Sum>p\<leftarrow>pts. ?r p) + (b - b') * (\<Sum>p\<leftarrow>pts. fst p * ?r p)"
    by (simp add: sum_list_lin)
  also have "\<dots> = 0" using assms by (simp add: case_prod_unfold)
  finally have "sq_error a' b' pts = sq_error a b pts + (\<Sum>p\<leftarrow>pts. ?d p * ?d p)" by simp
  moreover have "0 \<le> (\<Sum>p\<leftarrow>pts. ?d p * ?d p)" by (intro sum_list_nonneg) auto
  ultimately show ?thesis by simp
qed

text \<open>The sums of \<open>regression\<close> without standard deviations.\<close>

lemma regression_plain:
  fixes pts :: "(rat \<times> rat \<times> rat) list"
  assumes "n = of_nat (length pts)" "n \<noteq> 0" "Sx = (\<Sum>(x, y, g)\<leftarrow>pts. x)" "Sy = (\<Sum>(x, y, g)\<leftarrow>pts. y)"
    and "Stt = (\<Sum>(x, y, g)\<leftarrow>pts. (x - Sx / n) * (x - Sx / n))" "Stt \<noteq> 0"
    and "b = (\<Sum>(x, y, g)\<leftarrow>pts. (x - Sx / n) * y) / Stt" "a = (Sy - b * Sx) / n"
  shows "\<exists>f. regression id sqr False pts = Some f \<and> fit_a f = a \<and> fit_b f = b \<and> fit_chi2 f = sq_error a b pts"
proof -
  show ?thesis
    using assms
    by (simp add: regression_def Let_def dsum_id sig_or_1_def sq_error_def power2_eq_square case_prod_unfold sum_list_lin(4))
qed

lemma regression_normal_equations:
  fixes pts :: "(rat \<times> rat \<times> rat) list"
  assumes "n = of_nat (length pts)" "n \<noteq> 0" "Sx = (\<Sum>(x, y, g)\<leftarrow>pts. x)" "Sy = (\<Sum>(x, y, g)\<leftarrow>pts. y)"
    and "Stt = (\<Sum>(x, y, g)\<leftarrow>pts. (x - Sx / n) * (x - Sx / n))" "Stt \<noteq> 0"
    and "b = (\<Sum>(x, y, g)\<leftarrow>pts. (x - Sx / n) * y) / Stt" "a = (Sy - b * Sx) / n"
  shows "(\<Sum>(x, y, g)\<leftarrow>pts. y - (a + b * x)) = 0" "(\<Sum>(x, y, g)\<leftarrow>pts. x * (y - (a + b * x))) = 0"
proof -
  let ?X = "\<Sum>p\<leftarrow>pts. fst p" and ?Y = "\<Sum>p\<leftarrow>pts. fst (snd p)"
  let ?XX = "\<Sum>p\<leftarrow>pts. fst p * fst p" and ?XY = "\<Sum>p\<leftarrow>pts. fst p * fst (snd p)"
  have X: "Sx = ?X" "Sy = ?Y" using assms(3,4) by (simp_all add: case_prod_unfold)
  have "(\<Sum>p\<leftarrow>pts. (fst p - Sx / n) * (fst p - Sx / n)) =
      (\<Sum>p\<leftarrow>pts. fst p * fst p - ((2 * Sx / n) * fst p - Sx / n * (Sx / n)))"
    by (intro arg_cong [where f = sum_list] map_cong refl) (simp add: algebra_simps)
  also have "\<dots> = ?XX - ((2 * Sx / n) * ?X - of_nat (length pts) * (Sx / n * (Sx / n)))"
    by (simp only: sum_list_lin mult.left_commute)
  finally have Stt: "Stt = ?XX - (2 * Sx / n * Sx - n * (Sx / n * (Sx / n)))"
    using assms(5) unfolding X [symmetric] assms(1) [symmetric] by (simp only: case_prod_unfold)
  then have Stt': "Stt = ?XX - Sx * Sx / n" using assms(2) by (simp add: field_simps)
  have "(\<Sum>p\<leftarrow>pts. (fst p - Sx / n) * fst (snd p)) = (\<Sum>p\<leftarrow>pts. fst p * fst (snd p) - Sx / n * fst (snd p))"
    by (intro arg_cong [where f = sum_list] map_cong refl) (simp add: algebra_simps)
  also have "\<dots> = ?XY - Sx / n * ?Y" by (simp only: sum_list_lin)
  finally have b: "b * Stt = ?XY - Sx * Sy / n"
    using assms(6,7) unfolding X(2) [symmetric] by (simp add: case_prod_unfold)
  have a: "n * a = Sy - b * Sx" using assms(2,8) by simp
  have "(\<Sum>(x, y, g)\<leftarrow>pts. y - (a + b * x)) = Sy - (n * a + b * Sx)"
    using assms(1) X by (simp add: case_prod_unfold sum_list_lin)
  then show "(\<Sum>(x, y, g)\<leftarrow>pts. y - (a + b * x)) = 0" using a by simp
  have "(\<Sum>p\<leftarrow>pts. fst p * (fst (snd p) - (a + b * fst p))) =
      (\<Sum>p\<leftarrow>pts. fst p * fst (snd p) - (a * fst p + b * (fst p * fst p)))"
    by (intro arg_cong [where f = sum_list] map_cong refl) (simp add: algebra_simps)
  then have e: "(\<Sum>(x, y, g)\<leftarrow>pts. x * (y - (a + b * x))) = ?XY - (a * Sx + b * ?XX)"
    using X by (simp only: case_prod_unfold sum_list_lin)
  have "?XX = Stt + Sx * Sx / n" "?XY = b * Stt + Sx * Sy / n" using Stt' b by simp_all
  then have "?XY - (a * Sx + b * ?XX) = Sx * (Sy / n - a - b * Sx / n)" by (simp add: algebra_simps)
  also have "Sy / n - a - b * Sx / n = (Sy - b * Sx - n * a) / n" using assms(2) by (simp add: field_simps)
  also have "\<dots> = 0" using a by simp
  finally show "(\<Sum>(x, y, g)\<leftarrow>pts. x * (y - (a + b * x))) = 0" using e by simp
qed

text \<open>For abscissas that are not all the same \<open>regression\<close> returns a line that no other one beats.\<close>

lemma regression_line:
  assumes "(x1, y1, g1) \<in> set pts" "(x2, y2, g2) \<in> set pts" "x1 \<noteq> x2"
  shows "\<exists>f. regression id sqr False pts = Some f \<and> fit_chi2 f = sq_error (fit_a f) (fit_b f) pts \<and>
           (\<forall>a' b'. fit_chi2 f \<le> sq_error a' b' pts)"
proof -
  define n :: rat where "n = of_nat (length pts)"
  define Sx where "Sx = (\<Sum>(x, y, g)\<leftarrow>pts. x)"
  define Sy where "Sy = (\<Sum>(x, y, g)\<leftarrow>pts. y)"
  define Stt where "Stt = (\<Sum>(x, y, g)\<leftarrow>pts. (x - Sx / n) * (x - Sx / n))"
  define b where "b = (\<Sum>(x, y, g)\<leftarrow>pts. (x - Sx / n) * y) / Stt"
  define a where "a = (Sy - b * Sx) / n"
  have n: "n \<noteq> 0" using assms(1) by (auto simp: n_def)
  have Stt: "Stt \<noteq> 0"
  proof
    assume "Stt = 0"
    moreover have "\<forall>z \<in> set (map (\<lambda>(x, y, g). (x - Sx / n) * (x - Sx / n)) pts). 0 \<le> z" by auto
    ultimately have "\<forall>z \<in> set (map (\<lambda>(x, y, g). (x - Sx / n) * (x - Sx / n)) pts). z = 0"
      unfolding Stt_def using sum_list_nonneg_eq_0_iff by (metis (no_types, lifting))
    with assms(1,2) have "(x1 - Sx / n) * (x1 - Sx / n) = 0" "(x2 - Sx / n) * (x2 - Sx / n) = 0" by auto
    with assms(3) show False by simp
  qed
  note F = n_def n Sx_def Sy_def Stt_def Stt b_def a_def
  from regression_plain [OF F] obtain f where
    f: "regression id sqr False pts = Some f" "fit_a f = a" "fit_b f = b" "fit_chi2 f = sq_error a b pts" by blast
  with normal_equations_optimal [OF regression_normal_equations [OF F]] show ?thesis by auto
qed



end
