(* ===== verification/Lm_Mhz.thy ===== *)
theory Lm_Mhz
  imports Lm_Stats Lm_Enough Lm_Getopt Lm_Report
begin

text \<open>
  The clock rate benchmark (\<open>src/lmbench-3.0-a9/src/mhz.c\<close>): nine loops whose bodies take different
  numbers of cycles are timed, and the greatest common divisor of the times of one pass is taken for
  the length of a cycle.  The divisor is found by fitting straight lines; many subsets of the loops
  are tried and the most frequent rate wins.

  Doubles are rational numbers with a rounding function \<open>rnd\<close> as in \<open>Lm_Stats\<close>; a quotient that is
  not finite, and a value read from an element that was never written, stop the model
  (\<open>Panic\<close>).  The theorems show what the algorithm computes for exact measurements.
\<close>

section \<open>The loops\<close>

text \<open>The registers of \<open>_mhz_M\<close>.  The type \<open>TYPE\<close> is \<open>long\<close>; its arithmetic wraps around.\<close>

record mhz_regs =
  rg_n :: int
  rg_p :: nat
  rg_a :: int
  rg_b :: int

text \<open>A shift by a count outside the width of the type is undefined.\<close>

definition shift_by :: "int \<Rightarrow> (nat \<Rightarrow> int) \<Rightarrow> int res" where
  "shift_by k f = (if 0 \<le> k \<and> k < 64 then Inr (f (nat k)) else Inl (Panic ''shift''))"

text \<open>The contents of \<open>MHZ(M, contents)\<close>; \<open>deref\<close> is what memory holds at an address.\<close>

definition mhz_expr :: "(nat \<Rightarrow> nat) \<Rightarrow> nat \<Rightarrow> mhz_regs \<Rightarrow> mhz_regs res" where
  "mhz_expr deref M r =
     (let n = rg_n r; a = rg_a r; b = rg_b r in
      if M = 1 then Inr (r\<lparr>rg_p := deref (rg_p r)\<rparr>)
      else if M = 2 then Inr (r\<lparr>rg_a := a XOR s64 (a + a)\<rparr>)
      else if M = 3 then Inr (r\<lparr>rg_a := a XOR s64 (s64 (a + a) + a)\<rparr>)
      else if M = 4 then and_then (shift_by b (\<lambda>k. drop_bit k a)) (\<lambda>x. Inr (r\<lparr>rg_a := x\<rparr>))
      else if M = 5 then and_then (shift_by (s64 (a + a)) (\<lambda>k. drop_bit k a)) (\<lambda>x. Inr (r\<lparr>rg_a := x\<rparr>))
      else if M = 6 then and_then (shift_by b (\<lambda>k. s64 (push_bit k a))) (\<lambda>x. Inr (r\<lparr>rg_a := a XOR x\<rparr>))
      else if M = 7 then Inr (r\<lparr>rg_a := a XOR s64 (a + b)\<rparr>)
      else if M = 8 then Inr (r\<lparr>rg_a := s64 (a + (s64 (a + b) AND 7))\<rparr>)
      else let a1 = a XOR n; b1 = b XOR a1 in Inr (r\<lparr>rg_a := a1 OR b1, rg_b := b1\<rparr>))"

fun repeat_res :: "nat \<Rightarrow> ('a \<Rightarrow> 'a res) \<Rightarrow> 'a \<Rightarrow> 'a res" where
  "repeat_res 0 f x = Inr x"
| "repeat_res (Suc k) f x = and_then (f x) (repeat_res k f)"

text \<open>\<open>for (; n > 0; --n) { HUNDRED(contents) }\<close> and the pointer it returns.\<close>

fun mhz_passes :: "(nat \<Rightarrow> nat) \<Rightarrow> nat \<Rightarrow> nat \<Rightarrow> mhz_regs \<Rightarrow> mhz_regs res" where
  "mhz_passes deref M 0 r = Inr (r\<lparr>rg_n := 0\<rparr>)"
| "mhz_passes deref M (Suc k) r =
     and_then (repeat_res 100 (mhz_expr deref M) (r\<lparr>rg_n := int (Suc k)\<rparr>)) (mhz_passes deref M k)"

definition mhz_run :: "(nat \<Rightarrow> nat) \<Rightarrow> nat \<Rightarrow> nat \<Rightarrow> nat \<Rightarrow> int \<Rightarrow> int \<Rightarrow> int res" where
  "mhz_run deref M n p a b =
     and_then (mhz_passes deref M n \<lparr>rg_n = int n, rg_p = p, rg_a = a, rg_b = b\<rparr>)
       (\<lambda>r. Inr (int (rg_p r) + 8 * (rg_a r + rg_b r)))"

text \<open>\<open>mhz_M\<close>: a run to warm up, a measurement, and the count of expressions instead of passes.  The
  loop under measurement is the parameter \<open>run\<close> of \<open>BENCH1\<close>; \<open>n\<close> is the static iteration count.\<close>

definition mhz_test ::
  "rounding \<Rightarrow> 'w runner \<Rightarrow> int \<Rightarrow> u64 \<Rightarrow> rat \<Rightarrow> u64 \<Rightarrow> timing \<Rightarrow> 'w \<Rightarrow> (timing \<times> u64 \<times> 'w) res option" where
  "mhz_test rnd run e t_ov l_ov n s w =
     bind_r (BENCH1 rnd run e t_ov l_ov n s (snd (run 1 w))) (\<lambda>(s', n', w').
       Some (Inr (save_n (100 * get_n s') s', n', w')))"

definition NTESTS :: nat where "NTESTS = 9"

definition BIT_SET :: "nat \<Rightarrow> nat \<Rightarrow> bool" where
  "BIT_SET A b = bit A b"

section \<open>Selecting values\<close>

definition not_finite :: fault where "not_finite = Panic ''not finite''"
definition unwritten :: fault where "unwritten = Panic ''unwritten''"

text \<open>The loop of \<open>filter_data\<close> that moves the values to be kept to the front.\<close>

function filter_loop :: "(rat \<Rightarrow> bool) \<Rightarrow> nat \<Rightarrow> nat \<Rightarrow> rat list \<Rightarrow> nat \<times> rat list" where
  "filter_loop keep i tests vs =
     (if i < length vs then
        if keep (vs ! i) then filter_loop keep (Suc i) (Suc tests) (if i > tests then vs[tests := vs ! i] else vs)
        else filter_loop keep (Suc i) tests vs
      else (tests, vs))"
  by pat_completeness auto
termination by (relation "measure (\<lambda>(keep, i, tests, vs). length vs - i)") auto

declare filter_loop.simps [simp del]

text \<open>The median of \<open>filter_data\<close> and \<open>classes\<close>.\<close>

definition middle :: "rounding \<Rightarrow> rat list \<Rightarrow> rat res" where
  "middle rnd vs =
     (let d = qsort double_compare vs; size = length vs in
      if size = 0 then Inl unwritten
      else Inr (if size mod 2 = 0 then rnd (rnd (d ! (size div 2) + d ! (size div 2 - 1)) / 2) else d ! (size div 2)))"

definition filter_data :: "rounding \<Rightarrow> rat list \<Rightarrow> (nat \<times> rat list) res" where
  "filter_data rnd values =
     and_then (middle rnd values) (\<lambda>median.
       Inr (filter_loop (\<lambda>v. rnd (rnd (5 / 100) * median) < v \<and> v < rnd (20 * median)) 0 0 values))"

definition classes :: "rounding \<Rightarrow> rat list \<Rightarrow> nat res" where
  "classes rnd values =
     and_then (middle rnd values) (\<lambda>median.
       let d = qsort double_compare values in
       Inr (fold (\<lambda>i classid. if rnd (d ! i - d ! (i - 1)) > rnd (rnd (5 / 100) * median) then Suc classid else classid)
              [1..<length d] 1))"

text \<open>The conversion of a \<open>double\<close> to \<open>int\<close>; outside its range the conversion is undefined and gives the
  smallest number on the machines of the benchmark.\<close>

definition int_of_double :: "rat \<Rightarrow> int" where
  "int_of_double x =
     (let t = (if 0 \<le> x then \<lfloor>x\<rfloor> else \<lceil>x\<rceil>) in if - (2 ^ 31) \<le> t \<and> t < 2 ^ 31 then t else - (2 ^ 31))"

definition nearest :: "rounding \<Rightarrow> rat \<Rightarrow> int" where
  "nearest rnd x = int_of_double (rnd (x + 1 / 2))"

text \<open>The loop of \<open>mode\<close>: the mode and its frequency, the current value and its frequency.\<close>

definition mode_step :: "int \<Rightarrow> int \<times> nat \<times> int \<times> nat \<Rightarrow> int \<times> nat \<times> int \<times> nat" where
  "mode_step v st =
     (let (mode, n_mode, curr, n_curr) = st;
          (curr, n_curr) = (if curr \<noteq> v then (v, 0) else (curr, n_curr));
          n_curr = Suc n_curr
      in if n_curr > n_mode then (curr, n_curr, curr, n_curr) else (mode, n_mode, curr, n_curr))"

definition mode :: "rounding \<Rightarrow> rat list \<Rightarrow> int res" where
  "mode rnd values =
     (case map (nearest rnd) (qsort double_compare values) of
        [] \<Rightarrow> Inl unwritten
      | v # vs \<Rightarrow> Inr (fst (fold mode_step vs (v, 1, v, 1))))"

section \<open>The common divisor\<close>

fun cross_values :: "rounding \<Rightarrow> rat list \<Rightarrow> rat list" where
  "cross_values rnd [] = []"
| "cross_values rnd (v # vs) = v # map (\<lambda>v'. \<bar>rnd (v - v')\<bar>) vs @ cross_values rnd vs"

definition MAX_COUNT :: nat where "MAX_COUNT = 6"

text \<open>The guess how many instructions each loop has if the shortest has \<open>count\<close>.\<close>

definition guess :: "rounding \<Rightarrow> rat \<Rightarrow> nat \<Rightarrow> rat \<Rightarrow> rat" where
  "guess rnd mn cnt y = rnd (of_int (int_of_double (rnd (rnd (rnd (of_nat cnt * y) / mn) + 1 / 2))))"

text \<open>The loop over \<open>count\<close>; the best result so far and its \<open>chi2\<close>.\<close>

fun gcd_loop :: "rounding \<Rightarrow> (rat \<Rightarrow> rat) \<Rightarrow> rat \<Rightarrow> rat list \<Rightarrow> nat list \<Rightarrow> rat \<Rightarrow> rat \<Rightarrow> rat res" where
  "gcd_loop rnd sqr mn y [] result min_chi2 = Inr result"
| "gcd_loop rnd sqr mn y (cnt # counts) result min_chi2 =
     (case regression rnd sqr False (map (\<lambda>v. (guess rnd mn cnt v, v, 0)) y) of
        None \<Rightarrow> Inl not_finite
      | Some f \<Rightarrow>
          if cnt = 1 \<or> rnd (of_nat (cnt * cnt) * fit_chi2 f) < min_chi2
          then gcd_loop rnd sqr mn y counts (fit_b f) (fit_chi2 f)
          else gcd_loop rnd sqr mn y counts result min_chi2)"

text \<open>\<open>gcd\<close>: the arrays have room for \<open>size * size\<close> points.\<close>

definition gcd_values :: "rounding \<Rightarrow> (rat \<Rightarrow> rat) \<Rightarrow> rat list \<Rightarrow> rat res" where
  "gcd_values rnd sqr values =
     and_then (double_min values) (\<lambda>mn.
       let y = cross_values rnd values @ [0] in
       if length values * length values < length y then Inl Out_Of_Bounds
       else if mn = 0 then Inl not_finite
       else gcd_loop rnd sqr mn y [1..<MAX_COUNT] mn 0)"

section \<open>The clock rate\<close>

definition sample_of :: "rounding \<Rightarrow> nat \<Rightarrow> result_t \<Rightarrow> rat res" where
  "sample_of rnd i r =
     (let k = r_N r - 1 - i in
      if length (r_v r) \<le> k then Inl Out_Of_Bounds
      else if v_n (r_v r ! k) = 0 then Inl not_finite
      else Inr (rnd (dbl rnd (v_u (r_v r ! k)) / dbl rnd (v_n (r_v r ! k)))))"

text \<open>One subset of the loops: no result if there are too few usable or too few different values.\<close>

definition try_subset :: "rounding \<Rightarrow> (rat \<Rightarrow> rat) \<Rightarrow> result_t list \<Rightarrow> nat \<Rightarrow> nat \<Rightarrow> rat option res" where
  "try_subset rnd sqr r i sub =
     and_then (collect_res (\<lambda>j. sample_of rnd i (r ! j))
         (filter (\<lambda>j. BIT_SET sub j \<and> r_N (r ! j) > TRIES div 2) [0..<NTESTS])) (\<lambda>data.
     if length data < 2 then Inr None else
     and_then (filter_data rnd data) (\<lambda>(n, vs).
     if n < 2 then Inr None else
     and_then (classes rnd (take n vs)) (\<lambda>c.
     if c < 2 then Inr None else
     and_then (gcd_values rnd sqr (take n vs)) (\<lambda>g.
     if g = 0 then Inl not_finite else Inr (Some (rnd (1 / g)))))))"

definition mhz_of :: "rounding \<Rightarrow> (rat \<Rightarrow> rat) \<Rightarrow> result_t list \<Rightarrow> nat \<Rightarrow> int res" where
  "mhz_of rnd sqr r i =
     and_then (collect_res (try_subset rnd sqr r i) [0..<2 ^ NTESTS]) (\<lambda>found.
       mode rnd (map the (filter (\<lambda>x. x \<noteq> None) found)))"

definition compute_mhz :: "rounding \<Rightarrow> (rat \<Rightarrow> rat) \<Rightarrow> result_t list \<Rightarrow> int res" where
  "compute_mhz rnd sqr r =
     and_then (mhz_of rnd sqr r 0) (\<lambda>m0.
     and_then (mhz_of rnd sqr r 1) (\<lambda>m1.
       let d = \<bar>s32 (m0 - m1)\<bar> in
       Inr (if m0 \<noteq> 0 \<and> rnd (of_int d / of_int m0) \<le> rnd (1 / 100) \<or> d \<le> 1 then m0 else - 1)))"

section \<open>The program\<close>

text \<open>The measurements, the static iteration counts of the loops, the library's variables and the machine.\<close>

record 'w mhz_state =
  mz_data :: "result_t list"
  mz_its :: "u64 list"
  mz_timing :: timing
  mz_world :: 'w

text \<open>One round of measurements after the other, for the loops listed; \<open>runs k\<close> is the timed body of
  the loop \<open>k\<close>.  The loop overhead is 0 since \<open>main\<close> sets \<open>LOOP_O\<close> to 0.\<close>

fun mhz_collect ::
  "rounding \<Rightarrow> (nat \<Rightarrow> 'w runner) \<Rightarrow> int \<Rightarrow> u64 \<Rightarrow> nat list \<Rightarrow> 'w mhz_state \<Rightarrow> 'w mhz_state res option" where
  "mhz_collect rnd runs e t_ov [] st = Some (Inr st)"
| "mhz_collect rnd runs e t_ov (k # ks) st =
     bind_r (mhz_test rnd (runs k) e t_ov 0 (mz_its st ! k) (mz_timing st) (mz_world st)) (\<lambda>(s, n, w).
     bind_r (Some (and_then (gettime s) (\<lambda>u. insertsort rnd u (get_n s) (mz_data st ! k)))) (\<lambda>r.
       mhz_collect rnd runs e t_ov ks
         (st\<lparr>mz_data := (mz_data st)[k := r], mz_its := (mz_its st)[k := n], mz_timing := s, mz_world := w\<rparr>)))"

definition mhz_order :: "nat list" where
  "mhz_order = concat (replicate TRIES [0..<NTESTS])"

fun mhz_efforts ::
  "rounding \<Rightarrow> (rat \<Rightarrow> rat) \<Rightarrow> (nat \<Rightarrow> 'w runner) \<Rightarrow> int \<Rightarrow> u64 \<Rightarrow> nat \<Rightarrow> int \<Rightarrow> 'w mhz_state \<Rightarrow>
   (int \<times> 'w mhz_state) res option" where
  "mhz_efforts rnd sqr runs e t_ov 0 mhz st = Some (Inr (mhz, st))"
| "mhz_efforts rnd sqr runs e t_ov (Suc k) mhz st =
     (if mhz < 0 then
        bind_r (mhz_collect rnd runs e t_ov mhz_order (st\<lparr>mz_data := map insertinit (mz_data st)\<rparr>)) (\<lambda>st'.
        bind_r (Some (compute_mhz rnd sqr (mz_data st'))) (\<lambda>m. mhz_efforts rnd sqr runs e t_ov k m st'))
      else Some (Inr (mhz, st)))"

definition nl :: string where "nl = [CHR 0x0A]"
definition dq :: string where "dq = [CHR 0x22]"
definition tab :: string where "tab = [CHR 0x09]"

definition mhz_names :: "string list" where
  "mhz_names = [''p=(TYPE**)*p;'', ''a^=a+a;'', ''a^=a+a+a;'', ''a>>=b;'', ''a>>=a+a;'', ''a^=a<<b;'', ''a^=a+b;'',
     ''a+=(a+b)&07;'', ''a^=n;b^=a;a|=b;'']"

definition print_value :: "rounding \<Rightarrow> nat \<Rightarrow> value_t \<Rightarrow> item list" where
  "print_value rnd j v =
     [Txt (nl @ tab @ tab @ ''{ /* ''), Flt 6 (fp_div rnd (Fin (dbl rnd (v_u v))) (rnd (100 * dbl rnd (v_n v)))), Txt '' */ '',
      Dec (uint (v_u v)), Txt '', '', Dec (uint (v_n v)), Txt ''}''] @ (if j < TRIES - 1 then [Txt '', ''] else [])"

definition print_data :: "rounding \<Rightarrow> rat \<Rightarrow> int \<Rightarrow> rat \<Rightarrow> u64 \<Rightarrow> result_t list \<Rightarrow> item list" where
  "print_data rnd mhz e l_ov t_ov data =
     [Txt (''/* '' @ dq @ ''CPU'' @ dq @ '', '' @ dq @ ''uname'' @ dq @ '', '' @ dq @ ''email'' @ dq @ '', ''), Dec (- 1), Txt '', '',
      Flt 0 (Fin mhz), Txt '', '', Dec e, Txt '', '', Flt 6 (Fin l_ov), Txt '', '', Dec (uint t_ov), Txt ('' */'' @ nl),
      Txt (''result_t* data[] = { '' @ nl)] @
     concat (map (\<lambda>i.
       [Txt (tab @ ''/* '' @ mhz_names ! i @ '' */ { ''), Dec (int (r_N (data ! i))), Txt '', {''] @
       concat (map (\<lambda>j. print_value rnd j (r_v (data ! i) ! j)) [0..<r_N (data ! i)]) @
       [Txt ((if i < NTESTS - 1 then ''}},'' else ''}}'') @ nl)]) [0..<NTESTS]) @
     [Txt (''};'' @ nl)]"

text \<open>The options in the order given: \<open>-c\<close> prints the cycle time and nothing after it, \<open>-d\<close> the data.\<close>

fun mhz_options :: "rounding \<Rightarrow> int \<Rightarrow> u64 \<Rightarrow> result_t list \<Rightarrow> char list \<Rightarrow> int \<Rightarrow> item list \<times> int" where
  "mhz_options rnd e t_ov data [] mhz = ([], mhz)"
| "mhz_options rnd e t_ov data (c # cs) mhz =
     (let (out, mhz) =
        (if c = CHR ''c'' then
           if mhz > 0 then ([Flt 4 (fp_div rnd (Fin 1000) (of_int mhz)), Txt nl], 0) else ([], mhz)
         else (print_data rnd (of_int mhz) e 0 t_ov data, mhz));
          (out', mhz') = mhz_options rnd e t_ov data cs mhz
      in (out @ out', mhz'))"

text \<open>\<open>main\<close>: what is printed and the exit status.  \<open>opts\<close> are the options that \<open>getopt\<close> finds and
  whether it came to their end.\<close>

definition mhz_report :: "rounding \<Rightarrow> int \<Rightarrow> u64 \<Rightarrow> result_t list \<Rightarrow> char list \<times> bool \<Rightarrow> int \<Rightarrow> item list \<times> int" where
  "mhz_report rnd e t_ov data opts mhz =
     (let (out, mhz) = mhz_options rnd e t_ov data (fst opts) mhz in
      if \<not> snd opts then (out @ [Txt ''Usage: ''], - 1)
      else if mhz < 0 then (out @ [Txt (''-1 System too busy'' @ nl)], 1)
      else if mhz > 0 then
        (out @ [Dec mhz, Txt '' MHz, '', Flt 4 (fp_div rnd (Fin 1000) (of_int mhz)), Txt ('' nanosec clock'' @ nl)], 0)
      else (out, 0))"

text \<open>The announcement of a long measurement.\<close>

definition mhz_banner :: "rounding \<Rightarrow> int \<Rightarrow> item list" where
  "mhz_banner rnd e =
     (let runtime = rnd (dbl rnd (of_nat (NTESTS * TRIES * 3) * to_u64 e) / 1000000) in
      if runtime > 3 then [Txt ''mhz: should take approximately '', Flt 0 (Fin runtime), Txt ('' seconds'' @ nl)] else [])"

definition mhz_main ::
  "rounding \<Rightarrow> (rat \<Rightarrow> rat) \<Rightarrow> (nat \<Rightarrow> 'w runner) \<Rightarrow> int \<Rightarrow> u64 \<Rightarrow> string list \<Rightarrow> 'w mhz_state \<Rightarrow> (item list \<times> int) res option" where
  "mhz_main rnd sqr runs e t_ov av st =
     bind_r (mhz_efforts rnd sqr runs e t_ov 3 (- 1) st) (\<lambda>(mhz, st').
     bind_r (getopts (Suc (sum_list (map (\<lambda>w. length w + 1) (drop 1 av)))) av ''cd'' optst_init) (\<lambda>(cs, ok, _).
       let (out, code) = mhz_report rnd e t_ov (mz_data st') (map fst cs, ok) mhz
       in Some (Inr (mhz_banner rnd e @ out, code))))"

section \<open>Values kept and values most frequent\<close>

lemma filter_loop_ok:
  assumes "tests \<le> i" "i \<le> length vs"
  shows "\<exists>vs'. filter_loop keep i tests vs = (tests + length (filter keep (drop i vs)), vs') \<and>
     take (tests + length (filter keep (drop i vs))) vs' = take tests vs @ filter keep (drop i vs)"
  using assms
proof (induction keep i tests vs rule: filter_loop.induct)
  case (1 keep i tests vs)
  show ?case
  proof (cases "i < length vs")
    case False
    then show ?thesis by (subst filter_loop.simps) simp
  next
    case True
    then have d: "drop i vs = vs ! i # drop (Suc i) vs" by (simp add: Cons_nth_drop_Suc)
    show ?thesis
    proof (cases "keep (vs ! i)")
      case False
      with 1(2) [OF True False] 1(3) True d show ?thesis by (subst filter_loop.simps) simp
    next
      case k: True
      define ws where "ws = (if i > tests then vs[tests := vs ! i] else vs)"
      have t: "take (Suc tests) ws = take tests vs @ [vs ! i]"
        using 1(3) True by (auto simp: ws_def take_Suc_conv_app_nth)
      have "drop (Suc i) ws = drop (Suc i) vs" "length ws = length vs" using 1(3) by (auto simp: ws_def)
      moreover have "filter_loop keep i tests vs = filter_loop keep (Suc i) (Suc tests) ws"
        using True k by (subst filter_loop.simps) (simp add: ws_def)
      ultimately show ?thesis using 1(1) [OF True k] 1(3) True d k t by (simp add: ws_def [symmetric])
    qed
  qed
qed

lemma filter_data_ok:
  assumes "filter_data rnd values = Inr (n, vs)" "middle rnd values = Inr median"
  shows "take n vs = filter (\<lambda>v. rnd (rnd (5 / 100) * median) < v \<and> v < rnd (20 * median)) values \<and> n = length (take n vs)"
proof -
  define keep where "keep = (\<lambda>v. rnd (rnd (5 / 100) * median) < v \<and> v < rnd (20 * median))"
  have "filter_loop keep 0 0 values = (n, vs)" using assms by (simp add: filter_data_def keep_def)
  with filter_loop_ok [of 0 0 "values" keep] have "n = length (filter keep values)" "take n vs = filter keep values" by auto
  then show ?thesis unfolding keep_def by metis
qed

text \<open>The state of \<open>mode\<close> after the elements \<open>p\<close>, the last of which is the current one.\<close>

definition mode_inv :: "int list \<Rightarrow> int \<times> nat \<times> int \<times> nat \<Rightarrow> bool" where
  "mode_inv p st \<longleftrightarrow> (case st of (m, nm, c, nc) \<Rightarrow>
     p \<noteq> [] \<and> c = last p \<and> nc = count (mset p) c \<and> m \<in> set p \<and> nm = count (mset p) m \<and>
     (\<forall>x. count (mset p) x \<le> nm))"

lemma mode_inv_step:
  assumes "mode_inv p st" "sorted (p @ [v])"
  shows "mode_inv (p @ [v]) (mode_step v st)"
proof -
  obtain m nm c nc where st: "st = (m, nm, c, nc)" by (cases st)
  have "v \<notin> set p" if "v \<noteq> last p"
  proof
    assume "v \<in> set p"
    then obtain i where "i < length p" "p ! i = v" by (auto simp: in_set_conv_nth)
    then have "v \<le> p ! (length p - 1)" using assms(2) by (auto simp: sorted_append intro!: sorted_nth_mono)
    then have "v \<le> last p" using assms(1) by (auto simp: last_conv_nth mode_inv_def st)
    moreover have "last p \<le> v" using assms by (auto simp: sorted_append mode_inv_def st)
    ultimately show False using that by simp
  qed
  then have new: "count (mset p) v = 0" if "v \<noteq> c" using that assms(1) by (simp add: count_eq_zero_iff mode_inv_def st)
  have p: "p \<noteq> []" "c = last p" "nc = count (mset p) c" "m \<in> set p" "nm = count (mset p) m"
    and le: "count (mset p) x \<le> nm" for x
    using assms(1) by (auto simp: mode_inv_def st)
  have pos: "0 < nm" using p(4,5) by simp
  have "count (mset p) x \<le> Suc nc" if "nm \<le> nc" for x using le [of x] that by linarith
  moreover have "count (mset p) x \<le> Suc nm" for x using le [of x] by linarith
  moreover have "v \<noteq> m" if "v \<noteq> c" using new [OF that] p(4) by auto
  moreover have "Suc (count (mset p) v) \<le> nm" if "v \<noteq> c" using new [OF that] pos by linarith
  ultimately show ?thesis using p pos new le unfolding st
    by (cases "v = c") (auto simp: mode_inv_def mode_step_def Let_def simp del: count_mset_0_iff)
qed

lemma mode_fold:
  assumes "mode_inv p st" "sorted (p @ vs)"
  shows "mode_inv (p @ vs) (fold mode_step vs st)"
  using assms
proof (induction vs arbitrary: p st)
  case (Cons v vs)
  from Cons.prems have "mode_inv (p @ [v]) (mode_step v st)" by (intro mode_inv_step) (auto simp: sorted_append)
  from Cons.IH [OF this] Cons.prems show ?case by simp
qed simp

lemma int_of_double_mono:
  assumes "x \<le> y" "- (2 ^ 31) \<le> x" "y < 2 ^ 31"
  shows "int_of_double x \<le> int_of_double y"
proof -
  have *: "int_of_double z = (if 0 \<le> z then \<lfloor>z\<rfloor> else \<lceil>z\<rceil>)" if "- (2 ^ 31) \<le> z" "z < 2 ^ 31" for z :: rat
    using that by (auto simp: int_of_double_def Let_def floor_less_iff le_floor_iff le_ceiling_iff ceiling_less_iff)
  have "\<lceil>x\<rceil> \<le> \<lfloor>y\<rfloor>" if "x < 0" "0 \<le> y"
  proof -
    have "\<lceil>x\<rceil> \<le> 0" "0 \<le> \<lfloor>y\<rfloor>" using that by (simp_all add: ceiling_le_iff)
    then show ?thesis by linarith
  qed
  moreover have "- (2 ^ 31) \<le> y" "x < 2 ^ 31" using assms by linarith+
  ultimately show ?thesis using assms by (auto simp: * floor_mono ceiling_mono)
qed

lemma mode_ok:
  assumes "mono rnd" "values \<noteq> []" "\<forall>v \<in> set values. - (2 ^ 31) \<le> rnd (v + 1 / 2) \<and> rnd (v + 1 / 2) < 2 ^ 31"
  shows "\<exists>m. mode rnd values = Inr m \<and> m \<in> nearest rnd ` set values \<and>
     (\<forall>x. length (filter (\<lambda>v. nearest rnd v = x) values) \<le> length (filter (\<lambda>v. nearest rnd v = m) values))"
proof -
  define xs where "xs = map (nearest rnd) (sort values)"
  have "sorted xs"
    unfolding xs_def sorted_map
  proof (rule sorted_wrt_mono_rel [OF _ sorted_sort])
    fix x y :: rat assume xy: "x \<in> set (sort values)" "y \<in> set (sort values)" "x \<le> y"
    then have "rnd (x + 1 / 2) \<le> rnd (y + 1 / 2)" using assms(1) by (simp add: mono_def)
    then show "nearest rnd x \<le> nearest rnd y" unfolding nearest_def
      using assms(3) xy by (intro int_of_double_mono) auto
  qed
  moreover obtain v vs where xs: "xs = v # vs"
    using assms(2) by (metis xs_def list.exhaust length_0_conv length_map length_sort)
  moreover have "mode_inv [v] (v, 1, v, 1)" by (auto simp: mode_inv_def)
  ultimately have inv: "mode_inv xs (fold mode_step vs (v, 1, v, 1))" using mode_fold [of "[v]" _ vs] by simp
  have cnt: "count (mset xs) x = length (filter (\<lambda>v. nearest rnd v = x) values)" for x
  proof -
    have "mset xs = mset (map (nearest rnd) values)" by (simp add: xs_def)
    then have "count (mset xs) x = count_list (map (nearest rnd) values) x" by (simp only: count_mset)
    then show ?thesis by (simp add: count_list_eq_length_filter filter_map comp_def eq_commute [of x])
  qed
  have "mode rnd values = Inr (fst (fold mode_step vs (v, 1, v, 1)))"
    using xs by (simp add: mode_def double_cmp.qsort_sort xs_def)
  moreover have "set xs = nearest rnd ` set values" by (simp add: xs_def)
  ultimately show ?thesis using inv by (auto simp: mode_inv_def cnt case_prod_unfold)
qed

text \<open>\<open>mode\<close> returns one of the values rounded to an integer, and no other integer is the rounding of
  more of them, provided that rounding respects the order and the values fit into an \<open>int\<close>.\<close>

theorem mode_most_frequent:
  assumes "mono rnd" "values \<noteq> []" "\<forall>v \<in> set values. - (2 ^ 31) \<le> rnd (v + 1 / 2) \<and> rnd (v + 1 / 2) < 2 ^ 31"
  shows "\<exists>m. mode rnd values = Inr m \<and> m \<in> nearest rnd ` set values \<and>
     (\<forall>x. length (filter (\<lambda>v. nearest rnd v = x) values) \<le> length (filter (\<lambda>v. nearest rnd v = m) values))"
  using assms by (rule mode_ok)

theorem mode_most_frequent_witness:
  "\<exists>m. mode id [100, 99, 100] = Inr m \<and> (\<forall>x. length (filter (\<lambda>v. nearest id v = x) [100, 99, 100]) \<le>
     length (filter (\<lambda>v. nearest id v = m) [100, 99, 100]))"
proof -
  have "mono (id :: rat \<Rightarrow> rat)" by (simp add: mono_def)
  from mode_most_frequent [OF this, of "[100, 99, 100]"] show ?thesis by (auto simp del: filter.simps)
qed

section \<open>The common divisor of exact times\<close>

lemma sq_error_zero:
  assumes "sq_error a b pts = 0" "(x, y, g) \<in> set pts"
  shows "y = a + b * x"
proof -
  have "\<forall>z \<in> set (map (\<lambda>(x, y, g). (y - (a + b * x))\<^sup>2) pts). 0 \<le> z" by auto
  then have "\<forall>z \<in> set (map (\<lambda>(x, y, g). (y - (a + b * x))\<^sup>2) pts). z = 0"
    using assms(1) sum_list_nonneg_eq_0_iff unfolding sq_error_def by (metis (no_types, lifting))
  with assms(2) show ?thesis by force
qed

lemma sq_error_nonneg: "0 \<le> sq_error a b pts"
  unfolding sq_error_def by (intro sum_list_nonneg) auto

text \<open>Points on which the line through the origin and \<open>(k, mn)\<close> is to be fitted.\<close>

lemma fit_through_origin:
  assumes "(0, 0, 0) \<in> set pts" "(k, mn, 0) \<in> set pts" "k \<noteq> 0"
  shows "\<exists>f. regression id sqr False pts = Some f \<and> 0 \<le> fit_chi2 f \<and>
     (fit_chi2 f = 0 \<longleftrightarrow> (\<forall>(x, y, g) \<in> set pts. y = mn / k * x)) \<and> (fit_chi2 f = 0 \<longrightarrow> fit_b f = mn / k)"
proof -
  from regression_line [OF assms(1,2)] assms(3) obtain f where
    f: "regression id sqr False pts = Some f" "fit_chi2 f = sq_error (fit_a f) (fit_b f) pts"
       "\<And>a' b'. fit_chi2 f \<le> sq_error a' b' pts" by metis
  have line: "y = mn / k * x" "fit_b f = mn / k" if z: "fit_chi2 f = 0" and p: "(x, y, g) \<in> set pts" for x y g
  proof -
    have on: "y' = fit_a f + fit_b f * x'" if "(x', y', g') \<in> set pts" for x' y' g'
      using sq_error_zero [of _ _ pts] f(2) z that by metis
    show b: "fit_b f = mn / k" using on [OF assms(1)] on [OF assms(2)] assms(3) by (simp add: field_simps)
    show "y = mn / k * x" using on [OF p] on [OF assms(1)] b by simp
  qed
  have "fit_chi2 f = 0" if all: "\<forall>(x, y, g) \<in> set pts. y = mn / k * x"
  proof -
    have "map (\<lambda>(x, y, g). (y - (0 + mn / k * x))\<^sup>2) pts = map (\<lambda>p. 0) pts" using all by auto
    then have "sq_error 0 (mn / k) pts = 0" unfolding sq_error_def by (simp only: sum_list_lin(4) mult_zero_right)
    with f(3) [of 0 "mn / k"] show ?thesis using f(2) sq_error_nonneg [of "fit_a f" "fit_b f" pts] by simp
  qed
  then show ?thesis using f line assms(1) sq_error_nonneg [of "fit_a f" "fit_b f" pts] by (intro exI [of _ f]) auto
qed

definition fit_at :: "(rat \<Rightarrow> rat) \<Rightarrow> rat \<Rightarrow> rat list \<Rightarrow> nat \<Rightarrow> fit option" where
  "fit_at sqr mn y k = regression id sqr False (map (\<lambda>v. (guess id mn k v, v, 0)) y)"

definition exact_loop :: "(rat \<Rightarrow> rat) \<Rightarrow> rat \<Rightarrow> rat list \<Rightarrow> nat list \<Rightarrow> rat \<Rightarrow> rat \<Rightarrow> rat res" where
  "exact_loop = gcd_loop id"

lemma gcd_loop_step:
  assumes "fit_at sqr mn y k = Some f"
  shows "exact_loop sqr mn y (k # ks) res mc =
     (if k = 1 \<or> of_nat (k * k) * fit_chi2 f < mc then exact_loop sqr mn y ks (fit_b f) (fit_chi2 f)
      else exact_loop sqr mn y ks res mc)"
  using assms by (simp only: exact_loop_def gcd_loop.simps fit_at_def option.case id_apply)

lemma gcd_loop_done:
  assumes "\<forall>k \<in> set ks. k \<noteq> 1 \<and> (\<exists>f. fit_at sqr mn y k = Some f \<and> 0 \<le> fit_chi2 f)"
  shows "exact_loop sqr mn y ks res 0 = Inr res"
  using assms
proof (induction ks)
  case (Cons k ks)
  then obtain f where f: "fit_at sqr mn y k = Some f" "0 \<le> fit_chi2 f" "k \<noteq> 1" by auto
  moreover have "\<not> of_nat (k * k) * fit_chi2 f < 0" using f(2)
    by (metis not_less mult_nonneg_nonneg of_nat_0_le_iff)
  ultimately show ?case using Cons by (simp add: gcd_loop_step)
qed (simp add: exact_loop_def)

text \<open>The first count at which all points lie on a line is the one whose slope is returned.\<close>

lemma gcd_loop_finds:
  assumes "\<forall>k \<in> set pre. \<exists>f. fit_at sqr mn y k = Some f \<and> 0 < fit_chi2 f"
    and "fit_at sqr mn y c = Some fc" "fit_chi2 fc = 0"
    and "\<forall>k \<in> set post. k \<noteq> 1 \<and> (\<exists>f. fit_at sqr mn y k = Some f \<and> 0 \<le> fit_chi2 f)"
    and "0 < mc \<or> hd (pre @ [c]) = 1"
  shows "exact_loop sqr mn y (pre @ c # post) res mc = Inr (fit_b fc)"
  using assms(1,5)
proof (induction pre arbitrary: res mc)
  case Nil
  then show ?case using assms(2,3) gcd_loop_done [OF assms(4)] by (auto simp: gcd_loop_step)
next
  case (Cons k pre)
  then obtain f where f: "fit_at sqr mn y k = Some f" "0 < fit_chi2 f" by auto
  have "exact_loop sqr mn y (pre @ c # post) (fit_b f) (fit_chi2 f) = Inr (fit_b fc)"
    by (rule Cons.IH) (use Cons.prems f in auto)
  moreover have "exact_loop sqr mn y (pre @ c # post) res mc = Inr (fit_b fc)" if "k \<noteq> 1"
    by (rule Cons.IH) (use Cons.prems f that in auto)
  ultimately show ?case using f by (simp add: gcd_loop_step)
qed

lemma length_cross: "2 * length (cross_values rnd vs) = length vs * (length vs + 1)"
  by (induction vs) auto

lemma cross_superset: "set vs \<subseteq> set (cross_values rnd vs)"
  by (induction vs) auto

lemma abs_diff_mult:
  fixes t :: rat
  assumes "0 < t"
  shows "\<bar>of_nat c * t - of_nat c' * t\<bar> = of_nat (max c c' - min c c') * t"
proof -
  have "\<bar>of_nat c * t - of_nat c' * t\<bar> = \<bar>of_nat c - of_nat c'\<bar> * t"
    using assms by (simp add: abs_mult flip: left_diff_distrib)
  also have "\<bar>of_nat c - of_nat c' :: rat\<bar> = of_nat (max c c' - min c c')" by (auto simp: max_def min_def of_nat_diff)
  finally show ?thesis .
qed

text \<open>The differences of multiples of a time are multiples of it, by numbers with the same divisors.\<close>

lemma cross_multiples:
  assumes "0 < t" "v \<in> set (cross_values id (map (\<lambda>c. of_nat c * t) cs))" "\<forall>c \<in> set cs. d dvd c \<and> c \<le> B"
  shows "\<exists>k. v = of_nat k * t \<and> d dvd k \<and> k \<le> B"
  using assms(2,3)
proof (induction cs)
  case (Cons c cs)
  then consider "v = of_nat c * t" | c' where "c' \<in> set cs" "v = \<bar>of_nat c * t - of_nat c' * t\<bar>"
    | "v \<in> set (cross_values id (map (\<lambda>c. of_nat c * t) cs))" by (auto simp: id_def)
  then show ?case
  proof cases
    case 1
    then show ?thesis using Cons.prems by auto
  next
    case (2 c')
    then have v: "v = of_nat (max c c' - min c c') * t" using abs_diff_mult [OF assms(1)] by simp
    have "d dvd c" "d dvd c'" "c \<le> B" "c' \<le> B" using 2 Cons.prems by auto
    then have "d dvd max c c' - min c c'" "max c c' - min c c' \<le> B" by (auto simp: max_def min_def)
    with v show ?thesis by blast
  next
    case 3
    show ?thesis by (rule Cons.IH [OF 3]) (use Cons.prems in auto)
  qed
qed simp

lemma foldl_min: "foldl (\<lambda>m x. if x < m then x else m) (v :: 'a :: linorder) vs = Min (insert v (set vs))"
proof (induction vs arbitrary: v)
  case (Cons x vs)
  have "Min (insert (if x < v then x else v) (set vs)) = Min (insert v (insert x (set vs)))"
    by (cases "set vs = {}") (auto simp: min_def)
  with Cons show ?case by simp
qed simp

lemma double_min_eq: "values \<noteq> [] \<Longrightarrow> double_min values = Inr (Min (set values))"
  by (cases "values") (simp_all add: double_min_def first_then_def foldl_min)

lemma Min_multiples:
  fixes t :: rat
  assumes "0 < t" "cs \<noteq> []"
  shows "Min (set (map (\<lambda>c. of_nat c * t) cs)) = of_nat (Min (set cs)) * t"
proof -
  have "mono (\<lambda>c. of_nat c * t)" using assms(1) by (simp add: mono_def)
  from mono_Min_commute [OF this, of "set cs"] assms(2) show ?thesis by simp
qed

text \<open>The guesses for multiples of a time: right at counts for which they are integers.\<close>

lemma guess_integer:
  assumes "0 < t" "0 < m" "m dvd n * k" "n * k < 2 ^ 31 - 1"
  shows "guess id (of_nat m * t) n (of_nat k * t) = of_nat (n * k div m)"
proof -
  obtain q where q: "n * k = m * q" using assms(3) by blast
  have e: "(of_nat n * (of_nat k * t)) / (of_nat m * t) = (of_nat q :: rat)"
  proof -
    have "of_nat n * (of_nat k * t) = of_nat (n * k) * t" by simp
    also have "\<dots> = of_nat m * t * of_nat q" unfolding q by simp
    finally show ?thesis using assms(1,2) by simp
  qed
  have "q \<le> n * k" using assms(2) q by simp
  then have "int q < 2 ^ 31" using assms(4) by simp
  moreover have "\<lfloor>of_nat q + 1 / 2 :: rat\<rfloor> = int q" by (simp add: floor_eq_iff)
  ultimately have "int_of_double (of_nat q + 1 / 2) = int q" by (simp add: int_of_double_def)
  moreover have "n * k div m = q" using q assms(2) by simp
  ultimately show ?thesis unfolding guess_def id_apply e by simp
qed

text \<open>The points of the regression at a count, for times that are multiples of \<open>t\<close>: the fit is perfect
  exactly if the guesses are integers without rounding.\<close>

lemma fit_multiples:
  assumes "0 < t" "0 < n" "0 < m" "0 \<in> set y" "of_nat m * t \<in> set y"
    and mult: "\<forall>v \<in> set y. \<exists>k. v = of_nat k * t \<and> n * k < 2 ^ 31 - 1"
  shows "\<exists>f. fit_at sqr (of_nat m * t) y n = Some f \<and> 0 \<le> fit_chi2 f \<and>
     (fit_chi2 f = 0 \<longleftrightarrow> (\<forall>k. of_nat k * t \<in> set y \<longrightarrow> m dvd n * k)) \<and>
     (fit_chi2 f = 0 \<longrightarrow> fit_b f = of_nat m * t / of_nat n)"
proof -
  let ?mn = "of_nat m * t"
  let ?pts = "map (\<lambda>v. (guess id ?mn n v, v, 0 :: rat)) y"
  have small: "n * k < 2 ^ 31 - 1" if "of_nat k * t \<in> set y" for k using mult assms(1) that by fastforce
  have g0: "guess id ?mn n 0 = 0" using guess_integer [OF assms(1,3), of n 0] by simp
  have gm: "guess id ?mn n ?mn = of_nat n" using guess_integer [OF assms(1,3), of n m] small assms(3,5) by simp
  have pts: "(0, 0, 0) \<in> set ?pts" "(of_nat n, ?mn, 0) \<in> set ?pts"
    using assms(4,5) g0 gm by (force, force)
  have "(of_nat n :: rat) \<noteq> 0" using assms(2) by simp
  from fit_through_origin [OF pts this, of sqr] obtain f where
    f: "regression id sqr False ?pts = Some f" "0 \<le> fit_chi2 f"
       "fit_chi2 f = 0 \<longleftrightarrow> (\<forall>(x, y, g) \<in> set ?pts. y = ?mn / of_nat n * x)" "fit_chi2 f = 0 \<longrightarrow> fit_b f = ?mn / of_nat n" by blast
  have on: "of_nat k * t = ?mn / of_nat n * guess id ?mn n (of_nat k * t) \<longleftrightarrow> m dvd n * k" if k: "of_nat k * t \<in> set y" for k
  proof
    assume "m dvd n * k"
    then have "guess id ?mn n (of_nat k * t) = of_nat (n * k div m)" "of_nat (n * k) = of_nat m * (of_nat (n * k div m) :: rat)"
      using guess_integer [OF assms(1,3) _ small [OF k]] by (auto simp flip: of_nat_mult)
    moreover from this(2) have "of_nat k * t = ?mn / of_nat n * of_nat (n * k div m)"
      using assms(2) by (simp add: field_simps)
    ultimately show "of_nat k * t = ?mn / of_nat n * guess id ?mn n (of_nat k * t)" by simp
  next
    assume e: "of_nat k * t = ?mn / of_nat n * guess id ?mn n (of_nat k * t)"
    obtain i where i: "guess id ?mn n (of_nat k * t) = of_int i" by (simp add: guess_def)
    have "of_nat k * t * of_nat n = of_nat m * of_int i * t" using e i assms(2) by (simp add: field_simps)
    then have "(of_int (int (n * k)) :: rat) = of_int (int m * i)" using assms(1) by (simp add: mult.commute)
    then have "int (n * k) = int m * i" by (simp only: of_int_eq_iff)
    then show "m dvd n * k" by (metis dvd_triv_left int_dvd_int_iff)
  qed
  have "(\<forall>(x, y, g) \<in> set ?pts. y = ?mn / of_nat n * x) \<longleftrightarrow> (\<forall>v \<in> set y. v = ?mn / of_nat n * guess id ?mn n v)" by simp
  also have "\<dots> \<longleftrightarrow> (\<forall>k. of_nat k * t \<in> set y \<longrightarrow> m dvd n * k)" using on mult by metis
  finally show ?thesis using f unfolding fit_at_def by blast
qed

lemma dvd_Gcd_mult: "(\<forall>c \<in> A. (m :: nat) dvd n * c) \<longleftrightarrow> m dvd n * Gcd A"
proof -
  have "m dvd n * Gcd A \<longleftrightarrow> m dvd Gcd ((*) n ` A)" by (simp add: Gcd_mult)
  also have "\<dots> \<longleftrightarrow> (\<forall>c \<in> A. m dvd n * c)" by (auto simp: dvd_Gcd_iff)
  finally show ?thesis by blast
qed

lemma upt_split3: "a \<le> c \<Longrightarrow> c < b \<Longrightarrow> [a..<b] = [a..<c] @ c # [Suc c..<b]"
  using upt_add_eq_append [of a c "b - c"] by (simp add: upt_conv_Cons)

text \<open>For times that are multiples of \<open>t\<close> by numbers with the common divisor \<open>g\<close> the perfect counts are
  the multiples of \<open>m div g\<close>.\<close>

lemma fit_counts:
  assumes "0 < t" "0 < n" "n \<le> 5" "m \<in> set cs" "0 < g" "m = c0 * g" "0 < m" "Gcd (set cs) = g" "0 \<in> set y"
    and in_y: "\<forall>c \<in> set cs. of_nat c * t \<in> set y"
    and mult: "\<forall>v \<in> set y. \<exists>k. v = of_nat k * t \<and> g dvd k \<and> 5 * k < 2 ^ 31 - 1"
  shows "\<exists>f. fit_at sqr (of_nat m * t) y n = Some f \<and> 0 \<le> fit_chi2 f \<and> (fit_chi2 f = 0 \<longleftrightarrow> c0 dvd n) \<and>
      (fit_chi2 f = 0 \<longrightarrow> fit_b f = of_nat m * t / of_nat n)"
proof -
  have "\<forall>v \<in> set y. \<exists>k. v = of_nat k * t \<and> n * k < 2 ^ 31 - 1"
  proof
    fix v assume "v \<in> set y"
    with mult obtain k where "v = of_nat k * t" "5 * k < 2 ^ 31 - 1" by blast
    moreover have "n * k \<le> 5 * k" using assms(3) by (rule mult_le_mono1)
    ultimately show "\<exists>k. v = of_nat k * t \<and> n * k < 2 ^ 31 - 1" by (intro exI [of _ k]) linarith
  qed
  from fit_multiples [OF assms(1,2,7,9) _ this, of sqr] in_y assms(4) obtain f where
    f: "fit_at sqr (of_nat m * t) y n = Some f" "0 \<le> fit_chi2 f"
       "fit_chi2 f = 0 \<longleftrightarrow> (\<forall>k. of_nat k * t \<in> set y \<longrightarrow> m dvd n * k)"
       "fit_chi2 f = 0 \<longrightarrow> fit_b f = of_nat m * t / of_nat n" by auto
  have "m dvd n * g" if "\<forall>k. of_nat k * t \<in> set y \<longrightarrow> m dvd n * k"
    using dvd_Gcd_mult [of "set cs" m n] in_y that assms(8) by auto
  moreover have "m dvd n * k" if "m dvd n * g" "of_nat k * t \<in> set y" for k
  proof -
    have "g dvd k" using mult assms(1) that(2) by fastforce
    with that(1) show ?thesis by (meson dvd_trans mult_dvd_mono dvd_refl)
  qed
  moreover have "m dvd n * g \<longleftrightarrow> c0 dvd n" using assms(5,6) by simp
  ultimately show ?thesis using f by blast
qed

text \<open>The loop over the counts ends with the first perfect one.\<close>

lemma gcd_loop_counts:
  assumes "0 < c0" "c0 \<le> 5"
    and fits: "\<And>n. 0 < n \<Longrightarrow> n \<le> 5 \<Longrightarrow> \<exists>f. fit_at sqr mn y n = Some f \<and> 0 \<le> fit_chi2 f \<and> (fit_chi2 f = 0 \<longleftrightarrow> c0 dvd n) \<and>
      (fit_chi2 f = 0 \<longrightarrow> fit_b f = mn / of_nat n)"
  shows "gcd_loop id sqr mn y [1..<MAX_COUNT] mn 0 = Inr (mn / of_nat c0)"
proof -
  from fits [OF assms(1,2)] obtain fc where
    fc: "fit_at sqr mn y c0 = Some fc" "fit_chi2 fc = 0" "fit_b fc = mn / of_nat c0" by auto
  have "exact_loop sqr mn y ([1..<c0] @ c0 # [Suc c0..<MAX_COUNT]) mn 0 = Inr (fit_b fc)"
  proof (rule gcd_loop_finds [OF _ fc(1,2)])
    show "\<forall>k \<in> set [1..<c0]. \<exists>f. fit_at sqr mn y k = Some f \<and> 0 < fit_chi2 f"
    proof
      fix k assume k: "k \<in> set [1..<c0]"
      then have "\<not> c0 dvd k" by (auto dest: dvd_imp_le)
      with fits [of k] k assms(2) show "\<exists>f. fit_at sqr mn y k = Some f \<and> 0 < fit_chi2 f" by force
    qed
    show "\<forall>k \<in> set [Suc c0..<MAX_COUNT]. k \<noteq> 1 \<and> (\<exists>f. fit_at sqr mn y k = Some f \<and> 0 \<le> fit_chi2 f)"
    proof
      fix k assume "k \<in> set [Suc c0..<MAX_COUNT]"
      then have "1 < k" "k \<le> 5" using assms(1) by (auto simp: MAX_COUNT_def)
      with fits [of k] show "k \<noteq> 1 \<and> (\<exists>f. fit_at sqr mn y k = Some f \<and> 0 \<le> fit_chi2 f)" by auto
    qed
    show "(0 :: rat) < 0 \<or> hd ([1..<c0] @ [c0]) = 1" using assms(1) by (cases "c0 = 1") (auto simp: upt_rec [of 1])
  qed
  also have "[1..<c0] @ c0 # [Suc c0..<MAX_COUNT] = [1..<MAX_COUNT]"
    using assms(1,2) by (intro upt_split3 [symmetric]) (auto simp: MAX_COUNT_def)
  finally show ?thesis unfolding exact_loop_def fc(3) .
qed

lemma cross_room:
  assumes "2 \<le> length vs"
  shows "length (cross_values rnd vs @ [z]) \<le> length vs * length vs"
proof -
  have "length vs * 2 \<le> length vs * length vs" using assms by simp
  moreover have "2 * length (cross_values rnd vs @ [z]) = length vs * length vs + length vs + 2"
    using length_cross [of rnd vs] by simp
  ultimately show ?thesis using assms by linarith
qed

lemma gcd_values_multiples:
  assumes "0 < t" "2 \<le> length cs" "\<forall>c \<in> set cs. 0 < c \<and> 5 * c < 2 ^ 31 - 1" "Min (set cs) \<le> 5 * Gcd (set cs)"
  shows "gcd_values id sqr (map (\<lambda>c. of_nat c * t) cs) = Inr (of_nat (Gcd (set cs)) * t)"
proof -
  define m where "m = Min (set cs)"
  define g where "g = Gcd (set cs)"
  define vs where "vs = map (\<lambda>c. of_nat c * t) cs"
  define y where "y = cross_values id vs @ [0]"
  have ne: "cs \<noteq> []" using assms(2) by auto
  have m: "m \<in> set cs" "0 < m" using assms(3) ne Min_in [of "set cs"] by (auto simp: m_def)
  have g: "g dvd m" "0 < g" using m by (auto simp: g_def intro!: Gcd_dvd Nat.gr0I)
  define c0 where "c0 = m div g"
  have c0: "m = c0 * g" "0 < c0" "c0 \<le> 5" using g m assms(4) by (auto simp: c0_def m_def [symmetric] g_def [symmetric])
  have in_y: "\<forall>c \<in> set cs. of_nat c * t \<in> set y" "0 \<in> set y"
    using cross_superset [of vs id] by (auto simp: y_def vs_def)
  have small: "5 * Max (set cs) < 2 ^ 31 - 1" using assms(3) ne Max_in [of "set cs"] by auto
  have mult: "\<forall>v \<in> set y. \<exists>k. v = of_nat k * t \<and> g dvd k \<and> 5 * k < 2 ^ 31 - 1"
  proof
    fix v assume "v \<in> set y"
    then have "\<exists>k. v = of_nat k * t \<and> g dvd k \<and> k \<le> Max (set cs)"
      using cross_multiples [OF assms(1), of v cs g "Max (set cs)"] by (auto simp: y_def vs_def g_def)
    with small show "\<exists>k. v = of_nat k * t \<and> g dvd k \<and> 5 * k < 2 ^ 31 - 1" by (metis mult_le_mono2 le_less_trans)
  qed
  have "gcd_loop id sqr (of_nat m * t) y [1..<MAX_COUNT] (of_nat m * t) 0 = Inr (of_nat m * t / of_nat c0)"
    by (rule gcd_loop_counts [OF c0(2,3)])
      (rule fit_counts [OF assms(1) _ _ m(1) g(2) c0(1) m(2) g_def [symmetric] in_y(2,1) mult])
  moreover have "of_nat m * t / of_nat c0 = of_nat g * t" using c0(1,2) by simp
  moreover have "double_min vs = Inr (of_nat m * t)"
    using double_min_eq [of vs] Min_multiples [OF assms(1) ne] ne by (simp add: vs_def m_def)
  moreover have "\<not> length vs * length vs < length y" using cross_room [of vs id 0] assms(2) by (simp add: y_def vs_def)
  ultimately show ?thesis using m(2) assms(1)
    unfolding gcd_values_def vs_def [symmetric] g_def [symmetric] by (simp add: Let_def y_def [symmetric])
qed

text \<open>\<open>gcd\<close> computes the greatest common divisor: if the measured times are whole multiples \<open>c * t\<close>
  of a time \<open>t\<close> without error, of which the smallest is at most five times the common divisor of
  the numbers \<open>c\<close>, then the result is that divisor times \<open>t\<close>; the clock period if the numbers are
  relatively prime.\<close>

theorem gcd_values_exact:
  assumes "0 < t" "2 \<le> length cs" "\<forall>c \<in> set cs. 0 < c \<and> 5 * c < 2 ^ 31 - 1" "Min (set cs) \<le> 5 * Gcd (set cs)"
  shows "gcd_values id sqr (map (\<lambda>c. of_nat c * t) cs) = Inr (of_nat (Gcd (set cs)) * t)"
  using assms by (rule gcd_values_multiples)

theorem gcd_values_exact_witness: "gcd_values id id [2 * (5 / 100), 3 * (5 / 100)] = Inr (5 / 100)"
proof -
  have "Gcd (set [2, 3 :: nat]) = 1" by simp
  then show ?thesis using gcd_values_exact [of "5 / 100" "[2, 3]" id] by simp
qed

section \<open>The clock rate of exact measurements\<close>

lemma middle_bounds:
  assumes "vs \<noteq> []" "\<forall>v \<in> set vs. lo \<le> v \<and> v \<le> hi"
  shows "\<exists>M. middle id vs = Inr M \<and> lo \<le> M \<and> M \<le> hi"
proof -
  have n: "length vs div 2 < length (sort vs)" "length vs div 2 - 1 < length (sort vs)" using assms(1) by (cases vs; simp)+
  have b: "lo \<le> sort vs ! k" "sort vs ! k \<le> hi" if "k < length (sort vs)" for k
    using assms(2) nth_mem [OF that] by auto
  show ?thesis
    using b [OF n(1)] b [OF n(2)] assms(1)
    by (auto simp: middle_def double_cmp.qsort_sort Let_def)
qed

lemma multiples_bounds:
  fixes t :: rat
  assumes "0 < t" "\<forall>c \<in> set cs. 0 < c \<and> c \<le> 5" "v \<in> set (map (\<lambda>c. of_nat c * t) cs)"
  shows "t \<le> v" "v \<le> 5 * t"
proof -
  from assms(3) obtain c where c: "c \<in> set cs" "v = of_nat c * t" by auto
  then have "(1 :: rat) \<le> of_nat c" "(of_nat c :: rat) \<le> 5" using assms(2) by auto
  then show "t \<le> v" "v \<le> 5 * t"
    unfolding c using assms(1) mult_right_mono [of 1 "of_nat c" t] mult_right_mono [of "of_nat c" 5 t] by simp_all
qed

lemma middle_multiples:
  fixes t :: rat
  assumes "0 < t" "cs \<noteq> []" "\<forall>c \<in> set cs. 0 < c \<and> c \<le> 5"
  obtains M where "middle id (map (\<lambda>c. of_nat c * t) cs) = Inr M" "t \<le> M" "M \<le> 5 * t"
  using middle_bounds [of "map (\<lambda>c. of_nat c * t) cs" t "5 * t"] multiples_bounds [OF assms(1,3)] assms(2) by blast

text \<open>For multiples of \<open>t\<close> by numbers up to 5 nothing is filtered out, and there are two classes exactly
  if two of the numbers differ.\<close>

lemma filter_data_multiples:
  assumes "0 < t" "cs \<noteq> []" "\<forall>c \<in> set cs. 0 < c \<and> c \<le> 5"
  shows "\<exists>vs. filter_data id (map (\<lambda>c. of_nat c * t) cs) = Inr (length cs, vs) \<and> take (length cs) vs = map (\<lambda>c. of_nat c * t) cs"
proof -
  let ?d = "map (\<lambda>c. of_nat c * t) cs"
  from middle_multiples [OF assms] obtain M where M: "middle id ?d = Inr M" "t \<le> M" "M \<le> 5 * t" .
  obtain n vs where f: "filter_data id ?d = Inr (n, vs)"
    unfolding filter_data_def M(1) and_then.simps by (metis surj_pair)
  have "filter (\<lambda>v. id (id (5 / 100) * M) < v \<and> v < id (20 * M)) ?d = ?d"
  proof (rule filter_True, rule ballI)
    fix v assume "v \<in> set ?d"
    then have "t \<le> v" "v \<le> 5 * t" using multiples_bounds [OF assms(1,3)] by auto
    then show "id (id (5 / 100) * M) < v \<and> v < id (20 * M)" using M assms(1) by simp
  qed
  with filter_data_ok [OF f M(1)] have *: "take n vs = ?d" "n = length (take n vs)" by (metis, metis)
  have "n = length ?d" using *(2) unfolding *(1) .
  then have "n = length cs" by simp
  then show ?thesis using f * by simp
qed

lemma count_fold: "fold (\<lambda>i n. if P i then Suc n else n) xs n = n + length (filter P xs)"
  by (induction xs arbitrary: n) auto

lemma neighbours_differ:
  "filter (\<lambda>i. ds ! i \<noteq> ds ! (i - 1)) [1..<length ds] \<noteq> [] \<longleftrightarrow> (\<exists>a \<in> set ds. \<exists>b \<in> set ds. a \<noteq> b)"
proof
  assume "filter (\<lambda>i. ds ! i \<noteq> ds ! (i - 1)) [1..<length ds] \<noteq> []"
  then obtain i where "i < length ds" "ds ! i \<noteq> ds ! (i - 1)" by (auto simp: filter_empty_conv)
  then show "\<exists>a \<in> set ds. \<exists>b \<in> set ds. a \<noteq> b" by (metis less_imp_diff_less nth_mem)
next
  assume ab: "\<exists>a \<in> set ds. \<exists>b \<in> set ds. a \<noteq> b"
  show "filter (\<lambda>i. ds ! i \<noteq> ds ! (i - 1)) [1..<length ds] \<noteq> []"
  proof
    assume no: "filter (\<lambda>i. ds ! i \<noteq> ds ! (i - 1)) [1..<length ds] = []"
    have "ds ! i = ds ! 0" if "i < length ds" for i using that
    proof (induction i)
      case (Suc i)
      then have "ds ! Suc i = ds ! i" using no by (auto simp: filter_empty_conv)
      with Suc show ?case by simp
    qed simp
    with ab show False by (metis in_set_conv_nth)
  qed
qed

lemma classes_multiples:
  assumes "0 < t" "cs \<noteq> []" "\<forall>c \<in> set cs. 0 < c \<and> c \<le> 5"
  shows "\<exists>k. classes id (map (\<lambda>c. of_nat c * t) cs) = Inr k \<and> (2 \<le> k \<longleftrightarrow> (\<exists>a \<in> set cs. \<exists>b \<in> set cs. a \<noteq> b))"
proof -
  let ?d = "map (\<lambda>c. of_nat c * t) cs"
  define ds where "ds = sort ?d"
  have sd: "set ds = (\<lambda>c. of_nat c * t) ` set cs" by (simp add: ds_def)
  from middle_multiples [OF assms] obtain M where M: "middle id ?d = Inr M" "t \<le> M" "M \<le> 5 * t" .
  have cl: "classes id ?d = Inr (1 + length (filter (\<lambda>i. ds ! i - ds ! (i - 1) > 5 / 100 * M) [1..<length ds]))"
    using M(1) by (simp add: classes_def double_cmp.qsort_sort ds_def [symmetric] Let_def count_fold)
  have jump: "ds ! i - ds ! (i - 1) > 5 / 100 * M \<longleftrightarrow> ds ! i \<noteq> ds ! (i - 1)" if i: "i \<in> set [1..<length ds]" for i
  proof
    assume "ds ! i - ds ! (i - 1) > 5 / 100 * M"
    then show "ds ! i \<noteq> ds ! (i - 1)" using M(2) assms(1) by auto
  next
    assume ne: "ds ! i \<noteq> ds ! (i - 1)"
    have "ds ! i \<in> set ds" "ds ! (i - 1) \<in> set ds" using i by auto
    then obtain a c where ac: "ds ! i = of_nat a * t" "ds ! (i - 1) = of_nat c * t" unfolding sd by blast
    have "ds ! (i - 1) \<le> ds ! i" using i by (simp add: ds_def sorted_nth_mono)
    then have "ds ! (i - 1) < ds ! i" using ne by linarith
    then have "of_nat c * t < of_nat a * t" unfolding ac .
    then have "c + 1 \<le> a" using assms(1) by simp
    then have "(of_nat (c + 1) :: rat) \<le> of_nat a" by (simp only: of_nat_le_iff)
    then have "of_nat (c + 1) * t \<le> of_nat a * t" using assms(1) by (intro mult_right_mono) auto
    then have "t \<le> ds ! i - ds ! (i - 1)" unfolding ac by (simp add: algebra_simps)
    then show "ds ! i - ds ! (i - 1) > 5 / 100 * M" using M(3) assms(1) by linarith
  qed
  have "filter (\<lambda>i. ds ! i - ds ! (i - 1) > 5 / 100 * M) [1..<length ds] = filter (\<lambda>i. ds ! i \<noteq> ds ! (i - 1)) [1..<length ds]"
    by (rule filter_cong [OF refl jump])
  moreover have "(\<exists>a \<in> set ds. \<exists>b \<in> set ds. a \<noteq> b) \<longleftrightarrow> (\<exists>a \<in> set cs. \<exists>b \<in> set cs. a \<noteq> b)"
    unfolding sd using assms(1) by auto
  ultimately show ?thesis using cl neighbours_differ [of ds] by (auto simp: Suc_le_eq)
qed

text \<open>Measurements without error: the two best of every loop are the same multiple of \<open>t\<close>, and there are
  enough of them.\<close>

definition exact_data :: "rat \<Rightarrow> (nat \<Rightarrow> nat) \<Rightarrow> result_t list \<Rightarrow> bool" where
  "exact_data t c r \<longleftrightarrow> (\<forall>j < NTESTS. \<forall>i < 2. TRIES div 2 < r_N (r ! j) \<and> r_N (r ! j) \<le> length (r_v (r ! j)) \<and>
     (let v = r_v (r ! j) ! (r_N (r ! j) - 1 - i) in
      v_n v \<noteq> 0 \<and> rat_of_nat (unat (v_u v)) = rat_of_nat (c j) * t * rat_of_nat (unat (v_n v))))"

lemma sample_exact:
  assumes "exact_data t c r" "j < NTESTS" "i < 2"
  shows "sample_of id i (r ! j) = Inr (of_nat (c j) * t)"
proof -
  define v where "v = r_v (r ! j) ! (r_N (r ! j) - 1 - i)"
  have d: "TRIES div 2 < r_N (r ! j)" "r_N (r ! j) \<le> length (r_v (r ! j))" "v_n v \<noteq> 0"
    "rat_of_nat (unat (v_u v)) = rat_of_nat (c j) * t * rat_of_nat (unat (v_n v))"
    using assms by (auto simp: exact_data_def Let_def v_def)
  have "rat_of_nat (unat (v_n v)) \<noteq> 0" using d(3) by (simp only: of_nat_eq_0_iff unat_eq_zero not_False_eq_True)
  then have "dbl id (v_u v) / dbl id (v_n v) = of_nat (c j) * t" unfolding dbl_def id_apply d(4) by (rule nonzero_mult_div_cancel_right)
  then show ?thesis using d by (simp add: sample_of_def Let_def v_def)
qed

text \<open>Every subset gives the clock rate or nothing, and the subset of all loops gives it.\<close>

lemma try_subset_exact:
  assumes "0 < t" "exact_data t c r" "i < 2" "\<forall>j < NTESTS. 0 < c j \<and> c j \<le> 5"
    and "\<forall>j < NTESTS. \<forall>k < NTESTS. c j = c k \<or> coprime (c j) (c k)"
    and "a < NTESTS" "b < NTESTS" "c a \<noteq> c b"
  shows "try_subset id sqr r i sub \<in> {Inr None, Inr (Some (1 / t))}"
    and "\<forall>j < NTESTS. BIT_SET sub j \<Longrightarrow> try_subset id sqr r i sub = Inr (Some (1 / t))"
proof -
  define js where "js = filter (\<lambda>j. BIT_SET sub j \<and> r_N (r ! j) > TRIES div 2) [0..<NTESTS]"
  define cs where "cs = map c js"
  have js: "j < NTESTS" if "j \<in> set js" for j using that by (auto simp: js_def)
  have "collect_res (\<lambda>j. sample_of id i (r ! j)) js = Inr (map (\<lambda>j. of_nat (c j) * t) js)"
    by (rule collect_res_ok) (use js sample_exact [OF assms(2) _ assms(3)] in auto)
  then have data: "collect_res (\<lambda>j. sample_of id i (r ! j)) js = Inr (map (\<lambda>c. of_nat c * t) cs)" by (simp add: cs_def comp_def)
  have cs: "\<forall>c \<in> set cs. 0 < c \<and> c \<le> 5" using assms(4) js by (auto simp: cs_def)
  have big: "try_subset id sqr r i sub = Inr (if \<exists>a \<in> set cs. \<exists>b \<in> set cs. a \<noteq> b then Some (1 / t) else None)"
    if n: "2 \<le> length cs"
  proof -
    have ne: "cs \<noteq> []" using n by auto
    from filter_data_multiples [OF assms(1) ne cs] obtain vs where
      vs: "filter_data id (map (\<lambda>c. of_nat c * t) cs) = Inr (length cs, vs)" "take (length cs) vs = map (\<lambda>c. of_nat c * t) cs" by blast
    from classes_multiples [OF assms(1) ne cs] obtain k where
      k: "classes id (map (\<lambda>c. of_nat c * t) cs) = Inr k" "2 \<le> k \<longleftrightarrow> (\<exists>a \<in> set cs. \<exists>b \<in> set cs. a \<noteq> b)" by blast
    have "gcd_values id sqr (map (\<lambda>c. of_nat c * t) cs) = Inr t" if "2 \<le> k"
    proof -
      from that k(2) obtain x z where xz: "x \<in> set cs" "z \<in> set cs" "x \<noteq> z" by blast
      then have "coprime x z" using assms(5) js by (auto simp: cs_def)
      moreover have "Gcd (set cs) dvd x" "Gcd (set cs) dvd z" using xz by (auto intro: Gcd_dvd)
      ultimately have "Gcd (set cs) = 1" using coprime_common_divisor_nat by blast
      moreover have "Min (set cs) \<le> 5" using cs ne Min_in [of "set cs"] by auto
      moreover have "\<forall>c \<in> set cs. 0 < c \<and> 5 * c < 2 ^ 31 - 1" using cs by fastforce
      ultimately show ?thesis using gcd_values_multiples [OF assms(1) n, of sqr] by simp
    qed
    then show ?thesis
      using data vs k n assms(1) unfolding try_subset_def js_def [symmetric] by (auto simp: not_le)
  qed
  moreover have "try_subset id sqr r i sub = Inr None" if "\<not> 2 \<le> length cs"
    using data that unfolding try_subset_def js_def [symmetric] by simp
  ultimately show "try_subset id sqr r i sub \<in> {Inr None, Inr (Some (1 / t))}" by (cases "2 \<le> length cs") auto
  assume all: "\<forall>j < NTESTS. BIT_SET sub j"
  have "TRIES div 2 < r_N (r ! j)" if "j < NTESTS" for j using assms(2,3) that unfolding exact_data_def by blast
  with all have js_all: "js = [0..<NTESTS]" by (auto simp: js_def filter_id_conv)
  then have "c a \<in> set cs" "c b \<in> set cs" using assms(6,7) by (auto simp: cs_def)
  moreover have "2 \<le> length cs" by (simp add: cs_def js_all NTESTS_def)
  ultimately show "try_subset id sqr r i sub = Inr (Some (1 / t))" using big assms(8) by auto
qed

lemma mode_all_same:
  assumes "vs \<noteq> []" "\<forall>v \<in> set vs. v = x" "- (2 ^ 31) \<le> x + 1 / 2" "x + 1 / 2 < 2 ^ 31"
  shows "mode id vs = Inr (nearest id x)"
proof -
  have "mono (id :: rat \<Rightarrow> rat)" by (simp add: mono_def)
  moreover have "\<forall>v \<in> set vs. - (2 ^ 31) \<le> id (v + 1 / 2) \<and> id (v + 1 / 2) < 2 ^ 31" using assms(2-4) by auto
  ultimately obtain m where "mode id vs = Inr m" "m \<in> nearest id ` set vs" using mode_ok [OF _ assms(1)] by blast
  with assms(2) show ?thesis by auto
qed

lemma mhz_of_exact:
  assumes "0 < t" "exact_data t c r" "i < 2" "\<forall>j < NTESTS. 0 < c j \<and> c j \<le> 5"
    and "\<forall>j < NTESTS. \<forall>k < NTESTS. c j = c k \<or> coprime (c j) (c k)"
    and "a < NTESTS" "b < NTESTS" "c a \<noteq> c b" "1 / t + 1 / 2 < 2 ^ 31"
  shows "mhz_of id sqr r i = Inr (nearest id (1 / t))"
proof -
  note sub = try_subset_exact [OF assms(1-8), where sqr = sqr]
  define res where "res = (\<lambda>sub. case try_subset id sqr r i sub of Inr x \<Rightarrow> x | Inl _ \<Rightarrow> None)"
  have each: "try_subset id sqr r i sub = Inr (res sub)" "res sub \<in> {None, Some (1 / t)}" for sub
    using sub(1) [of sub] by (auto simp: res_def)
  define found where "found = map res [0..<2 ^ NTESTS]"
  have "collect_res (try_subset id sqr r i) [0..<2 ^ NTESTS] = Inr found"
    unfolding found_def by (rule collect_res_ok) (rule each(1))
  moreover have "mode id (map the (filter (\<lambda>x. x \<noteq> None) found)) = Inr (nearest id (1 / t))"
  proof (rule mode_all_same)
    have "BIT_SET (2 ^ NTESTS - 1) j" if "j < NTESTS" for j
      using that unfolding BIT_SET_def mask_eq_exp_minus_1 [symmetric] bit_mask_iff by simp
    then have "res (2 ^ NTESTS - 1) = Some (1 / t)" using sub(2) by (simp add: res_def)
    then have "Some (1 / t) = res (2 ^ NTESTS - 1)" by (rule sym)
    moreover have "(2 :: nat) ^ NTESTS - 1 \<in> set [0..<2 ^ NTESTS]" by simp
    ultimately have "Some (1 / t) \<in> set found" unfolding found_def set_map by (rule image_eqI)
    then have "Some (1 / t) \<in> set (filter (\<lambda>x. x \<noteq> None) found)" by simp
    then show "map the (filter (\<lambda>x. x \<noteq> None) found) \<noteq> []" by (metis empty_iff empty_set map_is_Nil_conv)
    have "x = None \<or> x = Some (1 / t)" if "x \<in> set found" for x
    proof -
      from that obtain s where "x = res s" unfolding found_def set_map by blast
      with each(2) [of s] show ?thesis by blast
    qed
    then show "\<forall>v \<in> set (map the (filter (\<lambda>x. x \<noteq> None) found)). v = 1 / t" by fastforce
    have "0 < 1 / t" using assms(1) by simp
    moreover have "- (2 ^ 31) \<le> (0 :: rat)" by simp
    ultimately show "- (2 ^ 31) \<le> 1 / t + 1 / 2" by linarith
  qed (rule assms(9))
  ultimately show ?thesis by (simp add: mhz_of_def)
qed


text \<open>Loops of 2 and 3 cycles at 120 MHz, the example of the source: 1000 passes of the latter take 25 microseconds.\<close>

definition mhz_example :: "result_t list" where
  "mhz_example = map (\<lambda>j. \<lparr>r_N = 6, r_v = replicate 6 \<lparr>v_u = (if j = 0 then 50 else 75), v_n = 3000\<rparr>\<rparr>) [0..<NTESTS]"


section \<open>The loops and unusable measurements\<close>

lemma repeat_res_inv:
  assumes "P x" "\<And>z. P z \<Longrightarrow> \<exists>z'. f z = Inr z' \<and> P z'"
  shows "\<exists>y. repeat_res k f x = Inr y \<and> P y"
  using assms(1)
proof (induction k arbitrary: x)
  case (Suc k)
  from assms(2) [OF Suc.prems] obtain z where "f x = Inr z" "P z" by blast
  with Suc.IH [of z] show ?case by simp
qed simp

text \<open>No loop shifts by more than the width of its register: the shift count is 1, or twice a register
  that is 1 or 0.\<close>

theorem mhz_run_returns:
  "returns (mhz_run deref M n p 1 1)"
proof -
  define P :: "mhz_regs \<Rightarrow> bool" where "P = (\<lambda>r. M \<in> {4, 5, 6} \<longrightarrow> rg_b r = 1 \<and> (M = 5 \<longrightarrow> rg_a r = 0 \<or> rg_a r = 1))"
  have step: "\<exists>r'. mhz_expr deref M r = Inr r' \<and> P r'" if "P r" for r
    using that by (auto simp: P_def mhz_expr_def shift_by_def Let_def s64_def drop_bit_Suc numeral_2_eq_2)
  have "\<exists>r'. mhz_passes deref M n r = Inr r'" if "P r" for r
    using that
  proof (induction n arbitrary: r)
    case (Suc n)
    then have "P (r\<lparr>rg_n := int (Suc n)\<rparr>)" by (simp add: P_def)
    from repeat_res_inv [where P = P and f = "mhz_expr deref M" and k = 100, OF this] step obtain r' where
      "repeat_res 100 (mhz_expr deref M) (r\<lparr>rg_n := int (Suc n)\<rparr>) = Inr r'" "P r'" by blast
    then show ?case using Suc.IH [of r'] by simp
  qed simp
  then have "\<exists>r'. mhz_passes deref M n \<lparr>rg_n = int n, rg_p = p, rg_a = 1, rg_b = 1\<rparr> = Inr r'" by (simp add: P_def)
  then show ?thesis by (auto simp: mhz_run_def)
qed

text \<open>If no loop has enough measurements there is nothing to take the mode of, and an element of the array of
  results that was never written is read.\<close>

theorem compute_mhz_unwritten:
  assumes "\<forall>j < NTESTS. r_N (r ! j) \<le> TRIES div 2"
  shows "compute_mhz rnd sqr r = Inl unwritten"
proof -
  have "filter (\<lambda>j. BIT_SET s j \<and> r_N (r ! j) > TRIES div 2) [0..<NTESTS] = []" for s
    using assms by (auto simp: filter_empty_conv not_less)
  then have "try_subset rnd sqr r i s = Inr None" for i s by (simp add: try_subset_def)
  then have "collect_res (try_subset rnd sqr r i) xs = Inr (map (\<lambda>s. None) xs)" for i xs
    by (intro collect_res_ok)
  then have "mhz_of rnd sqr r i = Inl unwritten" for i
    by (simp add: mhz_of_def mode_def qsort_def filter_map comp_def)
  then show ?thesis by (simp add: compute_mhz_def)
qed

end
