(* ===== verification/Lm_Dd.thy ===== *)
theory Lm_Dd
  imports Lm_Util Lm_Report Lm_Enough
begin

text \<open>
  The copy program \<open>lmdd\<close> (\<open>src/lmbench-3.0-a9/src/lmdd.c\<close>): it moves blocks from an input to an
  output, both optional, in sequence or at random offsets, can write and check a pattern, and
  reports the rate.  The definitions follow the source from the table of arguments to the report.

  The kernel is the record \<open>dd_env\<close>: how many bytes each call of \<open>read\<close> and \<open>write\<close> can move
  (or that it fails), the clock, \<open>drand48\<close>, \<open>fork\<close>, \<open>open\<close> and the allocators.  A file is its
  bytes and a position; input and output are different files.  What the program prints is a list of
  messages.  Not modelled: the signals (\<open>alarm\<close>, the interrupt key), which call \<open>done\<close> at any
  moment, and the variants of other systems (\<open>USE_BDS\<close>, \<open>sgi\<close>, \<open>O_DIRECT\<close>, \<open>F_FSSETXATTR\<close>).
  \<open>-DRUSAGE\<close> and \<open>FLUSH\<close> are on.
\<close>

section \<open>Arguments\<close>

definition cmds :: "string list" where
  "cmds = [''bs'', ''bufs'', ''count'', ''flush'', ''fork'', ''fsync'', ''if'', ''ipat'', ''label'', ''mismatch'', ''move'',
     ''of'', ''opat'', ''print'', ''rand'', ''poff'', ''rusage'', ''skip'', ''sync'', ''touch'', ''usleep'', ''hash'', ''append'',
     ''rtmax'', ''wtmax'', ''rtmin'', ''wtmin'', ''realtime'', ''notrunc'', ''end'', ''start'', ''time'', ''srand'', ''padin'',
     ''norepeat'', ''timeopen'', ''nocreate'', ''osync'']"

text \<open>The inner loop of \<open>chkarg\<close>: the rest of \<open>a\<close> where it first differs from \<open>b\<close> or one of them ends.\<close>

fun differ :: "string \<Rightarrow> string \<Rightarrow> string" where
  "differ (a # as) (b # bs) = (if a = b then differ as bs else a # as)"
| "differ as bs = as"

text \<open>Whether \<open>chkarg\<close> returns; it exits otherwise.\<close>

definition chkarg :: "string \<Rightarrow> bool" where
  "chkarg arg = list_ex (\<lambda>c. differ arg c \<noteq> [] \<and> hd (differ arg c) = CHR ''='') cmds"

text \<open>\<open>bytes\<close> always returns (\<open>bytes_returns\<close>).\<close>

definition size_arg :: "string \<Rightarrow> u64" where
  "size_arg s = (case bytes s of Inr n \<Rightarrow> n | Inl _ \<Rightarrow> 0)"

text \<open>\<open>getarg\<close>: the value of the first argument that starts with \<open>s\<close>; the arguments are those after
  the name of the program.  For \<open>label=\<close> the address of the text is returned: \<open>getlabel\<close>.\<close>

fun getarg :: "string \<Rightarrow> string list \<Rightarrow> u64" where
  "getarg s [] = - 1"
| "getarg s (a # av) = (if take (length s) a = s then size_arg (drop (length s) a) else getarg s av)"

fun getlabel :: "string list \<Rightarrow> string option" where
  "getlabel [] = None"
| "getlabel (a # av) = (if take 6 a = ''label='' then Some (drop 6 a) else getlabel av)"

text \<open>An argument stored in an \<open>int\<close>.\<close>

definition intarg :: "string \<Rightarrow> string list \<Rightarrow> int" where
  "intarg s av = to_int (getarg s av)"

definition ALIGN :: "u64 \<Rightarrow> int \<Rightarrow> u64" where
  "ALIGN x bs = (x + to_u64 (bs - 1)) AND to_u64 (NOT (bs - 1))"

record dd_opts =
  o_mismatch :: int
  o_inpat :: int
  o_outpat :: int
  o_bsize :: int
  o_fork :: int
  o_fsync :: int
  o_sync :: int
  o_rand :: u64
  o_start :: u64
  o_end :: u64
  o_poff :: bool
  o_print :: int
  o_nbufs :: int
  o_rtmax :: int
  o_rtmin :: int
  o_wtmax :: int
  o_wtmin :: int
  o_padin :: int
  o_ru :: int
  o_touch :: bool
  o_hash :: bool
  o_label :: "string option"
  o_count :: u64
  o_size :: u64
  o_flush :: int
  o_skip :: u64
  o_norepeat :: bool

text \<open>The bounds of a histogram: a maximum of at least 10, a minimum of 0 if only the maximum is given.\<close>

definition hist_max :: "int \<Rightarrow> int" where
  "hist_max m = (if m \<noteq> - 1 \<and> m < 10 then 10 else m)"

definition hist_min :: "int \<Rightarrow> int \<Rightarrow> int" where
  "hist_min tmax m = (if tmax \<noteq> - 1 \<and> m = - 1 then 0 else m)"

text \<open>The first half of \<open>main\<close>: the options and the checks on them.\<close>

definition read_opts :: "string list \<Rightarrow> dd_opts res" where
  "read_opts av =
     (let bsize = (if intarg ''bs='' av < 0 then 8192 else intarg ''bs='' av);
          rand = getarg ''rand='' av;
          end0 = getarg ''end='' av;
          end1 = (if end0 \<noteq> - 1 \<and> rand \<noteq> - 1 \<and> rand < end0 then rand else end0);
          rtmax = hist_max (intarg ''rtmax='' av);
          rtmin = hist_min rtmax (intarg ''rtmin='' av);
          wtmax = hist_max (intarg ''wtmax='' av);
          wtmin = hist_min wtmax (intarg ''wtmin='' av);
          nbufs = (if intarg ''bufs='' av = - 1 then 1 else intarg ''bufs='' av);
          inpat = intarg ''ipat='' av;
          outpat = intarg ''opat='' av;
          move = getarg ''move='' av
      in if rtmin \<noteq> 0 \<and> rtmax = 0 \<or> wtmin \<noteq> 0 \<and> wtmax = 0 then Inl (Exit 1)
         else if rtmax < rtmin \<or> wtmax < wtmin then Inl (Exit 1)
         else if 10 < nbufs then Inl (Exit 1)
         else if move \<noteq> - 1 \<and> bsize = 0 then Inl Div_By_Zero
         else if (inpat \<noteq> - 1 \<or> outpat \<noteq> - 1) \<and> bsize AND 3 \<noteq> 0 then Inl (Exit 1)
         else if bsize div 4 = 0 then Inl (Exit 1)
         else Inr \<lparr>o_mismatch = intarg ''mismatch='' av, o_inpat = inpat, o_outpat = outpat, o_bsize = bsize,
           o_fork = intarg ''fork='' av, o_fsync = intarg ''fsync='' av, o_sync = intarg ''sync='' av,
           o_rand = rand, o_start = getarg ''start='' av, o_end = end1,
           o_poff = (getarg ''poff='' av \<noteq> - 1), o_print = intarg ''print='' av, o_nbufs = nbufs,
           o_rtmax = rtmax, o_rtmin = rtmin, o_wtmax = wtmax, o_wtmin = wtmin,
           o_padin = (if intarg ''padin='' av = - 1 then 0 else intarg ''padin='' av), o_ru = intarg ''rusage='' av,
           o_touch = (getarg ''touch='' av \<noteq> - 1), o_hash = (getarg ''hash='' av \<noteq> - 1), o_label = getlabel av,
           o_count = (if move \<noteq> - 1 then move div to_u64 bsize else getarg ''count='' av),
           o_size = (if rand \<noteq> - 1 then ALIGN (rand - to_u64 bsize) bsize else move),
           o_flush = intarg ''flush='' av, o_skip = getarg ''skip='' av, o_norepeat = (getarg ''norepeat='' av \<noteq> - 1)\<rparr>)"

section \<open>Files and messages\<close>

record dd_file =
  fl_bytes :: "u8 list"
  fl_pos :: int
  fl_seekable :: bool
  fl_append :: bool

record oflags =
  of_write :: bool
  of_trunc :: bool
  of_creat :: bool
  of_append :: bool
  of_sync :: bool

datatype dd_msg =
    Offset u64
  | Mismatch u32 u32 u32
  | Read_Time int int
  | Write_Time int int
  | Norepeat u32
  | Perror string
  | Short_Write int int
  | Hash_Mark
  | Newline
  | Label_Text string
  | Sync_All
  | Fsync_Out
  | Invalidate string
  | Rusage
  | Report "item list"
  | Hist_Head string
  | Hist_Below int int
  | Hist_Range int int int
  | Hist_Above int int

record dd_env =
  dd_rnd :: rounding
  dd_clock :: "nat \<Rightarrow> timeval"
  dd_rd :: "nat \<Rightarrow> nat option"
  dd_wr :: "nat \<Rightarrow> nat option"
  dd_drand :: "nat \<Rightarrow> rat"
  dd_fork :: "nat \<Rightarrow> bool"
  dd_open :: "string \<Rightarrow> oflags \<Rightarrow> int"
  dd_disk :: "string \<Rightarrow> u8 list"
  dd_std :: "int \<Rightarrow> dd_file"
  dd_seeks :: "string \<Rightarrow> bool"
  dd_valloc :: bool
  dd_calloc :: bool
  dd_reopen :: "string \<Rightarrow> nat option"

record dd_state =
  d_count :: u64
  d_off :: u64
  d_side :: u64
  d_bufs :: "u8 list list"
  d_nextbuf :: nat
  d_padin :: int
  d_misses :: int
  d_norepeat :: "u64 list option"
  d_norepeats :: int
  d_int_count :: u64
  d_rthist :: "int list"
  d_wthist :: "int list"
  d_in :: dd_file
  d_out :: dd_file
  d_timing :: timing
  d_calls :: nat
  d_reads :: nat
  d_writes :: nat
  d_rands :: nat
  d_forks :: nat
  d_log :: "dd_msg list"

definition say :: "dd_msg list \<Rightarrow> dd_state \<Rightarrow> dd_state" where
  "say ms st = st\<lparr>d_log := d_log st @ ms\<rparr>"

text \<open>\<open>lseek\<close>, \<open>read\<close> and \<open>write\<close> on a file; \<open>write\<close> fills a gap before its position with zeros.\<close>

definition file_lseek :: "nat \<Rightarrow> bool \<Rightarrow> int lseek" where
  "file_lseek len seekable off wh pos =
     (let pos' = (case wh of SEEK_SET \<Rightarrow> off | SEEK_CUR \<Rightarrow> pos + off | SEEK_END \<Rightarrow> int len + off)
      in if seekable \<and> 0 \<le> pos' then (pos', pos') else (- 1, pos))"

definition seek_file :: "int \<Rightarrow> whence \<Rightarrow> dd_file \<Rightarrow> int \<times> dd_file" where
  "seek_file off wh f =
     (let (v, pos) = seekto (file_lseek (length (fl_bytes f)) (fl_seekable f)) (\<lambda>_. True) off wh (fl_pos f)
      in (v, f\<lparr>fl_pos := pos\<rparr>))"

definition read_file :: "nat option \<Rightarrow> nat \<Rightarrow> dd_file \<Rightarrow> (u8 list option) \<times> dd_file" where
  "read_file most n f =
     (case most of
        None \<Rightarrow> (None, f)
      | Some k \<Rightarrow> let data = take (min n k) (drop (nat (fl_pos f)) (fl_bytes f))
                in (Some data, f\<lparr>fl_pos := fl_pos f + int (length data)\<rparr>))"

definition write_file :: "nat option \<Rightarrow> u8 list \<Rightarrow> dd_file \<Rightarrow> int \<times> dd_file" where
  "write_file most data f =
     (case most of
        None \<Rightarrow> (- 1, f)
      | Some k \<Rightarrow>
          let d = take k data; old = fl_bytes f;
              p = (if fl_append f then length old else nat (fl_pos f))
          in (int (length d),
              f\<lparr>fl_bytes := take p (old @ replicate (p - length old) 0) @ d @ drop (p + length d) old,
                fl_pos := int (p + length d)\<rparr>))"

text \<open>Words of a buffer, the lowest byte first.\<close>

definition le4_bytes :: "u32 \<Rightarrow> u8 list" where
  "le4_bytes w = map (\<lambda>k. ucast (drop_bit (8 * k) w)) [0..<4]"

definition le4_word :: "u8 list \<Rightarrow> u32" where
  "le4_word bs = foldr (\<lambda>b w. ucast b OR push_bit 8 w) bs 0"

definition get_word :: "u8 list \<Rightarrow> nat \<Rightarrow> u32" where
  "get_word buf i = le4_word (take 4 (drop (4 * i) buf))"

definition put_word :: "nat \<Rightarrow> u32 \<Rightarrow> u8 list \<Rightarrow> u8 list" where
  "put_word i w buf = take (4 * i) buf @ le4_bytes w @ drop (4 * i + 4) buf"

section \<open>The loop\<close>

text \<open>The pattern: word number \<open>i\<close> of a block at offset \<open>off\<close>.\<close>

definition pattern_word :: "u64 \<Rightarrow> nat \<Rightarrow> u32" where
  "pattern_word off i = ucast (off + of_nat (i * 4))"

text \<open>The check of the input; \<open>is\<close> are the words that are left.  The first result tells whether \<open>done\<close>
  was called.\<close>

fun check_words :: "int \<Rightarrow> u64 \<Rightarrow> u8 list \<Rightarrow> nat list \<Rightarrow> dd_state \<Rightarrow> bool \<times> dd_state" where
  "check_words mismatch off buf [] st = (False, st)"
| "check_words mismatch off buf (i # is) st =
     (if get_word buf i \<noteq> pattern_word off i then
        let st' = say [Mismatch (ucast off) (pattern_word off i) (get_word buf i)] st in
        if mismatch \<noteq> - 1 then
          let misses = s32 (d_misses st' - 1); st'' = st'\<lparr>d_misses := misses\<rparr> in
          if misses = 0 then (True, st'') else check_words mismatch off buf is st''
        else check_words mismatch off buf is st'
      else check_words mismatch off buf is st)"

definition fill_words :: "u64 \<Rightarrow> nat \<Rightarrow> u8 list \<Rightarrow> u8 list" where
  "fill_words off n buf = fold (\<lambda>i. put_word i (pattern_word off i)) [0..<n] buf"

text \<open>Touching every page of a buffer.\<close>

definition touch_pages :: "nat \<Rightarrow> u8 list \<Rightarrow> u8 list" where
  "touch_pages moved buf = fold (\<lambda>i b. b[i * 4096 := 0]) [0..<(moved + 4095) div 4096] buf"

text \<open>One more time in a histogram.\<close>

definition bump :: "nat \<Rightarrow> int list \<Rightarrow> int list" where
  "bump i h = h[i := s32 (h ! i + 1)]"

definition put_hist :: "int \<Rightarrow> int \<Rightarrow> int \<Rightarrow> int list \<Rightarrow> int list" where
  "put_hist tmax tmin mills h =
     (if tmax \<le> mills then bump 11 h
      else if mills < tmin then bump 0 h
      else let step = c_div (s32 (tmax - tmin)) 10 in
        (case find (\<lambda>i. mills < s32 (s32 (int i * step) + tmin)) [1..<11] of
           Some i \<Rightarrow> bump i h
         | None \<Rightarrow> h))"

text \<open>A choice of offset and the test for repetitions.  Element \<open>norepeats\<close>, not written yet, is compared
  too.\<close>

fun been_there :: "u64 list \<Rightarrow> u64 \<Rightarrow> nat list \<Rightarrow> bool res" where
  "been_there nr off [] = Inr False"
| "been_there nr off (i # is) =
     (if length nr \<le> i then Inl Out_Of_Bounds else if off = nr ! i then Inr True else been_there nr off is)"

text \<open>\<open>off = drand48() * n\<close>; the conversion of a value that does not fit is undefined.\<close>

definition scaled_rand :: "dd_env \<Rightarrow> u64 \<Rightarrow> dd_state \<Rightarrow> u64 res" where
  "scaled_rand E n st =
     (let x = \<lfloor>dd_rnd E (dd_drand E (d_rands st) * dbl (dd_rnd E) n)\<rfloor>
      in if 0 \<le> x \<and> x < 2 ^ 64 then Inr (to_u64 x) else Inl (Panic ''double to uint64''))"

definition one_offset :: "dd_env \<Rightarrow> dd_opts \<Rightarrow> dd_state \<Rightarrow> u64 res" where
  "one_offset E opt st =
     (if o_end opt \<noteq> - 1 then
        and_then (scaled_rand E (o_end opt) st) (\<lambda>x.
          Inr (ALIGN x (o_bsize opt) + d_side st + (if o_start opt \<noteq> - 1 then o_start opt else 0)))
      else
        and_then (scaled_rand E (o_size opt - to_u64 (o_bsize opt)) st) (\<lambda>x.
          Inr (ALIGN (x + (if o_start opt \<noteq> - 1 then o_start opt else 0)) (o_bsize opt))))"

definition try_offset :: "dd_env \<Rightarrow> dd_opts \<Rightarrow> dd_state \<Rightarrow> (bool \<times> dd_state) res" where
  "try_offset E opt st = and_then (one_offset E opt st) (\<lambda>off.
     let st' = st\<lparr>d_off := off, d_rands := Suc (d_rands st)\<rparr> in
     case d_norepeat st of
       None \<Rightarrow> Inr (False, st')
     | Some nr \<Rightarrow> and_then (been_there nr off [0..<nat (d_norepeats st + 1)]) (\<lambda>again.
         Inr (again, if again then say [Norepeat (ucast off)] st' else st')))"

partial_function (option) pick_offset :: "dd_env \<Rightarrow> dd_opts \<Rightarrow> dd_state \<Rightarrow> dd_state res option" where
  "pick_offset E opt st =
     (case try_offset E opt st of
        Inl e \<Rightarrow> Some (Inl e)
      | Inr (again, st') \<Rightarrow> if again then pick_offset E opt st' else Some (Inr st'))"

text \<open>\<open>norepeat[norepeats++] = off\<close> and starting again at 0.  The two kinds of random offset differ in
  whether the test for the end of the array is made without \<open>norepeat\<close> too.\<close>

definition note_offset :: "dd_opts \<Rightarrow> dd_state \<Rightarrow> dd_state res" where
  "note_offset opt st =
     (let wrap = (\<lambda>s. if o_count opt = - 1 \<and> d_norepeats s = 10240 then s\<lparr>d_norepeats := 0\<rparr> else s) in
      case d_norepeat st of
        None \<Rightarrow> Inr (if o_end opt \<noteq> - 1 then st else wrap st)
      | Some nr \<Rightarrow>
          if d_norepeats st < 0 \<or> int (length nr) \<le> d_norepeats st then Inl Out_Of_Bounds
          else Inr (wrap (st\<lparr>d_norepeat := Some (nr[nat (d_norepeats st) := d_off st]), d_norepeats := d_norepeats st + 1\<rparr>)))"

definition seek_both :: "int \<Rightarrow> int \<Rightarrow> dd_state \<Rightarrow> dd_state" where
  "seek_both fin fout st =
     (let st1 = (if 0 \<le> fin then st\<lparr>d_in := snd (seek_file (sint (d_off st)) SEEK_SET (d_in st))\<rparr> else st)
      in if 0 \<le> fout then st1\<lparr>d_out := snd (seek_file (sint (d_off st)) SEEK_SET (d_out st1))\<rparr> else st1)"

definition random_seek :: "dd_env \<Rightarrow> dd_opts \<Rightarrow> int \<Rightarrow> int \<Rightarrow> dd_state \<Rightarrow> dd_state res option" where
  "random_seek E opt fin fout st =
     (if o_end opt = - 1 \<and> o_rand opt = - 1 then Some (Inr st) else
      let st0 = (if o_end opt \<noteq> - 1 then st\<lparr>d_side := (if d_side st \<noteq> 0 then 0 else o_rand opt - o_end opt)\<rparr> else st) in
      bind_r (pick_offset E opt st0) (\<lambda>st1.
      bind_r (Some (note_offset opt st1)) (\<lambda>st2.
      Some (Inr (seek_both fin fout st2)))))"

text \<open>Starting and stopping the timer of a single operation, in microseconds as an \<open>int\<close>.\<close>

definition timed :: "int \<Rightarrow> int \<Rightarrow> bool" where
  "timed tmax tmin \<longleftrightarrow> tmax \<noteq> - 1 \<or> tmin \<noteq> - 1"

definition clock_now :: "dd_env \<Rightarrow> dd_state \<Rightarrow> timeval \<times> dd_state" where
  "clock_now E st = (dd_clock E (d_calls st), st\<lparr>d_calls := Suc (d_calls st)\<rparr>)"

definition stop_timer :: "dd_env \<Rightarrow> timeval \<Rightarrow> dd_state \<Rightarrow> (int \<times> dd_state) res" where
  "stop_timer E t0 st =
     (let (t1, st') = clock_now E st in and_then (tvdelta t0 t1) (\<lambda>u. Inr (to_int u, st')))"

definition restart_clock :: "dd_env \<Rightarrow> dd_state \<Rightarrow> dd_state" where
  "restart_clock E st = (let (t, st') = clock_now E st in st'\<lparr>d_timing := (d_timing st')\<lparr>start_tv := t\<rparr>\<rparr>)"

text \<open>The call of \<open>read\<close> into buffer \<open>b\<close> with its time; \<open>None\<close> is the return to the top of the loop after
  the padding block, otherwise the number of bytes moved.\<close>

definition read_time :: "dd_env \<Rightarrow> dd_opts \<Rightarrow> timeval \<Rightarrow> dd_state \<Rightarrow> dd_state res" where
  "read_time E opt t0 st = and_then (stop_timer E t0 st) (\<lambda>(mics, st').
     let mills = c_div mics 1000;
         st'' = (if o_rtmax opt < mills \<or> mills < o_rtmin opt
                 then say [Read_Time mics (fst (seek_file 0 SEEK_CUR (d_in st')))] st' else st')
     in Inr (st''\<lparr>d_rthist := put_hist (o_rtmax opt) (o_rtmin opt) mills (d_rthist st'')\<rparr>))"

definition read_block :: "dd_env \<Rightarrow> dd_opts \<Rightarrow> nat \<Rightarrow> dd_state \<Rightarrow> (int option \<times> dd_state) res" where
  "read_block E opt b st =
     (let tm = timed (o_rtmax opt) (o_rtmin opt);
          (t0, st1) = (if tm then clock_now E st else (dd_clock E 0, st));
          (data, f) = read_file (dd_rd E (d_reads st1)) (nat (o_bsize opt)) (d_in st1);
          moved = (case data of None \<Rightarrow> - 1 | Some d \<Rightarrow> int (length d));
          buf = (case data of None \<Rightarrow> d_bufs st1 ! b | Some d \<Rightarrow> d @ drop (length d) (d_bufs st1 ! b));
          st2 = st1\<lparr>d_in := f, d_reads := Suc (d_reads st1), d_bufs := (d_bufs st1)[b := buf]\<rparr>
      in if d_padin st2 \<noteq> 0
         then Inr (None, restart_clock E (st2\<lparr>d_padin := 0, d_count := d_count st2 + 1\<rparr>))
         else and_then (if tm then read_time E opt t0 st2 else Inr st2) (\<lambda>st3. Inr (Some moved, st3)))"

text \<open>The call of \<open>write\<close>, with the pattern before and the time after it; the first result tells whether
  \<open>done\<close> was called.\<close>

definition write_time :: "dd_env \<Rightarrow> dd_opts \<Rightarrow> timeval \<Rightarrow> dd_state \<Rightarrow> dd_state res" where
  "write_time E opt t0 st = and_then (stop_timer E t0 st) (\<lambda>(mics, st').
     let mills = c_div mics 1000;
         st'' = (if o_wtmax opt < mills \<or> mills < o_wtmin opt
                 then say [Write_Time mics (fst (seek_file 0 SEEK_CUR (d_out st')))] st' else st')
     in Inr (st''\<lparr>d_wthist := put_hist (o_wtmax opt) (o_wtmin opt) mills (d_wthist st'')\<rparr>))"

definition write_block :: "dd_env \<Rightarrow> dd_opts \<Rightarrow> nat \<Rightarrow> int \<Rightarrow> dd_state \<Rightarrow> (bool \<times> dd_state) res" where
  "write_block E opt b moved st =
     (let buf = (if o_outpat opt \<noteq> - 1 then fill_words (d_off st) (nat moved div 4) (d_bufs st ! b) else d_bufs st ! b);
          st1 = st\<lparr>d_bufs := (d_bufs st)[b := buf]\<rparr>;
          tm = timed (o_wtmax opt) (o_wtmin opt);
          (t0, st2) = (if tm then clock_now E st1 else (dd_clock E 0, st1));
          (moved2, f) = write_file (dd_wr E (d_writes st2)) (take (nat moved) buf) (d_out st2);
          st3 = st2\<lparr>d_out := f, d_writes := Suc (d_writes st2)\<rparr>;
          st4 = (if moved2 = - 1 then say [Perror ''write''] st3 else st3)
      in if moved2 \<noteq> moved then Inr (True, say [Short_Write moved moved2] st4)
         else and_then (if tm then write_time E opt t0 st4 else Inr st4) (\<lambda>st5.
           Inr (False, if o_touch opt then st5\<lparr>d_bufs := (d_bufs st5)[b := touch_pages (nat moved) (d_bufs st5 ! b)]\<rparr> else st5)))"

section \<open>The report\<close>

definition hist_report :: "int \<Rightarrow> int \<Rightarrow> string \<Rightarrow> int list \<Rightarrow> dd_msg list" where
  "hist_report tmax tmin title h =
     (if tmax = - 1 then [] else
      let step = c_div (s32 (tmax - tmin)) 10 in
      [Hist_Head title] @
      (if h ! 0 \<noteq> 0 then [Hist_Below tmin (h ! 0)] else []) @
      concat (map (\<lambda>i. if h ! i = 0 then []
                       else [Hist_Range (tmin + (int i - 1) * step) (tmin + int i * step - 1) (h ! i)]) [1..<11]) @
      (if h ! 11 \<noteq> 0 then [Hist_Above tmax (h ! 11)] else []))"

text \<open>\<open>flush\<close>: \<open>dd_reopen\<close> is the size of the file if it can be opened.\<close>

definition flush :: "dd_env \<Rightarrow> string option \<Rightarrow> string option \<Rightarrow> dd_msg list" where
  "flush E label outname =
     (let warning = (\<lambda>s. (case label of None \<Rightarrow> [] | Some l \<Rightarrow> [Label_Text l]) @ [Perror s]) in
      case outname of
        None \<Rightarrow> warning ''No output file''
      | Some nm \<Rightarrow>
          (case dd_reopen E nm of
             None \<Rightarrow> warning ''No output file''
           | Some sz \<Rightarrow> if sz = 0 then warning nm else [Invalidate nm]))"

definition report_rate :: "dd_env \<Rightarrow> dd_opts \<Rightarrow> u64 \<Rightarrow> timing \<Rightarrow> item list res" where
  "report_rate E opt n t =
     (let rnd = dd_rnd E; bs = to_u64 (o_bsize opt) in
      if o_print opt = 0 then Inr []
      else if o_print opt = 1 then latency rnd (n div bs) bs t
      else if o_print opt = 2 then micro rnd '''' (n div bs) t
      else if o_print opt = 3 then kb rnd n t
      else if o_print opt = 4 then mb rnd n t
      else if o_print opt = 5 then bandwidth rnd n 1 False t
      else bandwidth rnd n 1 True t)"

definition done_report :: "dd_env \<Rightarrow> dd_opts \<Rightarrow> string option \<Rightarrow> dd_state \<Rightarrow> dd_state res" where
  "done_report E opt outname st =
     (let st1 = say ((if 0 < o_sync opt then [Sync_All] else []) @ (if 0 < o_fsync opt then [Fsync_Out] else []) @
                     (if 0 < o_flush opt then flush E (o_label opt) outname else [])) st;
          (t, st2) = clock_now E st1;
          st3 = st2\<lparr>d_timing := (d_timing st2)\<lparr>stop_tv := t\<rparr>\<rparr>;
          st4 = say ((if o_ru opt \<noteq> - 1 then [Rusage] else []) @ (if o_hash opt \<or> o_poff opt then [Newline] else []) @
                     (case o_label opt of None \<Rightarrow> [] | Some l \<Rightarrow> [Label_Text l])) st3;
          st5 = st4\<lparr>d_int_count := push_bit 2 (d_int_count st4)\<rparr>
      in and_then (report_rate E opt (d_int_count st5) (d_timing st5)) (\<lambda>items.
           Inr (say ([Report items] @ hist_report (o_rtmax opt) (o_rtmin opt) ''READ operation latencies'' (d_rthist st5) @
                     hist_report (o_wtmax opt) (o_wtmin opt) ''WRITE operation latencies'' (d_wthist st5)) st5)))"

section \<open>One pass and the program\<close>

datatype dd_next = Again dd_state | Done dd_state | Exited dd_state

definition advance :: "int \<Rightarrow> dd_state \<Rightarrow> dd_state" where
  "advance moved st = st\<lparr>d_off := d_off st + to_u64 moved, d_int_count := d_int_count st + to_u64 (moved div 4)\<rparr>"

definition pass_end :: "dd_opts \<Rightarrow> int \<Rightarrow> dd_state \<Rightarrow> dd_state" where
  "pass_end opt moved st = say (if o_hash opt then [Hash_Mark] else []) (advance moved st)"

text \<open>What a forked child does until it exits; the parent sees the output file and the messages.  The
  child runs at once: the parent waits for it before it creates the next one.\<close>

definition run_child :: "dd_env \<Rightarrow> dd_opts \<Rightarrow> string option \<Rightarrow> nat \<Rightarrow> int \<Rightarrow> dd_state \<Rightarrow> dd_state" where
  "run_child E opt outname b moved st =
     (let c = (case write_block E opt b moved st of
                 Inl _ \<Rightarrow> st
               | Inr (True, st') \<Rightarrow> (case done_report E opt outname st' of Inl _ \<Rightarrow> st' | Inr st'' \<Rightarrow> st'')
               | Inr (False, st') \<Rightarrow> pass_end opt moved st')
      in st\<lparr>d_out := d_out c, d_writes := d_writes c, d_calls := d_calls c, d_log := d_log c\<rparr>)"

definition output_part :: "dd_env \<Rightarrow> dd_opts \<Rightarrow> int \<Rightarrow> string option \<Rightarrow> nat \<Rightarrow> int \<Rightarrow> dd_state \<Rightarrow> dd_next res" where
  "output_part E opt fout outname b moved st =
     (if 0 \<le> fout then
        if o_fork opt \<noteq> - 1 then
          let st1 = st\<lparr>d_forks := Suc (d_forks st)\<rparr> in
          Inr (Again (advance moved (if dd_fork E (d_forks st) then run_child E opt outname b moved st1 else st1)))
        else and_then (write_block E opt b moved st) (\<lambda>(ended, st').
          Inr (if ended then Done st' else Again (pass_end opt moved st')))
      else Inr (if o_fork opt \<noteq> - 1 then Exited (pass_end opt moved st) else Again (pass_end opt moved st)))"

text \<open>After the read: an error or the end of the input, the check of the pattern, the touching.\<close>

definition after_read :: "dd_env \<Rightarrow> dd_opts \<Rightarrow> int \<Rightarrow> int \<Rightarrow> string option \<Rightarrow> nat \<Rightarrow> int \<Rightarrow> dd_state \<Rightarrow> dd_next res" where
  "after_read E opt fin fout outname b moved st =
     (if moved = - 1 then Inr (Done (say [Perror ''read''] st))
      else if moved \<le> 0 then Inr (Done st)
      else
        let (stopped, st1) = (if o_inpat opt \<noteq> - 1
              then check_words (o_mismatch opt) (d_off st) (d_bufs st ! b) [0..<nat moved div 4] st else (False, st)) in
        if stopped then Inr (Done st1)
        else output_part E opt fout outname b moved
          (if 0 \<le> fin \<and> o_touch opt then st1\<lparr>d_bufs := (d_bufs st1)[b := touch_pages (nat moved) (d_bufs st1 ! b)]\<rparr> else st1))"

definition dd_pass :: "dd_env \<Rightarrow> dd_opts \<Rightarrow> int \<Rightarrow> int \<Rightarrow> string option \<Rightarrow> dd_state \<Rightarrow> dd_next res option" where
  "dd_pass E opt fin fout outname st =
     (if o_count opt \<noteq> - 1 \<and> d_count st = 0 then Some (Inr (Done (st\<lparr>d_count := - 1\<rparr>))) else
      bind_r (random_seek E opt fin fout (if o_count opt \<noteq> - 1 then st\<lparr>d_count := d_count st - 1\<rparr> else st)) (\<lambda>st1.
      let st2 = (if o_poff opt then say [Offset (d_off st1)] st1 else st1); b = d_nextbuf st2 in
      if length (d_bufs st2) \<le> b then Some (Inl Out_Of_Bounds) else
      let st3 = st2\<lparr>d_nextbuf := (if int (Suc b) = o_nbufs opt then 0 else Suc b)\<rparr> in
      bind_r (Some (if 0 \<le> fin then read_block E opt b st3 else Inr (Some (o_bsize opt), st3))) (\<lambda>(moved, st4).
      case moved of
        None \<Rightarrow> Some (Inr (Again st4))
      | Some m \<Rightarrow> Some (after_read E opt fin fout outname b m st4))))"

partial_function (option) dd_loop :: "dd_env \<Rightarrow> dd_opts \<Rightarrow> int \<Rightarrow> int \<Rightarrow> string option \<Rightarrow> dd_state \<Rightarrow> dd_state res option" where
  "dd_loop E opt fin fout outname st = Option.bind (dd_pass E opt fin fout outname st) (\<lambda>r.
     case r of
       Inl e \<Rightarrow> Some (Inl e)
     | Inr nxt \<Rightarrow> (case nxt of
         Again st' \<Rightarrow> dd_loop E opt fin fout outname st'
       | Done st' \<Rightarrow> Some (done_report E opt outname st')
       | Exited st' \<Rightarrow> Some (Inr st')))"

definition no_file :: dd_file where
  "no_file = \<lparr>fl_bytes = [], fl_pos = 0, fl_seekable = False, fl_append = False\<rparr>"

definition out_flags :: "string list \<Rightarrow> oflags" where
  "out_flags av =
     (let append = (getarg ''append='' av \<noteq> - 1); notrunc = (getarg ''notrunc='' av \<noteq> - 1);
          nocreate = (getarg ''nocreate='' av \<noteq> - 1); osync = (getarg ''osync='' av \<noteq> - 1)
      in \<lparr>of_write = True, of_trunc = (\<not> (notrunc \<or> append)), of_creat = (\<not> nocreate), of_append = append, of_sync = osync\<rparr>)"

text \<open>\<open>getfile\<close>: the descriptor, the file it refers to and, for an output that was opened, its name; \<open>error\<close>
  exits.\<close>

definition open_file :: "dd_env \<Rightarrow> string \<Rightarrow> oflags \<Rightarrow> (int \<times> dd_file \<times> string option) res" where
  "open_file E nm fl =
     (let fd = dd_open E nm fl in
      if fd = - 1 then Inl (Exit 1)
      else Inr (fd, \<lparr>fl_bytes = (if of_trunc fl then [] else dd_disk E nm), fl_pos = 0, fl_seekable = dd_seeks E nm,
                      fl_append = of_append fl\<rparr>, if of_write fl then Some nm else None))"

fun getfile :: "dd_env \<Rightarrow> string \<Rightarrow> string list \<Rightarrow> string list \<Rightarrow> (int \<times> dd_file \<times> string option) res" where
  "getfile E s all [] = Inr (- 2, no_file, None)"
| "getfile E s all (a # av) =
     (if take (length s) a \<noteq> s then getfile E s all av
      else if hd a = CHR ''o'' then
        if a = ''of=internal'' then Inr (- 2, no_file, None)
        else if a = ''of=stdout'' \<or> a = ''of=1'' \<or> a = ''of=-'' then Inr (1, dd_std E 1, None)
        else if a = ''of=stderr'' \<or> a = ''of=2'' then Inr (2, dd_std E 2, None)
        else open_file E (drop (length s) a) (out_flags all)
      else
        if a = ''if=internal'' then Inr (- 2, no_file, None)
        else if a = ''if=stdin'' \<or> a = ''if=0'' \<or> a = ''if=-'' then Inr (0, dd_std E 0, None)
        else open_file E (drop (length s) a) \<lparr>of_write = False, of_trunc = False, of_creat = False, of_append = False, of_sync = False\<rparr>)"

text \<open>The variables when the loop starts; the clock has been read once.\<close>

definition dd_init :: "dd_env \<Rightarrow> dd_opts \<Rightarrow> dd_file \<Rightarrow> dd_file \<Rightarrow> timing \<Rightarrow> dd_state" where
  "dd_init E opt fi fo t =
     \<lparr>d_count = o_count opt, d_off = 0, d_side = 0,
      d_bufs = replicate (nat (o_nbufs opt)) (replicate (nat (o_bsize opt)) 0), d_nextbuf = 0,
      d_padin = o_padin opt, d_misses = o_mismatch opt,
      d_norepeat = (if o_norepeat opt \<and> dd_calloc E
        then Some (replicate (if o_count opt \<noteq> - 1 then unat (o_count opt) else 10240) 0) else None),
      d_norepeats = - 1, d_int_count = 0, d_rthist = replicate 12 0, d_wthist = replicate 12 0,
      d_in = fi, d_out = fo, d_timing = t\<lparr>start_tv := dd_clock E 0\<rparr>,
      d_calls = 1, d_reads = 0, d_writes = 0, d_rands = 0, d_forks = 0, d_log = []\<rparr>"

definition skip_blocks :: "dd_opts \<Rightarrow> int \<Rightarrow> int \<Rightarrow> dd_state \<Rightarrow> dd_state" where
  "skip_blocks opt fin fout st =
     (if o_skip opt = - 1 then st else
      let st1 = seek_both fin fout (st\<lparr>d_off := o_skip opt * to_u64 (o_bsize opt)\<rparr>)
      in if o_poff opt then say [Offset (d_off st1)] st1 else st1)"

definition lmdd_main :: "dd_env \<Rightarrow> string list \<Rightarrow> timing \<Rightarrow> dd_state res option" where
  "lmdd_main E av t =
     (if \<not> list_all chkarg av then Some (Inl (Exit 1)) else
      bind_r (Some (read_opts av)) (\<lambda>opt.
      if 0 < o_nbufs opt \<and> \<not> dd_valloc E then Some (Inl (Exit 1)) else
      bind_r (Some (getfile E ''if='' av av)) (\<lambda>(fin, fi, _).
      bind_r (Some (getfile E ''of='' av av)) (\<lambda>(fout, fo, outname).
      if o_rtmax opt \<noteq> - 1 \<and> fin < 0 \<or> o_wtmax opt \<noteq> - 1 \<and> fout < 0 then Some (Inl (Exit 1))
      else dd_loop E opt fin fout outname (skip_blocks opt fin fout (dd_init E opt fi fo t))))))"

end
