(* ===== verification/Lm_Dd_Props.thy ===== *)
theory Lm_Dd_Props
  imports Lm_Dd
begin

text \<open>
  What \<open>lmdd\<close> does: which arguments it accepts, that it copies a file, that the pattern it writes is the
  pattern it checks, where random offsets lie and what the histogram of times counts.
\<close>

section \<open>Arguments\<close>

lemma bytes_returns: "\<exists>n. bytes s = Inr n"
proof (cases "scan_llu s")
  case (Some n)
  then have "s \<noteq> []" by (auto simp: scan_llu_def)
  with Some show ?thesis by (simp add: bytes_def last_char_def)
qed (simp add: bytes_def)

lemma differ_prefix: "\<exists>p. a = p @ differ a b \<and> (\<exists>q. b = p @ q)"
proof (induction a b rule: differ.induct)
  case (1 a as b bs)
  show ?case
  proof (cases "a = b")
    case True
    with 1 obtain p q where "as = p @ differ as bs" "bs = p @ q" by auto
    with True show ?thesis by (intro exI [of _ "b # p"]) auto
  qed auto
qed auto

lemma differ_append: "differ (p @ a) (p @ b) = differ a b"
  by (induction p) auto

lemma differ_at_eq:
  assumes "CHR ''='' \<notin> set c"
  shows "(differ a c \<noteq> [] \<and> hd (differ a c) = CHR ''='') \<longleftrightarrow> (\<exists>p q rest. c = p @ q \<and> a = p @ ''='' @ rest)"
proof
  assume d: "differ a c \<noteq> [] \<and> hd (differ a c) = CHR ''=''"
  then obtain rest where "differ a c = CHR ''='' # rest" by (cases "differ a c") auto
  with differ_prefix [of a c] show "\<exists>p q rest. c = p @ q \<and> a = p @ ''='' @ rest" by auto
next
  assume "\<exists>p q rest. c = p @ q \<and> a = p @ ''='' @ rest"
  then obtain p q rest where e: "c = p @ q" "a = p @ ''='' @ rest" by blast
  then have "differ a c = differ (CHR ''='' # rest) q" using differ_append [of p] by simp
  moreover have "q = [] \<or> hd q \<noteq> CHR ''=''" using assms e(1) by (cases q) auto
  ultimately have "differ a c = CHR ''='' # rest" by (cases q) auto
  then show "differ a c \<noteq> [] \<and> hd (differ a c) = CHR ''=''" by simp
qed

lemma cmds_no_eq: "c \<in> set cmds \<Longrightarrow> CHR ''='' \<notin> set c"
  by (auto simp: cmds_def)

text \<open>\<open>chkarg\<close> accepts exactly the arguments whose part before the first equals sign is a prefix of
  the name of an option, the empty prefix included: \<open>b=1\<close> and \<open>=\<close> pass as well as \<open>bs=1\<close>, although
  \<open>getarg\<close> will not find them.\<close>

theorem chkarg_accepts_prefixes:
  "chkarg arg \<longleftrightarrow> (\<exists>p q rest. p @ q \<in> set cmds \<and> arg = p @ ''='' @ rest)"
proof -
  have "chkarg arg \<longleftrightarrow> (\<exists>c \<in> set cmds. \<exists>p q rest. c = p @ q \<and> arg = p @ ''='' @ rest)"
    unfolding chkarg_def list_ex_iff by (intro bex_cong refl differ_at_eq cmds_no_eq)
  then show ?thesis by blast
qed

section \<open>Words and blocks\<close>

lemma length_le4_bytes [simp]: "length (le4_bytes w) = 4"
  by (simp add: le4_bytes_def)

lemma le4_word_bytes [simp]: "le4_word (le4_bytes w) = w"
proof (rule bit_word_eqI)
  fix n :: nat
  assume "n < LENGTH(32)"
  then have "n div 8 < 4" by simp
  then have q: "n div 8 = 0 \<or> n div 8 = 1 \<or> n div 8 = 2 \<or> n div 8 = 3" by linarith
  define m where "m = n mod 8"
  have m: "m < 8" "n = 8 * (n div 8) + m" by (simp_all add: m_def)
  from q have "n = m \<or> n = 8 + m \<or> n = 16 + m \<or> n = 24 + m" using m(2) by linarith
  moreover have "le4_word (le4_bytes w) =
      ucast (ucast w :: u8) OR push_bit 8 (ucast (ucast (drop_bit 8 w) :: u8) OR push_bit 8 (ucast (ucast (drop_bit 16 w) :: u8) OR
        push_bit 8 (ucast (ucast (drop_bit 24 w) :: u8))))"
    by (simp add: le4_word_def le4_bytes_def upt_rec)
  ultimately show "bit (le4_word (le4_bytes w)) n = bit w n"
    using m(1) by (elim disjE) (simp_all add: bit_simps)
qed

section \<open>Passes without random offsets\<close>

definition bufs_ok :: "dd_opts \<Rightarrow> dd_state \<Rightarrow> bool" where
  "bufs_ok opt st \<longleftrightarrow> length (d_bufs st) = nat (o_nbufs opt) \<and> (\<forall>b \<in> set (d_bufs st). length b = nat (o_bsize opt)) \<and>
     d_nextbuf st < length (d_bufs st)"

text \<open>Sequential transfers without timing of single operations and without processes.\<close>

definition sequential :: "dd_opts \<Rightarrow> bool" where
  "sequential opt \<longleftrightarrow> o_end opt = - 1 \<and> o_rand opt = - 1 \<and> \<not> timed (o_rtmax opt) (o_rtmin opt) \<and>
     \<not> timed (o_wtmax opt) (o_wtmin opt) \<and> o_fork opt = - 1 \<and> \<not> o_touch opt \<and> 4 \<le> o_bsize opt"

definition enter_pass :: "dd_opts \<Rightarrow> dd_state \<Rightarrow> dd_state" where
  "enter_pass opt st =
     (let st1 = (if o_count opt \<noteq> - 1 then st\<lparr>d_count := d_count st - 1\<rparr> else st);
          st2 = (if o_poff opt then say [Offset (d_off st1)] st1 else st1)
      in st2\<lparr>d_nextbuf := (if int (Suc (d_nextbuf st)) = o_nbufs opt then 0 else Suc (d_nextbuf st))\<rparr>)"

lemma enter_pass_fields [simp]:
  "d_bufs (enter_pass opt st) = d_bufs st" "d_in (enter_pass opt st) = d_in st" "d_out (enter_pass opt st) = d_out st"
  "d_padin (enter_pass opt st) = d_padin st" "d_off (enter_pass opt st) = d_off st" "d_reads (enter_pass opt st) = d_reads st"
  "d_writes (enter_pass opt st) = d_writes st" "d_timing (enter_pass opt st) = d_timing st"
  "d_int_count (enter_pass opt st) = d_int_count st" "d_misses (enter_pass opt st) = d_misses st"
  "d_count (enter_pass opt st) = (if o_count opt \<noteq> - 1 then d_count st - 1 else d_count st)"
  "d_log (enter_pass opt st) = d_log st @ (if o_poff opt then [Offset (d_off st)] else [])"
  by (simp_all add: enter_pass_def say_def Let_def)

lemma enter_pass_bufs:
  "bufs_ok opt st \<Longrightarrow> bufs_ok opt (enter_pass opt st)"
  by (auto simp: bufs_ok_def) (auto simp: enter_pass_def Let_def)

lemma dd_pass_sequential:
  assumes "sequential opt" "\<not> (o_count opt \<noteq> - 1 \<and> d_count st = 0)" "bufs_ok opt st"
  shows "dd_pass E opt fin fout nm st =
    bind_r (Some (if 0 \<le> fin then read_block E opt (d_nextbuf st) (enter_pass opt st) else Inr (Some (o_bsize opt), enter_pass opt st)))
      (\<lambda>(moved, st4). case moved of None \<Rightarrow> Some (Inr (Again st4))
         | Some m \<Rightarrow> Some (after_read E opt fin fout nm (d_nextbuf st) m st4))"
proof -
  define st1 where "st1 = (if o_count opt \<noteq> - 1 then st\<lparr>d_count := d_count st - 1\<rparr> else st)"
  define st2 where "st2 = (if o_poff opt then say [Offset (d_off st1)] st1 else st1)"
  have f: "d_nextbuf st2 = d_nextbuf st" "d_bufs st2 = d_bufs st" by (simp_all add: st2_def st1_def say_def)
  have e: "enter_pass opt st = st2\<lparr>d_nextbuf := (if int (Suc (d_nextbuf st)) = o_nbufs opt then 0 else Suc (d_nextbuf st))\<rparr>"
    by (simp add: enter_pass_def Let_def st2_def st1_def)
  have r: "random_seek E opt fin fout st1 = Some (Inr st1)" using assms(1) by (simp add: sequential_def random_seek_def)
  have l: "\<not> length (d_bufs st) \<le> d_nextbuf st" using assms(3) by (simp add: bufs_ok_def)
  have b: "bind_r (Some (Inr x)) g = g x" for x :: dd_state and g :: "dd_state \<Rightarrow> dd_next res option" by (simp add: bind_r_def)
  show ?thesis
    unfolding dd_pass_def if_not_P [OF assms(2)] st1_def [symmetric] r b Let_def st2_def [symmetric] f if_not_P [OF l] e ..
qed

lemma read_block_sequential:
  assumes "sequential opt" "d_padin st = 0" "dd_rd E (d_reads st) = Some k"
  shows "read_block E opt b st =
    (let d = take (min (nat (o_bsize opt)) k) (drop (nat (fl_pos (d_in st))) (fl_bytes (d_in st))) in
     Inr (Some (int (length d)), st\<lparr>d_in := (d_in st)\<lparr>fl_pos := fl_pos (d_in st) + int (length d)\<rparr>, d_reads := Suc (d_reads st),
       d_bufs := (d_bufs st)[b := d @ drop (length d) (d_bufs st ! b)]\<rparr>))"
  using assms by (simp add: read_block_def sequential_def read_file_def Let_def)

lemma write_file_end:
  assumes "fl_pos f = int (length (fl_bytes f))" "length d \<le> k"
  shows "write_file (Some k) d f = (int (length d), f\<lparr>fl_bytes := fl_bytes f @ d, fl_pos := int (length (fl_bytes f) + length d)\<rparr>)"
  using assms by (simp add: write_file_def Let_def)

lemma write_block_sequential:
  assumes "sequential opt" "dd_wr E (d_writes st) = Some k" "nat moved \<le> k" "0 \<le> moved" "b < length (d_bufs st)"
    and "fl_pos (d_out st) = int (length (fl_bytes (d_out st)))"
    and "buf = (if o_outpat opt \<noteq> - 1 then fill_words (d_off st) (nat moved div 4) (d_bufs st ! b) else d_bufs st ! b)"
    and "nat moved \<le> length buf"
  shows "write_block E opt b moved st = Inr (False, st\<lparr>d_bufs := (d_bufs st)[b := buf],
     d_out := (d_out st)\<lparr>fl_bytes := fl_bytes (d_out st) @ take (nat moved) buf,
       fl_pos := int (length (fl_bytes (d_out st)) + nat moved)\<rparr>, d_writes := Suc (d_writes st)\<rparr>)"
  using assms write_file_end [of "d_out st" "take (nat moved) buf" k]
  by (simp add: write_block_def sequential_def Let_def)

lemma pass_end_fields [simp]:
  "d_bufs (pass_end opt m st) = d_bufs st" "d_in (pass_end opt m st) = d_in st" "d_out (pass_end opt m st) = d_out st"
  "d_padin (pass_end opt m st) = d_padin st" "d_off (pass_end opt m st) = d_off st + to_u64 m"
  "d_timing (pass_end opt m st) = d_timing st" "d_count (pass_end opt m st) = d_count st"
  "d_nextbuf (pass_end opt m st) = d_nextbuf st" "d_misses (pass_end opt m st) = d_misses st"
  "d_int_count (pass_end opt m st) = d_int_count st + to_u64 (m div 4)"
  "d_log (pass_end opt m st) = d_log st @ (if o_hash opt then [Hash_Mark] else [])"
  by (simp_all add: pass_end_def say_def advance_def)

text \<open>The report succeeds if the clock shows times, and changes neither file.\<close>

lemma done_report_ok:
  assumes "\<forall>k. normal_tv (dd_clock E k)" "normal_tv (start_tv (d_timing st))"
  shows "\<exists>st'. done_report E opt nm st = Inr st' \<and> d_out st' = d_out st \<and> d_int_count st' = push_bit 2 (d_int_count st) \<and>
    (\<exists>ms. d_log st' = d_log st @ ms \<and> (\<forall>a b c. Mismatch a b c \<notin> set ms))"
proof -
  have "\<exists>items. report_rate E opt n t = Inr items" if t: "normal_tv (start_tv t)" "normal_tv (stop_tv t)" for n t
  proof -
    from tvsub_normal [OF t] obtain d where "elapsed t = Inr d" by (auto simp: elapsed_def)
    then show ?thesis
      by (simp add: report_rate_def latency_def micro_def kb_def mb_def bandwidth_def Let_def)
  qed
  note ok = this
  define st5 where "st5 = (let st1 = say ((if 0 < o_sync opt then [Sync_All] else []) @ (if 0 < o_fsync opt then [Fsync_Out] else []) @
                     (if 0 < o_flush opt then flush E (o_label opt) nm else [])) st;
          (t, st2) = clock_now E st1;
          st3 = st2\<lparr>d_timing := (d_timing st2)\<lparr>stop_tv := t\<rparr>\<rparr>;
          st4 = say ((if o_ru opt \<noteq> - 1 then [Rusage] else []) @ (if o_hash opt \<or> o_poff opt then [Newline] else []) @
                     (case o_label opt of None \<Rightarrow> [] | Some l \<Rightarrow> [Label_Text l])) st3
      in st4\<lparr>d_int_count := push_bit 2 (d_int_count st4)\<rparr>)"
  have "\<exists>items. report_rate E opt (d_int_count st5) (d_timing st5) = Inr items"
    by (rule ok) (use assms in \<open>simp_all add: st5_def Let_def clock_now_def say_def\<close>)
  then obtain items where i: "report_rate E opt (d_int_count st5) (d_timing st5) = Inr items" ..
  define ms where "ms = [Report items] @ hist_report (o_rtmax opt) (o_rtmin opt) ''READ operation latencies'' (d_rthist st5) @
                     hist_report (o_wtmax opt) (o_wtmin opt) ''WRITE operation latencies'' (d_wthist st5)"
  have "done_report E opt nm st = Inr (say ms st5)"
    using i by (simp add: done_report_def st5_def Let_def clock_now_def ms_def)
  moreover have "d_out (say ms st5) = d_out st" "d_int_count (say ms st5) = push_bit 2 (d_int_count st)"
    by (simp_all add: say_def st5_def Let_def clock_now_def)
  moreover have "\<exists>ms'. d_log st5 = d_log st @ ms' \<and> (\<forall>a b c. Mismatch a b c \<notin> set ms')"
    by (auto simp: st5_def Let_def clock_now_def say_def flush_def split: option.splits)
  moreover have "\<forall>a b c. Mismatch a b c \<notin> set ms" by (auto simp: ms_def hist_report_def Let_def split: if_splits)
  ultimately show ?thesis by (auto simp: say_def)
qed

section \<open>Copying\<close>

lemma copy_pass:
  assumes "sequential opt" "o_inpat opt = - 1" "o_outpat opt = - 1" "0 \<le> fin" "0 \<le> fout"
    and "\<not> (o_count opt \<noteq> - 1 \<and> d_count st = 0)" "bufs_ok opt st" "d_padin st = 0"
    and "dd_rd E (d_reads st) = Some k" "0 < k" "dd_wr E (d_writes st) = Some k'" "nat (o_bsize opt) \<le> k'"
    and "d_in st = f" "fl_pos f = int p" "fl_pos (d_out st) = int (length (fl_bytes (d_out st)))"
    and "d = take (min (nat (o_bsize opt)) k) (drop p (fl_bytes f))"
  shows "if d = [] then \<exists>st'. dd_pass E opt fin fout nm st = Some (Inr (Done st')) \<and> d_out st' = d_out st \<and> d_timing st' = d_timing st
     else \<exists>st'. dd_pass E opt fin fout nm st = Some (Inr (Again st')) \<and> bufs_ok opt st' \<and> d_padin st' = 0 \<and>
       d_in st' = f\<lparr>fl_pos := int (p + length d)\<rparr> \<and> d_timing st' = d_timing st \<and>
       d_out st' = (d_out st)\<lparr>fl_bytes := fl_bytes (d_out st) @ d, fl_pos := int (length (fl_bytes (d_out st) @ d))\<rparr> \<and>
       d_count st' = (if o_count opt \<noteq> - 1 then d_count st - 1 else d_count st)"
proof -
  define b where "b = d_nextbuf st"
  have b: "b < length (d_bufs st)" "length (d_bufs st ! b) = nat (o_bsize opt)" using assms(7) by (auto simp: bufs_ok_def b_def)
  define buf where "buf = d @ drop (length d) (d_bufs st ! b)"
  have ld: "length d \<le> nat (o_bsize opt)" using assms(16) by simp
  then have buf: "take (length d) buf = d" "length buf = nat (o_bsize opt)" using b(2) by (simp_all add: buf_def)
  let ?e = "enter_pass opt st"
  define st1 where "st1 = ?e\<lparr>d_in := f\<lparr>fl_pos := int (p + length d)\<rparr>, d_reads := Suc (d_reads st), d_bufs := (d_bufs st)[b := buf]\<rparr>"
  have "read_block E opt b ?e = Inr (Some (int (length d)), st1)"
    using read_block_sequential [OF assms(1), of ?e E k b] assms(8,9,13,14,16) by (simp add: Let_def st1_def buf_def)
  then have pass: "dd_pass E opt fin fout nm st = Some (after_read E opt fin fout nm b (int (length d)) st1)"
    using dd_pass_sequential [OF assms(1,6,7), of E fin fout nm] assms(4) by (simp add: bind_r_def b_def)
  show ?thesis
  proof (cases "d = []")
    case True
    then show ?thesis using pass by (simp add: after_read_def st1_def)
  next
    case False
    define st2 where "st2 = st1\<lparr>d_bufs := (d_bufs st1)[b := buf],
        d_out := (d_out st)\<lparr>fl_bytes := fl_bytes (d_out st) @ d, fl_pos := int (length (fl_bytes (d_out st)) + length d)\<rparr>,
        d_writes := Suc (d_writes st)\<rparr>"
    have "write_block E opt b (int (length d)) st1 = Inr (False, st2)"
    proof -
      have f: "d_bufs st1 = (d_bufs st)[b := buf]" "d_out st1 = d_out st" "d_writes st1 = d_writes st" by (simp_all add: st1_def)
      then have g: "d_bufs st1 ! b = buf" "b < length (d_bufs st1)" using b(1) by simp_all
      have "nat (int (length d)) \<le> k'" "nat (int (length d)) \<le> length buf" using ld assms(12) buf(2) by simp_all
      moreover have "dd_wr E (d_writes st1) = Some k'" "fl_pos (d_out st1) = int (length (fl_bytes (d_out st1)))"
        using assms(11,15) f by simp_all
      moreover have "buf = (if o_outpat opt \<noteq> - 1 then fill_words (d_off st1) (nat (int (length d)) div 4) (d_bufs st1 ! b) else d_bufs st1 ! b)"
        using assms(3) g(1) by simp
      ultimately have "write_block E opt b (int (length d)) st1 = Inr (False, st1\<lparr>d_bufs := (d_bufs st1)[b := buf],
          d_out := (d_out st1)\<lparr>fl_bytes := fl_bytes (d_out st1) @ take (nat (int (length d))) buf,
            fl_pos := int (length (fl_bytes (d_out st1)) + nat (int (length d)))\<rparr>, d_writes := Suc (d_writes st1)\<rparr>)"
        using assms(1) g(2) by (intro write_block_sequential) simp_all
      then show ?thesis unfolding st2_def by (simp only: f(2,3) nat_int buf(1))
    qed
    then have "after_read E opt fin fout nm b (int (length d)) st1 = Inr (Again (pass_end opt (int (length d)) st2))"
      using False assms(1,2,5) by (simp add: after_read_def output_part_def sequential_def Let_def)
    moreover have "bufs_ok opt (pass_end opt (int (length d)) st2)"
      using enter_pass_bufs [OF assms(7)] b buf(2)
      by (auto simp: bufs_ok_def st2_def st1_def dest!: subsetD [OF set_update_subset_insert])
    ultimately show ?thesis using False pass by (simp add: st2_def st1_def assms(8))
  qed
qed

lemma dd_loop_again:
  "dd_pass E opt fin fout nm st = Some (Inr (Again st')) \<Longrightarrow> dd_loop E opt fin fout nm st = dd_loop E opt fin fout nm st'"
  by (subst dd_loop.simps) simp

lemma dd_loop_done:
  "dd_pass E opt fin fout nm st = Some (Inr (Done st')) \<Longrightarrow> dd_loop E opt fin fout nm st = Some (done_report E opt nm st')"
  by (subst dd_loop.simps) simp

lemma dd_pass_count_out:
  "o_count opt \<noteq> - 1 \<Longrightarrow> d_count st = 0 \<Longrightarrow> dd_pass E opt fin fout nm st = Some (Inr (Done (st\<lparr>d_count := - 1\<rparr>)))"
  by (simp add: dd_pass_def)

text \<open>What is to be copied from position \<open>p\<close> on.\<close>

definition wanted :: "dd_opts \<Rightarrow> u64 \<Rightarrow> u8 list \<Rightarrow> u8 list" where
  "wanted opt cnt rest = (if o_count opt = - 1 then rest else take (unat cnt * nat (o_bsize opt)) rest)"

lemma wanted_step:
  assumes "d = take (min (nat (o_bsize opt)) k) rest" "o_count opt \<noteq> - 1 \<Longrightarrow> nat (o_bsize opt) \<le> k \<and> cnt \<noteq> 0"
  shows "wanted opt cnt rest = d @ wanted opt (cnt - 1) (drop (length d) rest)"
proof (cases "o_count opt = - 1")
  case True
  then show ?thesis using assms(1) by (simp add: wanted_def min_def)
next
  case False
  define bs where "bs = nat (o_bsize opt)"
  have d: "d = take bs rest" using assms False by (simp add: bs_def min_def)
  from assms(2) [OF False] have "unat cnt = Suc (unat (cnt - 1))"
    using unat_minus_one [of cnt] unat_gt_0 [of cnt] by linarith
  then have "wanted opt cnt rest = take (bs + unat (cnt - 1) * bs) rest" using False by (simp add: wanted_def bs_def)
  also have "\<dots> = d @ take (unat (cnt - 1) * bs) (drop (length d) rest)"
    by (cases "bs \<le> length rest") (simp_all add: d take_add min_def)
  finally show ?thesis using False by (simp add: wanted_def bs_def)
qed

lemma copy_loop:
  assumes opt: "sequential opt" "o_inpat opt = - 1" "o_outpat opt = - 1" "0 \<le> fin" "0 \<le> fout"
    and E: "\<forall>k. \<exists>m. dd_rd E k = Some m \<and> 0 < m \<and> (o_count opt \<noteq> - 1 \<longrightarrow> nat (o_bsize opt) \<le> m)"
      "\<forall>k. \<exists>m. dd_wr E k = Some m \<and> nat (o_bsize opt) \<le> m"
    and st: "bufs_ok opt st" "d_padin st = 0" "fl_pos (d_in st) = int p" "p \<le> length (fl_bytes (d_in st))"
      "fl_pos (d_out st) = int (length (fl_bytes (d_out st)))"
  shows "\<exists>st'. dd_loop E opt fin fout nm st = Some (done_report E opt nm st') \<and> d_timing st' = d_timing st \<and>
    fl_bytes (d_out st') = fl_bytes (d_out st) @ wanted opt (d_count st) (drop p (fl_bytes (d_in st)))"
  using st
proof (induction "length (fl_bytes (d_in st)) - p" arbitrary: st p rule: less_induct)
  case less
  let ?src = "fl_bytes (d_in st)"
  obtain k k' where k: "dd_rd E (d_reads st) = Some k" "0 < k" "o_count opt \<noteq> - 1 \<longrightarrow> nat (o_bsize opt) \<le> k"
    "dd_wr E (d_writes st) = Some k'" "nat (o_bsize opt) \<le> k'" using E by meson
  show ?case
  proof (cases "o_count opt \<noteq> - 1 \<and> d_count st = 0")
    case True
    then show ?thesis using dd_loop_done [OF dd_pass_count_out] by (force simp: wanted_def)
  next
    case False
    define d where "d = take (min (nat (o_bsize opt)) k) (drop p ?src)"
    note pass = copy_pass [OF opt False less.prems(1,2) k(1,2,4,5) refl less.prems(3,5) d_def, of nm]
    show ?thesis
    proof (cases "d = []")
      case True
      with opt(1) k(2) have e: "drop p ?src = []" by (auto simp: d_def sequential_def)
      from pass True obtain st' where "dd_pass E opt fin fout nm st = Some (Inr (Done st'))" "d_out st' = d_out st" "d_timing st' = d_timing st"
        by auto
      then show ?thesis using e dd_loop_done by (fastforce simp: wanted_def)
    next
      case False
      then have "0 < length d" by simp
      then have len: "p < length ?src" "p + length d \<le> length ?src" "length ?src - (p + length d) < length ?src - p"
        by (auto simp: d_def)
      from pass False obtain st' where st': "dd_pass E opt fin fout nm st = Some (Inr (Again st'))" "bufs_ok opt st'" "d_padin st' = 0"
        "d_in st' = (d_in st)\<lparr>fl_pos := int (p + length d)\<rparr>" "d_timing st' = d_timing st"
        "d_out st' = (d_out st)\<lparr>fl_bytes := fl_bytes (d_out st) @ d, fl_pos := int (length (fl_bytes (d_out st) @ d))\<rparr>"
        "d_count st' = (if o_count opt \<noteq> - 1 then d_count st - 1 else d_count st)" by auto
      have "\<exists>st''. dd_loop E opt fin fout nm st' = Some (done_report E opt nm st'') \<and> d_timing st'' = d_timing st' \<and>
          fl_bytes (d_out st'') = fl_bytes (d_out st') @ wanted opt (d_count st') (drop (p + length d) (fl_bytes (d_in st')))"
        by (rule less.hyps) (use st' len in auto)
      moreover have "wanted opt (d_count st) (drop p ?src) = d @ wanted opt (d_count st') (drop (p + length d) ?src)"
        using wanted_step [OF d_def] \<open>\<not> (o_count opt \<noteq> - 1 \<and> d_count st = 0)\<close> k(3) st'(7)
        by (auto simp: add.commute wanted_def)
      ultimately show ?thesis using dd_loop_again [OF st'(1)] st'(4,5,6) by auto
    qed
  qed
qed

section \<open>Command lines\<close>

lemma to_int_minus [simp]: "to_int (- 1) = - 1"
proof -
  have "uint (- 1 :: u64) = 18446744073709551615" by (simp add: unsigned_minus_1_eq_mask mask_eq_exp_minus_1)
  then show ?thesis by (simp add: to_int_def s32_def signed_take_bit_eq_if_negative bit_numeral_rec)
qed

lemma to_int_of_nat: "n < 2 ^ 31 \<Longrightarrow> to_int (of_nat n) = int n"
  by (simp add: to_int_def s32_nonneg unsigned_of_nat take_bit_nat_eq_self)

lemma size_arg_dec: "n < 2 ^ 64 \<Longrightarrow> size_arg (dec n) = of_nat n"
  using bytes_reads_sizes [of n] by (simp add: size_arg_def)

lemma of_nat_not_minus: "k < 2 ^ 64 - 1 \<Longrightarrow> (of_nat k :: u64) \<noteq> - 1"
proof
  assume k: "k < 2 ^ 64 - 1" "(of_nat k :: u64) = - 1"
  then have "unat (of_nat k :: u64) = unat (- 1 :: u64)" by simp
  moreover have "unat (- 1 :: u64) = 2 ^ 64 - 1" by (simp add: unsigned_minus_1_eq_mask mask_eq_exp_minus_1)
  moreover have "unat (of_nat k :: u64) = k" using k(1) by (intro unat_of_nat_u64) simp
  ultimately show False using k(1) by simp
qed

definition count_arg :: "nat option \<Rightarrow> string list" where
  "count_arg c = (case c of None \<Rightarrow> [] | Some k \<Rightarrow> [''count='' @ dec k])"

text \<open>The options of a plain transfer.\<close>

definition plain_opts :: "nat \<Rightarrow> nat option \<Rightarrow> int \<Rightarrow> int \<Rightarrow> dd_opts" where
  "plain_opts n c ip op = \<lparr>o_mismatch = - 1, o_inpat = ip, o_outpat = op, o_bsize = int n, o_fork = - 1, o_fsync = - 1, o_sync = - 1,
     o_rand = - 1, o_start = - 1, o_end = - 1, o_poff = False, o_print = - 1, o_nbufs = 1, o_rtmax = - 1, o_rtmin = - 1,
     o_wtmax = - 1, o_wtmin = - 1, o_padin = 0, o_ru = - 1, o_touch = False, o_hash = False, o_label = None,
     o_count = (case c of None \<Rightarrow> - 1 | Some k \<Rightarrow> of_nat k), o_size = - 1, o_flush = - 1, o_skip = - 1, o_norepeat = False\<rparr>"

lemma plain_fields [simp]:
  "o_inpat (plain_opts n c ip op) = ip" "o_outpat (plain_opts n c ip op) = op" "o_bsize (plain_opts n c ip op) = int n"
  "o_nbufs (plain_opts n c ip op) = 1" "o_rtmax (plain_opts n c ip op) = - 1" "o_wtmax (plain_opts n c ip op) = - 1"
  "o_mismatch (plain_opts n c ip op) = - 1" "o_poff (plain_opts n c ip op) = False" "o_hash (plain_opts n c ip op) = False"
  "o_count (plain_opts n None ip op) = - 1" "o_count (plain_opts n (Some k) ip op) = of_nat k"
  by (simp_all add: plain_opts_def)

lemma read_opts_copy:
  assumes "4 \<le> n" "n < 2 ^ 31" "case c of None \<Rightarrow> True | Some k \<Rightarrow> k < 2 ^ 64"
  shows "read_opts ([''if='' @ f, ''of='' @ g, ''bs='' @ dec n] @ count_arg c) = Inr (plain_opts n c (- 1) (- 1))"
  using assms size_arg_dec [of n] to_int_of_nat [of n]
  by (cases c) (simp_all add: read_opts_def intarg_def count_arg_def plain_opts_def hist_max_def hist_min_def size_arg_dec Let_def)

text \<open>A kernel in which the clock runs, memory is there and every write takes a whole block.\<close>

definition works :: "dd_env \<Rightarrow> nat \<Rightarrow> bool" where
  "works E n \<longleftrightarrow> (\<forall>k. normal_tv (dd_clock E k)) \<and> dd_valloc E \<and> (\<forall>k. \<exists>m. dd_wr E k = Some m \<and> n \<le> m)"

abbreviation read_only :: oflags where
  "read_only \<equiv> \<lparr>of_write = False, of_trunc = False, of_creat = False, of_append = False, of_sync = False\<rparr>"

abbreviation new_file :: oflags where
  "new_file \<equiv> \<lparr>of_write = True, of_trunc = True, of_creat = True, of_append = False, of_sync = False\<rparr>"

lemma out_flags_plain:
  "out_flags ([''if='' @ f, ''of='' @ g, ''bs='' @ dec n] @ count_arg c) = new_file"
  "out_flags ([''of='' @ g, ''opat=1'', ''bs='' @ dec n] @ count_arg c) = new_file"
  by (cases c; simp add: out_flags_def count_arg_def)+

lemma chkarg_plain [simp]:
  "chkarg (CHR ''i'' # CHR ''f'' # CHR ''='' # r)" "chkarg (CHR ''o'' # CHR ''f'' # CHR ''='' # r)"
  "chkarg (CHR ''b'' # CHR ''s'' # CHR ''='' # r)" "chkarg (CHR ''c'' # CHR ''o'' # CHR ''u'' # CHR ''n'' # CHR ''t'' # CHR ''='' # r)"
  by (simp_all add: chkarg_def cmds_def)

lemma dd_init_fields [simp]:
  "d_in (dd_init E opt fi fo t) = fi" "d_out (dd_init E opt fi fo t) = fo" "d_count (dd_init E opt fi fo t) = o_count opt"
  "d_timing (dd_init E opt fi fo t) = t\<lparr>start_tv := dd_clock E 0\<rparr>" "d_off (dd_init E opt fi fo t) = 0"
  "d_log (dd_init E opt fi fo t) = []" "d_int_count (dd_init E opt fi fo t) = 0"
  by (simp_all add: dd_init_def)

lemma dd_init_plain:
  assumes "4 \<le> n"
  shows "sequential (plain_opts n c ip op)" "bufs_ok (plain_opts n c ip op) (dd_init E (plain_opts n c ip op) fi fo t)"
    "d_padin (dd_init E (plain_opts n c ip op) fi fo t) = 0"
    "skip_blocks (plain_opts n c ip op) fin fout st = st"
  using assms by (simp_all add: sequential_def bufs_ok_def dd_init_def plain_opts_def timed_def skip_blocks_def)

text \<open>C30: copying: on a machine where reads return at least a byte before the end of the file and writes
  are complete, \<open>lmdd if=f of=g bs=n\<close> terminates and the output is the input; with \<open>count=k\<close> and reads
  of whole blocks, its first \<open>k\<close> blocks.\<close>

theorem lmdd_copies:
  assumes E: "works E n" "\<forall>k. \<exists>m. dd_rd E k = Some m \<and> 0 < m \<and> (c \<noteq> None \<longrightarrow> n \<le> m)"
    and n: "4 \<le> n" "n < 2 ^ 31" "case c of None \<Rightarrow> True | Some k \<Rightarrow> k < 2 ^ 64 - 1"
    and f: "f \<notin> {''internal'', ''stdin'', ''0'', ''-''}" "0 \<le> dd_open E f read_only"
    and g: "g \<notin> {''internal'', ''stdout'', ''1'', ''-'', ''stderr'', ''2''}" "0 \<le> dd_open E g new_file"
  shows "\<exists>st. lmdd_main E ([''if='' @ f, ''of='' @ g, ''bs='' @ dec n] @ count_arg c) t = Some (Inr st) \<and>
    fl_bytes (d_out st) = (case c of None \<Rightarrow> dd_disk E f | Some k \<Rightarrow> take (k * n) (dd_disk E f))"
proof -
  let ?av = "[''if='' @ f, ''of='' @ g, ''bs='' @ dec n] @ count_arg c"
  let ?opt = "plain_opts n c (- 1) (- 1)"
  define fi where "fi = \<lparr>fl_bytes = dd_disk E f, fl_pos = 0, fl_seekable = dd_seeks E f, fl_append = False\<rparr>"
  define fo where "fo = \<lparr>fl_bytes = [], fl_pos = 0, fl_seekable = dd_seeks E g, fl_append = False\<rparr>"
  have ro: "read_opts ?av = Inr ?opt" by (rule read_opts_copy) (use n in \<open>auto split: option.splits\<close>)
  have fi: "getfile E ''if='' ?av ?av = Inr (dd_open E f read_only, fi, None)"
    using f by (simp add: open_file_def Let_def fi_def)
  have fo: "getfile E ''of='' ?av ?av = Inr (dd_open E g new_file, fo, Some g)"
    using g out_flags_plain(1) [of f g n c] by (simp add: open_file_def Let_def fo_def)
  have chk: "list_all chkarg ?av" by (cases c) (simp_all add: count_arg_def)
  let ?st = "dd_init E ?opt fi fo t"
  have cnt: "o_count ?opt \<noteq> - 1 \<longleftrightarrow> c \<noteq> None" using n(3) of_nat_not_minus by (cases c) (simp_all add: plain_opts_def)
  have "\<exists>st'. dd_loop E ?opt (dd_open E f read_only) (dd_open E g new_file) (Some g) ?st = Some (done_report E ?opt (Some g) st') \<and>
      d_timing st' = d_timing ?st \<and>
      fl_bytes (d_out st') = fl_bytes (d_out ?st) @ wanted ?opt (d_count ?st) (drop 0 (fl_bytes (d_in ?st)))"
    by (rule copy_loop) (use E f(2) g(2) dd_init_plain [OF n(1)] in
      \<open>simp_all add: cnt fi_def fo_def works_def\<close>)
  then obtain st' where st': "dd_loop E ?opt (dd_open E f read_only) (dd_open E g new_file) (Some g) ?st = Some (done_report E ?opt (Some g) st')"
    "d_timing st' = t\<lparr>start_tv := dd_clock E 0\<rparr>" "fl_bytes (d_out st') = wanted ?opt (o_count ?opt) (dd_disk E f)"
    by (auto simp: fi_def fo_def)
  from done_report_ok [of E st' ?opt "Some g"] E(1) st'(2) obtain st where
    st: "done_report E ?opt (Some g) st' = Inr st" "d_out st = d_out st'" by (auto simp: works_def)
  have "lmdd_main E ?av t = dd_loop E ?opt (dd_open E f read_only) (dd_open E g new_file) (Some g) ?st"
    using E(1) chk ro fi fo dd_init_plain(4) [OF n(1)]
    by (simp add: lmdd_main_def bind_r_def works_def del: append.simps)
  moreover have "wanted ?opt (o_count ?opt) (dd_disk E f) = (case c of None \<Rightarrow> dd_disk E f | Some k \<Rightarrow> take (k * n) (dd_disk E f))"
    using cnt n(3) by (cases c) (auto simp: wanted_def plain_opts_def unat_of_nat_u64)
  ultimately show ?thesis using st st' by simp
qed

definition sample_env :: "u8 list \<Rightarrow> dd_env" where
  "sample_env src = \<lparr>dd_rnd = (\<lambda>x. x), dd_clock = (\<lambda>_. \<lparr>sec = 0, usec = 0\<rparr>), dd_rd = (\<lambda>_. Some 8192),
     dd_wr = (\<lambda>_. Some 8192), dd_drand = (\<lambda>_. 1 / 2), dd_fork = (\<lambda>_. True), dd_open = (\<lambda>_ _. 3), dd_disk = (\<lambda>_. src),
     dd_std = (\<lambda>_. no_file), dd_seeks = (\<lambda>_. True), dd_valloc = True, dd_calloc = True, dd_reopen = (\<lambda>_. None)\<rparr>"

lemma sample_env_works: "works (sample_env src) 4"
  by (simp add: works_def sample_env_def normal_tv_def)

theorem lmdd_copies_witness:
  "\<exists>st. lmdd_main (sample_env [1, 2, 3, 4, 5, 6]) ([''if='' @ ''f'', ''of='' @ ''g'', ''bs='' @ dec 4] @ count_arg (Some 1)) blank_timing = Some (Inr st) \<and>
    fl_bytes (d_out st) = [1, 2, 3, 4]"
  using lmdd_copies [OF sample_env_works, of "[1, 2, 3, 4, 5, 6]" "Some 1" "''f''" "''g''" blank_timing]
  by (simp add: sample_env_def)

section \<open>The pattern\<close>

text \<open>The pattern of \<open>n\<close> words from offset \<open>off\<close> on.\<close>

definition pattern_at :: "u64 \<Rightarrow> nat \<Rightarrow> u8 list" where
  "pattern_at off n = concat (map (\<lambda>i. le4_bytes (pattern_word off i)) [0..<n])"

lemma length_pattern_at [simp]: "length (pattern_at off n) = 4 * n"
  by (induction n) (simp_all add: pattern_at_def)

lemma pattern_at_add: "pattern_at off (a + b) = pattern_at off a @ pattern_at (off + of_nat (4 * a)) b"
  by (induction b) (simp_all add: pattern_at_def pattern_word_def algebra_simps)

lemma pattern_at_Suc: "pattern_at off (Suc n) = pattern_at off n @ le4_bytes (pattern_word off n)"
  by (simp add: pattern_at_def)

lemma fill_words_Suc: "fill_words off (Suc n) buf = put_word n (pattern_word off n) (fill_words off n buf)"
  by (simp add: fill_words_def)

lemma fill_words_eq:
  "4 * n \<le> length buf \<Longrightarrow> fill_words off n buf = pattern_at off n @ drop (4 * n) buf"
proof (induction n)
  case (Suc n)
  then have "fill_words off n buf = pattern_at off n @ drop (4 * n) buf" by simp
  then show ?case unfolding fill_words_Suc by (simp add: put_word_def pattern_at_Suc add.commute)
qed (simp add: fill_words_def pattern_at_def)

lemma get_word_pattern:
  assumes "i < n"
  shows "get_word (pattern_at off n @ r) i = pattern_word off i"
proof -
  have "n = i + (Suc 0 + (n - Suc i))" using assms by simp
  then have "pattern_at off n = pattern_at off i @ pattern_at (off + of_nat (4 * i)) (Suc 0) @
      pattern_at (off + of_nat (4 * i) + of_nat (4 * Suc 0)) (n - Suc i)"
    by (metis pattern_at_add)
  moreover have "pattern_at (off + of_nat (4 * i)) (Suc 0) = le4_bytes (pattern_word off i)"
    by (simp add: pattern_at_def pattern_word_def mult.commute)
  ultimately show ?thesis by (simp add: get_word_def)
qed

lemma check_words_good:
  "(\<And>i. i \<in> set is \<Longrightarrow> get_word buf i = pattern_word off i) \<Longrightarrow> check_words mm off buf is st = (False, st)"
  by (induction "is") auto

lemma generate_pass:
  assumes "sequential opt" "o_outpat opt \<noteq> - 1" "o_inpat opt = - 1" "fin < 0" "0 \<le> fout" "o_bsize opt = int (4 * w)"
    and "\<not> (o_count opt \<noteq> - 1 \<and> d_count st = 0)" "bufs_ok opt st"
    and "dd_wr E (d_writes st) = Some k" "nat (o_bsize opt) \<le> k"
    and "fl_pos (d_out st) = int (length (fl_bytes (d_out st)))"
  shows "\<exists>st'. dd_pass E opt fin fout nm st = Some (Inr (Again st')) \<and> bufs_ok opt st' \<and> d_timing st' = d_timing st \<and>
       d_out st' = (d_out st)\<lparr>fl_bytes := fl_bytes (d_out st) @ pattern_at (d_off st) w,
         fl_pos := int (length (fl_bytes (d_out st) @ pattern_at (d_off st) w))\<rparr> \<and>
       d_off st' = d_off st + of_nat (4 * w) \<and> d_count st' = (if o_count opt \<noteq> - 1 then d_count st - 1 else d_count st)"
proof -
  define b where "b = d_nextbuf st"
  let ?e = "enter_pass opt st"
  have b: "b < length (d_bufs st)" "length (d_bufs st ! b) = 4 * w" using assms(6,8) by (auto simp: bufs_ok_def b_def)
  define buf where "buf = fill_words (d_off st) w (d_bufs st ! b)"
  have buf: "buf = pattern_at (d_off st) w" using b(2) by (simp add: buf_def fill_words_eq)
  have w: "0 < w" using assms(1,6) by (simp add: sequential_def)
  have "write_block E opt b (int (4 * w)) ?e = Inr (False, ?e\<lparr>d_bufs := (d_bufs ?e)[b := buf],
     d_out := (d_out ?e)\<lparr>fl_bytes := fl_bytes (d_out ?e) @ take (nat (int (4 * w))) buf,
       fl_pos := int (length (fl_bytes (d_out ?e)) + nat (int (4 * w)))\<rparr>, d_writes := Suc (d_writes ?e)\<rparr>)"
  proof (rule write_block_sequential)
    have "nat (int (4 * w)) div 4 = w" by (simp only: nat_int)
    then show "buf = (if o_outpat opt \<noteq> - 1 then fill_words (d_off ?e) (nat (int (4 * w)) div 4) (d_bufs ?e ! b) else d_bufs ?e ! b)"
      using assms(2) by (simp add: buf_def)
  qed (use assms b in \<open>simp_all add: buf\<close>)
  then have "after_read E opt fin fout nm b (int (4 * w)) ?e = Inr (Again (pass_end opt (int (4 * w)) (?e\<lparr>d_bufs := (d_bufs st)[b := buf],
     d_out := (d_out st)\<lparr>fl_bytes := fl_bytes (d_out st) @ buf, fl_pos := int (length (fl_bytes (d_out st)) + 4 * w)\<rparr>,
     d_writes := Suc (d_writes st)\<rparr>)))"
    using assms(1,3,5) w by (simp add: after_read_def output_part_def sequential_def Let_def buf)
  moreover have "dd_pass E opt fin fout nm st = Some (after_read E opt fin fout nm b (int (4 * w)) ?e)"
    using dd_pass_sequential [OF assms(1,7,8), of E fin fout nm] assms(4,6) by (simp add: bind_r_def b_def)
  moreover have "bufs_ok opt (pass_end opt (int (4 * w)) (?e\<lparr>d_bufs := (d_bufs st)[b := buf], d_out := x, d_writes := y\<rparr>))" for x y
    using enter_pass_bufs [OF assms(8)] b assms(6)
    by (auto simp: bufs_ok_def buf dest!: subsetD [OF set_update_subset_insert])
  ultimately show ?thesis by (simp add: buf to_u64_def)
qed

lemma generate_loop:
  assumes opt: "sequential opt" "o_outpat opt \<noteq> - 1" "o_inpat opt = - 1" "fin < 0" "0 \<le> fout" "o_bsize opt = int (4 * w)" "o_count opt \<noteq> - 1"
    and E: "\<forall>k. \<exists>m. dd_wr E k = Some m \<and> 4 * w \<le> m"
    and st: "bufs_ok opt st" "fl_pos (d_out st) = int (length (fl_bytes (d_out st)))" "unat (d_count st) = cnt"
  shows "\<exists>st'. dd_loop E opt fin fout nm st = Some (done_report E opt nm st') \<and> d_timing st' = d_timing st \<and>
    fl_bytes (d_out st') = fl_bytes (d_out st) @ pattern_at (d_off st) (cnt * w)"
  using st
proof (induction cnt arbitrary: st)
  case 0
  then have "d_count st = 0" by (simp add: unat_eq_0)
  then show ?case using dd_loop_done [OF dd_pass_count_out [OF opt(7)]] by (force simp: pattern_at_def)
next
  case (Suc cnt)
  obtain k where k: "dd_wr E (d_writes st) = Some k" "nat (o_bsize opt) \<le> k" using E opt(6) by (metis nat_int)
  from Suc.prems(3) have c: "d_count st \<noteq> 0" by auto
  then have "\<not> (o_count opt \<noteq> - 1 \<and> d_count st = 0)" by simp
  from generate_pass [OF opt(1-6) this Suc.prems(1) k Suc.prems(2), of nm] opt(7)
  obtain st' where st': "dd_pass E opt fin fout nm st = Some (Inr (Again st'))" "bufs_ok opt st'" "d_timing st' = d_timing st"
    "d_out st' = (d_out st)\<lparr>fl_bytes := fl_bytes (d_out st) @ pattern_at (d_off st) w,
       fl_pos := int (length (fl_bytes (d_out st) @ pattern_at (d_off st) w))\<rparr>"
    "d_off st' = d_off st + of_nat (4 * w)" "d_count st' = d_count st - 1" by auto
  have "unat (d_count st') = cnt" using st'(6) Suc.prems(3) c unat_minus_one [of "d_count st"] by simp
  moreover have "fl_pos (d_out st') = int (length (fl_bytes (d_out st')))" using st'(4) by simp
  ultimately obtain st'' where "dd_loop E opt fin fout nm st' = Some (done_report E opt nm st'')" "d_timing st'' = d_timing st'"
    "fl_bytes (d_out st'') = fl_bytes (d_out st') @ pattern_at (d_off st') (cnt * w)" using Suc.IH [OF st'(2)] by blast
  moreover have "pattern_at (d_off st) (Suc cnt * w) = pattern_at (d_off st) w @ pattern_at (d_off st') (cnt * w)"
    by (simp add: st'(5) pattern_at_add)
  ultimately show ?case using dd_loop_again [OF st'(1)] st'(3,4) by (intro exI [of _ st'']) simp
qed

text \<open>A pass over a block of the file that holds the pattern.\<close>

lemma check_pass:
  assumes "sequential opt" "o_inpat opt \<noteq> - 1" "0 \<le> fin" "fout < 0" "o_bsize opt = int (4 * w)"
    and "o_count opt = - 1" "bufs_ok opt st" "d_padin st = 0" "\<not> o_poff opt" "\<not> o_hash opt"
    and "dd_rd E (d_reads st) = Some k" "4 * w \<le> k"
    and "d_in st = f" "fl_pos f = int (4 * j)" "fl_bytes f = pattern_at 0 tot" "j \<le> tot" "d_off st = of_nat (4 * j)" "u = min w (tot - j)"
  shows "if u = 0 then \<exists>st'. dd_pass E opt fin fout nm st = Some (Inr (Done st')) \<and> d_timing st' = d_timing st \<and>
       d_log st' = d_log st \<and> d_int_count st' = d_int_count st
     else \<exists>st'. dd_pass E opt fin fout nm st = Some (Inr (Again st')) \<and> bufs_ok opt st' \<and> d_padin st' = 0 \<and>
       d_in st' = f\<lparr>fl_pos := int (4 * (j + u))\<rparr> \<and> d_timing st' = d_timing st \<and> d_log st' = d_log st \<and>
       d_off st' = of_nat (4 * (j + u)) \<and> d_int_count st' = d_int_count st + of_nat u"
proof -
  define b where "b = d_nextbuf st"
  let ?e = "enter_pass opt st"
  define d where "d = pattern_at (d_off st) u"
  have b: "b < length (d_bufs st)" "length (d_bufs st ! b) = 4 * w" using assms(5,7) by (auto simp: bufs_ok_def b_def)
  have u: "tot = j + (u + (tot - j - u))" using assms(16,18) by simp
  have data: "take (min (4 * w) k) (drop (4 * j) (pattern_at 0 tot)) = d"
  proof -
    have "drop (4 * j) (pattern_at 0 tot) = d @ pattern_at (d_off st + of_nat (4 * u)) (tot - j - u)"
      by (subst u, subst pattern_at_add, subst pattern_at_add) (simp add: d_def assms(17))
    moreover have "min (4 * w) k = 4 * w" using assms(12) by simp
    moreover have "u = w \<or> tot - j - u = 0 \<and> u \<le> w" using assms(18) by linarith
    moreover have "pattern_at x 0 = []" for x by (simp add: pattern_at_def)
    ultimately show ?thesis by (auto simp: d_def)
  qed
  have ld: "length d = 4 * u" by (simp add: d_def)
  define buf where "buf = d @ drop (length d) (d_bufs st ! b)"
  define st1 where "st1 = ?e\<lparr>d_in := f\<lparr>fl_pos := int (4 * (j + u))\<rparr>, d_reads := Suc (d_reads st), d_bufs := (d_bufs st)[b := buf]\<rparr>"
  have "nat (fl_pos f) = 4 * j" "nat (o_bsize opt) = 4 * w" using assms(5,14) by (simp_all only: nat_int)
  then have "take (min (nat (o_bsize opt)) k) (drop (nat (fl_pos (d_in ?e))) (fl_bytes (d_in ?e))) = d"
    using data assms(13,15) by simp
  note rb = read_block_sequential [OF assms(1), of ?e E k b, unfolded this Let_def]
  have "fl_pos f + int (length d) = int (4 * (j + u))" using assms(14) ld by simp
  then have "read_block E opt b ?e = Inr (Some (int (4 * u)), st1)"
    using rb assms(8,11,13) ld by (simp add: st1_def buf_def)
  then have pass: "dd_pass E opt fin fout nm st = Some (after_read E opt fin fout nm b (int (4 * u)) st1)"
    using dd_pass_sequential [OF assms(1) _ assms(7), of E fin fout nm] assms(3,6) by (simp add: bind_r_def b_def)
  have log: "d_log st1 = d_log st" "d_off st1 = d_off st" using assms(9) by (simp_all add: st1_def)
  show ?thesis
  proof (cases "u = 0")
    case True
    then show ?thesis using pass log by (simp add: after_read_def st1_def)
  next
    case False
    have "nat (int (4 * u)) div 4 = u" by (simp only: nat_int)
    moreover have "check_words (o_mismatch opt) (d_off st) (d_bufs st1 ! b) [0..<u] st1 = (False, st1)"
      using b(1) get_word_pattern [of _ u "d_off st"] by (intro check_words_good) (simp add: st1_def buf_def d_def)
    ultimately have "after_read E opt fin fout nm b (int (4 * u)) st1 = Inr (Again (pass_end opt (int (4 * u)) st1))"
      using False assms(1,2,4) log(2) by (simp add: after_read_def output_part_def sequential_def)
    moreover have "bufs_ok opt (pass_end opt (int (4 * u)) st1)"
      using enter_pass_bufs [OF assms(7)] b assms(5,18) ld
      by (auto simp: bufs_ok_def st1_def buf_def dest!: subsetD [OF set_update_subset_insert])
    ultimately show ?thesis using False pass log assms(8,10,17)
      by (simp add: st1_def to_u64_def algebra_simps)
  qed
qed

lemma check_loop:
  assumes opt: "sequential opt" "o_inpat opt \<noteq> - 1" "0 \<le> fin" "fout < 0" "o_bsize opt = int (4 * w)" "o_count opt = - 1"
      "\<not> o_poff opt" "\<not> o_hash opt"
    and E: "\<forall>k. \<exists>m. dd_rd E k = Some m \<and> 4 * w \<le> m"
    and st: "bufs_ok opt st" "d_padin st = 0" "fl_pos (d_in st) = int (4 * j)" "fl_bytes (d_in st) = pattern_at 0 tot" "j \<le> tot"
      "d_off st = of_nat (4 * j)"
  shows "\<exists>st'. dd_loop E opt fin fout nm st = Some (done_report E opt nm st') \<and> d_timing st' = d_timing st \<and> d_log st' = d_log st \<and>
    d_int_count st' = d_int_count st + of_nat (tot - j)"
  using st
proof (induction "tot - j" arbitrary: st j rule: less_induct)
  case less
  obtain k where k: "dd_rd E (d_reads st) = Some k" "4 * w \<le> k" using E by meson
  define u where "u = min w (tot - j)"
  have w: "0 < w" using opt(1,5) by (simp add: sequential_def)
  note pass = check_pass [OF opt(1-6) less.prems(1,2) opt(7,8) k refl less.prems(3,4,5,6) u_def, of nm]
  show ?case
  proof (cases "u = 0")
    case True
    then have "tot - j = 0" using w unfolding u_def by linarith
    with pass True dd_loop_done show ?thesis by fastforce
  next
    case False
    with pass obtain st' where st': "dd_pass E opt fin fout nm st = Some (Inr (Again st'))" "bufs_ok opt st'" "d_padin st' = 0"
      "d_in st' = (d_in st)\<lparr>fl_pos := int (4 * (j + u))\<rparr>" "d_timing st' = d_timing st" "d_log st' = d_log st"
      "d_off st' = of_nat (4 * (j + u))" "d_int_count st' = d_int_count st + of_nat u" by auto
    have m: "tot - (j + u) < tot - j" "j + u \<le> tot" "tot - j = u + (tot - (j + u))" using False unfolding u_def by linarith+
    have f: "fl_pos (d_in st') = int (4 * (j + u))" "fl_bytes (d_in st') = pattern_at 0 tot" using st'(4) less.prems(4) by simp_all
    from less.hyps [OF m(1) st'(2,3) f m(2) st'(7)] obtain st'' where
      "dd_loop E opt fin fout nm st' = Some (done_report E opt nm st'')" "d_timing st'' = d_timing st'" "d_log st'' = d_log st'"
      "d_int_count st'' = d_int_count st' + of_nat (tot - (j + u))" by blast
    moreover have "d_int_count st + of_nat (tot - j) = d_int_count st' + of_nat (tot - (j + u))"
      unfolding st'(8) by (subst m(3)) simp
    ultimately show ?thesis using dd_loop_again [OF st'(1)] st'(5,6) by auto
  qed
qed

lemma read_opts_pattern:
  assumes "4 \<le> n" "n < 2 ^ 31" "n mod 4 = 0" "k < 2 ^ 64"
  shows "read_opts ([''of='' @ g, ''opat=1'', ''bs='' @ dec n] @ count_arg (Some k)) = Inr (plain_opts n (Some k) (- 1) 1)"
    and "read_opts [''if='' @ g, ''ipat=1'', ''bs='' @ dec n] = Inr (plain_opts n None 1 (- 1))"
proof -
  have one: "size_arg ''1'' = 1" by (simp add: size_arg_def bytes_def scan_llu_def is_space_def is_digit_def digits_val_def last_char_def)
  have "to_int 1 = 1" by (simp add: to_int_def s32_def)
  moreover have "int n AND 3 = int n mod 4" using take_bit_eq_mask [of 2 "int n"] by (simp add: take_bit_eq_mod mask_eq_exp_minus_1)
  then have "int n AND 3 = 0" using assms(3) by presburger
  ultimately show "read_opts ([''of='' @ g, ''opat=1'', ''bs='' @ dec n] @ count_arg (Some k)) = Inr (plain_opts n (Some k) (- 1) 1)"
    "read_opts [''if='' @ g, ''ipat=1'', ''bs='' @ dec n] = Inr (plain_opts n None 1 (- 1))"
    using assms(1,2,4) to_int_of_nat [of n] one
    by (simp_all add: read_opts_def intarg_def count_arg_def plain_opts_def hist_max_def hist_min_def size_arg_dec Let_def)
qed

lemma lmdd_writes_pattern:
  assumes E: "works E n" and n: "4 \<le> n" "n < 2 ^ 31" "n mod 4 = 0" "k < 2 ^ 64 - 1"
    and g: "g \<notin> {''internal'', ''stdout'', ''1'', ''-'', ''stderr'', ''2''}" "0 \<le> dd_open E g new_file"
  shows "\<exists>st. lmdd_main E ([''of='' @ g, ''opat=1'', ''bs='' @ dec n] @ count_arg (Some k)) t = Some (Inr st) \<and>
    fl_bytes (d_out st) = pattern_at 0 (k * (n div 4))"
proof -
  let ?av = "[''of='' @ g, ''opat=1'', ''bs='' @ dec n] @ count_arg (Some k)"
  let ?opt = "plain_opts n (Some k) (- 1) 1"
  define fo where "fo = \<lparr>fl_bytes = [], fl_pos = 0, fl_seekable = dd_seeks E g, fl_append = False\<rparr>"
  let ?st = "dd_init E ?opt no_file fo t"
  have ro: "read_opts ?av = Inr ?opt" by (rule read_opts_pattern) (use n in auto)
  have fi: "getfile E ''if='' ?av ?av = Inr (- 2, no_file, None)" by (simp add: count_arg_def)
  have fo: "getfile E ''of='' ?av ?av = Inr (dd_open E g new_file, fo, Some g)"
    using g out_flags_plain(2) [of g n "Some k"] by (simp add: open_file_def Let_def fo_def)
  have "chkarg ''opat=1''" by (simp add: chkarg_def cmds_def)
  then have chk: "list_all chkarg ?av" by (simp add: count_arg_def)
  have w: "n = 4 * (n div 4)" using n(3) by presburger
  have "unat (d_count ?st) = k" using n(4) by (simp add: plain_opts_def unat_of_nat_u64)
  then have "\<exists>st'. dd_loop E ?opt (- 2) (dd_open E g new_file) (Some g) ?st = Some (done_report E ?opt (Some g) st') \<and>
      d_timing st' = d_timing ?st \<and> fl_bytes (d_out st') = fl_bytes (d_out ?st) @ pattern_at (d_off ?st) (k * (n div 4))"
    by (intro generate_loop) (use E g(2) n w dd_init_plain [OF n(1)] of_nat_not_minus [OF n(4)] in
      \<open>simp_all add: fo_def works_def\<close>)
  then obtain st' where st': "dd_loop E ?opt (- 2) (dd_open E g new_file) (Some g) ?st = Some (done_report E ?opt (Some g) st')"
    "d_timing st' = t\<lparr>start_tv := dd_clock E 0\<rparr>" "fl_bytes (d_out st') = pattern_at 0 (k * (n div 4))" by (auto simp: fo_def)
  from done_report_ok [of E st' ?opt "Some g"] E st'(2) obtain st where
    st: "done_report E ?opt (Some g) st' = Inr st" "d_out st = d_out st'" by (auto simp: works_def)
  have "lmdd_main E ?av t = dd_loop E ?opt (- 2) (dd_open E g new_file) (Some g) ?st"
    using E chk ro fi fo dd_init_plain(4) [OF n(1)] by (simp add: lmdd_main_def bind_r_def works_def del: append.simps)
  then show ?thesis using st st' by simp
qed

lemma lmdd_checks_pattern:
  assumes E: "\<forall>k. normal_tv (dd_clock E k)" "dd_valloc E" "\<forall>k. \<exists>x. dd_rd E k = Some x \<and> m \<le> x"
    and m: "4 \<le> m" "m < 2 ^ 31" "m mod 4 = 0"
    and g: "g \<notin> {''internal'', ''stdin'', ''0'', ''-''}" "0 \<le> dd_open E g read_only" "dd_disk E g = pattern_at 0 tot"
  shows "\<exists>st. lmdd_main E [''if='' @ g, ''ipat=1'', ''bs='' @ dec m] t = Some (Inr st) \<and>
    (\<forall>a b c. Mismatch a b c \<notin> set (d_log st)) \<and> d_int_count st = of_nat (4 * tot)"
proof -
  let ?av = "[''if='' @ g, ''ipat=1'', ''bs='' @ dec m]"
  let ?opt = "plain_opts m None 1 (- 1)"
  define fi where "fi = \<lparr>fl_bytes = dd_disk E g, fl_pos = 0, fl_seekable = dd_seeks E g, fl_append = False\<rparr>"
  let ?st = "dd_init E ?opt fi no_file t"
  have ro: "read_opts ?av = Inr ?opt" by (rule read_opts_pattern(2) [of m 0]) (use m in auto)
  have fi: "getfile E ''if='' ?av ?av = Inr (dd_open E g read_only, fi, None)" using g by (simp add: open_file_def Let_def fi_def)
  have fo: "getfile E ''of='' ?av ?av = Inr (- 2, no_file, None)" by simp
  have "chkarg ''ipat=1''" by (simp add: chkarg_def cmds_def)
  then have chk: "list_all chkarg ?av" by simp
  have w: "m = 4 * (m div 4)" using m(3) by presburger
  have "\<exists>st'. dd_loop E ?opt (dd_open E g read_only) (- 2) None ?st = Some (done_report E ?opt None st') \<and>
      d_timing st' = d_timing ?st \<and> d_log st' = d_log ?st \<and> d_int_count st' = d_int_count ?st + of_nat (tot - 0)"
    by (rule check_loop [where w = "m div 4"]) (use E g(2,3) m w dd_init_plain [OF m(1)] in \<open>simp_all add: fi_def\<close>)
  then obtain st' where st': "dd_loop E ?opt (dd_open E g read_only) (- 2) None ?st = Some (done_report E ?opt None st')"
    "d_timing st' = t\<lparr>start_tv := dd_clock E 0\<rparr>" "d_log st' = []" "d_int_count st' = of_nat tot" by auto
  from done_report_ok [of E st' ?opt None] E(1) st'(2,3,4) obtain st where
    st: "done_report E ?opt None st' = Inr st" "\<forall>a b c. Mismatch a b c \<notin> set (d_log st)" "d_int_count st = push_bit 2 (of_nat tot)" by auto
  have "lmdd_main E ?av t = dd_loop E ?opt (dd_open E g read_only) (- 2) None ?st"
    using E chk ro fi fo dd_init_plain(4) [OF m(1)] by (simp add: lmdd_main_def bind_r_def)
  moreover have "push_bit 2 (of_nat tot :: u64) = of_nat (4 * tot)" by (simp add: push_bit_eq_mult)
  ultimately show ?thesis using st st'(1) by simp
qed

text \<open>C31: the pattern comes back: \<open>lmdd of=g opat=1 bs=n count=k\<close> writes \<open>k * n\<close> bytes, and
  \<open>lmdd if=g ipat=1 bs=m\<close> on the file it has written, with any block size \<open>m\<close> that is a multiple of a
  word and reads of whole blocks, reports no mismatch and reads all of them.\<close>

theorem lmdd_pattern_roundtrip:
  assumes E: "works E n" and n: "4 \<le> n" "n < 2 ^ 31" "n mod 4 = 0" "k < 2 ^ 64 - 1"
    and g: "g \<notin> {''internal'', ''stdin'', ''0'', ''stdout'', ''1'', ''-'', ''stderr'', ''2''}" "0 \<le> dd_open E g new_file"
    and R: "\<forall>k. normal_tv (dd_clock R k)" "dd_valloc R" "\<forall>k. \<exists>x. dd_rd R k = Some x \<and> m \<le> x" "0 \<le> dd_open R g read_only"
    and m: "4 \<le> m" "m < 2 ^ 31" "m mod 4 = 0"
  shows "\<exists>st st'. lmdd_main E ([''of='' @ g, ''opat=1'', ''bs='' @ dec n] @ count_arg (Some k)) t = Some (Inr st) \<and>
    length (fl_bytes (d_out st)) = k * n \<and>
    lmdd_main (R\<lparr>dd_disk := (dd_disk R)(g := fl_bytes (d_out st))\<rparr>) [''if='' @ g, ''ipat=1'', ''bs='' @ dec m] t' = Some (Inr st') \<and>
    (\<forall>a b c. Mismatch a b c \<notin> set (d_log st')) \<and> d_int_count st' = of_nat (k * n)"
proof -
  have w: "n = 4 * (n div 4)" using n(3) by presburger
  from lmdd_writes_pattern [OF E n, of g t] g obtain st where
    st: "lmdd_main E ([''of='' @ g, ''opat=1'', ''bs='' @ dec n] @ count_arg (Some k)) t = Some (Inr st)"
      "fl_bytes (d_out st) = pattern_at 0 (k * (n div 4))" by auto
  have l: "4 * (k * (n div 4)) = k * n" by (subst (2) w) simp
  let ?R = "R\<lparr>dd_disk := (dd_disk R)(g := fl_bytes (d_out st))\<rparr>"
  have "\<exists>st'. lmdd_main ?R [''if='' @ g, ''ipat=1'', ''bs='' @ dec m] t' = Some (Inr st') \<and>
      (\<forall>a b c. Mismatch a b c \<notin> set (d_log st')) \<and> d_int_count st' = of_nat (4 * (k * (n div 4)))"
    by (rule lmdd_checks_pattern) (use R m g st(2) in auto)
  then show ?thesis using st l by (metis length_pattern_at)
qed

theorem lmdd_pattern_roundtrip_witness:
  "\<exists>st st'. lmdd_main (sample_env []) ([''of='' @ ''g'', ''opat=1'', ''bs='' @ dec 4] @ count_arg (Some 5)) blank_timing = Some (Inr st) \<and>
    length (fl_bytes (d_out st)) = 20 \<and>
    lmdd_main ((sample_env [])\<lparr>dd_disk := (dd_disk (sample_env []))(''g'' := fl_bytes (d_out st))\<rparr>) [''if='' @ ''g'', ''ipat=1'', ''bs='' @ dec 8]
      blank_timing = Some (Inr st') \<and> (\<forall>a b c. Mismatch a b c \<notin> set (d_log st')) \<and> d_int_count st' = 20"
proof -
  have "\<forall>k. normal_tv (dd_clock (sample_env []) k)" "dd_valloc (sample_env [])" "\<forall>k. \<exists>x. dd_rd (sample_env []) k = Some x \<and> 8 \<le> x"
    "0 \<le> dd_open (sample_env []) ''g'' read_only" "0 \<le> dd_open (sample_env []) ''g'' new_file"
    by (simp_all add: sample_env_def normal_tv_def)
  with lmdd_pattern_roundtrip [OF sample_env_works, of 5 "''g''" "[]" "sample_env []" 8 blank_timing blank_timing] show ?thesis by simp
qed

text \<open>The option \<open>touch\<close> stores into the buffer between the read and the write.\<close>

lemma touch_before_write:
  assumes "0 \<le> fin" "o_touch opt" "o_inpat opt = - 1" "0 < moved" "d_bufs st ! b = x # buf"
  shows "\<exists>rest. after_read E opt fin fout nm b moved st = output_part E opt fout nm b moved (st\<lparr>d_bufs := (d_bufs st)[b := 0 # rest]\<rparr>)"
proof -
  have z: "\<exists>r. fold (\<lambda>i b. b[i * 4096 := 0]) is (y # c) = (if 0 \<in> set is then 0 else y) # r" for "is" and y :: u8 and c
  proof (induction "is" arbitrary: y c)
    case (Cons i "is")
    obtain r where "(y # c)[i * 4096 := 0] = (if i = 0 then 0 else y) # r" by (cases i) auto
    moreover obtain r' where "fold (\<lambda>i b. b[i * 4096 := 0]) is ((if i = 0 then 0 else y) # r) =
        (if 0 \<in> set is then 0 else if i = 0 then 0 else y) # r'" using Cons by blast
    ultimately show ?case by auto
  qed simp
  have "0 < (nat moved + 4095) div 4096" using assms(4) by (simp add: div_greater_zero_iff)
  then have "0 \<in> set [0..<(nat moved + 4095) div 4096]" by simp
  with z [of "[0..<(nat moved + 4095) div 4096]" x buf] obtain r where "touch_pages (nat moved) (x # buf) = 0 # r"
    unfolding touch_pages_def by auto
  then show ?thesis using assms by (intro exI [of _ r]) (simp add: after_read_def)
qed

section \<open>Random offsets\<close>

lemma and_not_mask_word: "(y :: u64) AND NOT (mask b) = push_bit b (drop_bit b y)"
  by (rule bit_word_eqI) (auto simp: bit_simps)

lemma unat_ALIGN:
  assumes "b < 31" "unat x + 2 ^ b \<le> 2 ^ 64"
  shows "unat (ALIGN x (2 ^ b)) = (unat x + (2 ^ b - 1)) div 2 ^ b * 2 ^ b"
proof -
  have b: "(2 :: nat) ^ b < 2 ^ 31" using assms(1) by (intro power_strict_increasing) simp_all
  define y where "y = x + to_u64 (2 ^ b - 1)"
  have e: "to_u64 (2 ^ b - 1) = of_nat (2 ^ b - 1)" by (simp add: to_u64_def of_nat_diff)
  have "unat (to_u64 (2 ^ b - 1)) = 2 ^ b - 1" unfolding e by (intro unat_of_nat_u64) (use b in simp)
  then have y: "unat y = unat x + (2 ^ b - 1)"
    unfolding y_def using assms(2) b by (subst unat_plus_if_size) (simp add: word_size)
  have "to_u64 (NOT (2 ^ b - 1)) = NOT (mask b)"
    by (simp add: to_u64_def mask_eq_exp_minus_1 not_eq_complement)
  then have "ALIGN x (2 ^ b) = push_bit b (drop_bit b y)" by (simp add: ALIGN_def y_def and_not_mask_word)
  moreover have "unat (push_bit b (drop_bit b y)) = unat y div 2 ^ b * 2 ^ b"
  proof -
    have "unat y div 2 ^ b * 2 ^ b < 2 ^ 64" 
      using le_less_trans [OF div_times_less_eq_dividend unat_bound [of y]] by simp
    then have "take_bit 64 (unat y div 2 ^ b * 2 ^ b) = unat y div 2 ^ b * 2 ^ b" by (rule take_bit_nat_eq_self)
    moreover have "take_bit 64 (unat y) = unat y" by (rule take_bit_nat_eq_self) (use unat_bound [of y] in simp)
    then have "unat (push_bit b (drop_bit b y)) = take_bit 64 (push_bit b (drop_bit b (unat y)))"
      by (simp add: unsigned_push_bit_eq unsigned_drop_bit_eq)
    ultimately show ?thesis by (simp only: push_bit_eq_mult drop_bit_eq_div)
  qed
  ultimately show ?thesis by (simp only: y)
qed

lemma scaled_rand_bounds:
  assumes "mono (dd_rnd E)" "dd_rnd E 0 = 0" "unat n = N" "dd_rnd E (of_nat N) = of_nat N"
    and "0 \<le> dd_drand E (d_rands st)" "dd_drand E (d_rands st) < 1"
  shows "\<exists>x. scaled_rand E n st = Inr x \<and> unat x \<le> N"
proof -
  let ?r = "dd_drand E (d_rands st)" and ?n = "of_nat N :: rat"
  define y where "y = dd_rnd E (?r * ?n)"
  have "0 \<le> ?r * ?n" "?r * ?n \<le> ?n" using assms(5,6) by (simp_all add: mult_left_le_one_le)
  then have "dd_rnd E 0 \<le> y" "y \<le> dd_rnd E ?n" unfolding y_def using assms(1) by (simp_all add: monoD)
  then have y: "0 \<le> \<lfloor>y\<rfloor>" "\<lfloor>y\<rfloor> \<le> int N" using assms(2,4) by (simp_all add: floor_le_iff le_floor_iff)
  have "int N < 2 ^ 64" using unat_bound [of n] assms(3) by simp
  then have b: "\<lfloor>y\<rfloor> < 2 ^ 64" using y(2) by linarith
  have "unat (to_u64 \<lfloor>y\<rfloor>) = nat \<lfloor>y\<rfloor>"
    using y(1) b by (simp add: to_u64_def unsigned_of_int take_bit_int_eq_self)
  moreover have "scaled_rand E n st = Inr (to_u64 \<lfloor>y\<rfloor>)"
    unfolding scaled_rand_def dbl_def assms(3,4) y_def [symmetric] Let_def using y(1) b by simp
  ultimately show ?thesis using y by (intro exI [of _ "to_u64 \<lfloor>y\<rfloor>"]) linarith
qed

text \<open>random transfers: with a block size that is a power of two and \<open>rand=\<close> a multiple of it of at
  least two blocks, every offset chosen is aligned and both the block there and the one after it lie
  within the range.  So the last block of the range is never used.\<close>

theorem random_offset_in_range:
  assumes bs: "o_bsize opt = 2 ^ b" "b < 31" and m: "unat (o_rand opt) = m * 2 ^ b" "2 \<le> m"
    and opt: "o_size opt = ALIGN (o_rand opt - to_u64 (o_bsize opt)) (o_bsize opt)" "o_end opt = - 1" "o_start opt = - 1"
    and E: "mono (dd_rnd E)" "dd_rnd E 0 = 0" "dd_rnd E (of_nat ((m - 2) * 2 ^ b)) = of_nat ((m - 2) * 2 ^ b)"
      "\<forall>k. 0 \<le> dd_drand E k \<and> dd_drand E k < 1"
  shows "\<exists>off. one_offset E opt st = Inr off \<and> 2 ^ b dvd unat off \<and> unat off + 2 * 2 ^ b \<le> unat (o_rand opt)"
proof -
  define B where "B = (2 :: nat) ^ b"
  have B: "0 < B" "B < 2 ^ 31" unfolding B_def using bs(2) power_strict_increasing [of b 31 "2 :: nat"] by simp_all
  have mb: "m * B < 2 ^ 64" using m(1) unat_bound [of "o_rand opt"] by (simp add: B_def)
  have u: "to_u64 (o_bsize opt) = of_nat B" by (simp add: bs(1) to_u64_def B_def)
  have ub: "unat (of_nat B :: u64) = B" by (rule unat_of_nat_u64) (use B in simp)
  have sub: "unat (x - of_nat B) = (k - 1) * B" if "unat x = k * B" "1 \<le> k" for x :: u64 and k
    using that ub by (subst unat_sub) (auto simp: word_le_nat_alt diff_mult_distrib)
  have al: "unat (ALIGN x (o_bsize opt)) = (unat x + (B - 1)) div B * B" if "unat x \<le> (m - 1) * B" for x
  proof -
    have "(m - 1) * B + B = m * B" using m(2) by (cases m) simp_all
    then have "unat x + 2 ^ b \<le> 2 ^ 64" using that mb by (simp add: B_def)
    then show ?thesis unfolding bs(1) B_def by (rule unat_ALIGN [OF bs(2)])
  qed
  have up: "(k * B + (B - 1)) div B = k" for k
  proof -
    have "(k * B + (B - 1)) div B = k + (B - 1) div B" using B(1) by (subst div_mult_self3) simp_all
    also have "(B - 1) div B = 0" using B(1) by (intro div_less) simp
    finally show ?thesis by simp
  qed
  have rm: "unat (o_rand opt - of_nat B) = (m - 1) * B" using m by (intro sub) (simp_all add: B_def)
  then have sz: "unat (o_size opt) = (m - 1) * B" unfolding opt(1) u using al [of "o_rand opt - of_nat B"] up [of "m - 1"] by simp
  have N: "unat (o_size opt - to_u64 (o_bsize opt)) = (m - 2) * B"
    unfolding u using sub [OF sz] m(2) by (simp add: numeral_2_eq_2)
  have Er: "dd_rnd E (of_nat ((m - 2) * B)) = of_nat ((m - 2) * B)" using E(3) by (simp only: B_def)
  from scaled_rand_bounds [OF E(1,2) N Er, of st] E(4) obtain x where x: "scaled_rand E (o_size opt - to_u64 (o_bsize opt)) st = Inr x"
    "unat x \<le> (m - 2) * B" by blast
  let ?off = "ALIGN x (o_bsize opt)"
  have le: "(m - 2) * B \<le> (m - 1) * B" by (intro mult_right_mono) simp_all
  have off: "unat ?off = (unat x + (B - 1)) div B * B" using x(2) le by (intro al) linarith
  have "(unat x + (B - 1)) div B \<le> m - 2" using div_le_mono [of "unat x + (B - 1)" "(m - 2) * B + (B - 1)" B] x(2) up by simp
  then have "unat ?off \<le> (m - 2) * B" unfolding off by (rule mult_le_mono1)
  moreover have "(m - 2) * B + 2 * B = m * B" using m(2) by (metis add_mult_distrib le_add_diff_inverse2)
  ultimately have "unat ?off + 2 * B \<le> unat (o_rand opt)" using m(1) unfolding B_def by linarith
  moreover have "B dvd unat ?off" unfolding off by simp
  moreover have "one_offset E opt st = Inr ?off" using x(1) opt(2,3) by (simp add: one_offset_def)
  ultimately show ?thesis unfolding B_def by blast
qed

theorem random_offset_in_range_witness:
  "\<exists>off. one_offset (sample_env []) ((plain_opts 4 None (- 1) (- 1))\<lparr>o_rand := 32, o_size := ALIGN (32 - to_u64 4) 4\<rparr>)
     (dd_init (sample_env []) (plain_opts 4 None (- 1) (- 1)) no_file no_file blank_timing) = Inr off \<and>
   4 dvd unat off \<and> unat off + 8 \<le> 32"
  using random_offset_in_range [of "(plain_opts 4 None (- 1) (- 1))\<lparr>o_rand := 32, o_size := ALIGN (32 - to_u64 4) 4\<rparr>" 2 8 "sample_env []"
      "dd_init (sample_env []) (plain_opts 4 None (- 1) (- 1)) no_file no_file blank_timing"]
  by (simp add: plain_opts_def sample_env_def mono_def)

text \<open>the option \<open>norepeat\<close> never works: its array index starts at \<open>- 1\<close>, so the first random offset is
  stored before the array.\<close>

theorem norepeat_stores_before_array:
  assumes "o_norepeat opt" "dd_calloc E" "o_end opt \<noteq> - 1 \<or> o_rand opt \<noteq> - 1" "o_count opt \<noteq> 0"
  shows "\<exists>e. dd_loop E opt fin fout nm (skip_blocks opt fin fout (dd_init E opt fi fo t)) = Some (Inl e)"
proof -
  define st where "st = skip_blocks opt fin fout (dd_init E opt fi fo t)"
  obtain nr where st: "d_norepeat st = Some nr" "d_norepeats st = - 1" "d_count st = o_count opt"
    using assms(1,2) by (auto simp: st_def skip_blocks_def dd_init_def seek_both_def say_def Let_def)
  have first: "\<exists>e. bind_r (pick_offset E opt s) (\<lambda>s1. bind_r (Some (note_offset opt s1)) f) = Some (Inl e)"
    if "d_norepeat s = Some nr" "d_norepeats s = - 1" for s and f :: "dd_state \<Rightarrow> dd_state res option"
  proof (cases "one_offset E opt s")
    case (Inl e)
    then show ?thesis by (subst pick_offset.simps) (simp add: try_offset_def bind_r_def)
  next
    case (Inr off)
    with that show ?thesis by (subst pick_offset.simps) (simp add: try_offset_def bind_r_def note_offset_def Let_def)
  qed
  have "\<exists>e. random_seek E opt fin fout s = Some (Inl e)" if "d_norepeat s = Some nr" "d_norepeats s = - 1" for s
    unfolding random_seek_def Let_def using assms(3) that by (auto intro!: first)
  then obtain e where "random_seek E opt fin fout (if o_count opt \<noteq> - 1 then st\<lparr>d_count := d_count st - 1\<rparr> else st) = Some (Inl e)"
    using st(1,2) by fastforce
  then have "dd_pass E opt fin fout nm st = Some (Inl e)" using st(3) assms(4) by (simp add: dd_pass_def bind_r_def)
  then show ?thesis unfolding st_def [symmetric] by (subst dd_loop.simps) simp
qed

theorem norepeat_stores_before_array_witness:
  "\<exists>e. dd_loop (sample_env []) ((plain_opts 4 None (- 1) (- 1))\<lparr>o_rand := 32, o_norepeat := True\<rparr>) 3 (- 2) None
     (skip_blocks ((plain_opts 4 None (- 1) (- 1))\<lparr>o_rand := 32, o_norepeat := True\<rparr>) 3 (- 2)
       (dd_init (sample_env []) ((plain_opts 4 None (- 1) (- 1))\<lparr>o_rand := 32, o_norepeat := True\<rparr>) no_file no_file blank_timing)) = Some (Inl e)"
  by (rule norepeat_stores_before_array) (simp_all add: plain_opts_def sample_env_def)

section \<open>The histogram of times\<close>

lemma sum_list_update_add: "i < length h \<Longrightarrow> sum_list (h[i := h ! i + k]) = sum_list h + (k :: int)"
  by (induction h arbitrary: i) (auto split: nat.splits)

lemma sum_bump:
  assumes "i < length h" "h ! i < 2 ^ 31 - 1" "0 \<le> h ! i"
  shows "sum_list (bump i h) = sum_list h + 1"
proof -
  have "s32 (h ! i + 1) = h ! i + 1" using assms(2,3) by (intro s32_nonneg) simp_all
  then show ?thesis using assms(1) by (simp add: bump_def sum_list_update_add)
qed

lemma find_bucket:
  assumes "0 \<le> tmin" "tmin \<le> mills" "0 \<le> step" "tmin + 10 * step < 2 ^ 31"
  shows "find (\<lambda>i. mills < s32 (s32 (int i * step) + tmin)) [1..<11] = None \<longleftrightarrow> tmin + 10 * step \<le> mills"
proof -
  have e: "s32 (s32 (int i * step) + tmin) = int i * step + tmin" if "i < 11" for i
  proof -
    have "int i * step \<le> 10 * step" using that assms(3) by (intro mult_right_mono) simp_all
    moreover have "0 \<le> int i * step" using assms(3) by simp
    ultimately have "s32 (int i * step) = int i * step" "s32 (int i * step + tmin) = int i * step + tmin"
      using assms(1,4) by (auto intro!: s32_nonneg)
    then show ?thesis by simp
  qed
  have "find (\<lambda>i. mills < s32 (s32 (int i * step) + tmin)) [1..<11] = None \<longleftrightarrow> (\<forall>i \<in> set [1..<11]. int i * step + tmin \<le> mills)"
    unfolding find_None_iff by (metis e atLeastLessThan_iff not_less set_upt)
  also have "\<dots> \<longleftrightarrow> tmin + 10 * step \<le> mills"
  proof
    assume "\<forall>i \<in> set [1..<11]. int i * step + tmin \<le> mills"
    then have "int 10 * step + tmin \<le> mills" by (rule bspec) simp
    then show "tmin + 10 * step \<le> mills" by simp
  next
    assume m: "tmin + 10 * step \<le> mills"
    show "\<forall>i \<in> set [1..<11]. int i * step + tmin \<le> mills"
    proof
      fix i assume "i \<in> set [1..<11]"
      then have "int i * step \<le> 10 * step" using assms(3) by (intro mult_right_mono) simp_all
      with m show "int i * step + tmin \<le> mills" by linarith
    qed
  qed
  finally show ?thesis .
qed

text \<open>the histogram: every time is counted in exactly one bucket, except the times between ten steps
  and the maximum.  A step is a tenth of the range rounded down, so unless ten divides the range times
  close to the maximum are not counted at all.\<close>

theorem put_hist_counts:
  assumes "length h = 12" "\<forall>i < 12. 0 \<le> h ! i \<and> h ! i < 2 ^ 31 - 1" "0 \<le> tmin" "tmin \<le> tmax" "tmax < 2 ^ 31"
  shows "sum_list (put_hist tmax tmin mills h) =
    sum_list h + (if tmin + 10 * ((tmax - tmin) div 10) \<le> mills \<and> mills < tmax then 0 else 1)"
proof -
  define step where "step = (tmax - tmin) div 10"
  have step: "c_div (s32 (tmax - tmin)) 10 = step" "0 \<le> step" "tmin + 10 * step \<le> tmax"
    using assms(3-5) by (simp_all add: step_def c_div_nonneg s32_nonneg)
  have b: "sum_list (bump i h) = sum_list h + 1" if "i < 12" for i using that assms(1,2) by (intro sum_bump) auto
  show ?thesis
  proof (cases "tmin \<le> mills \<and> mills < tmax")
    case True
    then have p: "put_hist tmax tmin mills h =
        (case find (\<lambda>i. mills < s32 (s32 (int i * step) + tmin)) [1..<11] of Some i \<Rightarrow> bump i h | None \<Rightarrow> h)"
      by (simp add: put_hist_def step(1))
    have "i < 12" if "find (\<lambda>i. mills < s32 (s32 (int i * step) + tmin)) [1..<11] = Some i" for i
      using that by (auto simp: find_Some_iff)
    then show ?thesis
      using find_bucket [of tmin mills step] True assms(3,5) step b unfolding p step_def [symmetric]
      by (auto split: option.splits)
  next
    case False
    then show ?thesis using b step(2,3) unfolding step_def [symmetric] by (auto simp: put_hist_def)
  qed
qed

theorem put_hist_counts_witness:
  "sum_list (put_hist 15 0 12 (replicate 12 0)) = 0 \<and> sum_list (put_hist 15 0 3 (replicate 12 0)) = 1"
  using put_hist_counts [of "replicate 12 0" 0 15 12] put_hist_counts [of "replicate 12 0" 0 15 3] by (simp add: sum_list_replicate)

section \<open>The variables keep their shape\<close>

text \<open>The buffers have the block size, the index of the next one is valid, the histograms have twelve entries.\<close>

definition dd_wf :: "dd_opts \<Rightarrow> dd_state \<Rightarrow> bool" where
  "dd_wf opt st \<longleftrightarrow> bufs_ok opt st \<and> length (d_rthist st) = 12 \<and> length (d_wthist st) = 12"

definition same_shape :: "dd_state \<Rightarrow> dd_state \<Rightarrow> bool" where
  "same_shape st st' \<longleftrightarrow> map length (d_bufs st') = map length (d_bufs st) \<and> d_nextbuf st' = d_nextbuf st \<and>
     length (d_rthist st') = length (d_rthist st) \<and> length (d_wthist st') = length (d_wthist st)"

lemma same_shape_wf: "same_shape st st' \<Longrightarrow> dd_wf opt st \<Longrightarrow> dd_wf opt st'"
proof -
  assume s: "same_shape st st'" and w: "dd_wf opt st"
  then have "length ` set (d_bufs st') = length ` set (d_bufs st)" unfolding same_shape_def by (metis set_map)
  moreover have "length (d_bufs st') = length (d_bufs st)" using s unfolding same_shape_def by (metis length_map)
  ultimately have "\<forall>b \<in> set (d_bufs st'). length b = nat (o_bsize opt)"
    using w by (auto simp: dd_wf_def bufs_ok_def)
  then show "dd_wf opt st'" using s w \<open>length (d_bufs st') = length (d_bufs st)\<close> by (simp add: dd_wf_def bufs_ok_def same_shape_def)
qed

lemma same_shape_refl [simp]: "same_shape st st"
  by (simp add: same_shape_def)

lemma same_shape_trans: "same_shape a b \<Longrightarrow> same_shape b c \<Longrightarrow> same_shape a c"
  by (simp add: same_shape_def)

lemma same_shape_say [simp]: "same_shape st (say ms st') = same_shape st st'"
  by (simp add: same_shape_def say_def)

lemma same_shape_buf:
  assumes "same_shape st st'" "length buf = length (d_bufs st' ! b)"
  shows "same_shape st (st'\<lparr>d_bufs := (d_bufs st')[b := buf]\<rparr>)"
proof (cases "b < length (d_bufs st')")
  case True
  then have "map length ((d_bufs st')[b := buf]) = map length (d_bufs st')"
    using assms(2) by (simp add: map_update list_update_same_conv)
  then show ?thesis using assms(1) by (simp add: same_shape_def)
qed (use assms(1) in \<open>simp add: same_shape_def list_update_beyond\<close>)

lemma length_fill_words: "4 * n \<le> length buf \<Longrightarrow> length (fill_words off n buf) = length buf"
  by (simp add: fill_words_eq)

lemma length_touch_pages [simp]: "length (touch_pages n buf) = length buf"
proof -
  have "length (fold (\<lambda>i b. b[i * 4096 := 0]) is c) = length c" for "is" and c :: "u8 list" by (induction "is" arbitrary: c) auto
  then show ?thesis by (simp add: touch_pages_def)
qed

lemma length_put_hist [simp]: "length (put_hist a b c h) = length h"
  by (auto simp: put_hist_def bump_def Let_def split: option.splits)

lemma shape_stop_timer: "stop_timer E t st = Inr (m, st') \<Longrightarrow> same_shape st st'"
  by (auto simp: stop_timer_def clock_now_def same_shape_def and_then_Inr_iff)

lemma shape_times:
  "read_time E opt t st = Inr st' \<Longrightarrow> same_shape st st'"
  "write_time E opt t st = Inr st' \<Longrightarrow> same_shape st st'"
  by (auto simp: read_time_def write_time_def and_then_Inr_iff Let_def same_shape_def say_def dest!: shape_stop_timer)

lemma shape_try_offset: "try_offset E opt st = Inr (again, st') \<Longrightarrow> same_shape st st'"
  by (auto simp: try_offset_def and_then_Inr_iff Let_def same_shape_def say_def split: option.splits)

lemma shape_pick_offset:
  assumes "pick_offset E opt st = Some (Inr st')"
  shows "same_shape st st'"
proof -
  have "\<forall>st'. r = Inr st' \<longrightarrow> same_shape st st'" if "pick_offset E opt st = Some r" for r
  proof (rule pick_offset.raw_induct [where P = "\<lambda>E opt st r. \<forall>st'. r = Inr st' \<longrightarrow> same_shape st st'", OF _ that])
    fix pick E opt st r
    assume IH: "\<And>E opt st r. pick E opt st = Some r \<Longrightarrow> \<forall>st'. r = Inr st' \<longrightarrow> same_shape st st'"
      and r: "(case try_offset E opt st of Inl e \<Rightarrow> Some (Inl e)
        | Inr (again, st') \<Rightarrow> if again then pick E opt st' else Some (Inr st')) = Some r"
    show "\<forall>st'. r = Inr st' \<longrightarrow> same_shape st st'"
    proof (cases "try_offset E opt st")
      case (Inr p)
      obtain again st1 where p: "p = (again, st1)" by (cases p)
      with Inr have sh: "same_shape st st1" by (simp add: shape_try_offset)
      show ?thesis
      proof (cases again)
        case True
        then have "pick E opt st1 = Some r" using r Inr p by simp
        from IH [OF this] show ?thesis using same_shape_trans [OF sh] by blast
      qed (use r Inr p sh in auto)
    qed (use r in auto)
  qed
  with assms show ?thesis by blast
qed

lemma shape_random_seek: "random_seek E opt fin fout st = Some (Inr st') \<Longrightarrow> same_shape st st'"
proof (cases "o_end opt = - 1 \<and> o_rand opt = - 1")
  case False
  assume r: "random_seek E opt fin fout st = Some (Inr st')"
  define st0 where "st0 = (if o_end opt \<noteq> - 1 then st\<lparr>d_side := (if d_side st \<noteq> 0 then 0 else o_rand opt - o_end opt)\<rparr> else st)"
  from r False obtain st1 st2 where s: "pick_offset E opt st0 = Some (Inr st1)" "note_offset opt st1 = Inr st2" "st' = seek_both fin fout st2"
    by (auto simp: random_seek_def Let_def bind_r_def st0_def [symmetric] split: option.splits sum.splits)
  have "same_shape st st0" by (simp add: st0_def same_shape_def)
  moreover have "same_shape st0 st1" using s(1) by (rule shape_pick_offset)
  moreover have "same_shape st1 st2" using s(2) by (auto simp: note_offset_def Let_def same_shape_def split: option.splits if_splits)
  moreover have "same_shape st2 st'" by (simp add: s(3) seek_both_def same_shape_def Let_def)
  ultimately show ?thesis using same_shape_trans by blast
qed (simp add: random_seek_def)

lemma shape_read_block:
  assumes "read_block E opt b st = Inr (m, st')" "dd_wf opt st" "b < length (d_bufs st)" "0 \<le> o_bsize opt"
  shows "same_shape st st' \<and> (\<forall>k. m = Some k \<longrightarrow> k \<le> o_bsize opt)"
proof -
  define tm where "tm = timed (o_rtmax opt) (o_rtmin opt)"
  obtain t0 st1 where c: "(if tm then clock_now E st else (dd_clock E 0, st)) = (t0, st1)" by fastforce
  then have s1: "same_shape st st1" "d_bufs st1 = d_bufs st" by (auto simp: clock_now_def same_shape_def split: if_splits)
  obtain data f where d: "read_file (dd_rd E (d_reads st1)) (nat (o_bsize opt)) (d_in st1) = (data, f)" by fastforce
  define buf where "buf = (case data of None \<Rightarrow> d_bufs st1 ! b | Some d \<Rightarrow> d @ drop (length d) (d_bufs st1 ! b))"
  have ld: "case data of None \<Rightarrow> True | Some d \<Rightarrow> length d \<le> nat (o_bsize opt)"
    using d by (auto simp: read_file_def Let_def split: option.splits)
  have "length (d_bufs st ! b) = nat (o_bsize opt)" using assms(2,3) by (simp add: dd_wf_def bufs_ok_def)
  then have lb: "length buf = length (d_bufs st1 ! b)" using ld s1(2) by (auto simp: buf_def split: option.splits)
  define st2 where "st2 = st1\<lparr>d_in := f, d_reads := Suc (d_reads st1), d_bufs := (d_bufs st1)[b := buf]\<rparr>"
  have s2: "same_shape st st2" using same_shape_buf [OF s1(1) lb] by (simp add: st2_def same_shape_def)
  have r: "read_block E opt b st =
      (if d_padin st2 \<noteq> 0 then Inr (None, restart_clock E (st2\<lparr>d_padin := 0, d_count := d_count st2 + 1\<rparr>))
       else and_then (if tm then read_time E opt t0 st2 else Inr st2)
         (\<lambda>st3. Inr (Some (case data of None \<Rightarrow> - 1 | Some d \<Rightarrow> int (length d)), st3)))"
    unfolding read_block_def Let_def tm_def [symmetric] c prod.case d buf_def [symmetric] st2_def ..
  have "\<forall>k. m = Some k \<longrightarrow> k \<le> o_bsize opt"
    using assms(1,4) ld r by (auto simp: and_then_Inr_iff split: if_splits option.splits)
  moreover have "same_shape st st'"
  proof (cases "d_padin st2 \<noteq> 0")
    case True
    then show ?thesis using assms(1) r s2 by (auto simp: restart_clock_def clock_now_def same_shape_def)
  next
    case False
    then obtain st3 where "(if tm then read_time E opt t0 st2 else Inr st2) = Inr st3" "st' = st3"
      using assms(1) r by (auto simp: and_then_Inr_iff)
    then have "same_shape st2 st'" using shape_times(1) by (auto split: if_splits)
    with s2 show ?thesis by (rule same_shape_trans)
  qed
  ultimately show ?thesis by blast
qed

lemma shape_write_block:
  assumes "write_block E opt b moved st = Inr (e, st')" "dd_wf opt st" "b < length (d_bufs st)" "moved \<le> o_bsize opt"
  shows "same_shape st st'"
proof -
  define buf where "buf = (if o_outpat opt \<noteq> - 1 then fill_words (d_off st) (nat moved div 4) (d_bufs st ! b) else d_bufs st ! b)"
  define tm where "tm = timed (o_wtmax opt) (o_wtmin opt)"
  define st1 where "st1 = st\<lparr>d_bufs := (d_bufs st)[b := buf]\<rparr>"
  have "length (d_bufs st ! b) = nat (o_bsize opt)" using assms(2,3) by (simp add: dd_wf_def bufs_ok_def)
  then have "4 * (nat moved div 4) \<le> length (d_bufs st ! b)" using assms(4) by linarith
  then have "length buf = length (d_bufs st ! b)" by (simp add: buf_def length_fill_words)
  then have s1: "same_shape st st1" unfolding st1_def by (intro same_shape_buf) simp_all
  obtain t0 st2 where c: "(if tm then clock_now E st1 else (dd_clock E 0, st1)) = (t0, st2)" by fastforce
  then have s2: "same_shape st st2" using s1 by (auto simp: clock_now_def same_shape_def split: if_splits)
  obtain moved2 f where w: "write_file (dd_wr E (d_writes st2)) (take (nat moved) buf) (d_out st2) = (moved2, f)" by fastforce
  define st3 where "st3 = st2\<lparr>d_out := f, d_writes := Suc (d_writes st2)\<rparr>"
  define st4 where "st4 = (if moved2 = - 1 then say [Perror ''write''] st3 else st3)"
  have s4: "same_shape st st4" using s2 by (simp add: st4_def st3_def same_shape_def say_def)
  have r: "write_block E opt b moved st = (if moved2 \<noteq> moved then Inr (True, say [Short_Write moved moved2] st4)
      else and_then (if tm then write_time E opt t0 st4 else Inr st4) (\<lambda>st5.
        Inr (False, if o_touch opt then st5\<lparr>d_bufs := (d_bufs st5)[b := touch_pages (nat moved) (d_bufs st5 ! b)]\<rparr> else st5)))"
    unfolding write_block_def Let_def buf_def [symmetric] tm_def [symmetric] st1_def [symmetric] c prod.case w
      st3_def [symmetric] st4_def [symmetric] ..
  show ?thesis
  proof (cases "moved2 \<noteq> moved")
    case True
    then show ?thesis using assms(1) r s4 by auto
  next
    case False
    then obtain st5 where st5: "(if tm then write_time E opt t0 st4 else Inr st4) = Inr st5"
      "st' = (if o_touch opt then st5\<lparr>d_bufs := (d_bufs st5)[b := touch_pages (nat moved) (d_bufs st5 ! b)]\<rparr> else st5)"
      using assms(1) r by (auto simp: and_then_Inr_iff)
    then have "same_shape st4 st5" using shape_times(2) by (auto split: if_splits)
    with s4 have "same_shape st st5" by (rule same_shape_trans)
    then show ?thesis using st5(2) by (simp add: same_shape_buf)
  qed
qed

lemma shape_output_part:
  assumes "output_part E opt fout nm b moved st = Inr (Again st')" "dd_wf opt st" "b < length (d_bufs st)" "moved \<le> o_bsize opt"
  shows "same_shape st st'"
proof -
  have end_shape: "same_shape st (pass_end opt moved s) = same_shape st s" "same_shape st (advance moved s) = same_shape st s" for s
    by (simp_all add: same_shape_def pass_end_def advance_def say_def)
  have "same_shape st (run_child E opt nm b moved s)" if "same_shape st s" for s
    using that by (simp add: run_child_def same_shape_def Let_def)
  moreover have "same_shape st (st\<lparr>d_forks := n\<rparr>)" for n by (simp add: same_shape_def)
  ultimately show ?thesis
    using assms shape_write_block [OF _ assms(2-4)]
    by (auto simp: output_part_def Let_def end_shape and_then_Inr_iff split: if_splits)
qed

lemma shape_check_words: "check_words mm off buf is st = (e, st') \<Longrightarrow> same_shape st st'"
proof (induction "is" arbitrary: st)
  case (Cons i "is")
  then show ?case by (auto simp: Let_def say_def same_shape_def split: if_splits)
qed simp

lemma shape_after_read:
  assumes "after_read E opt fin fout nm b k st = Inr (Again st')" "dd_wf opt st" "b < length (d_bufs st)" "k \<le> o_bsize opt"
  shows "same_shape st st'"
proof -
  obtain e st5 where c: "(if o_inpat opt \<noteq> - 1 then check_words (o_mismatch opt) (d_off st) (d_bufs st ! b) [0..<nat k div 4] st
      else (False, st)) = (e, st5)" by fastforce
  then have s5: "same_shape st st5" using shape_check_words by (auto split: if_splits)
  define st6 where "st6 = (if 0 \<le> fin \<and> o_touch opt then st5\<lparr>d_bufs := (d_bufs st5)[b := touch_pages (nat k) (d_bufs st5 ! b)]\<rparr> else st5)"
  have s6: "same_shape st st6" using s5 by (simp add: st6_def same_shape_buf)
  have "output_part E opt fout nm b k st6 = Inr (Again st')"
    using assms(1) unfolding after_read_def c prod.case Let_def st6_def [symmetric] by (auto split: if_splits)
  moreover have "dd_wf opt st6" using s6 assms(2) by (rule same_shape_wf)
  moreover have "b < length (d_bufs st6)" using assms(3) s6 unfolding same_shape_def by (metis length_map)
  ultimately have "same_shape st6 st'" using assms(4) by (intro shape_output_part)
  with s6 show ?thesis by (rule same_shape_trans)
qed

lemma read_opts_bsize:
  assumes "read_opts av = Inr opt"
  shows "4 \<le> o_bsize opt"
proof -
  define bs where "bs = (if intarg ''bs='' av < 0 then 8192 else intarg ''bs='' av)"
  have r: "((if c then Inl e else x) = Inr y) \<longleftrightarrow> \<not> c \<and> x = Inr y" for c and e :: fault and x and y :: dd_opts by simp
  from assms have "\<not> bs div 4 = 0 \<and> o_bsize opt = bs"
    unfolding read_opts_def Let_def r bs_def [symmetric] by (metis dd_opts.select_convs(4) sum.inject(2))
  moreover have "0 \<le> bs" by (simp add: bs_def)
  ultimately show ?thesis by linarith
qed



text \<open>A \<open>fork\<close> that fails is taken for the parent's return: the block is counted but never written.\<close>

lemma failed_fork_loses_block:
  assumes "0 \<le> fout" "o_fork opt \<noteq> - 1" "\<not> dd_fork E (d_forks st)"
  shows "\<exists>st'. output_part E opt fout nm b moved st = Inr (Again st') \<and> d_out st' = d_out st \<and> d_log st' = d_log st \<and>
    d_int_count st' = d_int_count st + to_u64 (moved div 4)"
  using assms by (simp add: output_part_def advance_def)

end
