(* ===== verification/Lm_Sched.thy ===== *)
theory Lm_Sched
  imports Lm_Util Lm_Mem_Chain
begin

text \<open>
  The placement of benchmark processes on processors (\<open>src/lmbench-3.0-a9/src/lib_sched.c\<close>, in the
  variant for Linux), which \<open>benchmp\<close> and the benchmarks that fork call: the environment variable
  \<open>LMBENCH_SCHED\<close> chooses a policy, the policy a processor, and \<open>sched_pin\<close> binds the process to it.

  Arguments: the number of processors, the bytes of memory from the value of the variable on, and the
  kernel's affinity calls.  Allocations succeed.  A shift of an \<open>int\<close> by 32 or more, which the C
  standard leaves undefined, is taken modulo 32, as the processors of the evaluation do.
\<close>

section \<open>Policies\<close>

definition lower :: "char \<Rightarrow> char" where
  "lower c = (if (65 :: nat) \<le> of_char c \<and> of_char c \<le> (90 :: nat) then char_of (of_char c + (32 :: nat)) else c)"

definition strcasecmp :: "string \<Rightarrow> string \<Rightarrow> bool" where
  "strcasecmp a b \<longleftrightarrow> map lower a = map lower b"

text \<open>A C string in memory.\<close>

abbreviation NUL :: char where "NUL \<equiv> CHR 0x00"

definition cstring :: "string \<Rightarrow> string" where
  "cstring mem = takeWhile (\<lambda>c. c \<noteq> NUL) mem"

definition nbits_of :: "int \<Rightarrow> nat" where
  "nbits_of ncpus = Suc (count_bits (nat (ncpus - 1) div 2))"

definition reverse_cpu :: "int \<Rightarrow> int \<Rightarrow> int" where
  "reverse_cpu ncpus cpu =
     (let nbits = nbits_of ncpus in
      fold (\<lambda>i r. if bit cpu i then r OR 2 ^ (nbits - i - 1) else r) [0..<nbits] 0)"

text \<open>The numbers in the string.  After each of them a zero is stored and skipped, also where the string
  ends with the number: then the scan goes on in the memory that follows.\<close>

function custom_scan :: "string \<Rightarrow> int list \<Rightarrow> int list res" where
  "custom_scan mem vs =
     (if mem = [] then Inl Out_Of_Bounds
      else if hd mem = NUL then Inr vs
      else
        let m1 = dropWhile (\<lambda>c. c \<noteq> NUL \<and> \<not> is_digit c) mem; ds = takeWhile is_digit m1; m2 = dropWhile is_digit m1 in
        if m1 = [] \<or> m2 = [] then Inl Out_Of_Bounds
        else if ds = [] then Inr vs
        else custom_scan (tl m2) (vs @ [atoi ds]))"
  by pat_completeness auto
termination
proof (relation "measure (\<lambda>(mem, vs). length mem)", goal_cases)
  case (2 mem vs m1 ds m2)
  have "length m2 \<le> length m1" using 2 by (simp add: length_dropWhile_le)
  moreover have "length m1 \<le> length mem" using 2 by (simp add: length_dropWhile_le)
  moreover have "m2 \<noteq> []" using 2 by blast
  moreover have "mem \<noteq> []" using 2 by blast
  ultimately have "length (tl m2) < length mem" by (cases m2) auto
  then show ?case by simp
qed simp

declare custom_scan.simps [simp del]

text \<open>\<open>custom\<close> with its static array.\<close>

definition custom :: "string \<Rightarrow> int \<Rightarrow> int list option \<Rightarrow> (int \<times> int list option) res" where
  "custom mem cpu saved =
     and_then (case saved of None \<Rightarrow> custom_scan mem [] | Some vs \<Rightarrow> Inr vs) (\<lambda>vs.
       if vs = [] then Inr (0, Some vs)
       else let k = c_mod cpu (int (length vs)) in
         if k < 0 then Inl Out_Of_Bounds else Inr (vs ! nat k, Some vs))"

text \<open>The first part of \<open>handle_scheduler\<close>: the processor, or \<open>None\<close> if the placement is left alone.\<close>

definition unique_id :: "int \<Rightarrow> int \<Rightarrow> int \<Rightarrow> int" where
  "unique_id childno benchproc nbenchprocs = s32 (s32 (childno * s32 (nbenchprocs + 1)) + benchproc)"

definition choose_cpu ::
  "int \<Rightarrow> string option \<Rightarrow> int \<Rightarrow> int \<Rightarrow> int \<Rightarrow> int list option \<Rightarrow> (int option \<times> int list option) res" where
  "choose_cpu ncpus sched childno benchproc nbenchprocs saved =
     (case sched of
        None \<Rightarrow> Inr (None, saved)
      | Some mem \<Rightarrow>
          let s = cstring mem in
          if strcasecmp s ''DEFAULT'' then Inr (None, saved)
          else if strcasecmp s ''SINGLE'' then Inr (Some 0, saved)
          else if strcasecmp s ''BALANCED'' then Inr (Some childno, saved)
          else if strcasecmp s ''BALANCED_SPREAD'' then Inr (Some (reverse_cpu ncpus childno), saved)
          else if strcasecmp s ''UNIQUE'' then Inr (Some (unique_id childno benchproc nbenchprocs), saved)
          else if strcasecmp s ''UNIQUE_SPREAD'' then Inr (Some (reverse_cpu ncpus (unique_id childno benchproc nbenchprocs)), saved)
          else if strcasecmp (take 7 s) ''CUSTOM '' then
            and_then (custom (drop 6 mem) childno saved) (\<lambda>(c, saved'). Inr (Some c, saved'))
          else if strcasecmp (take 14 s) ''CUSTOM_SPREAD '' then
            and_then (custom (drop 13 mem) (unique_id childno benchproc nbenchprocs) saved) (\<lambda>(c, saved'). Inr (Some c, saved'))
          else Inr (None, saved))"

section \<open>Binding a process\<close>

record sched_env =
  se_ncpus :: int
  se_getaffinity :: "nat \<Rightarrow> u64 list option"
  se_setaffinity :: "u64 list \<Rightarrow> int"

record sched_state =
  ss_values :: "int list option"
  ss_cpumask :: "u64 list option"
  ss_ncpus :: nat

text \<open>\<open>1 << bit\<close> converted to \<open>unsigned long\<close>.\<close>

definition shl1 :: "nat \<Rightarrow> u64" where
  "shl1 b = to_u64 (s32 (2 ^ (b mod 32)))"

definition mask_words :: "int \<Rightarrow> nat" where
  "mask_words ncpus = 1 + nat (2 * ncpus) div 64"

definition allowed :: "u64 list \<Rightarrow> nat \<Rightarrow> bool" where
  "allowed cpumask i \<longleftrightarrow> cpumask ! (i div 64) AND shl1 (i mod 64) \<noteq> 0"

text \<open>\<open>sched_pin\<close>: the result and the mask the kernel is given.\<close>

definition set_mask :: "sched_env \<Rightarrow> nat \<Rightarrow> int \<Rightarrow> nat \<Rightarrow> u64 list \<Rightarrow> (int \<times> u64 list) res" where
  "set_mask E sz cpu n cpumask =
     (if n = 0 then Inl Div_By_Zero
      else
        let k = c_mod cpu (int n);
            cands = filter (allowed cpumask) [0..<sz * 64];
            zero = replicate sz 0;
            mask = (if nat k < length cands
                    then let i = cands ! nat k in zero[i div 64 := zero ! (i div 64) OR shl1 (i mod 64)] else zero)
        in Inr (se_setaffinity E mask, mask))"

definition sched_pin :: "sched_env \<Rightarrow> int \<Rightarrow> sched_state \<Rightarrow> (int \<times> u64 list option \<times> sched_state) res" where
  "sched_pin E cpu st =
     (let sz = mask_words (se_ncpus E) in
      case ss_cpumask st of
        Some cpumask \<Rightarrow> and_then (set_mask E sz cpu (ss_ncpus st) cpumask) (\<lambda>(r, mask). Inr (r, Some mask, st))
      | None \<Rightarrow>
          (case se_getaffinity E sz of
             None \<Rightarrow> Inr (- 1, None, st\<lparr>ss_cpumask := Some (replicate sz 0)\<rparr>)
           | Some cpumask \<Rightarrow>
               let n = length (filter (allowed cpumask) [0..<sz * 64]);
                   st' = st\<lparr>ss_cpumask := Some cpumask, ss_ncpus := ss_ncpus st + n\<rparr>
               in and_then (set_mask E sz cpu (ss_ncpus st') cpumask) (\<lambda>(r, mask). Inr (r, Some mask, st'))))"

definition handle_scheduler ::
  "sched_env \<Rightarrow> string option \<Rightarrow> int \<Rightarrow> int \<Rightarrow> int \<Rightarrow> sched_state \<Rightarrow> (int \<times> u64 list option \<times> sched_state) res" where
  "handle_scheduler E sched childno benchproc nbenchprocs st =
     and_then (choose_cpu (se_ncpus E) sched childno benchproc nbenchprocs (ss_values st)) (\<lambda>(cpu, saved).
       let st' = st\<lparr>ss_values := saved\<rparr> in
       case cpu of
         None \<Rightarrow> Inr (0, None, st')
       | Some c \<Rightarrow> if se_ncpus E = 0 then Inl Div_By_Zero else sched_pin E (c_mod c (se_ncpus E)) st')"

section \<open>The numbers of a custom placement\<close>

lemma atoi_dec: "n < 2 ^ 31 \<Longrightarrow> atoi (dec n) = int n"
proof -
  assume n: "n < 2 ^ 31"
  obtain c cs where d: "dec n = c # cs" using dec_props [of n] by (cases "dec n") auto
  then have c: "is_digit c" using dec_props [of n] by auto
  have t: "takeWhile is_digit (dec n) = dec n" using dec_props [of n] by (simp add: takeWhile_eq_all_conv)
  have "dropWhile is_space (dec n) = dec n" using d digit_not_special [OF c] by simp
  moreover have "hd (dec n) \<noteq> CHR ''-''" "hd (dec n) \<noteq> CHR ''+''" using d digit_not_special [OF c] by simp_all
  ultimately show ?thesis using dec_props [of n] n by (simp add: atoi_def Let_def s32_nonneg t)
qed

lemma custom_scan_number:
  assumes "n < 2 ^ 31" "\<not> is_digit c" "pre = [] \<or> pre = '' ''"
  shows "custom_scan (pre @ dec n @ c # rest) vs = custom_scan rest (vs @ [int n])"
proof -
  obtain d ds where d: "dec n = d # ds" using dec_props [of n] by (cases "dec n") auto
  then have "is_digit d" using dec_props [of n] by auto
  then have dd: "is_digit d" "d \<noteq> NUL" by (auto simp: is_digit_def)
  let ?mem = "pre @ dec n @ c # rest"
  have m1: "dropWhile (\<lambda>c. c \<noteq> NUL \<and> \<not> is_digit c) ?mem = dec n @ c # rest"
    using assms(3) d dd by (auto simp: is_digit_def)
  have t: "takeWhile is_digit (dec n @ c # rest) = dec n" "dropWhile is_digit (dec n @ c # rest) = c # rest"
    using dec_props [of n] assms(2) by (simp_all add: takeWhile_append2 dropWhile_append2)
  have "?mem \<noteq> []" "hd ?mem \<noteq> NUL" using assms(3) d dd by auto
  then show ?thesis
    by (subst custom_scan.simps) (simp add: m1 t Let_def atoi_dec [OF assms(1)] dec_props assms(2))
qed

text \<open>a list of processors that ends with a number is read past its end: for the value
  \<open>CUSTOM n1 n2 ... nk\<close> the scan takes the \<open>k\<close> numbers and then goes on with whatever follows the
  string in memory, the next environment variable.  Only a character after the last number stops it.\<close>

theorem custom_scan_runs_on:
  assumes "ns \<noteq> []" "\<forall>n \<in> set ns. n < 2 ^ 31"
  shows "custom_scan ('' '' @ concat (map (\<lambda>n. dec n @ '' '') (butlast ns)) @ dec (List.last ns) @ NUL # rest) [] = custom_scan rest (map int ns) \<and>
    custom_scan ('' '' @ concat (map (\<lambda>n. dec n @ '' '') ns) @ NUL # rest) [] = Inr (map int ns)"
proof -
  have nd: "\<not> is_digit CHR '' ''" "\<not> is_digit NUL" by (simp_all add: is_digit_def)
  have list: "custom_scan (pre @ concat (map (\<lambda>n. dec n @ '' '') ms) @ tail) vs = custom_scan ((if ms = [] then pre else []) @ tail) (vs @ map int ms)"
    if "\<forall>n \<in> set ms. n < 2 ^ 31" "pre = [] \<or> pre = '' ''" for ms pre tail vs
    using that
  proof (induction ms arbitrary: pre vs)
    case (Cons m ms)
    have "custom_scan (pre @ concat (map (\<lambda>n. dec n @ '' '') (m # ms)) @ tail) vs =
        custom_scan (concat (map (\<lambda>n. dec n @ '' '') ms) @ tail) (vs @ [int m])"
      using custom_scan_number [of m "CHR '' ''" pre "concat (map (\<lambda>n. dec n @ '' '') ms) @ tail" vs] Cons.prems nd by simp
    then show ?case using Cons.IH [of "[]" "vs @ [int m]"] Cons.prems by simp
  qed simp
  have b: "\<forall>n \<in> set (butlast ns). n < 2 ^ 31" using assms(2) by (auto dest: in_set_butlastD)
  have l: "List.last ns < 2 ^ 31" using assms by simp
  have "custom_scan ('' '' @ concat (map (\<lambda>n. dec n @ '' '') (butlast ns)) @ dec (List.last ns) @ NUL # rest) [] =
      custom_scan rest (map int (butlast ns) @ [int (List.last ns)])"
    using list [OF b, of "'' ''" "dec (List.last ns) @ NUL # rest" "[]"] nd(2)
      custom_scan_number [OF l, of NUL "if butlast ns = [] then '' '' else []" rest "map int (butlast ns)"] by simp
  also have "map int (butlast ns) @ [int (List.last ns)] = map int ns"
    using assms(1) by (metis append_butlast_last_id list.map(1) list.map(2) map_append)
  finally have "custom_scan ('' '' @ concat (map (\<lambda>n. dec n @ '' '') (butlast ns)) @ dec (List.last ns) @ NUL # rest) [] = custom_scan rest (map int ns)" .
  moreover have "custom_scan ('' '' @ concat (map (\<lambda>n. dec n @ '' '') ns) @ NUL # rest) [] = Inr (map int ns)"
    using list [OF assms(2), of "'' ''" "NUL # rest" "[]"] assms(1) by (simp add: custom_scan.simps [of "NUL # rest"])
  ultimately show ?thesis by blast
qed

theorem custom_scan_runs_on_witness:
  "custom_scan ('' 0 2'' @ NUL # ''SHLVL=1'' @ [NUL, NUL]) [] = custom_scan (''SHLVL=1'' @ [NUL, NUL]) [0, 2]"
proof -
  have "dec 0 = ''0''" "dec 2 = ''2''" by (simp_all add: dec.simps char_of_def bit_0)
  then show ?thesis using custom_scan_runs_on [of "[0, 2]" "''SHLVL=1'' @ [NUL, NUL]"] by simp
qed

section \<open>Unique placements\<close>

lemma nbits_pow: "b \<noteq> 0 \<Longrightarrow> nbits_of (2 ^ b) = b"
proof -
  have c: "count_bits ((2 ^ Suc k - 1) div 2) = k" for k
  proof (induction k)
    case 0
    then show ?case by (simp add: count_bits.simps)
  next
    case (Suc k)
    have "(2 ^ Suc (Suc k) - 1) div 2 = 2 ^ Suc k - (1 :: nat)" by simp
    moreover have "count_bits (2 ^ Suc k - 1) = Suc (count_bits ((2 ^ Suc k - 1) div 2))" 
    proof -
      have "(2 :: nat) ^ 1 \<le> 2 ^ Suc k" by (rule power_increasing) simp_all
      then have "2 ^ Suc k - 1 \<noteq> (0 :: nat)" unfolding power_one_right by linarith
      then show ?thesis by (subst count_bits.simps) simp
    qed
    ultimately show ?case using Suc by simp
  qed
  assume "b \<noteq> 0"
  then obtain k where b: "b = Suc k" by (cases b) auto
  have "(2 :: int) ^ b - 1 = int (2 ^ Suc k - 1)" unfolding b by (subst of_nat_diff) simp_all
  then have "nat (2 ^ b - 1) = 2 ^ Suc k - 1" by (simp only: nat_int)
  then show ?thesis using c [of k] b by (simp add: nbits_of_def)
qed

lemma reverse_cpu_nat: "reverse_cpu ncpus (int c) = int (reverse_bits (nbits_of ncpus) c)"
proof -
  have "fold (\<lambda>i r. if bit (int c) i then r OR 2 ^ (n - i - 1) else r) is (int w) =
      int (fold (\<lambda>i r. if bit c i then r OR 2 ^ (n - i - 1) else r) is w)" for n "is" w
  proof (induction "is" arbitrary: w)
    case (Cons i "is")
    have "int (w OR 2 ^ (n - i - 1)) = int w OR 2 ^ (n - i - 1)" by (simp add: of_nat_or_eq)
    then show ?case using Cons [of "w OR 2 ^ (n - i - 1)"] Cons [of w] by (simp add: bit_of_nat_iff_bit)
  qed simp
  from this [of "nbits_of ncpus" "[0..<nbits_of ncpus]" 0] show ?thesis by (simp add: reverse_cpu_def reverse_bits_def Let_def)
qed

lemma unique_id_small:
  assumes "0 \<le> c" "0 \<le> p" "0 \<le> nb" "c * (nb + 1) + p < 2 ^ 31"
  shows "c = 0 \<and> unique_id c p nb = p \<or> unique_id c p nb = c * (nb + 1) + p"
proof (cases "c = 0")
  case True
  then show ?thesis using assms by (simp add: unique_id_def s32_nonneg)
next
  case False
  then have "nb + 1 \<le> c * (nb + 1)" using assms(1,3) by simp
  moreover have "0 \<le> c * (nb + 1)" using assms by simp
  moreover have "c * (nb + 1) + p \<le> 2147483647" using assms(4) by simp
  moreover have "s32 (c * (nb + 1) + p) = c * (nb + 1) + p" by (rule s32_nonneg) (use calculation assms in linarith)+
  moreover have "s32 (c * (nb + 1)) = c * (nb + 1)" by (rule s32_nonneg) (use calculation assms in linarith)+
  moreover have "s32 (nb + 1) = nb + 1" by (rule s32_nonneg) (use calculation assms in linarith)+
  ultimately have "s32 (nb + 1) = nb + 1" "s32 (c * (nb + 1)) = c * (nb + 1)" "s32 (c * (nb + 1) + p) = c * (nb + 1) + p" by blast+
  then show ?thesis by (simp add: unique_id_def)
qed

lemma unique_id_inj:
  fixes c p nb c' p' :: int
  assumes "0 \<le> c" "0 \<le> p" "p \<le> nb" "0 \<le> c'" "0 \<le> p'" "p' \<le> nb" "c * (nb + 1) + p = c' * (nb + 1) + p'"
  shows "c = c' \<and> p = p'"
proof -
  have "(c * (nb + 1) + p) div (nb + 1) = c" "(c' * (nb + 1) + p') div (nb + 1) = c'" using assms(2,3,5,6) by simp_all
  then have "c = c'" using assms(7) by simp
  then show ?thesis using assms(7) by simp
qed

lemma choose_unique:
  "cstring mem = ''UNIQUE'' \<Longrightarrow> choose_cpu ncpus (Some mem) c p nb saved = Inr (Some (unique_id c p nb), saved)"
  "cstring mem = ''UNIQUE_SPREAD'' \<Longrightarrow>
     choose_cpu ncpus (Some mem) c p nb saved = Inr (Some (reverse_cpu ncpus (unique_id c p nb)), saved)"
  by (simp_all add: choose_cpu_def strcasecmp_def lower_def)



section \<open>The processor a process is bound to\<close>

lemma shl1_small:
  assumes "b mod 32 < 31"
  shows "shl1 b = 2 ^ (b mod 32)"
proof -
  have "(2 :: int) ^ (b mod 32) < 2 ^ 31" using assms by (intro power_strict_increasing) simp_all
  then have "s32 (2 ^ (b mod 32)) = 2 ^ (b mod 32)" by (intro s32_nonneg) simp_all
  then show ?thesis by (simp add: shl1_def to_u64_def)
qed

lemma low_bit:
  assumes "unat (w :: u64) < 2 ^ 31" "bit w n"
  shows "n < 31"
proof -
  have "take_bit 31 (unat w) = unat w" using assms(1) by (simp add: take_bit_nat_eq_self)
  moreover have "bit (unat w) n" using assms(2) by (simp add: bit_unsigned_iff bit_imp_le_length)
  ultimately show ?thesis by (metis bit_take_bit_iff)
qed

lemma and_shl1:
  assumes "unat (w :: u64) < 2 ^ 31"
  shows "w AND shl1 b \<noteq> 0 \<longleftrightarrow> bit w (b mod 32)"
proof (cases "b mod 32 < 31")
  case True
  then show ?thesis by (simp add: shl1_small and_exp_eq_0_iff_not_bit)
next
  case False
  then have b: "b mod 32 = 31" using mod_less_divisor [of 32 b] by linarith
  have "shl1 b = NOT (mask 31)" by (simp add: shl1_def b to_u64_def s32_def mask_eq_exp_minus_1 not_eq_complement)
  then have "w AND shl1 b = 0" using low_bit [OF assms] by (intro bit_word_eqI) (auto simp: bit_simps)
  then show ?thesis using low_bit [OF assms, of 31] b by auto
qed

lemma upt_32: "[0..<64] = [0..<32] @ map (\<lambda>i. i + 32) [0..<32 :: nat]"
  using map_add_upt [of 32 32] upt_add_eq_append [of 0 32 32] by simp

lemma filter_allowed:
  assumes "unat w < 2 ^ 31" "0 < sz"
  shows "filter (allowed (w # replicate (sz - 1) 0)) [0..<sz * 64] = filter (bit w) [0..<32] @ map (\<lambda>i. i + 32) (filter (bit w) [0..<32])"
proof -
  let ?a = "allowed (w # replicate (sz - 1) 0)"
  have low: "?a i \<longleftrightarrow> bit w (i mod 32)" if "i < 64" for i
    using that and_shl1 [OF assms(1), of "i mod 64"] by (simp add: allowed_def mod_mod_cancel)
  have high: "\<not> ?a i" if "64 \<le> i" "i < sz * 64" for i
  proof -
    have "0 < i div 64" using that(1) by (simp add: div_greater_zero_iff)
    then obtain q where q: "i div 64 = Suc q" using gr0_implies_Suc by blast
    then have "q < sz - 1" using that(2) by (metis Suc_less_eq add.commute less_mult_imp_div_less less_diff_conv plus_1_eq_Suc)
    then show ?thesis using q by (simp add: allowed_def)
  qed
  obtain s where s: "sz = Suc s" using assms(2) by (cases sz) auto
  have "filter ?a [64..<sz * 64] = []" using high by (auto simp: filter_empty_conv)
  moreover have "[0..<sz * 64] = [0..<64] @ [64..<sz * 64]" using s upt_add_eq_append [of 0 64 "s * 64"] by simp
  ultimately have "filter ?a [0..<sz * 64] = filter ?a [0..<64]" by simp
  also have "\<dots> = filter ?a [0..<32] @ map (\<lambda>i. i + 32) (filter (\<lambda>i. ?a (i + 32)) [0..<32])"
    unfolding upt_32 filter_append filter_map comp_def ..
  also have "filter ?a [0..<32] = filter (bit w) [0..<32]" by (rule filter_cong [OF refl]) (use low in auto)
  also have "filter (\<lambda>i. ?a (i + 32)) [0..<32] = filter (bit w) [0..<32]" by (rule filter_cong [OF refl]) (use low in auto)
  finally show ?thesis .
qed



end
