(* ===== verification/Lm_Sizes.thy ===== *)
theory Lm_Sizes
  imports Lm_Mem_Rings Lm_Getopt Lm_Report Lm_Enough
begin

text \<open>
  The programs that look for sizes in the memory hierarchy, in \<open>src/lmbench-3.0-a9/src\<close>:
  \<open>lat_mem_rd.c\<close> (the latency of loads for growing ranges), \<open>tlb.c\<close> (the number of pages the address
  translation covers), \<open>memsize.c\<close> (the memory that can be used) and the main programs of \<open>line.c\<close> and
  \<open>par_mem.c\<close>.  They walk the chains of \<open>Lm_Mem\<close>; what the clock shows and what the kernel grants are
  arguments.  Sizes are natural numbers below \<open>2 ^ 64\<close>, cut off where the code can exceed that.
\<close>

section \<open>\<open>lat_mem_rd\<close>\<close>

definition LOWER :: nat where "LOWER = 512"
definition STRIDE :: nat where "STRIDE = 64"

text \<open>\<open>for (s = 4 * 1024; s <= k; s *= 2)\<close>; beyond \<open>2 ^ 63\<close> the product is 0 and the loop does not end.\<close>

partial_function (option) power_above :: "nat \<Rightarrow> nat \<Rightarrow> nat option" where
  "power_above k s = (if s \<le> k then power_above k (s * 2 mod 2 ^ 64) else Some s)"

definition step :: "nat \<Rightarrow> nat option" where
  "step k =
     (if k < 1024 then Some (k * 2)
      else if k < 4 * 1024 then Some (k + 1024)
      else map_option (\<lambda>s. (k + s div 4) mod 2 ^ 64) (power_above k (4 * 1024)))"

text \<open>The ranges that \<open>main\<close> measures.\<close>

partial_function (option) mem_ranges :: "nat \<Rightarrow> nat \<Rightarrow> nat list option" where
  "mem_ranges len rg =
     (if rg \<le> len then Option.bind (step rg) (\<lambda>r. Option.bind (mem_ranges len r) (\<lambda>rs. Some (rg # rs))) else Some [])"

text \<open>The measured function, in the process of a child of \<open>benchmp\<close>.\<close>

definition load_count :: "nat \<Rightarrow> nat \<Rightarrow> nat" where
  "load_count len line = len div (line * 100) + 1"

definition benchmark_loads :: "nat \<Rightarrow> mem_state \<Rightarrow> heap \<Rightarrow> mem_state res" where
  "benchmark_loads iters st h =
     (if ms_line st = 0 then Inl Div_By_Zero
      else if ms_p st = [] then Inl Out_Of_Bounds
      else and_then (chase h (iters * (load_count (ms_len st) (ms_line st) * 100)) [ms_p st ! 0]) (\<lambda>ps.
        Inr (st\<lparr>ms_p := (ms_p st)[0 := ps ! 0]\<rparr>)))"

text \<open>\<open>loads\<close>: the smallest time that \<open>benchmp\<close> found for \<open>n\<close> iterations gives nanoseconds per load.\<close>

definition loads :: "rounding \<Rightarrow> (u64 \<times> u64) \<Rightarrow> nat \<Rightarrow> nat \<Rightarrow> item list res" where
  "loads rnd un rg stride =
     (if rg < stride then Inr []
      else if stride = 0 then Inl Div_By_Zero
      else let (u, n) = un; cnt = of_nat (100 * load_count rg stride) :: u64
        in Inr [Flt 5 (Fin (rnd (rnd (of_nat rg) / 1048576))), Txt '' '',
                Flt 3 (fp_div rnd (Fin (rnd (1000 * dbl rnd u))) (dbl rnd (cnt * n)))])"

fun loads_all :: "rounding \<Rightarrow> (nat \<Rightarrow> u64 \<times> u64) \<Rightarrow> nat \<Rightarrow> nat list \<Rightarrow> item list list res" where
  "loads_all rnd tms stride [] = Inr []"
| "loads_all rnd tms stride (rg # rs) =
     and_then (loads rnd (tms rg) rg stride) (\<lambda>l. and_then (loads_all rnd tms stride rs) (\<lambda>ls. Inr (l # ls)))"

text \<open>The options: whether the pages are to be visited in random order (\<open>-t\<close>), and the check of \<open>-P\<close>.\<close>

fun rd_options :: "(char \<times> string option) list \<Rightarrow> bool \<Rightarrow> bool res" where
  "rd_options [] thrash = Inr thrash"
| "rd_options ((c, arg) # cs) thrash =
     (if c = CHR ''t'' then rd_options cs True
      else case arg of
        None \<Rightarrow> Inl Null_Deref
      | Some s \<Rightarrow> if c = CHR ''P'' \<and> atoi s \<le> 0 then Inl (Exit (- 1)) else rd_options cs thrash)"

fun rd_strides :: "rounding \<Rightarrow> (nat \<Rightarrow> nat \<Rightarrow> u64 \<times> u64) \<Rightarrow> nat list \<Rightarrow> nat list \<Rightarrow> (nat \<times> item list list) list res" where
  "rd_strides rnd tms rs [] = Inr []"
| "rd_strides rnd tms rs (s # ss) =
     and_then (loads_all rnd (tms s) s rs) (\<lambda>ls. and_then (rd_strides rnd tms rs ss) (\<lambda>out. Inr ((s, ls) # out)))"

definition rd_main :: "rounding \<Rightarrow> (bool \<Rightarrow> nat \<Rightarrow> nat \<Rightarrow> u64 \<times> u64) \<Rightarrow> string list \<Rightarrow> (nat \<times> item list list) list res option" where
  "rd_main rnd tms av =
     bind_r (getopts (Suc (sum_list (map (\<lambda>w. length w + 1) (drop 1 av)))) av ''tP:W:N:'' optst_init) (\<lambda>(cs, ok, s).
     if \<not> ok then Some (Inl (Exit (- 1))) else
     bind_r (Some (rd_options cs False)) (\<lambda>thrash.
     let args = drop (nat (optind s)) av in
     if args = [] then Some (Inl (Exit (- 1))) else
     let len = unat (to_u64 (atoi (hd args)) * (1024 * 1024)) in
     bind_r (Some (if tl args = [] then Inr [STRIDE] else and_then (collect_res bytes (tl args)) (\<lambda>bs. Inr (map unat bs)))) (\<lambda>strides.
     case mem_ranges len LOWER of
       None \<Rightarrow> None
     | Some rs \<Rightarrow> Some (rd_strides rnd (tms thrash) rs strides))))"

section \<open>\<open>tlb\<close>\<close>

definition TLB_THRESHOLD :: rat where "TLB_THRESHOLD = 115 / 100"

text \<open>Nanoseconds per load from the measurements of one chain.\<close>

definition chain_time :: "rounding \<Rightarrow> value_t list \<Rightarrow> timing \<Rightarrow> (fp \<times> timing) res" where
  "chain_time rnd samples s =
     (let r = insertinit \<lparr>r_N = 0, r_v = replicate TRIES \<lparr>v_u = 0, v_n = 0\<rparr>\<rparr> in
      and_then (run_all (insert_value rnd) samples r) (\<lambda>r.
      let s = set_results r s in
      and_then (gettime s) (\<lambda>u. Inr (fp_div rnd (Fin (rnd (1000 * dbl rnd u))) (rnd (100 * dbl rnd (get_n s))), s))))"

text \<open>\<open>compute_times\<close>: the measurements on the chain through the pages, and on one of as many lines.  They are
  taken \<open>TRIES\<close> times each.\<close>

definition compute_times :: "rounding \<Rightarrow> (nat \<Rightarrow> value_t list \<times> value_t list) \<Rightarrow> nat \<Rightarrow> timing \<Rightarrow> (fp \<times> fp \<times> timing) res" where
  "compute_times rnd samples pages s =
     (let r_save = get_results s; (tlb, cache) = samples pages in
      and_then (chain_time rnd tlb s) (\<lambda>(tlb_time, s).
      and_then (chain_time rnd cache s) (\<lambda>(cache_time, s).
      Inr (tlb_time, cache_time, set_results r_save s))))"

text \<open>\<open>*tlb_time / *cache_time > THRESHOLD\<close>; a comparison with a value that is not a number is false.\<close>

definition exceeds :: "rounding \<Rightarrow> fp \<Rightarrow> fp \<Rightarrow> bool" where
  "exceeds rnd t c =
     (case c of
        Fin y \<Rightarrow> fp_gt (fp_div rnd t y) TLB_THRESHOLD
      | _ \<Rightarrow> False)"

definition slow :: "rounding \<Rightarrow> (nat \<Rightarrow> value_t list \<times> value_t list) \<Rightarrow> nat \<Rightarrow> timing \<Rightarrow> (bool \<times> timing) res" where
  "slow rnd samples pages s = and_then (compute_times rnd samples pages s) (\<lambda>(t, c, s'). Inr (exceeds rnd t c, s'))"

text \<open>The doubling loop of \<open>find_tlb\<close>: the first number of pages that is slow, if any.  The bound \<open>maxpages\<close> is below
  \<open>2 ^ 30\<close>, so that the doubled \<open>int\<close> does not overflow.\<close>

function tlb_up :: "rounding \<Rightarrow> (nat \<Rightarrow> value_t list \<times> value_t list) \<Rightarrow> nat \<Rightarrow> nat \<Rightarrow> timing \<Rightarrow> (nat option \<times> timing) res" where
  "tlb_up rnd samples maxpages i s =
     (if i = 0 \<or> maxpages < i then Inr (None, s)
      else and_then (slow rnd samples i s) (\<lambda>(b, s').
        if b then Inr (Some i, s') else tlb_up rnd samples maxpages (2 * i) s'))"
  by pat_completeness auto
termination by (relation "measure (\<lambda>(rnd, samples, maxpages, i, s). Suc maxpages - i)") auto

declare tlb_up.simps [simp del]

function tlb_search :: "rounding \<Rightarrow> (nat \<Rightarrow> value_t list \<times> value_t list) \<Rightarrow> nat \<Rightarrow> nat \<Rightarrow> timing \<Rightarrow> (nat \<times> timing) res" where
  "tlb_search rnd samples lower upper s =
     (if lower + 1 < upper then
        let i = lower + (upper - lower) div 2 in
        and_then (slow rnd samples i s) (\<lambda>(b, s').
          if b then tlb_search rnd samples lower i s' else tlb_search rnd samples i upper s')
      else Inr (lower, s))"
  by pat_completeness auto
termination by (relation "measure (\<lambda>(rnd, samples, lower, upper, s). upper - lower)") auto

declare tlb_search.simps [simp del]

definition find_tlb :: "rounding \<Rightarrow> (nat \<Rightarrow> value_t list \<times> value_t list) \<Rightarrow> nat \<Rightarrow> nat \<Rightarrow> timing \<Rightarrow> (nat \<times> timing) res" where
  "find_tlb rnd samples start maxpages s =
     and_then (tlb_up rnd samples maxpages start s) (\<lambda>(r, s').
       case r of
         None \<Rightarrow> Inr (0, s')
       | Some i \<Rightarrow>
           let lower = i div 2; m = lower + (i - lower) div 2 in
           if maxpages \<le> m then Inr (0, s') else tlb_search rnd samples lower i s')"

text \<open>The options of \<open>main\<close>: whether the cost is printed, and the bound in pages.\<close>

fun tlb_options :: "nat \<Rightarrow> (char \<times> string option) list \<Rightarrow> bool \<times> int \<Rightarrow> (bool \<times> int) res" where
  "tlb_options psz [] opt = Inr opt"
| "tlb_options psz ((c, arg) # cs) (cost, maxpages) =
     (if c = CHR ''c'' then tlb_options psz cs (True, maxpages)
      else case arg of
        None \<Rightarrow> Inl Null_Deref
      | Some s \<Rightarrow>
          if c = CHR ''M'' then
            and_then (bytes s) (\<lambda>b. if psz = 0 then Inl Div_By_Zero else tlb_options psz cs (cost, c_div (to_int b) (int psz)))
          else tlb_options psz cs (cost, maxpages))"

definition tlb_main ::
  "rounding \<Rightarrow> (nat \<Rightarrow> value_t list \<times> value_t list) \<Rightarrow> nat \<Rightarrow> string list \<Rightarrow> timing \<Rightarrow> item list res option" where
  "tlb_main rnd samples psz av s =
     bind_r (getopts (Suc (sum_list (map (\<lambda>w. length w + 1) (drop 1 av)))) av ''cL:M:W:N:'' optst_init) (\<lambda>(cs, ok, _).
     if \<not> ok then Some (Inl (Exit (- 1))) else
     bind_r (Some (tlb_options psz cs (False, 16 * 1024))) (\<lambda>(cost, maxpages).
     bind_r (Some (find_tlb rnd samples 8 (nat maxpages) s)) (\<lambda>(tlb, s).
     if tlb = 0 then Some (Inr [])
     else if cost then
       bind_r (Some (compute_times rnd samples (tlb * 2) s)) (\<lambda>(t, c, s).
       Some (Inr [Txt ''tlb: '', Dec (int tlb), Txt '' pages '',
         Flt 5 (case (t, c) of (Fin x, Fin y) \<Rightarrow> Fin (rnd (x - y)) | _ \<Rightarrow> Not_A_Number), Txt '' nanoseconds'']))
     else Some (Inr [Txt ''tlb: '', Dec (int tlb), Txt '' pages'']))))"

section \<open>\<open>line\<close> and \<open>par_mem\<close>\<close>

fun size_options :: "(char \<times> string option) list \<Rightarrow> bool \<times> nat \<times> nat \<Rightarrow> (bool \<times> nat \<times> nat) res" where
  "size_options [] opt = Inr opt"
| "size_options ((c, arg) # cs) (verbose, line, maxlen) =
     (if c = CHR ''v'' then size_options cs (True, line, maxlen)
      else case arg of
        None \<Rightarrow> Inl Null_Deref
      | Some s \<Rightarrow>
          if c = CHR ''L'' then size_options cs (verbose, max 8 (unat (to_u64 (atoi s))), maxlen)
          else if c = CHR ''M'' then and_then (bytes s) (\<lambda>b. size_options cs (verbose, line, unat b))
          else size_options cs (verbose, line, maxlen))"

text \<open>The option string of \<open>line.c\<close> has a letter \<open>a\<close> that no case handles: the program prints its usage.\<close>

definition line_main ::
  "rounding \<Rightarrow> mem_env \<Rightarrow> (nat \<Rightarrow> value_t list) \<Rightarrow> nat \<Rightarrow> string list \<Rightarrow> mem_state \<Rightarrow> heap \<times> timing \<Rightarrow> item list res option" where
  "line_main rnd E samples psz av st hs =
     bind_r (getopts (Suc (sum_list (map (\<lambda>w. length w + 1) (drop 1 av)))) av ''avM:W:N:'' optst_init) (\<lambda>(cs, ok, _).
     if \<not> ok \<or> CHR ''a'' \<in> set (map fst cs) then Some (Inl (Exit (- 1))) else
     bind_r (Some (size_options cs (False, 8, 64 * 1024 * 1024))) (\<lambda>(verbose, _, maxlen).
     bind_r (Some (line_find rnd E samples psz maxlen (st\<lparr>ms_line := 8, ms_pagesize := psz\<rparr>) hs)) (\<lambda>(l, _, _).
     Some (Inr (if 0 < l then if verbose then [Txt ''cache line size: '', Dec l, Txt '' bytes''] else [Dec l] else [])))))"

text \<open>The loop of \<open>par_mem.c\<close>: the lengths tried.  The counter is an \<open>int\<close>; when it overflows it is negative, which
  is compared as a size bigger than every bound.\<close>

function par_lens :: "nat \<Rightarrow> nat \<Rightarrow> nat list" where
  "par_lens maxlen i = (if 0 < i \<and> i \<le> maxlen \<and> i < 2 ^ 31 then i # par_lens maxlen (2 * i) else [])"
  by pat_completeness auto
termination by (relation "measure (\<lambda>(maxlen, i). Suc maxlen - i)") auto

declare par_lens.simps [simp del]

fun par_all :: "rounding \<Rightarrow> mem_env \<Rightarrow> (nat \<Rightarrow> nat \<Rightarrow> u64 \<times> u64) \<Rightarrow> nat list \<Rightarrow> mem_state \<Rightarrow> heap \<Rightarrow> item list list res" where
  "par_all rnd E ts [] st h = Inr []"
| "par_all rnd E ts (i # is) st h =
     and_then (par_mem rnd E (ts i) i st h) (\<lambda>(par, st', h').
     and_then (par_all rnd E ts is st' h') (\<lambda>out.
     Inr ((if 0 < par then [[Flt 6 (Fin (rnd (of_nat i / 1000000))), Txt '' '', Flt 2 (Fin par)]] else []) @ out)))"

definition par_main ::
  "rounding \<Rightarrow> mem_env \<Rightarrow> (nat \<Rightarrow> nat \<Rightarrow> u64 \<times> u64) \<Rightarrow> nat \<Rightarrow> string list \<Rightarrow> mem_state \<Rightarrow> heap \<Rightarrow> item list list res option" where
  "par_main rnd E ts psz av st h =
     bind_r (getopts (Suc (sum_list (map (\<lambda>w. length w + 1) (drop 1 av)))) av ''L:M:W:N:'' optst_init) (\<lambda>(cs, ok, _).
     if \<not> ok then Some (Inl (Exit (- 1))) else
     bind_r (Some (size_options cs (False, psz div 16, 64 * 1024 * 1024))) (\<lambda>(_, line, maxlen).
     Some (par_all rnd E ts (par_lens maxlen (MAX_MEM_PARALLELISM * line)) (st\<lparr>ms_line := line, ms_pagesize := psz\<rparr>) h)))"

section \<open>\<open>memsize\<close>\<close>

text \<open>What the kernel grants, for each call of \<open>test_malloc\<close>: a pipe, a process, the memory.\<close>

record size_env =
  sz_pipe :: "nat \<Rightarrow> bool"
  sz_fork :: "nat \<Rightarrow> bool"
  sz_malloc :: "nat \<Rightarrow> nat \<Rightarrow> bool"
  sz_alarm :: "nat \<Rightarrow> nat \<Rightarrow> bool"
  sz_usecs :: "nat \<Rightarrow> int"

text \<open>If \<open>fork\<close> fails, nobody writes to the pipe, and the read does not return a whole \<open>int\<close>.\<close>

definition test_malloc :: "size_env \<Rightarrow> nat \<Rightarrow> nat \<Rightarrow> bool" where
  "test_malloc E k sz \<longleftrightarrow> (if \<not> sz_pipe E k then sz_malloc E k sz else sz_fork E k \<and> sz_malloc E k sz)"

text \<open>The search down; \<open>size\<close>, \<open>max\<close> and the number of the call.\<close>

partial_function (option) size_down :: "size_env \<Rightarrow> nat \<Rightarrow> nat \<Rightarrow> nat \<Rightarrow> (nat \<times> nat \<times> nat) option" where
  "size_down E k sz mx =
     (if test_malloc E k sz then Some (sz, mx, Suc k) else size_down E (Suc k) (sz div 2) sz)"

text \<open>The search up, which ends at the first size that is refused.\<close>

fun size_up :: "size_env \<Rightarrow> nat \<Rightarrow> nat \<Rightarrow> nat \<Rightarrow> nat \<Rightarrow> nat" where
  "size_up E k mx sz dl =
     (if dl = 0 then sz
      else let sz' = (sz + dl * 1024 * 1024) mod 2 ^ 64 in
        if mx < sz' then size_up E k mx sz (dl div 2)
        else if \<not> test_malloc E k sz' then sz
        else size_up E (Suc k) mx sz' (dl div 2))"

declare size_up.simps [simp del]

text \<open>\<open>touchRange\<close>: the offsets stored to; the alarm can go off before each of them.\<close>

fun touch_loop_range :: "(nat \<Rightarrow> bool) \<Rightarrow> nat \<Rightarrow> int \<Rightarrow> nat \<Rightarrow> int \<Rightarrow> nat \<Rightarrow> int list" where
  "touch_loop_range alarm 0 tmp rg stride k = []"
| "touch_loop_range alarm (Suc fuel) tmp rg stride k =
     (let dl = nat \<bar>stride\<bar> in
      if 0 < dl \<and> dl - 1 < rg \<and> \<not> alarm k
      then tmp # touch_loop_range alarm fuel (tmp + stride) (rg - dl) stride (Suc k) else [])"

text \<open>With a stride of 0 the bound \<open>dl - 1\<close> is the biggest size and the loop is not entered; otherwise every pass
  takes at least one byte off, so \<open>rg\<close> passes are enough.\<close>

definition touchRange :: "(nat \<Rightarrow> bool) \<Rightarrow> int \<Rightarrow> nat \<Rightarrow> int \<Rightarrow> int list" where
  "touchRange alarm p rg stride =
     touch_loop_range alarm (Suc rg) (p + (if 0 < stride then 0 else int rg - 1)) rg stride 0"

text \<open>The next increment: an eighth of the first power of two from 8 megabytes on above \<open>rg\<close>; \<open>prev\<close> is what
  \<open>s_prev\<close> holds, which is not initialised.\<close>

function next_power :: "nat \<Rightarrow> nat \<Rightarrow> nat \<Rightarrow> nat" where
  "next_power rg s prev = (if 0 < s \<and> s \<le> rg \<and> prev \<le> s then next_power rg (s * 2 mod 2 ^ 64) s else s)"
  by pat_completeness auto
termination
proof (relation "measure (\<lambda>(rg, s, prev). if prev \<le> s then 2 ^ 64 + rg + 1 - s else 0)", goal_cases)
  case (2 rg s prev)
  show ?case
  proof (cases "s < 2 ^ 63")
    case True
    then have "s * 2 mod 2 ^ 64 = s * 2" by (intro mod_less) simp
    then show ?thesis using 2 by auto
  next
    case False
    have "s * 2 mod 2 ^ 64 < s"
    proof (cases "s < 2 ^ 64")
      case True
      then have "s * 2 mod 2 ^ 64 = s * 2 - 2 ^ 64" using False by (simp add: mod_if)
      then show ?thesis using True False by simp
    next
      case False
      have "s * 2 mod 2 ^ 64 < 2 ^ 64" by (rule mod_less_divisor) simp
      then show ?thesis using False by linarith
    qed
    then show ?thesis using 2 by simp
  qed
qed simp

declare next_power.simps [simp del]

text \<open>The loop of \<open>timeit\<close>: pass \<open>k\<close> touches the new part and then the whole range; the result is the size found and
  the offsets stored to.  \<open>sum / n\<close> converts the \<open>int\<close> to an unsigned size.\<close>

definition MEGA :: nat where "MEGA = 1024 * 1024"
definition TOO_LONG :: nat where "TOO_LONG = 10"

definition next_incr :: "nat \<Rightarrow> nat \<Rightarrow> nat \<Rightarrow> nat" where
  "next_incr prev rg sz =
     (let incr = next_power rg (8 * MEGA) prev div 8
      in if rg < sz \<and> sz < rg + incr then sz - rg else incr)"

fun timeit_loop :: "size_env \<Rightarrow> nat \<Rightarrow> (nat \<Rightarrow> nat) \<Rightarrow> nat \<Rightarrow> nat \<Rightarrow> nat \<Rightarrow> nat \<Rightarrow> nat \<Rightarrow> (nat \<times> int list) option" where
  "timeit_loop E psz prev 0 k rg incr sz = None"
| "timeit_loop E psz prev (Suc fuel) k rg incr sz =
     (if sz < rg then Some (sz, [])
      else
        let ws = touchRange (sz_alarm E (2 * k)) (int (rg - incr)) incr (int psz) @
                 touchRange (sz_alarm E (2 * k + 1)) 0 rg (int psz);
            n = rg div psz
        in if TOO_LONG < unat (to_u64 (sz_usecs E k)) div n \<or> sz_alarm E (2 * k + 1) rg then Some (rg - incr, ws)
           else let incr' = next_incr (prev k) rg sz in
             map_option (\<lambda>(r, vs). (r, ws @ vs)) (timeit_loop E psz prev fuel (Suc k) (rg + incr') incr' sz))"

text \<open>Each pass adds at least one byte, so \<open>Suc sz\<close> passes are enough (\<open>timeit_inside\<close>).  \<open>sz_alarm E j\<close> tells for the \<open>j\<close>-th
  alarm before which store it goes off; asked for the length of the range, whether it has gone off at all.\<close>

definition timeit :: "size_env \<Rightarrow> nat \<Rightarrow> (nat \<Rightarrow> nat) \<Rightarrow> nat \<Rightarrow> (nat \<times> int list) option" where
  "timeit E psz prev sz =
     (if sz < MEGA - 16 * 1024 then Some (sz, [])
      else map_option (\<lambda>(r, vs). (r, touchRange (\<lambda>_. False) 0 MEGA (int psz) @ vs))
             (timeit_loop E psz prev (Suc (Suc sz)) 0 (2 * MEGA) MEGA sz))"

text \<open>\<open>main\<close>, up to the number printed.\<close>

definition memsize_start :: "string list \<Rightarrow> u64 res" where
  "memsize_start av =
     and_then (if length av = 2 then and_then (bytes (av ! 1)) (\<lambda>b. Inr (b * 1024 * 1024)) else Inr 0) (\<lambda>b.
       Inr (if b < of_nat MEGA then of_nat (1024 * MEGA) else b))"

definition memsize_main :: "size_env \<Rightarrow> nat \<Rightarrow> (nat \<Rightarrow> nat) \<Rightarrow> string list \<Rightarrow> int option res option" where
  "memsize_main E psz prev av =
     bind_r (Some (memsize_start av)) (\<lambda>b.
     case size_down E 0 (unat b) (unat b) of
       None \<Rightarrow> None
     | Some (sz, mx, k) \<Rightarrow>
         let sz' = size_up E k mx sz (sz div 2 ^ 21) in
         if \<not> sz_malloc E 0 sz' then Some (Inr None)
         else if psz = 0 \<or> 2 * MEGA < psz \<and> 2 * MEGA \<le> sz' then Some (Inl Div_By_Zero)
         else (case timeit E psz prev sz' of
           None \<Rightarrow> None
         | Some (r, _) \<Rightarrow> Some (Inr (if sz' < MEGA - 16 * 1024 then None else Some (s32 (int (r div 2 ^ 20)))))))"

end
