(* ===== verification/Lm_Sizes_Props.thy ===== *)
theory Lm_Sizes_Props
  imports Lm_Sizes
begin

text \<open>
  What the programs of \<open>Lm_Sizes\<close> find: the ranges of \<open>lat_mem_rd\<close> and that each measurement visits every
  place of its chain, the binary search of \<open>tlb\<close>, the search and the stores of \<open>memsize\<close>.
\<close>

section \<open>Ranges\<close>

lemma power_above_ok:
  assumes "0 < s" "k < 2 ^ 62" "s < 2 ^ 63" "s \<le> 2 * k \<or> s = 4096"
  shows "\<exists>t. power_above k s = Some t \<and> k < t \<and> (t \<le> 2 * k \<or> t = 4096)"
  using assms
proof (induction "2 ^ 64 - s" arbitrary: s rule: less_induct)
  case less
  show ?case
  proof (cases "s \<le> k")
    case True
    then have m: "s * 2 mod 2 ^ 64 = s * 2" using less.prems by (intro mod_less) simp
    have "\<exists>t. power_above k (s * 2) = Some t \<and> k < t \<and> (t \<le> 2 * k \<or> t = 4096)"
      by (rule less.hyps) (use True less.prems in simp_all)
    then show ?thesis using True m by (subst power_above.simps) simp
  next
    case False
    then show ?thesis using less.prems by (subst power_above.simps) auto
  qed
qed

lemma step_ok:
  assumes "512 \<le> k" "k < 2 ^ 62"
  shows "\<exists>r. step k = Some r \<and> k < r \<and> r \<le> 2 * k"
proof (cases "k < 4096")
  case True
  then show ?thesis using assms by (auto simp: step_def)
next
  case False
  obtain t where t: "power_above k 4096 = Some t" "k < t" "t \<le> 2 * k \<or> t = 4096" using power_above_ok [of 4096 k] assms by auto
  then have "t \<le> 2 * k" using False by auto
  then have "(k + t div 4) mod 2 ^ 64 = k + t div 4" using assms(2) by (intro mod_less) simp
  moreover have "k < k + t div 4" "k + t div 4 \<le> 2 * k" using False t(2) \<open>t \<le> 2 * k\<close> by simp_all
  ultimately show ?thesis using False t(1) by (simp add: step_def)
qed

text \<open>the ranges that \<open>lat_mem_rd\<close> measures for a length below \<open>2 ^ 62\<close>: the loop ends; the ranges grow strictly, by a
  factor of at most two, from 512 bytes on, and stop only when doubling would exceed the length.\<close>

theorem mem_ranges_ok:
  assumes "len < 2 ^ 62"
  shows "\<exists>rs. mem_ranges len LOWER = Some rs \<and> sorted_wrt (<) rs \<and> set rs \<subseteq> {LOWER..len} \<and>
    (\<forall>i. Suc i < length rs \<longrightarrow> rs ! Suc i \<le> 2 * rs ! i) \<and>
    (LOWER \<le> len \<longrightarrow> rs \<noteq> [] \<and> rs ! 0 = LOWER \<and> len < 2 * List.last rs)"
proof -
  have "\<exists>rs. mem_ranges len k = Some rs \<and> sorted_wrt (<) rs \<and> set rs \<subseteq> {k..len} \<and>
      (\<forall>i. Suc i < length rs \<longrightarrow> rs ! Suc i \<le> 2 * rs ! i) \<and> (k \<le> len \<longrightarrow> rs \<noteq> [] \<and> rs ! 0 = k \<and> len < 2 * List.last rs)"
    if "512 \<le> k" for k
    using that
  proof (induction "Suc len - k" arbitrary: k rule: less_induct)
    case less
    show ?case
    proof (cases "k \<le> len")
      case True
      then obtain r where r: "step k = Some r" "k < r" "r \<le> 2 * k" using step_ok [of k] less.prems assms by auto
      obtain rs where rs: "mem_ranges len r = Some rs" "sorted_wrt (<) rs" "set rs \<subseteq> {r..len}"
        "\<forall>i. Suc i < length rs \<longrightarrow> rs ! Suc i \<le> 2 * rs ! i" "r \<le> len \<longrightarrow> rs \<noteq> [] \<and> rs ! 0 = r \<and> len < 2 * List.last rs"
      proof -
        have "Suc len - r < Suc len - k" "512 \<le> r" using r(2) True less.prems by linarith+
        from less.hyps [OF this] show ?thesis using that by blast
      qed
      have "mem_ranges len k = Some (k # rs)" using True r(1) rs(1) by (subst mem_ranges.simps) simp
      moreover have "(k # rs) ! Suc i \<le> 2 * (k # rs) ! i" if "Suc i < length (k # rs)" for i
        using that rs r by (cases i) fastforce+
      moreover have "len < 2 * List.last (k # rs)"
      proof (cases "r \<le> len")
        case True
        then show ?thesis using rs(5) by simp
      next
        case False
        then have "rs = []" using rs(3) by (cases rs) auto
        then show ?thesis using r(3) False by simp
      qed
      ultimately show ?thesis using rs(2,3) r(2) True by (intro exI [of _ "k # rs"]) fastforce
    next
      case False
      then show ?thesis by (subst mem_ranges.simps) simp
    qed
  qed
  from this [of LOWER] show ?thesis by (simp add: LOWER_def)
qed

theorem mem_ranges_ok_witness: "\<exists>rs. mem_ranges 65536 LOWER = Some rs \<and> sorted_wrt (<) rs \<and> set rs \<subseteq> {LOWER..65536}"
  using mem_ranges_ok [of 65536] by auto

lemma stride_fields:
  assumes "stride_initialize E 0 st h = Inr (st', h')"
  shows "ms_line st' = ms_line st \<and> ms_len st' = ms_len st \<and> length (ms_p st') = length (ms_p st)"
proof -
  have b: "ms_line s = ms_line st \<and> ms_len s = ms_len st \<and> ms_p s = ms_p st" if "base_initialize E 0 st h = Inr (s, h1)" for s h1
    using that by (auto simp: base_initialize_def Let_def split: if_splits option.splits prod.splits)
  from assms obtain s h1 where s: "base_initialize E 0 st h = Inr (s, h1)" by (auto simp: stride_initialize_def and_then_Inr_iff)
  with assms b [OF s] show ?thesis
    by (auto simp: stride_initialize_def and_then_Inr_iff Let_def split: if_splits prod.splits)
qed

lemma lines_le_loads:
  assumes "0 < line"
  shows "(len + line - 1) div line \<le> 100 * load_count len line"
proof -
  have "len < (len div (line * 100) + 1) * (line * 100)" using assms dividend_less_div_times [of "line * 100" len] by simp
  then have "len + line - 1 < Suc (100 * load_count len line) * line" using assms by (simp add: load_count_def algebra_simps)
  then show ?thesis using assms by (simp add: less_mult_imp_div_less less_Suc_eq_le [symmetric] del: mult_Suc)
qed

text \<open>C35: one iteration of \<open>lat_mem_rd\<close>'s measured loop visits every place of the chain that
  \<open>stride_initialize\<close> has laid: each place is reached within the loads that the iteration makes, which are the
  loads that the printed time is divided by.\<close>

theorem loads_visit_chain:
  assumes "base_ready E st" "8 dvd ms_line st" "0 < ms_len st" "ms_p st \<noteq> []" "n = (ms_len st + ms_line st - 1) div ms_line st"
  shows "\<exists>st' h' base. stride_initialize E 0 st h = Inr (st', h') \<and> ms_p st' ! 0 = base \<and>
    (\<exists>st''. benchmark_loads 1 st' h' = Inr st'') \<and>
    (\<forall>t < n. \<exists>k < 100 * load_count (ms_len st) (ms_line st). chase h' k [ms_p st' ! 0] = Inr [base + t * ms_line st])"
proof -
  from stride_initialize_ring [OF assms, of h 0] obtain st' h' base where i: "stride_initialize E 0 st h = Inr (st', h')"
    "ring h' (map (\<lambda>t. base + t * ms_line st) [0..<n])" "ms_p st' ! 0 = base" by blast
  let ?xs = "map (\<lambda>t. base + t * ms_line st) [0..<n]"
  have line: "0 < ms_line st" using assms(1) by (simp add: base_ready_def)
  have n: "0 < n" using i(2) by (auto simp: ring_def)
  have f: "ms_line st' = ms_line st" "ms_len st' = ms_len st" "ms_p st' \<noteq> []" using stride_fields [OF i(1)] assms(4) by auto
  have walk: "chase h' k [ms_p st' ! 0] = Inr [base + k mod n * ms_line st]" for k
    using chase_ring [OF i(2), of "[0]" k] n i(3) by simp
  have "n \<le> 100 * load_count (ms_len st) (ms_line st)" using lines_le_loads [OF line] assms(5) by simp
  moreover have "\<exists>st''. benchmark_loads 1 st' h' = Inr st''" using f line walk by (simp add: benchmark_loads_def)
  ultimately show ?thesis using i walk by (intro exI [of _ st'] exI [of _ h'] exI [of _ base]) (metis less_le_trans mod_less)
qed

theorem loads_visit_chain_witness:
  "\<exists>st' h' base. stride_initialize demo_mem_env 0 (demo_mem 1000 1) demo_heap = Inr (st', h') \<and>
    (\<forall>t < 16. \<exists>k < 100. chase h' k [ms_p st' ! 0] = Inr [base + t * 64])"
proof -
  have "\<exists>st' h' base. stride_initialize demo_mem_env 0 (demo_mem 1000 1) demo_heap = Inr (st', h') \<and> ms_p st' ! 0 = base \<and>
    (\<exists>st''. benchmark_loads 1 st' h' = Inr st'') \<and>
    (\<forall>t < 16. \<exists>k < 100 * load_count (ms_len (demo_mem 1000 1)) (ms_line (demo_mem 1000 1)).
      chase h' k [ms_p st' ! 0] = Inr [base + t * ms_line (demo_mem 1000 1)])"
    by (rule loads_visit_chain) (simp add: demo_ready, simp_all add: demo_mem_def)
  moreover have "100 * load_count (ms_len (demo_mem 1000 1)) (ms_line (demo_mem 1000 1)) = 100" "ms_line (demo_mem 1000 1) = 64"
    by (simp_all add: demo_mem_def load_count_def)
  ultimately show ?thesis by auto
qed

section \<open>The search of \<open>tlb\<close>\<close>

lemma tlb_up_threshold:
  assumes "\<And>pages s. \<exists>s'. slow rnd samples pages s = Inr (T \<le> pages, s')" "0 < i" "i div 2 < T"
  shows "\<exists>r s'. tlb_up rnd samples maxpages i s = Inr (r, s') \<and>
    (case r of None \<Rightarrow> maxpages + 1 < 2 * T | Some j \<Rightarrow> 0 < j \<and> j \<le> maxpages \<and> j div 2 < T \<and> T \<le> j)"
  using assms(2,3)
proof (induction "Suc maxpages - i" arbitrary: i s rule: less_induct)
  case less
  obtain s' where s': "slow rnd samples i s = Inr (T \<le> i, s')" using assms(1) by blast
  consider "maxpages < i" | "i \<le> maxpages" "T \<le> i" | "i \<le> maxpages" "i < T" by linarith
  then show ?case
  proof cases
    case 1
    then show ?thesis using less.prems by (subst tlb_up.simps) auto
  next
    case 2
    then show ?thesis using less.prems s' by (subst tlb_up.simps) auto
  next
    case 3
    have "tlb_up rnd samples maxpages i s = tlb_up rnd samples maxpages (2 * i) s'" using 3 less.prems s' by (subst tlb_up.simps) auto
    moreover have "Suc maxpages - 2 * i < Suc maxpages - i" "0 < 2 * i" "2 * i div 2 < T" using 3 less.prems by auto
    ultimately show ?thesis using less.hyps [of "2 * i" s'] by simp
  qed
qed

lemma tlb_search_threshold:
  assumes "\<And>pages s. \<exists>s'. slow rnd samples pages s = Inr (T \<le> pages, s')" "lower < T" "T \<le> upper"
  shows "\<exists>s'. tlb_search rnd samples lower upper s = Inr (T - 1, s')"
  using assms(2,3)
proof (induction "upper - lower" arbitrary: lower upper s rule: less_induct)
  case less
  show ?case
  proof (cases "lower + 1 < upper")
    case True
    define i where "i = lower + (upper - lower) div 2"
    have b: "lower < i" "i < upper" using True unfolding i_def by linarith+
    obtain s' where s': "slow rnd samples i s = Inr (T \<le> i, s')" using assms(1) by blast
    have e: "tlb_search rnd samples lower upper s =
        (if T \<le> i then tlb_search rnd samples lower i s' else tlb_search rnd samples i upper s')"
      using True s' by (subst tlb_search.simps) (simp add: i_def [symmetric])
    have "i - lower < upper - lower" "upper - i < upper - lower" using b by linarith+
    then show ?thesis using less.hyps [of i lower s'] less.hyps [of upper i s'] less.prems e by (cases "T \<le> i") auto
  next
    case False
    then have "lower = T - 1" using less.prems by linarith
    then show ?thesis using False by (subst tlb_search.simps) simp
  qed
qed

text \<open>C36: when the measurements call a number of pages slow exactly from \<open>T\<close> on, \<open>find_tlb\<close> returns \<open>T - 1\<close>, the
  last number of pages that the address translation covers, or 0; it returns \<open>T - 1\<close> whenever the bound on the
  pages is at least \<open>2 * T - 1\<close>, and 0 whenever the bound is below \<open>T\<close>.\<close>

theorem find_tlb_threshold:
  assumes "\<And>pages s. \<exists>s'. slow rnd samples pages s = Inr (T \<le> pages, s')" "0 < i" "i div 2 < T"
  shows "\<exists>r s'. find_tlb rnd samples i maxpages s = Inr (r, s') \<and> (r = 0 \<or> r = T - 1) \<and>
    (2 * T \<le> maxpages + 1 \<longrightarrow> r = T - 1) \<and> (maxpages < T \<longrightarrow> r = 0)"
proof -
  from tlb_up_threshold [OF assms, of maxpages s] obtain r s' where
    u: "tlb_up rnd samples maxpages i s = Inr (r, s')"
      "case r of None \<Rightarrow> maxpages + 1 < 2 * T | Some j \<Rightarrow> 0 < j \<and> j \<le> maxpages \<and> j div 2 < T \<and> T \<le> j" by blast
  show ?thesis
  proof (cases r)
    case None
    then show ?thesis using u by (simp add: find_tlb_def)
  next
    case (Some j)
    then have j: "0 < j" "j \<le> maxpages" "j div 2 < T" "T \<le> j" using u(2) by auto
    then have "\<not> maxpages \<le> j div 2 + (j - j div 2) div 2" by linarith
    moreover obtain s'' where "tlb_search rnd samples (j div 2) j s' = Inr (T - 1, s'')"
      using tlb_search_threshold [OF assms(1) j(3,4)] by blast
    ultimately show ?thesis using u(1) Some j by (simp add: find_tlb_def)
  qed
qed

definition demo_samples :: "nat \<Rightarrow> value_t list \<times> value_t list" where
  "demo_samples pages = (replicate TRIES \<lparr>v_u = if 48 \<le> pages then 200 else 100, v_n = 1\<rparr>, replicate TRIES \<lparr>v_u = 100, v_n = 1\<rparr>)"

lemma insert_at_same:
  assumes "i \<le> N" "\<And>j. i \<le> j \<Longrightarrow> j < N \<Longrightarrow> vs ! j = x"
  shows "insert_at rnd x i N vs = Inr (N, vs)"
  using assms
proof (induction "N - i" arbitrary: i)
  case (Suc d)
  then have "insert_at rnd x (Suc i) N vs = Inr (N, vs)" by simp
  moreover have "i < N" using Suc.hyps(2) by simp
  ultimately show ?case using Suc.prems(2) [of i] by (subst insert_at.simps) simp
qed (subst insert_at.simps, simp)

text \<open>Equal measurements are stored one after the other.\<close>

lemma run_same:
  assumes "v_u v \<noteq> 0" "n \<le> m"
  shows "run_all (insert_value rnd) (replicate n v) \<lparr>r_N = k, r_v = replicate k v @ replicate m z\<rparr> =
    Inr \<lparr>r_N = k + n, r_v = replicate (k + n) v @ replicate (m - n) z\<rparr>"
  using assms(2)
proof (induction n arbitrary: k m)
  case (Suc n)
  have e: "\<lparr>v_u = v_u v, v_n = v_n v\<rparr> = v" by simp
  from Suc.prems obtain m' where m: "m = Suc m'" "n \<le> m'" by (cases m) auto
  have "insert_at rnd v 0 k (replicate k v @ replicate m z) = Inr (k, replicate k v @ replicate m z)"
    by (rule insert_at_same) (simp_all add: nth_append)
  moreover have "(replicate k v @ replicate m z)[k := v] = replicate (Suc k) v @ replicate m' z"
    by (simp add: m list_update_append replicate_app_Cons_same)
  ultimately have "insert_value rnd v \<lparr>r_N = k, r_v = replicate k v @ replicate m z\<rparr> =
      Inr \<lparr>r_N = Suc k, r_v = replicate (Suc k) v @ replicate m' z\<rparr>"
    using assms(1) m by (simp add: insert_value_def insertsort_def store_value_def Let_def e)
  then show ?case using Suc.IH [OF m(2), of "Suc k"] m by simp
qed simp

lemma demo_run:
  assumes "v_u v \<noteq> 0"
  shows "run_all (insert_value rnd) (replicate TRIES v) (insertinit \<lparr>r_N = 0, r_v = replicate TRIES z\<rparr>) =
    Inr \<lparr>r_N = TRIES, r_v = replicate TRIES v\<rparr>"
  using run_same [OF assms, of TRIES TRIES rnd 0 z] by (simp add: insertinit_def)

lemma demo_chain_time:
  "\<exists>s'. chain_time (\<lambda>x. x) (replicate TRIES \<lparr>v_u = 200, v_n = 1\<rparr>) s = Inr (Fin 2000, s')"
  "\<exists>s'. chain_time (\<lambda>x. x) (replicate TRIES \<lparr>v_u = 100, v_n = 1\<rparr>) s = Inr (Fin 1000, s')"
  unfolding chain_time_def
  by (simp_all add: demo_run Let_def set_results_def save_median_def gettime_settime get_n_def)
    (simp_all add: TRIES_def settime_def save_n_def dbl_def)

lemma demo_slow: "\<exists>s'. slow (\<lambda>x. x) demo_samples pages s = Inr (48 \<le> pages, s')"
proof -
  obtain s1 where s1: "chain_time (\<lambda>x. x) (replicate TRIES \<lparr>v_u = if 48 \<le> pages then 200 else 100, v_n = 1\<rparr>) s =
      Inr (Fin (if 48 \<le> pages then 2000 else 1000), s1)"
    using demo_chain_time [of s] by (cases "48 \<le> pages") auto
  obtain s2 where "chain_time (\<lambda>x. x) (replicate TRIES \<lparr>v_u = 100, v_n = 1\<rparr>) s1 = Inr (Fin 1000, s2)" using demo_chain_time(2) by blast
  with s1 show ?thesis by (simp add: slow_def compute_times_def demo_samples_def exceeds_def fp_gt_def TLB_THRESHOLD_def)
qed

theorem find_tlb_threshold_witness: "\<forall>s. \<exists>s'. find_tlb (\<lambda>x. x) demo_samples 8 16384 s = Inr (47, s')"
  using find_tlb_threshold [OF demo_slow, of 8 16384] by fastforce

section \<open>The search and the stores of \<open>memsize\<close>\<close>

lemma size_down_limit:
  assumes "\<And>k sz. test_malloc E k sz \<longleftrightarrow> sz \<le> M"
  shows "\<exists>sz mx k'. size_down E k b b0 = Some (sz, mx, k') \<and> sz \<le> M \<and> (sz = b \<and> mx = b0 \<or> M < mx \<and> mx \<le> 2 * sz + 1 \<and> mx \<le> b)"
proof (induction b arbitrary: k b0 rule: less_induct)
  case (less b)
  show ?case
  proof (cases "b \<le> M")
    case True
    then show ?thesis using assms by (subst size_down.simps) simp
  next
    case False
    then have "b div 2 < b" by simp
    from less.IH [OF this, of "Suc k" b] obtain sz mx k' where r: "size_down E (Suc k) (b div 2) b = Some (sz, mx, k')" "sz \<le> M"
      "sz = b div 2 \<and> mx = b \<or> M < mx \<and> mx \<le> 2 * sz + 1 \<and> mx \<le> b div 2" by blast
    then have "M < mx \<and> mx \<le> 2 * sz + 1 \<and> mx \<le> b" using False by linarith
    then show ?thesis using r(1,2) False assms by (subst size_down.simps) simp
  qed
qed

lemma size_up_limit:
  assumes "\<And>k sz. test_malloc E k sz \<longleftrightarrow> sz \<le> M" "sz \<le> M" "sz \<le> mx" "mx < 2 ^ 63" "dl \<le> 2 ^ 42"
  shows "sz \<le> size_up E k mx sz dl \<and> size_up E k mx sz dl \<le> M \<and> size_up E k mx sz dl \<le> mx"
  using assms(2-)
proof (induction dl arbitrary: k sz rule: less_induct)
  case (less dl)
  show ?case
  proof (cases "dl = 0")
    case True
    then show ?thesis using less.prems by (subst (1 2 3) size_up.simps) simp
  next
    case False
    define sz' where "sz' = sz + dl * 1024 * 1024"
    have m: "(sz + dl * 1024 * 1024) mod 2 ^ 64 = sz'" unfolding sz'_def using less.prems by (intro mod_less) simp
    have half: "dl div 2 < dl" "dl div 2 \<le> 2 ^ 42" using False less.prems by simp_all
    have e: "size_up E k mx sz dl =
        (if mx < sz' then size_up E k mx sz (dl div 2) else if M < sz' then sz else size_up E (Suc k) mx sz' (dl div 2))"
      using False assms(1) by (subst size_up.simps) (simp only: m Let_def if_False not_le)
    have le: "sz \<le> sz'" by (simp add: sz'_def)
    consider "mx < sz'" | "sz' \<le> mx" "M < sz'" | "sz' \<le> mx" "sz' \<le> M" by linarith
    then show ?thesis
    proof cases
      case 1
      then show ?thesis using e less.IH [OF half(1) less.prems(1-3) half(2), of k] by simp
    next
      case 2
      then show ?thesis using e less.prems by simp
    next
      case 3
      then show ?thesis using e less.IH [OF half(1) 3(2,1) less.prems(3) half(2), of "Suc k"] le by simp
    qed
  qed
qed

text \<open>when the kernel grants exactly the sizes up to \<open>M\<close>, the search of \<open>memsize\<close> ends with a size that is granted
  and that is the one asked for, or more than half of the biggest one granted.\<close>

theorem memsize_search:
  assumes "\<And>k sz. test_malloc E k sz \<longleftrightarrow> sz \<le> M" "b < 2 ^ 63"
  shows "\<exists>sz mx k r. size_down E 0 b b = Some (sz, mx, k) \<and> r = size_up E k mx sz (sz div 2 ^ 21) \<and>
    r \<le> M \<and> r \<le> b \<and> (r = b \<or> M \<le> 2 * r)"
proof -
  obtain sz mx k where d: "size_down E 0 b b = Some (sz, mx, k)" "sz \<le> M" "sz = b \<and> mx = b \<or> M < mx \<and> mx \<le> 2 * sz + 1 \<and> mx \<le> b"
    using size_down_limit [OF assms(1)] by blast
  have mx: "sz \<le> mx" "mx \<le> b" using d by auto
  have "sz div 2 ^ 21 \<le> 2 ^ 42" using mx assms(2) by simp
  then have "sz \<le> size_up E k mx sz (sz div 2 ^ 21) \<and> size_up E k mx sz (sz div 2 ^ 21) \<le> M \<and> size_up E k mx sz (sz div 2 ^ 21) \<le> mx"
    by (intro size_up_limit [OF assms(1)]) (use d mx assms(2) in simp_all)
  then show ?thesis using d mx by auto
qed

definition demo_size_env :: size_env where
  "demo_size_env = \<lparr>sz_pipe = (\<lambda>_. True), sz_fork = (\<lambda>_. True), sz_malloc = (\<lambda>k sz. sz \<le> 5 * 2 ^ 26), sz_alarm = (\<lambda>j i. False),
     sz_usecs = (\<lambda>k. 1000)\<rparr>"

theorem memsize_search_witness:
  "\<exists>sz mx k r. size_down demo_size_env 0 (2 ^ 30) (2 ^ 30) = Some (sz, mx, k) \<and> r = size_up demo_size_env k mx sz (sz div 2 ^ 21) \<and>
    r \<le> 5 * 2 ^ 26 \<and> 5 * 2 ^ 25 \<le> r"
proof -
  have "test_malloc demo_size_env k sz \<longleftrightarrow> sz \<le> 5 * 2 ^ 26" for k sz by (simp add: test_malloc_def demo_size_env_def)
  from memsize_search [OF this, of "2 ^ 30"] show ?thesis by fastforce
qed

lemma touch_loop_inside:
  assumes "0 < stride" "w \<in> set (touch_loop_range alarm fuel p rg stride k)"
  shows "p \<le> w \<and> w < p + int rg"
  using assms
proof (induction alarm fuel p rg stride k rule: touch_loop_range.induct)
  case (2 alarm fuel p rg stride k)
  then show ?case by (fastforce simp: Let_def of_nat_diff split: if_splits)
qed simp

lemma touchRange_inside: "0 < stride \<Longrightarrow> set (touchRange alarm p rg stride) \<subseteq> {p..<p + int rg}"
  by (auto simp: touchRange_def simp del: touch_loop_range.simps dest: touch_loop_inside)

lemma touch_loop_visits:
  assumes "0 < d" "Suc i * d \<le> rg" "i < fuel"
  shows "p + int (i * d) \<in> set (touch_loop_range (\<lambda>_. False) fuel p rg (int d) k)"
  using assms(2,3)
proof (induction fuel arbitrary: i p rg k)
  case (Suc fuel)
  then have d: "d - 1 < rg" using assms(1) by simp
  show ?case
  proof (cases i)
    case (Suc j)
    then have "Suc j * d \<le> rg - d" "j < fuel" using Suc.prems by simp_all
    from Suc.IH [OF this, of "p + int d" "Suc k"] show ?thesis using Suc assms(1) d by (simp add: Let_def algebra_simps)
  qed (use assms(1) d in \<open>simp add: Let_def\<close>)
qed simp

lemma next_power_ge:
  assumes "rg < 2 ^ 63" "b \<le> s" "s < 2 ^ 64" "0 < s"
  shows "b \<le> next_power rg s prev"
  using assms(2-)
proof (induction "2 ^ 64 - s" arbitrary: s prev rule: less_induct)
  case less
  show ?case
  proof (cases "s \<le> rg \<and> prev \<le> s")
    case True
    then have lt: "s * 2 < 2 ^ 64" using assms(1) by simp
    then have m: "s * 2 mod 2 ^ 64 = s * 2" by (rule mod_less)
    then have "b \<le> next_power rg (s * 2) s" using less.prems lt by (intro less.hyps) simp_all
    then show ?thesis using True less.prems m by (subst next_power.simps) simp
  next
    case False
    then show ?thesis using less.prems by (subst next_power.simps) auto
  qed
qed

lemma next_incr_ok:
  assumes "rg \<le> sz" "sz < 2 ^ 63"
  shows "0 < next_incr prev rg sz"
proof -
  have "8 * MEGA \<le> next_power rg (8 * MEGA) prev" using assms by (intro next_power_ge) (simp_all add: MEGA_def)
  then have "0 < next_power rg (8 * MEGA) prev div 8" by (simp add: MEGA_def div_greater_zero_iff)
  then show ?thesis by (simp add: next_incr_def Let_def)
qed

lemma timeit_loop_inside:
  assumes "0 < psz" "sz < 2 ^ 63" "incr \<le> rg" "Suc sz - rg < fuel"
  shows "\<exists>r ws. timeit_loop E psz prev fuel k rg incr sz = Some (r, ws) \<and> r \<le> sz \<and> set ws \<subseteq> {0..<int sz}"
  using assms(3,4)
proof (induction fuel arbitrary: k rg incr)
  case (Suc fuel)
  show ?case
  proof (cases "sz < rg")
    case False
    define incr' ws where "incr' = next_incr (prev k) rg sz" and
      "ws = touchRange (sz_alarm E (2 * k)) (int (rg - incr)) incr (int psz) @ touchRange (sz_alarm E (2 * k + 1)) 0 rg (int psz)"
    have ws: "set ws \<subseteq> {0..<int sz}"
      using touchRange_inside [of "int psz"] assms(1) False Suc.prems(1) by (fastforce simp: ws_def)
    have "0 < incr'" unfolding incr'_def using False assms(2) by (intro next_incr_ok) simp_all
    then obtain r vs where r: "timeit_loop E psz prev fuel (Suc k) (rg + incr') incr' sz = Some (r, vs)" "r \<le> sz" "set vs \<subseteq> {0..<int sz}"
      using Suc.IH [of incr' "rg + incr'" "Suc k"] Suc.prems False by fastforce
    have "timeit_loop E psz prev (Suc fuel) k rg incr sz =
        (if TOO_LONG < unat (to_u64 (sz_usecs E k)) div (rg div psz) \<or> sz_alarm E (2 * k + 1) rg then Some (rg - incr, ws)
         else map_option (\<lambda>(r, vs). (r, ws @ vs)) (timeit_loop E psz prev fuel (Suc k) (rg + incr') incr' sz))"
      unfolding timeit_loop.simps(2) Let_def ws_def incr'_def by (simp only: False if_False)
    moreover have "rg - incr \<le> sz" using False by linarith
    ultimately show ?thesis using ws r by (simp del: timeit_loop.simps)
  qed (use Suc.prems in simp)
qed simp

text \<open>C37: \<open>timeit\<close> returns, with a size at most the one allocated, and every byte that it stores to is inside the
  block, provided the block has at least the megabyte that is touched first.\<close>

theorem timeit_inside:
  assumes "0 < psz" "MEGA \<le> sz" "sz < 2 ^ 63"
  shows "\<exists>r ws. timeit E psz prev sz = Some (r, ws) \<and> r \<le> sz \<and> set ws \<subseteq> {0..<int sz}"
proof -
  obtain r ws where r: "timeit_loop E psz prev (Suc (Suc sz)) 0 (2 * MEGA) MEGA sz = Some (r, ws)" "r \<le> sz" "set ws \<subseteq> {0..<int sz}"
    using timeit_loop_inside [OF assms(1,3), of MEGA "2 * MEGA" "Suc (Suc sz)" E prev 0] by fastforce
  moreover have "set (touchRange (\<lambda>_. False) 0 MEGA (int psz)) \<subseteq> {0..<int sz}"
    using touchRange_inside [of "int psz" "\<lambda>_. False" 0 MEGA] assms(1,2) by fastforce
  moreover have "\<not> sz < MEGA - 16 * 1024" using assms(2) by simp
  ultimately show ?thesis by (simp add: timeit_def)
qed

theorem timeit_inside_witness:
  "\<exists>r ws. timeit demo_size_env 4096 (\<lambda>_. 0) (2 ^ 28) = Some (r, ws) \<and> r \<le> 2 ^ 28 \<and> set ws \<subseteq> {0..<2 ^ 28}"
  using timeit_inside [of 4096 "2 ^ 28" demo_size_env "\<lambda>_. 0"] by (simp add: MEGA_def)

text \<open>\<open>timeit\<close> accepts sizes from 16 KB below a megabyte on, and touches the whole megabyte: with pages of 4 KB it
  stores behind the smallest block that it accepts.\<close>

theorem timeit_outside:
  "\<exists>r ws. timeit E 4096 prev (MEGA - 16 * 1024) = Some (r, ws) \<and> int (MEGA - 16 * 1024) \<in> set ws"
proof -
  have "0 + int (252 * 4096) \<in> set (touch_loop_range (\<lambda>_. False) (Suc MEGA) 0 MEGA (int 4096) 0)"
    by (rule touch_loop_visits) (simp_all add: MEGA_def)
  then have "int (MEGA - 16 * 1024) \<in> set (touchRange (\<lambda>_. False) 0 MEGA (int 4096))"
    by (simp add: touchRange_def MEGA_def del: touch_loop_range.simps)
  moreover have "timeit_loop E 4096 prev (Suc fuel) 0 (2 * MEGA) MEGA (MEGA - 16 * 1024) = Some (MEGA - 16 * 1024, [])" for fuel
    by (simp add: MEGA_def)
  ultimately show ?thesis by (simp add: timeit_def del: timeit_loop.simps)
qed

end
