(* ===== verification/Lm_Bw.thy ===== *)
theory Lm_Bw
  imports Lm_Util Lm_Getopt Lm_Report Lm_Enough
begin

text \<open>
  The memory bandwidth programs in \<open>src/lmbench-3.0-a9/src\<close>: \<open>bw_mem.c\<close>, the loops that read, write and copy
  buffers in blocks of 512 bytes, their set-up and the report, and \<open>stream.c\<close>, the loops on three arrays of
  doubles.

  In \<open>bw_mem.c\<close> a buffer is the list of its whole words (\<open>TYPE\<close> is \<open>int\<close>, four bytes); up to three bytes behind the last
  whole word, which no loop over words reaches, are left out.  Pointers into a buffer are offsets, in
  words for \<open>p\<close> and \<open>dst\<close>, in bytes for \<open>lastone\<close>.  What \<open>valloc\<close> returns, the contents of a fresh block and
  the times that \<open>benchmp\<close> finds are arguments.  The arithmetic of doubles in \<open>stream.c\<close>, whose values can
  overflow to infinity, is an argument too (record \<open>fpu\<close>).
\<close>

section \<open>The state\<close>

record bw_state =
  bw_nbytes :: nat
  bw_need_buf2 :: bool
  bw_aligned :: bool
  bw_buf :: "int list"
  bw_buf2_orig :: "int list option"
  bw_buf2 :: nat
  bw_lastone :: int
  bw_N :: nat

text \<open>What \<open>valloc\<close> does with a request, and what a fresh block holds.\<close>

record bw_env =
  be_valloc :: "nat \<Rightarrow> bool"
  be_fresh :: "nat \<Rightarrow> int"

text \<open>\<open>init_loop\<close>.  \<open>bw_buf2\<close> is the offset of \<open>buf2\<close> in the second block.\<close>

definition init_loop :: "bw_env \<Rightarrow> nat \<Rightarrow> bw_state \<Rightarrow> bw_state res" where
  "init_loop E iters st =
     (if iters \<noteq> 0 then Inr st
      else if \<not> be_valloc E (bw_nbytes st) then Inl (Exit 1)
      else
        let st' = st\<lparr>bw_buf := replicate (bw_nbytes st div 4) 0, bw_buf2_orig := None,
                     bw_lastone := int (bw_nbytes st) - 512, bw_N := bw_nbytes st\<rparr> in
        if \<not> bw_need_buf2 st then Inr st'
        else if \<not> be_valloc E (bw_nbytes st + 2048) then Inl (Exit 1)
        else Inr (st'\<lparr>bw_buf2_orig := Some (map (be_fresh E) [0..<(bw_nbytes st + 2048) div 4]),
                      bw_buf2 := (if bw_aligned st then (2048 - 128) div 4 else 0)\<rparr>))"

text \<open>\<open>cleanup\<close>: the blocks that are freed, the first and the second one.\<close>

definition bw_cleanup :: "nat \<Rightarrow> bw_state \<Rightarrow> nat list" where
  "bw_cleanup iters st =
     (if iters \<noteq> 0 then [] else 1 # (case bw_buf2_orig st of None \<Rightarrow> [] | Some _ \<Rightarrow> [2]))"

section \<open>The loops\<close>

definition load_int :: "int list \<Rightarrow> nat \<Rightarrow> int res" where
  "load_int xs i = (if i < length xs then Inr (xs ! i) else Inl Out_Of_Bounds)"

definition store_int :: "int list \<Rightarrow> nat \<Rightarrow> int \<Rightarrow> int list res" where
  "store_int xs i v = (if i < length xs then Inr (xs[i := v]) else Inl Out_Of_Bounds)"

text \<open>The indices that the macro \<open>DOIT\<close> is expanded for.\<close>

definition every_fourth :: "nat list" where "every_fourth = map (\<lambda>k. 4 * k) [0..<32]"
definition every_word :: "nat list" where "every_word = [0..<128]"

text \<open>\<open>while (p <= lastone) { ...; p += 128; }\<close>.\<close>

function block_loop :: "(nat \<Rightarrow> 's \<Rightarrow> 's res) \<Rightarrow> int \<Rightarrow> nat \<Rightarrow> 's \<Rightarrow> 's res" where
  "block_loop f lastone p s =
     (if 4 * int p \<le> lastone then and_then (f p s) (block_loop f lastone (p + 128)) else Inr s)"
  by pat_completeness auto
termination by (relation "measure (\<lambda>(f, lastone, p, s). nat (lastone + 1 - 4 * int p))") auto

declare block_loop.simps [simp del]

fun repeat_loop :: "('s \<Rightarrow> 's res) \<Rightarrow> nat \<Rightarrow> 's \<Rightarrow> 's res" where
  "repeat_loop f 0 s = Inr s"
| "repeat_loop f (Suc n) s = and_then (f s) (repeat_loop f n)"

text \<open>\<open>p[i] + p[i'] + ...\<close>.\<close>

fun sum_at :: "int list \<Rightarrow> nat \<Rightarrow> nat list \<Rightarrow> int \<Rightarrow> int res" where
  "sum_at xs p [] acc = Inr acc"
| "sum_at xs p (i # is) acc = and_then (load_int xs (p + i)) (\<lambda>v. sum_at xs p is (s32 (acc + v)))"

text \<open>A sequence of \<open>q[i] = ...\<close>.\<close>

fun put_at :: "(nat \<Rightarrow> int res) \<Rightarrow> nat \<Rightarrow> nat list \<Rightarrow> int list \<Rightarrow> int list res" where
  "put_at val q [] xs = Inr xs"
| "put_at val q (i # is) xs = and_then (val i) (\<lambda>v. and_then (store_int xs (q + i) v) (put_at val q is))"

text \<open>\<open>sum += p[i]; p[i] = 1;\<close> for each index.\<close>

fun rdwr_at :: "nat \<Rightarrow> nat list \<Rightarrow> int \<times> int list \<Rightarrow> (int \<times> int list) res" where
  "rdwr_at p [] s = Inr s"
| "rdwr_at p (i # is) (acc, xs) =
     and_then (load_int xs (p + i)) (\<lambda>v. and_then (store_int xs (p + i) 1) (\<lambda>xs'. rdwr_at p is (s32 (acc + v), xs')))"

definition sum_loop :: "nat list \<Rightarrow> nat \<Rightarrow> bw_state \<Rightarrow> int res" where
  "sum_loop idx iters st =
     repeat_loop (block_loop (\<lambda>p acc. and_then (sum_at (bw_buf st) p idx 0) (\<lambda>t. Inr (s32 (acc + t)))) (bw_lastone st) 0) iters 0"

definition rd :: "nat \<Rightarrow> bw_state \<Rightarrow> int res" where "rd = sum_loop every_fourth"
definition frd :: "nat \<Rightarrow> bw_state \<Rightarrow> int res" where "frd = sum_loop every_word"

definition fill_loop :: "nat list \<Rightarrow> nat \<Rightarrow> bw_state \<Rightarrow> bw_state res" where
  "fill_loop idx iters st =
     and_then (repeat_loop (block_loop (\<lambda>p. put_at (\<lambda>_. Inr 1) p idx) (bw_lastone st) 0) iters (bw_buf st)) (\<lambda>xs.
       Inr (st\<lparr>bw_buf := xs\<rparr>))"

definition wr :: "nat \<Rightarrow> bw_state \<Rightarrow> bw_state res" where "wr = fill_loop every_fourth"

text \<open>\<open>p[0] = p[1] = ... = p[127] = 1\<close> stores from the last word to the first.\<close>

definition fwr :: "nat \<Rightarrow> bw_state \<Rightarrow> bw_state res" where "fwr = fill_loop (rev every_word)"

definition rdwr :: "nat \<Rightarrow> bw_state \<Rightarrow> (int \<times> bw_state) res" where
  "rdwr iters st =
     and_then (repeat_loop (block_loop (\<lambda>p. rdwr_at p every_fourth) (bw_lastone st) 0) iters (0, bw_buf st)) (\<lambda>(acc, xs).
       Inr (acc, st\<lparr>bw_buf := xs\<rparr>))"

text \<open>The pointers \<open>p\<close> and \<open>dst\<close> advance together.  Without a second buffer \<open>buf2\<close> is not initialised.\<close>

definition copy_loop :: "nat list \<Rightarrow> nat \<Rightarrow> bw_state \<Rightarrow> bw_state res" where
  "copy_loop idx iters st =
     (case bw_buf2_orig st of
        None \<Rightarrow> Inl Null_Deref
      | Some ys \<Rightarrow>
          and_then (repeat_loop (block_loop (\<lambda>p. put_at (\<lambda>i. load_int (bw_buf st) (p + i)) (bw_buf2 st + p) idx) (bw_lastone st) 0)
              iters ys) (\<lambda>ys'.
            Inr (st\<lparr>bw_buf2_orig := Some ys'\<rparr>)))"

definition mcp :: "nat \<Rightarrow> bw_state \<Rightarrow> bw_state res" where "mcp = copy_loop every_fourth"
definition fcp :: "nat \<Rightarrow> bw_state \<Rightarrow> bw_state res" where "fcp = copy_loop every_word"

definition loop_bzero :: "nat \<Rightarrow> bw_state \<Rightarrow> bw_state res" where
  "loop_bzero iters st =
     and_then (repeat_loop (\<lambda>xs. if length xs < bw_N st div 4 then Inl Out_Of_Bounds
         else Inr (replicate (bw_N st div 4) 0 @ drop (bw_N st div 4) xs)) iters (bw_buf st)) (\<lambda>xs.
       Inr (st\<lparr>bw_buf := xs\<rparr>))"

definition loop_bcopy :: "nat \<Rightarrow> bw_state \<Rightarrow> bw_state res" where
  "loop_bcopy iters st =
     (case bw_buf2_orig st of
        None \<Rightarrow> Inl Null_Deref
      | Some ys \<Rightarrow>
          let n = bw_N st div 4; q = bw_buf2 st in
          and_then (repeat_loop (\<lambda>ys. if length (bw_buf st) < n \<or> length ys < q + n then Inl Out_Of_Bounds
              else Inr (take q ys @ take n (bw_buf st) @ drop (q + n) ys)) iters ys) (\<lambda>ys'.
            Inr (st\<lparr>bw_buf2_orig := Some ys'\<rparr>)))"

section \<open>The report and the main program\<close>

text \<open>\<open>adjusted_bandwidth\<close>; the overhead is a number.\<close>

definition adjusted_bandwidth :: "rounding \<Rightarrow> u64 \<Rightarrow> u64 \<Rightarrow> u64 \<Rightarrow> rat \<Rightarrow> item list" where
  "adjusted_bandwidth rnd tm bs iter overhd =
     (let secs = (case fp_div rnd (Fin (dbl rnd tm)) (dbl rnd iter) of
                    Fin x \<Rightarrow> Fin (rnd (rnd (x - overhd) / 1000000)) | x \<Rightarrow> x);
          mb = rnd (dbl rnd bs / MB);
          rate = (case secs of Fin x \<Rightarrow> fp_div rnd (Fin mb) x | Infty \<Rightarrow> Fin 0 | Not_A_Number \<Rightarrow> Not_A_Number)
      in case secs of
           Fin x \<Rightarrow> if x \<le> 0 then []
             else [Flt (if mb < 1 then 6 else 2) (Fin mb), Txt '' '', Flt (if fp_lt rate 1 then 6 else 2) rate]
         | _ \<Rightarrow> [Flt (if mb < 1 then 6 else 2) (Fin mb), Txt '' '', Flt (if fp_lt rate 1 then 6 else 2) rate])"

text \<open>The options; the parallelism.\<close>

fun bw_options :: "(char \<times> string option) list \<Rightarrow> int \<Rightarrow> int res" where
  "bw_options [] par = Inr par"
| "bw_options ((c, arg) # cs) par =
     (case arg of
        None \<Rightarrow> Inl Null_Deref
      | Some s \<Rightarrow>
          if c = CHR ''P'' then if atoi s \<le> 0 then Inl (Exit (- 1)) else bw_options cs (atoi s)
          else bw_options cs par)"

datatype bw_op = Rd | Wr | Rdwr | Cp | Frd | Fwr | Fcp | Bzero | Bcopy

definition op_of :: "string \<Rightarrow> bw_op option" where
  "op_of w =
     (if w = ''rd'' then Some Rd else if w = ''wr'' then Some Wr else if w = ''rdwr'' then Some Rdwr
      else if w = ''cp'' then Some Cp else if w = ''frd'' then Some Frd else if w = ''fwr'' then Some Fwr
      else if w = ''fcp'' then Some Fcp else if w = ''bzero'' then Some Bzero else if w = ''bcopy'' then Some Bcopy
      else None)"

text \<open>The measured function of each operation, in the process of a child of \<open>benchmp\<close>; the sums are used only to
  keep the compiler from removing the loop.\<close>

definition bw_run :: "bw_op \<Rightarrow> nat \<Rightarrow> bw_state \<Rightarrow> bw_state res" where
  "bw_run what iters st =
     (case what of
        Rd \<Rightarrow> and_then (rd iters st) (\<lambda>_. Inr st)
      | Wr \<Rightarrow> wr iters st
      | Rdwr \<Rightarrow> and_then (rdwr iters st) (\<lambda>(_, st'). Inr st')
      | Cp \<Rightarrow> mcp iters st
      | Frd \<Rightarrow> and_then (frd iters st) (\<lambda>_. Inr st)
      | Fwr \<Rightarrow> fwr iters st
      | Fcp \<Rightarrow> fcp iters st
      | Bzero \<Rightarrow> loop_bzero iters st
      | Bcopy \<Rightarrow> loop_bcopy iters st)"

text \<open>The state that \<open>main\<close> gives to \<open>benchmp\<close>; the remaining fields are not initialised there.\<close>

definition bw_start :: "nat \<Rightarrow> bool \<Rightarrow> bw_op \<Rightarrow> bw_state" where
  "bw_start nbytes aligned what =
     \<lparr>bw_nbytes = nbytes, bw_need_buf2 = (what \<in> {Cp, Fcp, Bcopy}), bw_aligned = aligned, bw_buf = [], bw_buf2_orig = None,
      bw_buf2 = 0, bw_lastone = 0, bw_N = 0\<rparr>"

text \<open>\<open>main\<close>: \<open>bench\<close> stands for \<open>benchmp\<close> with a state and an operation, and gives the time and the number of
  iterations that the library then holds.\<close>

definition bw_main :: "rounding \<Rightarrow> (bw_op \<Rightarrow> int \<Rightarrow> bw_state \<Rightarrow> (u64 \<times> u64) res) \<Rightarrow> string list \<Rightarrow> item list res option" where
  "bw_main rnd bench av =
     bind_r (getopts (Suc (sum_list (map (\<lambda>w. length w + 1) (drop 1 av)))) av ''P:W:N:'' optst_init) (\<lambda>(cs, ok, s).
     if \<not> ok then Some (Inl (Exit (- 1))) else
     bind_r (Some (bw_options cs 1)) (\<lambda>par.
     let args = drop (nat (optind s)) av in
     if length args \<noteq> 2 \<and> length args \<noteq> 3 then Some (Inl (Exit (- 1))) else
     bind_r (Some (bytes (args ! 0))) (\<lambda>b.
     if b < 512 then Some (Inl (Exit (- 1))) else
     case op_of (args ! 1) of
       None \<Rightarrow> Some (Inl (Exit (- 1)))
     | Some what \<Rightarrow>
         bind_r (Some (bench what par (bw_start (unat b) (length args = 3) what))) (\<lambda>(t, n).
         Some (Inr (adjusted_bandwidth rnd t b (n * to_u64 par) 0))))))"

section \<open>\<open>stream\<close>\<close>

record 'd fpu =
  fl_of :: "rat \<Rightarrow> 'd"
  fl_add :: "'d \<Rightarrow> 'd \<Rightarrow> 'd"
  fl_mul :: "'d \<Rightarrow> 'd \<Rightarrow> 'd"

text \<open>The pointers \<open>a\<close>, \<open>b\<close> and \<open>c\<close> are numbers of blocks; \<open>str_mem\<close> holds the blocks.\<close>

record 'd stream_state =
  str_mem :: "nat \<Rightarrow> 'd list"
  str_a :: nat
  str_b :: nat
  str_c :: nat
  str_scalar :: 'd
  str_len :: int

text \<open>\<open>initialize\<close>: the blocks are \<open>malloc\<close>'s answers to the three requests, numbered in their order.\<close>

definition stream_initialize :: "'d fpu \<Rightarrow> (nat \<Rightarrow> bool) \<Rightarrow> nat \<Rightarrow> 'd stream_state \<Rightarrow> 'd stream_state res" where
  "stream_initialize F mallocs iters st =
     (if iters \<noteq> 0 then Inr st
      else if \<not> (mallocs 0 \<and> mallocs 1 \<and> mallocs 2) then Inl (Exit 1)
      else let n = nat (str_len st) in
        Inr (st\<lparr>str_mem := (str_mem st)(0 := replicate n (fl_of F 1), 1 := replicate n (fl_of F 2), 2 := replicate n (fl_of F 0)),
                str_a := 0, str_b := 1, str_c := 2\<rparr>))"

definition ld :: "(nat \<Rightarrow> 'd list) \<Rightarrow> nat \<Rightarrow> nat \<Rightarrow> 'd res" where
  "ld mem p i = (if i < length (mem p) then Inr (mem p ! i) else Inl Out_Of_Bounds)"

definition sd :: "(nat \<Rightarrow> 'd list) \<Rightarrow> nat \<Rightarrow> nat \<Rightarrow> 'd \<Rightarrow> (nat \<Rightarrow> 'd list) res" where
  "sd mem p i x = (if i < length (mem p) then Inr (mem(p := (mem p)[i := x])) else Inl Out_Of_Bounds)"

text \<open>The macro \<open>BODY\<close>: the pointers move on by one place, and the statement is executed for every index with
  the pointers as they were.\<close>

definition rotate_arrays :: "'d stream_state \<Rightarrow> 'd stream_state" where
  "rotate_arrays st = st\<lparr>str_a := str_b st, str_b := str_c st, str_c := str_a st\<rparr>"

definition BODY :: "('d stream_state \<Rightarrow> nat \<Rightarrow> (nat \<Rightarrow> 'd list) \<Rightarrow> (nat \<Rightarrow> 'd list) res) \<Rightarrow> 'd stream_state \<Rightarrow> 'd stream_state res" where
  "BODY expr st =
     and_then (run_all (expr st) [0..<nat (str_len st)] (str_mem st)) (\<lambda>mem. Inr ((rotate_arrays st)\<lparr>str_mem := mem\<rparr>))"

definition stream_copy :: "nat \<Rightarrow> 'd stream_state \<Rightarrow> 'd stream_state res" where
  "stream_copy = repeat_loop (BODY (\<lambda>s i m. and_then (ld m (str_a s) i) (sd m (str_c s) i)))"

definition stream_scale :: "'d fpu \<Rightarrow> nat \<Rightarrow> 'd stream_state \<Rightarrow> 'd stream_state res" where
  "stream_scale F = repeat_loop (BODY (\<lambda>s i m. and_then (ld m (str_c s) i) (\<lambda>z. sd m (str_b s) i (fl_mul F (str_scalar s) z))))"

definition stream_add :: "'d fpu \<Rightarrow> nat \<Rightarrow> 'd stream_state \<Rightarrow> 'd stream_state res" where
  "stream_add F = repeat_loop (BODY (\<lambda>s i m.
     and_then (ld m (str_a s) i) (\<lambda>x. and_then (ld m (str_b s) i) (\<lambda>y. sd m (str_c s) i (fl_add F x y)))))"

definition stream_triad :: "'d fpu \<Rightarrow> nat \<Rightarrow> 'd stream_state \<Rightarrow> 'd stream_state res" where
  "stream_triad F = repeat_loop (BODY (\<lambda>s i m.
     and_then (ld m (str_b s) i) (\<lambda>y. and_then (ld m (str_c s) i) (\<lambda>z. sd m (str_a s) i (fl_add F y (fl_mul F (str_scalar s) z))))))"

definition stream_fill :: "'d fpu \<Rightarrow> nat \<Rightarrow> 'd stream_state \<Rightarrow> 'd stream_state res" where
  "stream_fill F = repeat_loop (BODY (\<lambda>s i m. sd m (str_a s) i (fl_of F 0)))"

definition stream_daxpy :: "'d fpu \<Rightarrow> nat \<Rightarrow> 'd stream_state \<Rightarrow> 'd stream_state res" where
  "stream_daxpy F = repeat_loop (BODY (\<lambda>s i m.
     and_then (ld m (str_a s) i) (\<lambda>x. and_then (ld m (str_b s) i) (\<lambda>y. sd m (str_a s) i (fl_add F x (fl_mul F (str_scalar s) y))))))"

text \<open>\<open>sum\<close> keeps its result in a local variable, which is only used so that the loop is not removed.\<close>

definition stream_sum :: "'d fpu \<Rightarrow> nat \<Rightarrow> 'd stream_state \<Rightarrow> ('d \<times> 'd stream_state) res" where
  "stream_sum F iters st =
     repeat_loop (\<lambda>(acc, s). and_then (run_all (\<lambda>i acc. and_then (ld (str_mem s) (str_a s) i) (\<lambda>x. Inr (fl_add F acc x))) [0..<nat (str_len s)] acc)
       (\<lambda>acc'. Inr (acc', rotate_arrays s))) iters (fl_of F 0, st)"

text \<open>\<open>cleanup\<close>: the blocks that are freed.\<close>

definition stream_cleanup :: "nat \<Rightarrow> 'd stream_state \<Rightarrow> nat list" where
  "stream_cleanup iters st = (if iters \<noteq> 0 then [] else [str_a st, str_b st, str_c st])"

text \<open>The loop that finds a length that can be allocated; a negative length asks for more than there is.\<close>

partial_function (option) fit_len :: "(int \<Rightarrow> bool) \<Rightarrow> int \<Rightarrow> int option" where
  "fit_len mallocs len = (if mallocs len then Some len else fit_len mallocs (c_div len 2))"

fun stream_options :: "(char \<times> string option) list \<Rightarrow> int \<times> int \<times> int \<Rightarrow> (int \<times> int \<times> int) res" where
  "stream_options [] opt = Inr opt"
| "stream_options ((c, arg) # cs) (version, par, len) =
     (case arg of
        None \<Rightarrow> Inl Null_Deref
      | Some s \<Rightarrow>
          if c = CHR ''v'' then
            if atoi s \<noteq> 1 \<and> atoi s \<noteq> 2 then Inl (Exit (- 1)) else stream_options cs (atoi s, par, len)
          else if c = CHR ''P'' then
            if atoi s \<le> 0 then Inl (Exit (- 1)) else stream_options cs (version, atoi s, len)
          else if c = CHR ''M'' then and_then (bytes s) (\<lambda>b. stream_options cs (version, par, to_int b))
          else stream_options cs (version, par, len))"

datatype kernel_op = Copy | Scale | Add | Triad | Fill | Daxpy | Sum

text \<open>The function that \<open>main\<close> passes to \<open>benchmp\<close> for each kernel.\<close>

definition stream_run :: "'d fpu \<Rightarrow> kernel_op \<Rightarrow> nat \<Rightarrow> 'd stream_state \<Rightarrow> 'd stream_state res" where
  "stream_run F k iters st =
     (case k of
        Copy \<Rightarrow> stream_copy iters st
      | Scale \<Rightarrow> stream_scale F iters st
      | Add \<Rightarrow> stream_add F iters st
      | Triad \<Rightarrow> stream_triad F iters st
      | Fill \<Rightarrow> stream_fill F iters st
      | Daxpy \<Rightarrow> stream_daxpy F iters st
      | Sum \<Rightarrow> and_then (stream_sum F iters st) (\<lambda>(_, st'). Inr st'))"

text \<open>The report on one kernel: its name, and how many arrays it is said to move.  \<open>s\<close> is what the library holds after
  \<open>benchmp\<close>.\<close>

definition stream_report :: "rounding \<Rightarrow> int \<Rightarrow> int \<Rightarrow> u64 \<Rightarrow> string \<Rightarrow> timing \<Rightarrow> item list res" where
  "stream_report rnd par len arrays name s =
     and_then (gettime s) (\<lambda>t.
     if t = 0 then Inr []
     else let s = (if par \<le> 1 then save_minimum s else s) in
       and_then (nano rnd (name @ '' latency'') (to_u64 len * get_n s) s) (\<lambda>l.
       and_then (mb rnd (arrays * (8 * to_u64 len * to_u64 par) * get_n s) s) (\<lambda>b.
       Inr (l @ [Txt (name @ '' bandwidth: '')] @ b))))"

definition stream_kernels :: "int \<Rightarrow> (kernel_op \<times> u64 \<times> string) list" where
  "stream_kernels version =
     (if version = 1
      then [(Copy, 2, ''STREAM copy''), (Scale, 2, ''STREAM scale''), (Add, 3, ''STREAM add''), (Triad, 3, ''STREAM triad'')]
      else [(Fill, 1, ''STREAM2 fill''), (Copy, 2, ''STREAM2 copy''), (Daxpy, 3, ''STREAM2 daxpy''), (Sum, 1, ''STREAM2 sum'')])"

definition stream_main ::
  "rounding \<Rightarrow> (int \<Rightarrow> bool) \<Rightarrow> (kernel_op \<Rightarrow> int \<Rightarrow> int \<Rightarrow> timing res) \<Rightarrow> string list \<Rightarrow> item list list res option" where
  "stream_main rnd mallocs bench av =
     bind_r (getopts (Suc (sum_list (map (\<lambda>w. length w + 1) (drop 1 av)))) av ''v:M:P:W:N:'' optst_init) (\<lambda>(cs, ok, _).
     if \<not> ok then Some (Inl (Exit (- 1))) else
     bind_r (Some (stream_options cs (1, 1, 1000 * 1000 * 3 * 8))) (\<lambda>(version, par, len0).
     case fit_len mallocs len0 of
       None \<Rightarrow> None
     | Some l \<Rightarrow>
         let len = to_int (to_u64 l div 24) in
         Some (collect_res (\<lambda>(k, arrays, name). and_then (bench k par len) (stream_report rnd par len arrays name)) (stream_kernels version))))"

end
