(* ===== verification/Lm_Bw_Props.thy ===== *)
theory Lm_Bw_Props
  imports Lm_Bw
begin

text \<open>
  What the loops of \<open>Lm_Bw\<close> do to memory: the unrolled block loops against the sets of words that they touch,
  that they stay inside the buffers, and the kernels of \<open>stream\<close> as maps over its arrays.
\<close>

section \<open>Blocks\<close>

lemma block_loop_inv:
  assumes step: "\<And>m s. 512 * m + 512 \<le> nbytes \<Longrightarrow> I m s \<Longrightarrow> \<exists>s'. f (128 * m) s = Inr s' \<and> I (Suc m) s'"
    and "I 0 s"
  shows "\<exists>s'. block_loop f (int nbytes - 512) 0 s = Inr s' \<and> I (nbytes div 512) s'"
proof -
  have "\<exists>s'. block_loop f (int nbytes - 512) (128 * m) s = Inr s' \<and> I (nbytes div 512) s'" if "I m s" "m \<le> nbytes div 512" for m s
    using that
  proof (induction "nbytes div 512 - m" arbitrary: m s)
    case 0
    then have m: "m = nbytes div 512" by simp
    have "nbytes < 512 * (nbytes div 512) + 512" using dividend_less_times_div [of 512 nbytes] by simp
    then show ?case using 0 m by (subst block_loop.simps) (simp add: zle_int [symmetric])
  next
    case (Suc d)
    then have "m < nbytes div 512" by simp
    then have le: "512 * m + 512 \<le> nbytes" using less_eq_div_iff_mult_less_eq [of 512 "Suc m" nbytes] by simp
    then obtain s' where s': "f (128 * m) s = Inr s'" "I (Suc m) s'" using step Suc.prems by blast
    have "block_loop f (int nbytes - 512) (128 * m) s = block_loop f (int nbytes - 512) (128 * Suc m) s'"
      using le s' by (subst block_loop.simps) (simp add: algebra_simps)
    moreover have "d = nbytes div 512 - Suc m" "Suc m \<le> nbytes div 512" using Suc.hyps(2) by linarith+
    ultimately show ?case using Suc.hyps(1) [of "Suc m" s'] s'(2) by simp
  qed
  from this [of 0 s] assms(2) show ?thesis by simp
qed

lemma put_at_ok:
  assumes "\<And>i. i \<in> set idx \<Longrightarrow> val i = Inr (w i)" "\<And>i. i \<in> set idx \<Longrightarrow> q + i < length xs"
  shows "\<exists>ys. put_at val q idx xs = Inr ys \<and> length ys = length xs \<and>
    (\<forall>k < length xs. ys ! k = (if q \<le> k \<and> k - q \<in> set idx then w (k - q) else xs ! k))"
  using assms
proof (induction idx arbitrary: xs)
  case (Cons i idx)
  then have "q + i < length xs" "val i = Inr (w i)" by simp_all
  moreover from Cons.IH [of "xs[q + i := w i]"] Cons.prems obtain ys where "put_at val q idx (xs[q + i := w i]) = Inr ys"
    "length ys = length xs" "\<forall>k < length xs. ys ! k = (if q \<le> k \<and> k - q \<in> set idx then w (k - q) else xs[q + i := w i] ! k)" by auto
  ultimately show ?case by (auto simp: store_int_def nth_list_update)
qed simp

text \<open>The words that a loop over blocks touches in a buffer that starts at \<open>q\<close>, and the buffer after it.\<close>

definition touched :: "nat list \<Rightarrow> nat \<Rightarrow> nat \<Rightarrow> nat \<Rightarrow> bool" where
  "touched idx nbytes q k \<longleftrightarrow> q \<le> k \<and> k - q < 128 * (nbytes div 512) \<and> (k - q) mod 128 \<in> set idx"

definition write_words :: "(nat \<Rightarrow> int) \<Rightarrow> nat list \<Rightarrow> nat \<Rightarrow> nat \<Rightarrow> int list \<Rightarrow> int list" where
  "write_words w idx nbytes q xs = map (\<lambda>k. if touched idx nbytes q k then w (k - q) else xs ! k) [0..<length xs]"

lemma write_words_idem: "write_words w idx nbytes q (write_words w idx nbytes q xs) = write_words w idx nbytes q xs"
  by (simp add: write_words_def)

lemma block_index:
  assumes "set idx \<subseteq> {..<128}"
  shows "128 * m \<le> d \<and> d - 128 * m \<in> set idx \<longleftrightarrow> d < 128 * Suc m \<and> \<not> d < 128 * m \<and> d mod 128 \<in> set idx" (is "?l \<longleftrightarrow> ?r")
proof (cases "128 * m \<le> d \<and> d < 128 * Suc m")
  case True
  then obtain e where e: "d = 128 * m + e" "e < 128" using le_Suc_ex [of "128 * m" d] by auto
  then show ?thesis by simp
next
  case False
  have "\<not> ?l" using assms False by auto
  then show ?thesis using False by auto
qed

lemma put_loop_pass:
  assumes idx: "set idx \<subseteq> {..<128}" and room: "q + nbytes div 4 \<le> length xs"
    and val: "\<And>m i. 512 * m + 512 \<le> nbytes \<Longrightarrow> i \<in> set idx \<Longrightarrow> val (128 * m) i = Inr (w (128 * m + i))"
  shows "block_loop (\<lambda>p. put_at (val p) (q + p) idx) (int nbytes - 512) 0 xs = Inr (write_words w idx nbytes q xs)"
proof -
  let ?I = "\<lambda>m ys. length ys = length xs \<and>
    (\<forall>k < length xs. ys ! k = (if q \<le> k \<and> k - q < 128 * m \<and> (k - q) mod 128 \<in> set idx then w (k - q) else xs ! k))"
  have "\<exists>ys. block_loop (\<lambda>p. put_at (val p) (q + p) idx) (int nbytes - 512) 0 xs = Inr ys \<and> ?I (nbytes div 512) ys"
  proof (rule block_loop_inv)
    fix m ys
    assume m: "512 * m + 512 \<le> nbytes" and I: "?I m ys"
    have room': "q + 128 * m + i < length ys" if "i \<in> set idx" for i
    proof -
      have "128 * m + 128 \<le> nbytes div 4" using m by (simp add: less_eq_div_iff_mult_less_eq)
      then show ?thesis using that idx room I by auto
    qed
    obtain zs where zs: "put_at (val (128 * m)) (q + 128 * m) idx ys = Inr zs" "length zs = length ys"
      "\<forall>k < length ys. zs ! k = (if q + 128 * m \<le> k \<and> k - (q + 128 * m) \<in> set idx then w (128 * m + (k - (q + 128 * m))) else ys ! k)"
      using put_at_ok [of idx "val (128 * m)" "\<lambda>i. w (128 * m + i)" "q + 128 * m" ys] val [OF m] room' by blast
    have "zs ! k = (if q \<le> k \<and> k - q < 128 * Suc m \<and> (k - q) mod 128 \<in> set idx then w (k - q) else xs ! k)" if "k < length xs" for k
    proof (cases "q \<le> k")
      case True
      then obtain d where d: "k = q + d" using le_Suc_ex by blast
      then show ?thesis using zs(3) [rule_format, of k] I that block_index [OF idx, of m d] by (auto simp: algebra_simps)
    qed (use zs(3) [rule_format, of k] I that in auto)
    then show "\<exists>s'. put_at (val (128 * m)) (q + 128 * m) idx ys = Inr s' \<and> ?I (Suc m) s'" using zs I by auto
  qed simp
  then obtain ys where ys: "block_loop (\<lambda>p. put_at (val p) (q + p) idx) (int nbytes - 512) 0 xs = Inr ys" "?I (nbytes div 512) ys" by blast
  have "ys = write_words w idx nbytes q xs" by (rule nth_equalityI) (use ys(2) in \<open>simp_all add: write_words_def touched_def\<close>)
  then show ?thesis using ys(1) by simp
qed

lemma repeat_loop_idem:
  assumes "f s = Inr s'" "f s' = Inr s'"
  shows "repeat_loop f (Suc n) s = Inr s'"
proof -
  have "repeat_loop f n s' = Inr s'" for n by (induction n) (simp_all add: assms)
  then show ?thesis by (simp add: assms)
qed

lemma put_loop_words:
  assumes "set idx \<subseteq> {..<128}" "q + nbytes div 4 \<le> length xs"
    "\<And>m i. 512 * m + 512 \<le> nbytes \<Longrightarrow> i \<in> set idx \<Longrightarrow> val (128 * m) i = Inr (w (128 * m + i))"
  shows "repeat_loop (block_loop (\<lambda>p. put_at (val p) (q + p) idx) (int nbytes - 512) 0) (Suc n) xs = Inr (write_words w idx nbytes q xs)"
proof (rule repeat_loop_idem)
  have pass: "block_loop (\<lambda>p. put_at (val p) (q + p) idx) (int nbytes - 512) 0 ys = Inr (write_words w idx nbytes q ys)"
    if "length ys = length xs" for ys
    by (rule put_loop_pass) (use assms that in simp_all)
  show "block_loop (\<lambda>p. put_at (val p) (q + p) idx) (int nbytes - 512) 0 xs = Inr (write_words w idx nbytes q xs)" by (rule pass) simp
  show "block_loop (\<lambda>p. put_at (val p) (q + p) idx) (int nbytes - 512) 0 (write_words w idx nbytes q xs) = Inr (write_words w idx nbytes q xs)"
    using pass [of "write_words w idx nbytes q xs"] by (simp add: write_words_idem) (simp add: write_words_def)
qed

section \<open>The buffers of \<open>bw_mem\<close>\<close>

definition bw_ready :: "bw_state \<Rightarrow> bool" where
  "bw_ready st \<longleftrightarrow> length (bw_buf st) = bw_nbytes st div 4 \<and> bw_lastone st = int (bw_nbytes st) - 512 \<and> bw_N st = bw_nbytes st \<and>
     (case bw_buf2_orig st of None \<Rightarrow> True | Some ys \<Rightarrow> bw_buf2 st + bw_nbytes st div 4 \<le> length ys)"

lemma init_loop_ready:
  assumes "init_loop E 0 st = Inr st'"
  shows "bw_ready st' \<and> (bw_buf2_orig st' \<noteq> None \<longleftrightarrow> bw_need_buf2 st)"
  using assms by (auto simp: init_loop_def Let_def bw_ready_def split: if_splits)

lemma index_sets [simp]: "set every_fourth \<subseteq> {..<128}" "set every_word \<subseteq> {..<128}"
  by (auto simp: every_fourth_def every_word_def)

lemma in_every_word: "k mod 128 \<in> set every_word" by (simp add: every_word_def)

lemma in_every_fourth: "k mod 128 \<in> set every_fourth \<longleftrightarrow> k mod 4 = 0"
proof
  assume "k mod 128 \<in> set every_fourth"
  then obtain j where "k mod 128 = 4 * j" by (auto simp: every_fourth_def)
  then have "k mod 128 mod 4 = 0" by simp
  then show "k mod 4 = 0" by (simp add: mod_mod_cancel)
next
  assume "k mod 4 = 0"
  then have "k mod 128 mod 4 = 0" by (simp add: mod_mod_cancel)
  then obtain j where j: "k mod 128 = 4 * j" by (auto elim: dvdE)
  moreover have "k mod 128 < 128" by simp
  ultimately have "j < 32" by linarith
  then show "k mod 128 \<in> set every_fourth" using j by (auto simp: every_fourth_def)
qed

lemma word_in_buf: "512 * m + 512 \<le> n \<Longrightarrow> i < 128 \<Longrightarrow> 128 * m + i < n div (4 :: nat)"
proof -
  assume "512 * m + 512 \<le> n" "i < 128"
  then have "128 * m + 128 \<le> n div 4" by (simp add: less_eq_div_iff_mult_less_eq)
  then show ?thesis using \<open>i < 128\<close> by linarith
qed

lemma copy_loop_words:
  assumes "bw_ready st" "bw_buf2_orig st = Some ys" "set idx \<subseteq> {..<128}"
  shows "copy_loop idx (Suc n) st =
    Inr (st\<lparr>bw_buf2_orig := Some (write_words (\<lambda>k. bw_buf st ! k) idx (bw_nbytes st) (bw_buf2 st) ys)\<rparr>)"
proof -
  have "repeat_loop (block_loop (\<lambda>p. put_at (\<lambda>i. load_int (bw_buf st) (p + i)) (bw_buf2 st + p) idx) (int (bw_nbytes st) - 512) 0) (Suc n) ys =
      Inr (write_words (\<lambda>k. bw_buf st ! k) idx (bw_nbytes st) (bw_buf2 st) ys)"
    by (rule put_loop_words) (use assms word_in_buf in \<open>auto simp: bw_ready_def load_int_def\<close>)
  then show ?thesis using assms(1,2) by (simp add: copy_loop_def bw_ready_def del: repeat_loop.simps)
qed

lemma fill_loop_words:
  assumes "bw_ready st" "set idx \<subseteq> {..<128}"
  shows "fill_loop idx (Suc n) st = Inr (st\<lparr>bw_buf := write_words (\<lambda>_. 1) idx (bw_nbytes st) 0 (bw_buf st)\<rparr>)"
proof -
  have "repeat_loop (block_loop (\<lambda>p. put_at (\<lambda>_. Inr 1) (0 + p) idx) (int (bw_nbytes st) - 512) 0) (Suc n) (bw_buf st) =
      Inr (write_words (\<lambda>_. 1) idx (bw_nbytes st) 0 (bw_buf st))"
    by (rule put_loop_words) (use assms in \<open>auto simp: bw_ready_def\<close>)
  then show ?thesis using assms(1) by (simp add: fill_loop_def bw_ready_def del: repeat_loop.simps)
qed


text \<open>\<open>wr\<close> and \<open>fwr\<close> set exactly the words of the whole blocks, \<open>wr\<close> every fourth of them, that is one in 16 bytes and
  not one in 32 as the comment has it; what is left of the buffer is not written.\<close>

theorem bw_fills:
  assumes "bw_ready st"
  shows "\<exists>us vs. wr (Suc n) st = Inr (st\<lparr>bw_buf := us\<rparr>) \<and> fwr (Suc n) st = Inr (st\<lparr>bw_buf := vs\<rparr>) \<and>
    length us = length (bw_buf st) \<and> length vs = length (bw_buf st) \<and>
    (\<forall>k < length (bw_buf st). us ! k = (if k < 128 * (bw_nbytes st div 512) \<and> k mod 4 = 0 then 1 else bw_buf st ! k) \<and>
      vs ! k = (if k < 128 * (bw_nbytes st div 512) then 1 else bw_buf st ! k))"
  using fill_loop_words [OF assms, of every_fourth n] fill_loop_words [OF assms, of "rev every_word" n]
  by (intro exI [of _ "write_words (\<lambda>_. 1) every_fourth (bw_nbytes st) 0 (bw_buf st)"]
      exI [of _ "write_words (\<lambda>_. 1) (rev every_word) (bw_nbytes st) 0 (bw_buf st)"] conjI)
    (simp_all add: wr_def fwr_def write_words_def touched_def in_every_word in_every_fourth)

definition demo_bw :: bw_state where
  "demo_bw = \<lparr>bw_nbytes = 1000, bw_need_buf2 = True, bw_aligned = True, bw_buf = map int [0..<250],
     bw_buf2_orig = Some (replicate 762 (- 1)), bw_buf2 = 480, bw_lastone = 488, bw_N = 1000\<rparr>"

lemma demo_bw_ready: "bw_ready demo_bw" "bw_buf2_orig demo_bw = Some (replicate 762 (- 1))"
  by (simp_all add: bw_ready_def demo_bw_def)


theorem bw_fills_witness:
  "\<exists>us vs. wr (Suc 2) demo_bw = Inr (demo_bw\<lparr>bw_buf := us\<rparr>) \<and> fwr (Suc 2) demo_bw = Inr (demo_bw\<lparr>bw_buf := vs\<rparr>) \<and>
    us ! 5 = 5 \<and> us ! 8 = 1 \<and> vs ! 127 = 1 \<and> vs ! 128 = 128"
proof -
  from bw_fills [OF demo_bw_ready(1), of 2] obtain us vs where
    c: "wr (Suc 2) demo_bw = Inr (demo_bw\<lparr>bw_buf := us\<rparr>)" "fwr (Suc 2) demo_bw = Inr (demo_bw\<lparr>bw_buf := vs\<rparr>)" and
    w: "\<forall>k < 250. us ! k = (if k < 128 \<and> k mod 4 = 0 then 1 else map int [0..<250] ! k) \<and>
      vs ! k = (if k < 128 then 1 else map int [0..<250] ! k)"
    by (auto simp: demo_bw_def)
  show ?thesis
    by (intro exI [of _ us] exI [of _ vs] conjI c)
      (use w [rule_format, of 5] w [rule_format, of 8] w [rule_format, of 127] w [rule_format, of 128] in simp_all)
qed

section \<open>Sums\<close>

lemma s32_add_s32 [simp]: "s32 (s32 a + b) = s32 (a + b)" "s32 (a + s32 b) = s32 (a + b)"
  unfolding s32_def by (metis signed_take_bit_add signed_take_bit_signed_take_bit min.idem)+

lemma sum_at_ok:
  assumes "\<And>i. i \<in> set idx \<Longrightarrow> p + i < length xs"
  shows "\<exists>t. sum_at xs p idx acc = Inr t \<and> s32 t = s32 (acc + sum_list (map (\<lambda>i. xs ! (p + i)) idx))"
  using assms
proof (induction idx arbitrary: acc)
  case (Cons i idx)
  then have "p + i < length xs" "\<And>i. i \<in> set idx \<Longrightarrow> p + i < length xs" by simp_all
  with Cons.IH [of "s32 (acc + xs ! (p + i))"] show ?case by (auto simp: load_int_def add.assoc)
qed simp

lemma sum_touched_Suc:
  fixes xs :: "int list"
  assumes "set idx \<subseteq> {..<128}" "distinct idx"
  shows "(\<Sum>k | k < 128 * Suc m \<and> k mod 128 \<in> set idx. xs ! k) =
    (\<Sum>k | k < 128 * m \<and> k mod 128 \<in> set idx. xs ! k) + sum_list (map (\<lambda>i. xs ! (128 * m + i)) idx)"
proof -
  have "k \<in> (\<lambda>i. 128 * m + i) ` set idx \<longleftrightarrow> k < 128 * Suc m \<and> \<not> k < 128 * m \<and> k mod 128 \<in> set idx" for k
    using block_index [OF assms(1), of m k] by (auto simp: image_iff intro: bexI [of _ "k - 128 * m"])
  then have "{k. k < 128 * Suc m \<and> k mod 128 \<in> set idx} =
      {k. k < 128 * m \<and> k mod 128 \<in> set idx} \<union> (\<lambda>i. 128 * m + i) ` set idx" by auto
  moreover have "(\<Sum>k \<in> (\<lambda>i. 128 * m + i) ` set idx. xs ! k) = sum_list (map (\<lambda>i. xs ! (128 * m + i)) idx)"
    using assms(2) by (simp add: sum.reindex inj_on_def sum_list_distinct_conv_sum_set)
  moreover have "{k. k < 128 * m \<and> k mod 128 \<in> set idx} \<inter> (\<lambda>i. 128 * m + i) ` set idx = {}" by auto
  ultimately show ?thesis by (simp add: sum.union_disjoint)
qed

lemma sum_loop_words:
  assumes "bw_ready st" "set idx \<subseteq> {..<128}" "distinct idx"
  shows "sum_loop idx n st = Inr (s32 (int n * (\<Sum>k | k < 128 * (bw_nbytes st div 512) \<and> k mod 128 \<in> set idx. bw_buf st ! k)))"
proof -
  let ?S = "\<lambda>m. \<Sum>k | k < 128 * m \<and> k mod 128 \<in> set idx. bw_buf st ! k"
  let ?f = "\<lambda>p acc. and_then (sum_at (bw_buf st) p idx 0) (\<lambda>t. Inr (s32 (acc + t)))"
  have pass: "block_loop ?f (int (bw_nbytes st) - 512) 0 (s32 a) = Inr (s32 (a + ?S (bw_nbytes st div 512)))" for a
  proof -
    have "\<exists>s'. block_loop ?f (int (bw_nbytes st) - 512) 0 (s32 a) = Inr s' \<and> s' = s32 (a + ?S (bw_nbytes st div 512))"
    proof (rule block_loop_inv)
      fix m s
      assume m: "512 * m + 512 \<le> bw_nbytes st" and "s = s32 (a + ?S m)"
      moreover obtain t where "sum_at (bw_buf st) (128 * m) idx 0 = Inr t" "s32 t = s32 (0 + sum_list (map (\<lambda>i. bw_buf st ! (128 * m + i)) idx))"
        using sum_at_ok [of idx "128 * m" "bw_buf st" 0] word_in_buf [OF m] assms(1,2) by (auto simp: bw_ready_def)
      moreover have "s32 (b + t) = s32 (b + s32 t)" for b by simp
      ultimately show "\<exists>s'. ?f (128 * m) s = Inr s' \<and> s' = s32 (a + ?S (Suc m))"
        unfolding sum_touched_Suc [OF assms(2,3)] by (simp add: add.assoc [symmetric])
    qed simp
    then show ?thesis by blast
  qed
  have "repeat_loop (block_loop ?f (int (bw_nbytes st) - 512) 0) n (s32 a) = Inr (s32 (a + int n * ?S (bw_nbytes st div 512)))" for a
    by (induction n arbitrary: a) (simp_all add: pass algebra_simps)
  from this [of 0] show ?thesis using assms(1) by (simp add: sum_loop_def bw_ready_def s32_def)
qed

text \<open>\<open>rd\<close> and \<open>frd\<close> read exactly the words of the whole blocks, \<open>rd\<close> every fourth of them, once per iteration: their sums,
  with the wrap-around of \<open>int\<close>, are those of these words times the iterations.\<close>

theorem bw_reads:
  assumes "bw_ready st"
  shows "rd n st = Inr (s32 (int n * (\<Sum>k | k < 128 * (bw_nbytes st div 512) \<and> k mod 4 = 0. bw_buf st ! k))) \<and>
    frd n st = Inr (s32 (int n * (\<Sum>k < 128 * (bw_nbytes st div 512). bw_buf st ! k)))"
proof -
  have d: "distinct every_fourth" "distinct every_word" by (auto simp: every_fourth_def every_word_def distinct_map inj_on_def)
  show ?thesis
    using sum_loop_words [OF assms index_sets(1) d(1), of n] sum_loop_words [OF assms index_sets(2) d(2), of n]
    by (simp add: rd_def frd_def in_every_word in_every_fourth lessThan_def)
qed

lemma rdwr_at_ok:
  assumes "\<And>i. i \<in> set idx \<Longrightarrow> p + i < length xs"
  shows "\<exists>acc' ys. rdwr_at p idx (acc, xs) = Inr (acc', ys) \<and> put_at (\<lambda>_. Inr 1) p idx xs = Inr ys \<and> length ys = length xs"
  using assms
proof (induction idx arbitrary: acc xs)
  case (Cons i idx)
  then have "p + i < length xs" by simp
  with Cons.IH [of "xs[p + i := 1]"] Cons.prems show ?case by (fastforce simp: load_int_def store_int_def)
qed simp

lemma repeat_loop_inv:
  assumes "\<And>s. P s \<Longrightarrow> \<exists>s'. f s = Inr s' \<and> P s'" "P s"
  shows "\<exists>s'. repeat_loop f n s = Inr s' \<and> P s'"
  using assms(2)
proof (induction n arbitrary: s)
  case (Suc n)
  then obtain s' where "f s = Inr s'" "P s'" using assms(1) by blast
  then show ?case using Suc.IH [of s'] by simp
qed simp

lemma length_write_words [simp]: "length (write_words w idx nbytes q xs) = length xs"
  by (simp add: write_words_def)

lemma bw_ready_update:
  "bw_ready st \<Longrightarrow> length xs = bw_nbytes st div 4 \<Longrightarrow> bw_ready (st\<lparr>bw_buf := xs\<rparr>)"
  "bw_ready st \<Longrightarrow> bw_buf2_orig st = Some ys \<Longrightarrow> length zs = length ys \<Longrightarrow> bw_ready (st\<lparr>bw_buf2_orig := Some zs\<rparr>)"
  by (auto simp: bw_ready_def split: option.splits)

lemma bw_ready_fields: "bw_ready st \<Longrightarrow> bw_N st = bw_nbytes st" "bw_ready st \<Longrightarrow> length (bw_buf st) = bw_nbytes st div 4"
  by (simp_all add: bw_ready_def)

lemma fill_loop_ready: "bw_ready st \<Longrightarrow> set idx \<subseteq> {..<128} \<Longrightarrow> \<exists>st'. fill_loop idx n st = Inr st' \<and> bw_ready st'"
  using fill_loop_words [of st idx] by (cases n) (simp_all add: bw_ready_update bw_ready_fields fill_loop_def [of idx 0])

lemma copy_loop_ready:
  "bw_ready st \<Longrightarrow> bw_buf2_orig st = Some ys \<Longrightarrow> set idx \<subseteq> {..<128} \<Longrightarrow> \<exists>st'. copy_loop idx n st = Inr st' \<and> bw_ready st'"
  using copy_loop_words [of st ys idx] by (cases n) (simp_all add: bw_ready_update copy_loop_def [of idx 0])

lemma rdwr_ready:
  assumes "bw_ready st"
  shows "\<exists>acc st'. rdwr n st = Inr (acc, st') \<and> bw_ready st'"
proof -
  let ?P = "\<lambda>(acc :: int, xs :: int list). length xs = bw_nbytes st div 4"
  have pass: "\<exists>s'. block_loop (\<lambda>p. rdwr_at p every_fourth) (int (bw_nbytes st) - 512) 0 s = Inr s' \<and> ?P s'" if "?P s" for s
  proof (rule block_loop_inv [where I = "\<lambda>m. ?P"])
    fix m s
    assume m: "512 * m + 512 \<le> bw_nbytes st" and "?P s"
    moreover obtain acc xs where "s = (acc, xs)" by (cases s)
    ultimately show "\<exists>s'. rdwr_at (128 * m) every_fourth s = Inr s' \<and> ?P s'"
      using rdwr_at_ok [of every_fourth "128 * m" xs acc] word_in_buf [OF m] index_sets(1) by fastforce
  qed (rule that)
  have "?P (0, bw_buf st)" using assms by (simp add: bw_ready_def)
  then have "\<exists>s'. repeat_loop (block_loop (\<lambda>p. rdwr_at p every_fourth) (int (bw_nbytes st) - 512) 0) n (0, bw_buf st) = Inr s' \<and> ?P s'"
    by (rule repeat_loop_inv [rotated]) (rule pass)
  moreover have "bw_lastone st = int (bw_nbytes st) - 512" using assms by (simp add: bw_ready_def)
  ultimately show ?thesis using bw_ready_update(1) [OF assms] by (auto simp: rdwr_def)
qed

lemma bzero_bcopy_ready:
  assumes "bw_ready st"
  shows "\<exists>st'. loop_bzero n st = Inr st' \<and> bw_ready st'"
    and "bw_buf2_orig st = Some ys \<Longrightarrow> \<exists>st'. loop_bcopy n st = Inr st' \<and> bw_ready st'"
proof -
  let ?n = "bw_nbytes st div 4" and ?q = "bw_buf2 st"
  let ?f = "\<lambda>xs. if length xs < ?n then Inl Out_Of_Bounds else Inr (replicate ?n 0 @ drop ?n xs)"
  have "\<exists>xs. repeat_loop ?f n (bw_buf st) = Inr xs \<and> length xs = ?n"
    by (rule repeat_loop_inv) (use assms in \<open>auto simp: bw_ready_def\<close>)
  then show "\<exists>st'. loop_bzero n st = Inr st' \<and> bw_ready st'" 
    unfolding loop_bzero_def bw_ready_fields(1) [OF assms] using bw_ready_update(1) [OF assms] by auto
next
  let ?n = "bw_nbytes st div 4" and ?q = "bw_buf2 st"
  assume ys: "bw_buf2_orig st = Some ys"
  let ?g = "\<lambda>ys. if length (bw_buf st) < ?n \<or> length ys < ?q + ?n then Inl Out_Of_Bounds
    else Inr (take ?q ys @ take ?n (bw_buf st) @ drop (?q + ?n) ys)"
  have "\<exists>zs. repeat_loop ?g n ys = Inr zs \<and> length zs = length ys"
    by (rule repeat_loop_inv) (use assms ys in \<open>auto simp: bw_ready_def\<close>)
  then show "\<exists>st'. loop_bcopy n st = Inr st' \<and> bw_ready st'" 
    unfolding loop_bcopy_def bw_ready_fields(1) [OF assms] Let_def ys using bw_ready_update(2) [OF assms ys] by auto
qed

text \<open>no operation of \<open>bw_mem\<close> leaves its buffers: whatever the size and the alignment, from the state that
  \<open>init_loop\<close> makes every operation runs any number of iterations and ends.\<close>

theorem bw_stays_inside:
  assumes "init_loop E 0 (bw_start nbytes al what) = Inr st"
  shows "\<exists>st'. bw_run what n st = Inr st' \<and> bw_ready st'"
proof -
  have r: "bw_ready st" using init_loop_ready [OF assms] by blast
  have c: "\<exists>ys. bw_buf2_orig st = Some ys" if "what \<in> {Cp, Fcp, Bcopy}" using init_loop_ready [OF assms] that by (auto simp: bw_start_def)
  have f: "\<exists>st'. fill_loop every_fourth n st = Inr st' \<and> bw_ready st'" "\<exists>st'. fill_loop (rev every_word) n st = Inr st' \<and> bw_ready st'"
    using fill_loop_ready [OF r] by simp_all
  have d: "distinct every_fourth" "distinct every_word" by (auto simp: every_fourth_def every_word_def distinct_map inj_on_def)
  have s: "\<exists>t. sum_loop every_fourth n st = Inr t" "\<exists>t. sum_loop every_word n st = Inr t"
    using sum_loop_words [OF r index_sets(1) d(1)] sum_loop_words [OF r index_sets(2) d(2)] by blast+
  show ?thesis
  proof (cases what)
    case Cp
    then show ?thesis using c copy_loop_ready [OF r _ index_sets(1)] by (auto simp: bw_run_def mcp_def)
  next
    case Fcp
    then show ?thesis using c copy_loop_ready [OF r _ index_sets(2)] by (auto simp: bw_run_def fcp_def)
  next
    case Bcopy
    then show ?thesis using c bzero_bcopy_ready(2) [OF r] by (auto simp: bw_run_def)
  next
    case Rdwr
    then show ?thesis using rdwr_ready [OF r, of n] by (auto simp: bw_run_def)
  qed (use r f s bzero_bcopy_ready(1) [OF r, of n] in \<open>auto simp: bw_run_def rd_def frd_def wr_def fwr_def\<close>)
qed

definition demo_bw_env :: bw_env where
  "demo_bw_env = \<lparr>be_valloc = (\<lambda>_. True), be_fresh = (\<lambda>_. - 1)\<rparr>"

theorem bw_stays_inside_witness:
  "\<exists>st st'. init_loop demo_bw_env 0 (bw_start 1000 True Fcp) = Inr st \<and> bw_run Fcp 5 st = Inr st' \<and> bw_ready st'"
proof -
  obtain st where st: "init_loop demo_bw_env 0 (bw_start 1000 True Fcp) = Inr st"
    by (simp add: init_loop_def demo_bw_env_def bw_start_def Let_def)
  show ?thesis using bw_stays_inside [OF st, of 5] st by blast
qed

section \<open>The kernels of \<open>stream\<close>\<close>

lemma and_then_assoc: "and_then (and_then x f) g = and_then x (\<lambda>y. and_then (f y) g)"
  by (cases x) simp_all

lemma run_all_snoc: "run_all f (xs @ [x]) s = and_then (run_all f xs s) (f x)"
proof (induction xs arbitrary: s)
  case Nil
  show ?case by (cases "f x s") simp_all
next
  case (Cons y ys)
  then show ?case by (cases "f y s") simp_all
qed

definition str_ok :: "'d stream_state \<Rightarrow> bool" where
  "str_ok st \<longleftrightarrow> distinct [str_a st, str_b st, str_c st] \<and> {str_a st, str_b st, str_c st} = {0, 1, 2} \<and>
     (\<forall>p \<in> {0, 1, 2}. length (str_mem st p) = nat (str_len st))"

text \<open>A pass that stores at each index a value that depends on the blocks at this index only.\<close>

lemma body_map:
  assumes len: "length (mem t) = n"
    and val: "\<And>i m. i < n \<Longrightarrow> (\<And>p. length (m p) = length (mem p) \<and> m p ! i = mem p ! i) \<Longrightarrow> val i m = Inr (w i)"
  shows "run_all (\<lambda>i m. and_then (val i m) (sd m t i)) [0..<n] mem = Inr (mem(t := map w [0..<n]))"
proof -
  have "run_all (\<lambda>i m. and_then (val i m) (sd m t i)) [0..<k] mem = Inr (mem(t := map w [0..<k] @ drop k (mem t)))" if "k \<le> n" for k
    using that
  proof (induction k)
    case (Suc k)
    let ?m = "mem(t := map w [0..<k] @ drop k (mem t))"
    have "val k ?m = Inr (w k)" by (rule val) (use Suc.prems len in \<open>auto simp: nth_append\<close>)
    moreover from Suc.prems len have "drop k (mem t) = mem t ! k # drop (Suc k) (mem t)" by (simp add: Cons_nth_drop_Suc)
    then have "sd ?m t k (w k) = Inr (mem(t := map w [0..<Suc k] @ drop (Suc k) (mem t)))"
      using Suc.prems len by (simp add: sd_def list_update_append)
    moreover have "run_all (\<lambda>i m. and_then (val i m) (sd m t i)) [0..<k] mem = Inr ?m" by (rule Suc.IH) (use Suc.prems in simp)
    ultimately show ?case by (simp only: run_all_snoc upt_Suc_append [OF le0] and_then.simps)
  qed simp
  from this [of n] len show ?thesis by simp
qed

lemma repeat_once: "repeat_loop f (Suc 0) s = f s"
  by (cases "f s") simp_all

lemma str_lens:
  assumes "str_ok st"
  shows "length (str_mem st (str_a st)) = nat (str_len st)" "length (str_mem st (str_b st)) = nat (str_len st)"
    "length (str_mem st (str_c st)) = nat (str_len st)"
  using assms unfolding str_ok_def by blast+

lemma BODY_map:
  assumes "str_ok st" "t \<in> {str_a st, str_b st, str_c st}" "\<And>i m. expr st i m = and_then (val i m) (sd m t i)"
    "\<And>i m. i < nat (str_len st) \<Longrightarrow> (\<And>p. length (m p) = length (str_mem st p) \<and> m p ! i = str_mem st p ! i) \<Longrightarrow> val i m = Inr (w i)"
    "\<And>i. i < nat (str_len st) \<Longrightarrow> w i = ys ! i" "length ys = nat (str_len st)"
  shows "BODY expr st = Inr ((rotate_arrays st)\<lparr>str_mem := (str_mem st)(t := ys)\<rparr>)"
proof -
  have "length (str_mem st t) = nat (str_len st)" using assms(2) str_lens [OF assms(1)] by auto
  then have "run_all (\<lambda>i m. and_then (val i m) (sd m t i)) [0..<nat (str_len st)] (str_mem st) =
      Inr ((str_mem st)(t := map w [0..<nat (str_len st)]))" by (rule body_map) (rule assms(4))
  moreover have "expr st = (\<lambda>i m. and_then (val i m) (sd m t i))" using assms(3) by blast
  moreover have "map w [0..<nat (str_len st)] = ys" by (rule nth_equalityI) (use assms(5,6) in simp_all)
  ultimately show ?thesis by (simp add: BODY_def)
qed

lemma sum_pass:
  "run_all (\<lambda>i acc. and_then (ld m p i) (\<lambda>x. Inr (f acc x))) [0..<length (m p)] acc = Inr (foldl f acc (m p))"
proof -
  have "run_all (\<lambda>i acc. and_then (ld m p i) (\<lambda>x. Inr (f acc x))) [0..<k] acc = Inr (foldl f acc (take k (m p)))" if "k \<le> length (m p)" for k
    using that by (induction k) (simp_all add: run_all_snoc ld_def take_Suc_conv_app_nth)
  from this [of "length (m p)"] show ?thesis by simp
qed

lemma kernel_passes:
  assumes "str_ok st"
  shows "stream_copy (Suc 0) st = Inr ((rotate_arrays st)\<lparr>str_mem := (str_mem st)(str_c st := str_mem st (str_a st))\<rparr>)" (is ?copy)
    and "stream_scale F (Suc 0) st =
      Inr ((rotate_arrays st)\<lparr>str_mem := (str_mem st)(str_b st := map (fl_mul F (str_scalar st)) (str_mem st (str_c st)))\<rparr>)" (is ?scale)
    and "stream_add F (Suc 0) st =
      Inr ((rotate_arrays st)\<lparr>str_mem := (str_mem st)(str_c st := map2 (fl_add F) (str_mem st (str_a st)) (str_mem st (str_b st)))\<rparr>)" (is ?add)
    and "stream_triad F (Suc 0) st =
      Inr ((rotate_arrays st)\<lparr>str_mem := (str_mem st)
        (str_a st := map2 (\<lambda>y z. fl_add F y (fl_mul F (str_scalar st) z)) (str_mem st (str_b st)) (str_mem st (str_c st)))\<rparr>)" (is ?triad)
    and "stream_fill F (Suc 0) st =
      Inr ((rotate_arrays st)\<lparr>str_mem := (str_mem st)(str_a st := replicate (nat (str_len st)) (fl_of F 0))\<rparr>)" (is ?fill)
    and "stream_daxpy F (Suc 0) st =
      Inr ((rotate_arrays st)\<lparr>str_mem := (str_mem st)
        (str_a st := map2 (\<lambda>x y. fl_add F x (fl_mul F (str_scalar st) y)) (str_mem st (str_a st)) (str_mem st (str_b st)))\<rparr>)" (is ?daxpy)
    and "stream_sum F (Suc 0) st = Inr (foldl (fl_add F) (fl_of F 0) (str_mem st (str_a st)), rotate_arrays st)" (is ?sum)
proof -
  note l = str_lens [OF assms]
  let ?a = "str_a st" and ?b = "str_b st" and ?c = "str_c st" and ?m = "str_mem st" and ?k = "fl_mul F (str_scalar st)"
  show ?copy unfolding stream_copy_def repeat_once
    by (rule BODY_map [OF assms, where val = "\<lambda>i m. ld m ?a i" and w = "\<lambda>i. ?m ?a ! i"]) (simp_all add: ld_def l)
  show ?scale unfolding stream_scale_def repeat_once
    by (rule BODY_map [OF assms, where val = "\<lambda>i m. and_then (ld m ?c i) (\<lambda>z. Inr (?k z))" and w = "\<lambda>i. ?k (?m ?c ! i)"])
      (simp_all add: ld_def l and_then_assoc)
  show ?add unfolding stream_add_def repeat_once
    by (rule BODY_map [OF assms, where val = "\<lambda>i m. and_then (ld m ?a i) (\<lambda>x. and_then (ld m ?b i) (\<lambda>y. Inr (fl_add F x y)))"
          and w = "\<lambda>i. fl_add F (?m ?a ! i) (?m ?b ! i)"]) (simp_all add: ld_def l and_then_assoc)
  show ?triad unfolding stream_triad_def repeat_once
    by (rule BODY_map [OF assms, where val = "\<lambda>i m. and_then (ld m ?b i) (\<lambda>y. and_then (ld m ?c i) (\<lambda>z. Inr (fl_add F y (?k z))))"
          and w = "\<lambda>i. fl_add F (?m ?b ! i) (?k (?m ?c ! i))"]) (simp_all add: ld_def l and_then_assoc)
  show ?fill unfolding stream_fill_def repeat_once
    by (rule BODY_map [OF assms, where val = "\<lambda>i m. Inr (fl_of F 0)" and w = "\<lambda>i. fl_of F 0"]) simp_all
  show ?daxpy unfolding stream_daxpy_def repeat_once
    by (rule BODY_map [OF assms, where val = "\<lambda>i m. and_then (ld m ?a i) (\<lambda>x. and_then (ld m ?b i) (\<lambda>y. Inr (fl_add F x (?k y))))"
          and w = "\<lambda>i. fl_add F (?m ?a ! i) (?k (?m ?b ! i))"]) (simp_all add: ld_def l and_then_assoc)
  show ?sum unfolding stream_sum_def repeat_once using sum_pass [of ?m ?a "fl_add F" "fl_of F 0"] by (simp add: l)
qed

text \<open>one pass of each kernel of \<open>stream\<close> is the map over whole arrays that the benchmark defines, for any arithmetic of
  doubles, followed by a rotation of the three pointers.\<close>

theorem stream_pass:
  assumes "str_ok st" "m = str_mem st" "a = str_a st" "b = str_b st" "c = str_c st" "r = rotate_arrays st"
  shows "stream_copy 1 st = Inr (r\<lparr>str_mem := m(c := m a)\<rparr>) \<and>
    stream_scale F 1 st = Inr (r\<lparr>str_mem := m(b := map (fl_mul F (str_scalar st)) (m c))\<rparr>) \<and>
    stream_add F 1 st = Inr (r\<lparr>str_mem := m(c := map2 (fl_add F) (m a) (m b))\<rparr>) \<and>
    stream_triad F 1 st = Inr (r\<lparr>str_mem := m(a := map2 (\<lambda>y z. fl_add F y (fl_mul F (str_scalar st) z)) (m b) (m c))\<rparr>) \<and>
    stream_fill F 1 st = Inr (r\<lparr>str_mem := m(a := replicate (nat (str_len st)) (fl_of F 0))\<rparr>) \<and>
    stream_daxpy F 1 st = Inr (r\<lparr>str_mem := m(a := map2 (\<lambda>x y. fl_add F x (fl_mul F (str_scalar st) y)) (m a) (m b))\<rparr>) \<and>
    stream_sum F 1 st = Inr (foldl (fl_add F) (fl_of F 0) (m a), r)"
  unfolding assms(2-) One_nat_def by (intro conjI kernel_passes [OF assms(1)])

lemma str_ok_rotate:
  assumes "str_ok st" "\<And>p. p \<in> {0, 1, 2} \<Longrightarrow> length (m p) = nat (str_len st)"
  shows "str_ok ((rotate_arrays st)\<lparr>str_mem := m\<rparr>)"
proof -
  have "{str_b st, str_c st, str_a st} = {0, 1, 2}" using assms(1) unfolding str_ok_def by (metis insert_commute)
  moreover have "distinct [str_b st, str_c st, str_a st]" using assms(1) unfolding str_ok_def distinct.simps by force
  ultimately show ?thesis using assms(2) by (simp only: str_ok_def rotate_arrays_def stream_state.simps) simp
qed

lemma str_ok_store:
  assumes "str_ok st" "length ys = nat (str_len st)"
  shows "str_ok ((rotate_arrays st)\<lparr>str_mem := (str_mem st)(t := ys)\<rparr>)"
  by (rule str_ok_rotate) (use assms in \<open>auto simp: str_ok_def\<close>)

lemma kernel_loop_ok:
  fixes st :: "'a stream_state"
  assumes "\<And>s. str_ok s \<Longrightarrow> repeat_loop f (Suc 0) s = Inr ((rotate_arrays s)\<lparr>str_mem := (str_mem s)(t s := ys s)\<rparr>)"
    "\<And>s. str_ok s \<Longrightarrow> length (ys s) = nat (str_len s)" "str_ok st"
  shows "\<exists>st'. repeat_loop f n st = Inr st' \<and> str_ok st'"
proof (rule repeat_loop_inv)
  fix s :: "'a stream_state"
  assume "str_ok s"
  then show "\<exists>s'. f s = Inr s' \<and> str_ok s'" using assms(1,2) [of s] str_ok_store by (simp only: repeat_once) blast
qed (rule assms(3))

lemma stream_run_ok:
  assumes "str_ok st"
  shows "\<exists>st'. stream_run F k n st = Inr st' \<and> str_ok st'"
proof -
  show ?thesis
  proof (cases k)
    case Copy
    show ?thesis unfolding stream_run_def Copy kernel_op.case stream_copy_def
      by (rule kernel_loop_ok, erule kernel_passes(1) [unfolded stream_copy_def]) (simp_all add: str_lens assms)
  next
    case Scale
    show ?thesis unfolding stream_run_def Scale kernel_op.case stream_scale_def
      by (rule kernel_loop_ok, erule kernel_passes(2) [unfolded stream_scale_def]) (simp_all add: str_lens assms)
  next
    case Add
    show ?thesis unfolding stream_run_def Add kernel_op.case stream_add_def
      by (rule kernel_loop_ok, erule kernel_passes(3) [unfolded stream_add_def]) (simp_all add: str_lens assms)
  next
    case Triad
    show ?thesis unfolding stream_run_def Triad kernel_op.case stream_triad_def
      by (rule kernel_loop_ok, erule kernel_passes(4) [unfolded stream_triad_def]) (simp_all add: str_lens assms)
  next
    case Fill
    show ?thesis unfolding stream_run_def Fill kernel_op.case stream_fill_def
      by (rule kernel_loop_ok, erule kernel_passes(5) [unfolded stream_fill_def]) (simp_all add: str_lens assms)
  next
    case Daxpy
    show ?thesis unfolding stream_run_def Daxpy kernel_op.case stream_daxpy_def
      by (rule kernel_loop_ok, erule kernel_passes(6) [unfolded stream_daxpy_def]) (simp_all add: str_lens assms)
  next
    case Sum
    let ?P = "\<lambda>(acc :: 'a, s :: 'a stream_state). str_ok s"
    have "\<exists>s'. stream_sum F n st = Inr s' \<and> ?P s'" unfolding stream_sum_def
    proof (rule repeat_loop_inv)
      fix z :: "'a \<times> 'a stream_state"
      assume "?P z"
      then obtain acc s where z: "z = (acc, s)" "str_ok s" by (cases z) auto
      have "str_ok ((rotate_arrays s)\<lparr>str_mem := str_mem s\<rparr>)" 
        by (rule str_ok_rotate [OF z(2)]) (use z(2) in \<open>simp only: str_ok_def\<close>)
      then have "str_ok (rotate_arrays s)" by (simp add: rotate_arrays_def)
      with z sum_pass [of "str_mem s" "str_a s" "fl_add F" acc]
      show "\<exists>z'. (case z of (acc, s) \<Rightarrow> and_then (run_all (\<lambda>i acc. and_then (ld (str_mem s) (str_a s) i) (\<lambda>x. Inr (fl_add F acc x)))
          [0..<nat (str_len s)] acc) (\<lambda>acc'. Inr (acc', rotate_arrays s))) = Inr z' \<and> ?P z'"
        by (simp add: str_lens)
    qed (use assms in simp)
    then show ?thesis unfolding stream_run_def Sum by auto
  qed
qed

text \<open>C39: however often a kernel of \<open>stream\<close> runs on the arrays that \<open>initialize\<close> makes, it stays inside them, and
  \<open>cleanup\<close> then frees each of the three blocks exactly once, although the pointers have been rotated.\<close>

theorem stream_frees_blocks:
  assumes "stream_initialize F mallocs 0 st0 = Inr st"
  shows "\<exists>st'. stream_run F k n st = Inr st' \<and> distinct (stream_cleanup 0 st') \<and> set (stream_cleanup 0 st') = {0, 1, 2}"
proof -
  have "str_ok st" using assms by (auto simp: stream_initialize_def str_ok_def Let_def split: if_splits)
  then obtain st' where "stream_run F k n st = Inr st'" "str_ok st'" using stream_run_ok by blast
  then show ?thesis by (auto simp: stream_cleanup_def str_ok_def)
qed

definition demo_fpu :: "rat fpu" where
  "demo_fpu = \<lparr>fl_of = (\<lambda>x. x), fl_add = (+), fl_mul = (*)\<rparr>"

definition demo_stream :: "rat stream_state" where
  "demo_stream = \<lparr>str_mem = (\<lambda>p. if p = 0 then [1, 1] else if p = 1 then [2, 2] else [0, 0]), str_a = 0, str_b = 1, str_c = 2, str_scalar = 3, str_len = 2\<rparr>"

theorem stream_frees_blocks_witness:
  "\<exists>st st'. stream_initialize demo_fpu (\<lambda>_. True) 0 demo_stream = Inr st \<and> stream_run demo_fpu Triad 4 st = Inr st' \<and>
    distinct (stream_cleanup 0 st')"
proof -
  obtain st where st: "stream_initialize demo_fpu (\<lambda>_. True) 0 demo_stream = Inr st" by (simp add: stream_initialize_def Let_def)
  show ?thesis using stream_frees_blocks [OF st, of Triad 4] st by blast
qed

theorem stream_pass_witness:
  "\<exists>st'. stream_triad demo_fpu 1 demo_stream = Inr st' \<and> str_mem st' 0 = [2, 2] \<and> str_c st' = 0"
proof -
  have "str_ok demo_stream" by (auto simp: str_ok_def demo_stream_def)
  from stream_pass [OF this refl refl refl refl refl, of demo_fpu] show ?thesis
    by (auto simp: demo_stream_def demo_fpu_def rotate_arrays_def)
qed

end
