(* ===== verification/Lm_Ctx.thy ===== *)
theory Lm_Ctx
  imports Lm_Util Lm_Getopt Lm_Report Lm_Enough
begin

text \<open>
  The context switch benchmark (\<open>src/lmbench-3.0-a9/src/lat_ctx.c\<close>): a ring of processes that pass a token through
  pipes.  The setting up and taking down of the ring is modelled as functions that return the calls they
  make; the ring itself, the benchmark process and the daemons of \<open>doit\<close>, as a step relation in which any
  process that can go on may take the next step.

  Arguments: the answers of \<open>pipe\<close>, \<open>fork\<close> and \<open>malloc\<close>, and the times that \<open>benchmp\<close> finds.  Reads and writes on
  open pipes transfer a whole \<open>int\<close>; a pipe has room for the messages written, of which there is never
  more than one.  The number of processes is a natural number; with 0 or a negative one the code indexes
  outside its arrays.
\<close>

section \<open>Setting up and taking down\<close>

record ctx_env =
  ce_pipe :: "nat \<Rightarrow> (int \<times> int) option"
  ce_fork :: "nat \<Rightarrow> int"
  ce_malloc_p :: bool
  ce_malloc_data :: bool
  ce_malloc_pids :: bool

text \<open>\<open>struct _state\<close>.  The descriptors of a pipe that was not created are not initialised (\<open>None\<close>); \<open>data\<close> is the words
  of the block.\<close>

record lat_state =
  cx_process_size :: int
  cx_procs :: nat
  cx_pids :: "int list option"
  cx_p :: "(int \<times> int) option list"
  cx_data :: "u64 list option"

text \<open>The calls that the functions make; \<open>Close None\<close> closes whatever number an uninitialised descriptor holds.\<close>

datatype ctx_call =
    Close "int option"
  | Kill_Child int
  | Wait_Child int
  | Free_P
  | Free_Data
  | Free_Pids
  | Place nat nat

text \<open>\<open>Place b n\<close> is \<open>handle_scheduler (benchmp_childid (), b, n)\<close>.\<close>

text \<open>The loop of \<open>create_pipes\<close> from pipe \<open>i\<close> on: how many were made.\<close>

fun pipes_from :: "ctx_env \<Rightarrow> nat \<Rightarrow> nat \<Rightarrow> (int \<times> int) option list" where
  "pipes_from E i 0 = []"
| "pipes_from E i (Suc n) = (case ce_pipe E i of None \<Rightarrow> [] | Some fds \<Rightarrow> Some fds # pipes_from E (Suc i) n)"

definition create_pipes :: "ctx_env \<Rightarrow> nat \<Rightarrow> (int \<times> int) option list \<times> nat" where
  "create_pipes E procs = (let made = pipes_from E 0 procs in (made @ replicate (procs - length made) None, length made))"

definition cleanup_overhead :: "nat \<Rightarrow> lat_state \<Rightarrow> ctx_call list" where
  "cleanup_overhead iters st =
     (if iters \<noteq> 0 then []
      else concat (map (\<lambda>fds. [Close (map_option fst fds), Close (map_option snd fds)]) (take (cx_procs st) (cx_p st))) @
        [Free_P] @ (case cx_data st of None \<Rightarrow> [] | Some _ \<Rightarrow> [Free_Data]))"

text \<open>An initialisation that stops the program has made the calls in the left component before.\<close>

definition initialize_overhead :: "ctx_env \<Rightarrow> nat \<Rightarrow> lat_state \<Rightarrow> ctx_call list \<times> lat_state res" where
  "initialize_overhead E iters st =
     (if iters \<noteq> 0 then ([], Inr st)
      else if \<not> ce_malloc_p E \<or> 0 < cx_process_size st \<and> \<not> ce_malloc_data E then ([], Inl (Exit 1))
      else
        let (p, procs) = create_pipes E (cx_procs st);
            st' = st\<lparr>cx_pids := None, cx_p := p,
                     cx_data := (if 0 < cx_process_size st then Some (replicate (nat (cx_process_size st) div 8) 0) else None)\<rparr>
        in if procs < cx_procs st then (cleanup_overhead 0 st', Inl (Exit 1)) else ([], Inr st'))"

text \<open>The descriptors that the child \<open>i\<close> of \<open>create_daemons\<close> closes before it calls \<open>doit\<close>.\<close>

definition child_closes :: "(int \<times> int) option list \<Rightarrow> nat \<Rightarrow> nat \<Rightarrow> ctx_call list" where
  "child_closes p procs i =
     concat (map (\<lambda>j. (if j + 1 \<noteq> i then [Close (map_option fst (p ! j))] else []) @ (if j \<noteq> i then [Close (map_option snd (p ! j))] else []))
       [0..<procs])"

text \<open>The loop of \<open>create_daemons\<close> in the parent: the process ids, and the number \<open>i\<close> at which \<open>fork\<close> failed.\<close>

fun fork_from :: "ctx_env \<Rightarrow> nat \<Rightarrow> nat \<Rightarrow> int list \<Rightarrow> int list \<times> nat option" where
  "fork_from E i 0 pids = (pids, None)"
| "fork_from E i (Suc n) pids =
     (let pids' = pids[i := ce_fork E i] in if ce_fork E i = - 1 then (pids', Some i) else fork_from E (Suc i) n pids')"

text \<open>\<open>create_daemons\<close> up to the first trip of the token, which is a step of the ring below.\<close>

definition create_daemons :: "ctx_env \<Rightarrow> nat \<Rightarrow> int list \<Rightarrow> ctx_call list \<times> int list \<times> nat" where
  "create_daemons E procs pids =
     (let (pids', failed) = fork_from E 1 (procs - 1) pids
      in ([Place 0 (procs - 1)], pids', case failed of None \<Rightarrow> procs | Some i \<Rightarrow> i))"

definition kill_children :: "nat \<Rightarrow> int list \<Rightarrow> ctx_call list" where
  "kill_children procs pids = concat (map (\<lambda>pid. if 0 < pid then [Kill_Child pid, Wait_Child pid] else []) (drop 1 (take procs pids)))"

definition ctx_cleanup :: "nat \<Rightarrow> lat_state \<Rightarrow> ctx_call list \<times> lat_state" where
  "ctx_cleanup iters st =
     (if iters \<noteq> 0 then ([], st)
      else (cleanup_overhead iters st @ (case cx_pids st of None \<Rightarrow> [] | Some pids \<Rightarrow> kill_children (cx_procs st) pids @ [Free_Pids]),
            st\<lparr>cx_pids := None\<rparr>))"

text \<open>\<open>initialize\<close>, up to the first trip of the token.\<close>

definition ctx_initialize :: "ctx_env \<Rightarrow> nat \<Rightarrow> lat_state \<Rightarrow> ctx_call list \<times> lat_state res" where
  "ctx_initialize E iters st =
     (if iters \<noteq> 0 then ([], Inr st)
      else case initialize_overhead E iters st of
        (acts, Inl e) \<Rightarrow> (acts, Inl e)
      | (acts, Inr st1) \<Rightarrow>
          if \<not> ce_malloc_pids E then (acts, Inl (Exit 1))
          else let (places, pids, procs) = create_daemons E (cx_procs st1) (replicate (cx_procs st1) 0);
                   st2 = st1\<lparr>cx_pids := Some pids\<rparr>
            in if procs < cx_procs st2 then (acts @ places @ fst (ctx_cleanup 0 st2), Inl (Exit 1)) else (acts @ places, Inr st2))"

section \<open>The ring\<close>

datatype parent_pc = At_Write | At_Read | Finished

text \<open>\<open>rg_pipes i\<close> are the messages in pipe \<open>i\<close>; a daemon either waits in \<open>read\<close> or holds the message it has read;
  \<open>rg_visits\<close> counts how often each process has summed its data.  \<open>rg_left\<close> is \<open>iters\<close> of \<open>benchmark\<close>.\<close>

record token_ring =
  rg_pipes :: "nat \<Rightarrow> int list"
  rg_daemon :: "nat \<Rightarrow> int option"
  rg_parent :: parent_pc
  rg_left :: nat
  rg_msg :: int
  rg_visits :: "nat \<Rightarrow> nat"

definition put_pipe :: "nat \<Rightarrow> int \<Rightarrow> token_ring \<Rightarrow> token_ring" where
  "put_pipe i m s = s\<lparr>rg_pipes := (rg_pipes s)(i := rg_pipes s i @ [m])\<rparr>"

definition take_pipe :: "nat \<Rightarrow> token_ring \<Rightarrow> token_ring" where
  "take_pipe i s = s\<lparr>rg_pipes := (rg_pipes s)(i := tl (rg_pipes s i))\<rparr>"

definition visit :: "nat \<Rightarrow> token_ring \<Rightarrow> token_ring" where
  "visit i s = s\<lparr>rg_visits := (rg_visits s)(i := Suc (rg_visits s i))\<rparr>"

text \<open>The process \<open>benchmark\<close> runs in is number 0.\<close>

inductive ring_step :: "nat \<Rightarrow> token_ring \<Rightarrow> token_ring \<Rightarrow> bool" for procs where
  parent_done: "rg_parent s = At_Write \<Longrightarrow> rg_left s = 0 \<Longrightarrow> ring_step procs s (s\<lparr>rg_parent := Finished\<rparr>)"
| parent_write: "rg_parent s = At_Write \<Longrightarrow> 0 < rg_left s \<Longrightarrow>
    ring_step procs s ((put_pipe 0 (rg_msg s) s)\<lparr>rg_parent := At_Read, rg_left := rg_left s - 1\<rparr>)"
| parent_read: "rg_parent s = At_Read \<Longrightarrow> rg_pipes s (procs - 1) = m # ms \<Longrightarrow>
    ring_step procs s (visit 0 ((take_pipe (procs - 1) s)\<lparr>rg_msg := m, rg_parent := At_Write\<rparr>))"
| daemon_read: "0 < i \<Longrightarrow> i < procs \<Longrightarrow> rg_daemon s i = None \<Longrightarrow> rg_pipes s (i - 1) = m # ms \<Longrightarrow>
    ring_step procs s (visit i ((take_pipe (i - 1) s)\<lparr>rg_daemon := (rg_daemon s)(i := Some m)\<rparr>))"
| daemon_write: "0 < i \<Longrightarrow> i < procs \<Longrightarrow> rg_daemon s i = Some m \<Longrightarrow>
    ring_step procs s ((put_pipe i m s)\<lparr>rg_daemon := (rg_daemon s)(i := None)\<rparr>)"

inductive_simps ring_step_simps: "ring_step procs s t"

definition ring_start :: "nat \<Rightarrow> int \<Rightarrow> token_ring" where
  "ring_start iters msg =
     \<lparr>rg_pipes = (\<lambda>_. []), rg_daemon = (\<lambda>_. None), rg_parent = At_Write, rg_left = iters, rg_msg = msg, rg_visits = (\<lambda>_. 0)\<rparr>"

text \<open>\<open>benchmark_overhead\<close>: one process writes to and reads from each pipe in turn; the pipes used.\<close>

fun overhead_loop :: "nat \<Rightarrow> nat \<Rightarrow> nat \<Rightarrow> nat list" where
  "overhead_loop procs i 0 = []"
| "overhead_loop procs i (Suc iters) = i # overhead_loop procs (if i + 1 = procs then 0 else i + 1) iters"

definition benchmark_overhead :: "nat \<Rightarrow> lat_state \<Rightarrow> nat list res" where
  "benchmark_overhead iters st =
     (if 0 < iters \<and> cx_procs st = 0 then Inl Out_Of_Bounds else Inr (overhead_loop (cx_procs st) 0 iters))"

section \<open>The main program\<close>

text \<open>The options: the size of the processes and the parallelism.\<close>

fun ctx_options :: "(char \<times> string option) list \<Rightarrow> int \<times> int \<Rightarrow> (int \<times> int) res" where
  "ctx_options [] opt = Inr opt"
| "ctx_options ((c, arg) # cs) (psize, par) =
     (case arg of
        None \<Rightarrow> Inl Null_Deref
      | Some s \<Rightarrow>
          if c = CHR ''P'' then if atoi s \<le> 0 then Inl (Exit (- 1)) else ctx_options cs (psize, atoi s)
          else if c = CHR ''s'' then ctx_options cs (s32 (atoi s * 1024), par)
          else ctx_options cs (psize, par))"

text \<open>The line for one number of processes; \<open>tn\<close> is the time and the iterations that \<open>benchmp\<close> found.  A time
  below every number is not printed, like every negative one.\<close>

definition ctx_line :: "rounding \<Rightarrow> fp \<Rightarrow> int \<Rightarrow> u64 \<times> u64 \<Rightarrow> item list" where
  "ctx_line rnd overhead procs tn =
     (let t = fp_div rnd (fp_div rnd (Fin (dbl rnd (fst tn))) (dbl rnd (snd tn))) (of_int procs);
          tm = (case (t, overhead) of
                  (Fin x, Fin y) \<Rightarrow> Fin (rnd (x - y))
                | (Infty, Fin y) \<Rightarrow> Infty
                | (Fin x, Infty) \<Rightarrow> Fin (- 1)
                | _ \<Rightarrow> Not_A_Number)
      in if fp_gt tm 0 then [Dec procs, Txt '' '', Flt 2 tm] else [])"

definition ctx_main ::
  "rounding \<Rightarrow> (int \<Rightarrow> int \<Rightarrow> (u64 \<times> u64) res) \<Rightarrow> (int \<Rightarrow> int \<Rightarrow> int \<Rightarrow> (u64 \<times> u64) res) \<Rightarrow> string list \<Rightarrow> item list list res option" where
  "ctx_main rnd bench_overhead bench av =
     bind_r (getopts (Suc (sum_list (map (\<lambda>w. length w + 1) (drop 1 av)))) av ''s:P:W:N:'' optst_init) (\<lambda>(cs, ok, s).
     if \<not> ok then Some (Inl (Exit (- 1))) else
     bind_r (Some (ctx_options cs (0, 1))) (\<lambda>(psize, par).
     let args = map atoi (drop (nat (optind s)) av) in
     if args = [] then Some (Inl (Exit (- 1))) else
     let maxprocs = fold max args (hd args) in
     bind_r (Some (bench_overhead psize maxprocs)) (\<lambda>(t, n).
     if t = 0 then Some (Inr [])
     else let overhead = fp_div rnd (Fin (dbl rnd t)) (dbl rnd n) in
       bind_r (Some (collect_res (\<lambda>procs. and_then (bench par psize procs) (\<lambda>tn. Inr (ctx_line rnd overhead procs tn))) args)) (\<lambda>ls.
       Some (Inr ([Txt ''size='', Dec (c_div psize 1024), Txt ''k ovr='', Flt 2 overhead] # ls))))))"

end
