(* ===== verification/Lm_Ctx_Props.thy ===== *)
theory Lm_Ctx_Props
  imports Lm_Ctx
begin

text \<open>
  The ring of \<open>lat_ctx\<close>: in every state exactly one process can go on, a trip of the token takes two steps per
  process and visits every process once, and the benchmark ends.  The set-up gives each daemon its two ends
  of the ring, and a set-up that fails takes back what it has made.
\<close>

section \<open>The token\<close>

text \<open>The benchmark process is about to write, no message is under way.\<close>

definition idle :: "(nat \<Rightarrow> nat) \<Rightarrow> int \<Rightarrow> nat \<Rightarrow> token_ring" where
  "idle v msg n = \<lparr>rg_pipes = (\<lambda>_. []), rg_daemon = (\<lambda>_. None), rg_parent = At_Write, rg_left = n, rg_msg = msg, rg_visits = v\<rparr>"

text \<open>The token at place \<open>k\<close> of the ring: in pipe \<open>j\<close> for \<open>k = 2 * j + 1\<close>, with daemon \<open>i\<close> for \<open>k = 2 * i\<close>.\<close>

definition under_way :: "(nat \<Rightarrow> nat) \<Rightarrow> int \<Rightarrow> nat \<Rightarrow> nat \<Rightarrow> token_ring" where
  "under_way v msg n k =
     \<lparr>rg_pipes = (\<lambda>j. if k = 2 * j + 1 then [msg] else []), rg_daemon = (\<lambda>i. if k = 2 * i then Some msg else None),
      rg_parent = At_Read, rg_left = n, rg_msg = msg, rg_visits = (\<lambda>i. if 0 < i \<and> 2 * i \<le> k then Suc (v i) else v i)\<rparr>"

definition visited_all :: "nat \<Rightarrow> (nat \<Rightarrow> nat) \<Rightarrow> nat \<Rightarrow> nat" where
  "visited_all procs v i = (if i < procs then Suc (v i) else v i)"

lemmas ring_ops = put_pipe_def take_pipe_def visit_def idle_def under_way_def

lemma idle_step: "ring_step procs (idle v msg (Suc n)) t \<longleftrightarrow> t = under_way v msg n 1"
  by (subst ring_step_simps) (auto simp: ring_ops fun_eq_iff)

lemma idle_stop: "ring_step procs (idle v msg 0) t \<longleftrightarrow> t = (idle v msg 0)\<lparr>rg_parent := Finished\<rparr>"
  by (subst ring_step_simps) (auto simp: ring_ops)

lemma stopped: "\<not> ring_step procs ((idle v msg 0)\<lparr>rg_parent := Finished\<rparr>) t"
  by (subst ring_step_simps) (auto simp: ring_ops)

lemma daemon_has_token:
  assumes "0 < i" "i < procs"
  shows "ring_step procs (under_way v msg n (2 * i)) t \<longleftrightarrow> t = under_way v msg n (2 * i + 1)"
proof -
  have o: "2 * i \<noteq> Suc (2 * j)" for j by presburger
  show ?thesis using assms by (subst ring_step_simps) (auto simp: ring_ops o fun_eq_iff)
qed

lemma under_way_fields [simp]:
  "rg_pipes (under_way v msg n (Suc (2 * j))) i = (if i = j then [msg] else [])" "rg_daemon (under_way v msg n (Suc (2 * j))) i = None"
  "rg_parent (under_way v msg n k) = At_Read"
proof -
  have o: "Suc (2 * j) \<noteq> 2 * i" by presburger
  show "rg_daemon (under_way v msg n (Suc (2 * j))) i = None" using o by (simp add: under_way_def)
qed (auto simp: under_way_def)

text \<open>While a pipe has the token, the only step is the read at its other end.\<close>

lemma pipe_step:
  "ring_step procs (under_way v msg n (2 * j + 1)) t \<longleftrightarrow>
    (if procs - 1 = j then t = visit 0 ((take_pipe j (under_way v msg n (2 * j + 1)))\<lparr>rg_msg := msg, rg_parent := At_Write\<rparr>) else False) \<or>
    (Suc j < procs \<and> t = visit (Suc j) ((take_pipe j (under_way v msg n (2 * j + 1)))
      \<lparr>rg_daemon := (rg_daemon (under_way v msg n (2 * j + 1)))(Suc j := Some msg)\<rparr>))" (is "ring_step procs ?s t \<longleftrightarrow> ?r")
proof
  assume "ring_step procs ?s t"
  then show ?r
  proof cases
    case (daemon_read i m ms)
    then have "i - 1 = j" "m = msg" by (auto split: if_splits)
    then show ?thesis using daemon_read by auto
  qed (simp_all split: if_splits)
next
  assume ?r
  then show "ring_step procs ?s t"
    using ring_step.parent_read [of ?s procs msg "[]"] ring_step.daemon_read [of "Suc j" procs ?s msg "[]"] by (auto split: if_splits)
qed

lemma pipe_has_token:
  assumes "Suc j < procs"
  shows "ring_step procs (under_way v msg n (2 * j + 1)) t \<longleftrightarrow> t = under_way v msg n (2 * j + 2)"
proof -
  have "visit (Suc j) ((take_pipe j (under_way v msg n (2 * j + 1)))
      \<lparr>rg_daemon := (rg_daemon (under_way v msg n (2 * j + 1)))(Suc j := Some msg)\<rparr>) = under_way v msg n (2 * j + 2)" (is "?t = ?u")
  proof (rule token_ring.equality)
    have o: "Suc (2 * j) \<noteq> 2 * i" "2 * j \<noteq> Suc (2 * i)" for i by presburger+
    show "rg_pipes ?t = rg_pipes ?u" "rg_daemon ?t = rg_daemon ?u" "rg_visits ?t = rg_visits ?u" by (auto simp: ring_ops fun_eq_iff o)
  qed (simp_all add: ring_ops)
  then show ?thesis using assms unfolding pipe_step by auto
qed

lemma last_pipe_has_token: "ring_step (Suc j) (under_way v msg n (2 * j + 1)) t \<longleftrightarrow> t = idle (visited_all (Suc j) v) msg n"
proof -
  have "visit 0 ((take_pipe j (under_way v msg n (2 * j + 1)))\<lparr>rg_msg := msg, rg_parent := At_Write\<rparr>) =
      idle (visited_all (Suc j) v) msg n" (is "?t = ?u")
  proof (rule token_ring.equality)
    have o: "Suc (2 * j) \<noteq> 2 * i" for i by presburger
    show "rg_pipes ?t = rg_pipes ?u" "rg_daemon ?t = rg_daemon ?u" "rg_visits ?t = rg_visits ?u"
      by (auto simp: ring_ops fun_eq_iff o visited_all_def)
  qed (simp_all add: ring_ops)
  then show ?thesis unfolding pipe_step by simp
qed

lemma relpowp_det:
  assumes "\<And>t. R s t \<longleftrightarrow> t = s'"
  shows "(R ^^ Suc k) s t \<longleftrightarrow> (R ^^ k) s' t"
  using assms by (metis relpowp_Suc_D2 relpowp_Suc_I2)

lemma token_travels:
  assumes "k \<le> 2 * j" "j < procs"
  shows "(ring_step procs ^^ k) (under_way v msg n 1) t \<longleftrightarrow> t = under_way v msg n (k + 1)"
  using assms(1)
proof (induction k arbitrary: t)
  case 0
  show ?case by auto
next
  case (Suc k)
  have "ring_step procs (under_way v msg n (k + 1)) t \<longleftrightarrow> t = under_way v msg n (Suc k + 1)" for t
  proof (cases "even k")
    case True
    then obtain i where "k = 2 * i" by blast
    then show ?thesis using pipe_has_token [of i procs v msg n t] Suc.prems assms(2) by simp
  next
    case False
    then obtain i where "k = 2 * i + 1" by (auto elim: oddE)
    then show ?thesis using daemon_has_token [of "Suc i" procs v msg n t] Suc.prems assms(2) by simp
  qed
  then show ?case using Suc by (auto simp: OO_def)
qed

lemma ring_round:
  "(ring_step (Suc j) ^^ (2 * Suc j)) (idle v msg (Suc n)) t \<longleftrightarrow> t = idle (visited_all (Suc j) v) msg n"
proof -
  have "(ring_step (Suc j) ^^ Suc (2 * j)) (under_way v msg n 1) t \<longleftrightarrow> t = idle (visited_all (Suc j) v) msg n"
    using token_travels [of "2 * j" j "Suc j" v msg n] last_pipe_has_token [of j v msg n] by (auto simp: OO_def)
  moreover have "2 * Suc j = Suc (Suc (2 * j))" by simp
  ultimately show ?thesis using relpowp_det [where R = "ring_step (Suc j)", OF idle_step] by metis
qed



section \<open>The set-up\<close>

text \<open>A daemon closes every descriptor of the ring except the read end of the pipe before it and the write end of its own.\<close>

lemma child_keeps_ends:
  assumes "distinct (map fst fds @ map snd fds)" "0 < i" "i < length fds"
  shows "Close (Some fd) \<in> set (child_closes (map Some fds) (length fds) i) \<longleftrightarrow>
    fd \<in> set (map fst fds @ map snd fds) - {fst (fds ! (i - 1)), snd (fds ! i)}"
proof -
  have "Close (Some fd) \<in> set (child_closes (map Some fds) (length fds) i) \<longleftrightarrow>
      (\<exists>j < length fds. j + 1 \<noteq> i \<and> fd = fst (fds ! j)) \<or> (\<exists>j < length fds. j \<noteq> i \<and> fd = snd (fds ! j))"
    by (auto simp: child_closes_def split: if_splits)
  moreover have "(\<exists>j < length fds. j + 1 \<noteq> i \<and> fd = fst (fds ! j)) \<longleftrightarrow> fd \<in> set (map fst fds) \<and> fd \<noteq> fst (fds ! (i - 1))"
  proof -
    have "fst (fds ! j) = fst (fds ! (i - 1)) \<longleftrightarrow> j + 1 = i" if "j < length fds" for j
      using that assms nth_eq_iff_index_eq [of "map fst fds" j "i - 1"] by auto
    then show ?thesis unfolding in_set_conv_nth length_map by (metis nth_map)
  qed
  moreover have "(\<exists>j < length fds. j \<noteq> i \<and> fd = snd (fds ! j)) \<longleftrightarrow> fd \<in> set (map snd fds) \<and> fd \<noteq> snd (fds ! i)"
  proof -
    have "snd (fds ! j) = snd (fds ! i) \<longleftrightarrow> j = i" if "j < length fds" for j
      using that assms nth_eq_iff_index_eq [of "map snd fds" j i] by auto
    then show ?thesis unfolding in_set_conv_nth length_map by (metis nth_map)
  qed
  moreover have "fst (fds ! (i - 1)) \<in> set (map fst fds)" "snd (fds ! i) \<in> set (map snd fds)" using assms(2,3) by auto
  moreover have "set (map fst fds) \<inter> set (map snd fds) = {}" using assms(1) by simp
  ultimately show ?thesis unfolding set_append by blast
qed

text \<open>When a \<open>fork\<close> fails, the processes that were created are killed and waited for, each once and in their order.\<close>

lemma fork_from_prefix:
  assumes "\<And>k. k < m \<Longrightarrow> 0 < ce_fork E (i + k)" "m < n" "ce_fork E (i + m) = - 1" "i + n \<le> length pids"
  shows "fork_from E i n pids = (take i pids @ map (\<lambda>k. ce_fork E (i + k)) [0..<Suc m] @ drop (i + Suc m) pids, Some (i + m))"
  using assms
proof (induction m arbitrary: i n pids)
  case 0
  then obtain n' where "n = Suc n'" by (cases n) auto
  with 0 show ?case by (simp add: Let_def upd_conv_take_nth_drop)
next
  case (Suc m)
  then obtain n' where n: "n = Suc n'" by (cases n) auto
  let ?pids = "pids[i := ce_fork E i]"
  have "fork_from E (Suc i) n' ?pids = (take (Suc i) ?pids @ map (\<lambda>k. ce_fork E (Suc i + k)) [0..<Suc m] @ drop (Suc i + Suc m) ?pids, Some (Suc i + m))"
    by (rule Suc.IH) (use Suc.prems n in \<open>auto simp: Suc.prems(1) [of "Suc _", simplified]\<close>)
  moreover have "0 < ce_fork E i" using Suc.prems(1) [of 0] by simp
  moreover have "take (Suc i) ?pids = take i pids @ [ce_fork E i]" using Suc.prems(2,4) n by (simp add: take_Suc_conv_app_nth)
  moreover have "map (\<lambda>k. ce_fork E (i + k)) [0..<Suc (Suc m)] = ce_fork E i # map (\<lambda>k. ce_fork E (Suc i + k)) [0..<Suc m]"
    by (simp add: upt_conv_Cons map_Suc_upt [symmetric] comp_def del: upt_Suc)
  ultimately show ?case using n by (simp add: Let_def)
qed

definition kills :: "ctx_call list \<Rightarrow> int list" where
  "kills cs = concat (map (\<lambda>c. case c of Kill_Child p \<Rightarrow> [p] | _ \<Rightarrow> []) cs)"

definition waits :: "ctx_call list \<Rightarrow> int list" where
  "waits cs = concat (map (\<lambda>c. case c of Wait_Child p \<Rightarrow> [p] | _ \<Rightarrow> []) cs)"

lemma kills_simps [simp]:
  "kills [] = []" "kills (c # cs) = (case c of Kill_Child p \<Rightarrow> [p] | _ \<Rightarrow> []) @ kills cs" "kills (as @ bs) = kills as @ kills bs"
  "waits [] = []" "waits (c # cs) = (case c of Wait_Child p \<Rightarrow> [p] | _ \<Rightarrow> []) @ waits cs" "waits (as @ bs) = waits as @ waits bs"
  by (simp_all add: kills_def waits_def)

lemma kill_list:
  "kills (concat (map (\<lambda>pid. if 0 < pid then [Kill_Child pid, Wait_Child pid] else []) pids)) = filter ((<) 0) pids"
  "waits (concat (map (\<lambda>pid. if 0 < pid then [Kill_Child pid, Wait_Child pid] else []) pids)) = filter ((<) 0) pids"
  by (induction pids) simp_all

lemma close_list:
  "kills (concat (map (\<lambda>fds. [Close (map_option fst fds), Close (map_option snd fds)]) ps)) = []"
  "waits (concat (map (\<lambda>fds. [Close (map_option fst fds), Close (map_option snd fds)]) ps)) = []"
  by (induction ps) simp_all

lemma pipes_from_all: "(\<And>k. ce_pipe E k \<noteq> None) \<Longrightarrow> length (pipes_from E i n) = n"
  by (induction n arbitrary: i) (auto split: option.splits)

lemma failed_fork_kills:
  assumes "ce_malloc_p E" "ce_malloc_data E" "ce_malloc_pids E" "\<And>k. ce_pipe E k \<noteq> None"
    "\<And>k. 0 < k \<Longrightarrow> k < i \<Longrightarrow> 0 < ce_fork E k" "ce_fork E i = - 1" "0 < i" "i < cx_procs st"
  shows "\<exists>acts. ctx_initialize E 0 st = (acts, Inl (Exit 1)) \<and> kills acts = map (ce_fork E) [1..<i] \<and> waits acts = map (ce_fork E) [1..<i]"
proof -
  obtain procs where p: "cx_procs st = Suc procs" using assms(8) by (cases "cx_procs st") auto
  obtain m where m: "i = Suc m" using assms(7) by (cases i) auto
  define pids where "pids = [0] @ map (ce_fork E) [1..<Suc i] @ replicate (procs - i) 0"
  have "fork_from E 1 procs (replicate (Suc procs) 0) = (pids, Some i)"
  proof -
    have "fork_from E 1 procs (replicate (Suc procs) 0) =
        (take 1 (replicate (Suc procs) 0) @ map (\<lambda>k. ce_fork E (1 + k)) [0..<Suc m] @ drop (1 + Suc m) (replicate (Suc procs) 0), Some (1 + m))"
      by (rule fork_from_prefix) (use assms(5,6,8) p m in simp_all)
    moreover have "map (\<lambda>k. ce_fork E (1 + k)) [0..<Suc m] = map (ce_fork E) [1..<Suc i]"
      by (rule nth_equalityI) (simp_all add: m del: upt_Suc)
    ultimately show ?thesis by (simp add: pids_def m)
  qed
  then have d: "create_daemons E (Suc procs) (replicate (Suc procs) 0) = ([Place 0 procs], pids, i)" by (simp add: create_daemons_def)
  have c: "snd (create_pipes E (Suc procs)) = Suc procs" using pipes_from_all [OF assms(4)] by (simp add: create_pipes_def Let_def del: pipes_from.simps)
  obtain st1 where o: "initialize_overhead E 0 st = ([], Inr st1)" "cx_procs st1 = Suc procs"
    using c assms(1,2) p by (cases "create_pipes E (Suc procs)") (simp add: initialize_overhead_def Let_def)
  have f: "filter ((<) 0) (drop 1 (take (Suc procs) pids)) = map (ce_fork E) [1..<i]"
  proof -
    have "drop 1 (take (Suc procs) pids) = map (ce_fork E) [1..<i] @ [- 1] @ replicate (procs - i) 0"
      using assms(6,7,8) p by (simp add: pids_def)
    moreover have "filter ((<) 0) (map (ce_fork E) [1..<i]) = map (ce_fork E) [1..<i]" using assms(5) by (intro filter_True) auto
    ultimately show ?thesis by simp
  qed
  show ?thesis
    using o d assms(3,8) p f
    by (auto simp: ctx_initialize_def ctx_cleanup_def cleanup_overhead_def kill_children_def kill_list close_list Let_def split: option.splits)
qed

text \<open>When a \<open>pipe\<close> cannot be created, the clean-up closes descriptors that were never set.\<close>

lemma failed_pipe_closes_garbage:
  assumes "ce_malloc_p E" "ce_malloc_data E" "ce_pipe E 0 = None" "0 < cx_procs st"
  shows "\<exists>acts. initialize_overhead E 0 st = (acts, Inl (Exit 1)) \<and> Close None \<in> set acts"
proof -
  obtain n where n: "cx_procs st = Suc n" using assms(4) by (cases "cx_procs st") auto
  then show ?thesis using assms by (auto simp: initialize_overhead_def create_pipes_def cleanup_overhead_def Let_def)
qed

end
